(* ===== verification/GT_Prelude.thy ===== *)
theory GT_Prelude
  imports Main "HOL-Library.Monad_Syntax" "HOL-Library.Multiset"
begin

text \<open>
  Shared vocabulary of the development: the collections of rewrite rules the component
  theories fill, the type of C pointers, and the generic facts on lists, options and
  arrays that several components use.
\<close>

named_theorems heap_ops \<open>definitions of the load and store primitives of the heap models\<close>
named_theorems inv_defs \<open>definitions of the component invariants\<close>

type_synonym ptr = "nat option"

subsection \<open>Options\<close>

lemma bind_eq_SomeE:
  assumes "Option.bind m f = Some y"
  obtains x where "m = Some x" and "f x = Some y"
  using assms by (cases m) auto

end
