(* ===== verification/RB_Heap.thy ===== *)
theory RB_Heap
  imports GT_Prelude
begin

text \<open>
  The red-black trees of \<^verbatim>\<open>src/RD-Black-tree-1.c\<close> and \<^verbatim>\<open>src/R-Blacktree-file-2.c\<close>, as
  programs over an explicit heap of nodes with left, right and parent pointers.

  Both files hold the same functions; the second also counts rotations. The state of the
  first is the record \<open>rbstate\<close>, that of the second its extension \<open>rbcstate\<close>, and the
  operations of the first are written over the record scheme, so that they apply to both.

  A pointer is \<open>None\<close> for \<open>NULL\<close> or \<open>Some\<close> of an address. Every access through a pointer
  goes through \<open>rb_ld\<close> or \<open>rb_st\<close>, which are undefined (\<open>None\<close>) on \<open>NULL\<close> and on addresses
  that are not allocated; \<open>None\<close> as the result of an operation therefore means that the
  code dereferences a bad pointer or does not return. \<open>rb_mem\<close> is the number of nodes
  \<open>malloc\<close> can still provide; the code does not check the result of \<open>malloc\<close>, so an
  allocation beyond it is a \<open>NULL\<close> dereference.
\<close>

section \<open>Data\<close>

datatype color = RED | BLACK

record rbnode =
  rb_data :: int
  rb_color :: color
  rb_left :: ptr
  rb_right :: ptr
  rb_parent :: ptr

record rbstate =
  rb_cells :: "nat \<rightharpoonup> rbnode"
  rb_root :: ptr
  rb_next :: nat
  rb_mem :: nat

record rbcstate = rbstate +
  rotationcount :: int

definition rb_ld :: "'a rbstate_scheme \<Rightarrow> ptr \<Rightarrow> rbnode option" where
  "rb_ld st p = Option.bind p (rb_cells st)"

definition rb_st :: "'a rbstate_scheme \<Rightarrow> ptr \<Rightarrow> (rbnode \<Rightarrow> rbnode) \<Rightarrow> 'a rbstate_scheme option" where
  "rb_st st p f = do {
     a \<leftarrow> p;
     n \<leftarrow> rb_cells st a;
     Some (st\<lparr>rb_cells := (rb_cells st)(a \<mapsto> f n)\<rparr>) }"

declare rb_ld_def [heap_ops] rb_st_def [heap_ops]

section \<open>Operations\<close>

definition createnode :: "'a rbstate_scheme \<Rightarrow> int \<Rightarrow> ('a rbstate_scheme \<times> ptr) option" where
  "createnode st d =
     (if rb_mem st = 0 then None
      else Some (st\<lparr>rb_cells := (rb_cells st)(rb_next st \<mapsto>
                     \<lparr>rb_data = d, rb_color = RED, rb_left = None, rb_right = None, rb_parent = None\<rparr>),
                   rb_next := Suc (rb_next st), rb_mem := rb_mem st - 1\<rparr>,
                 Some (rb_next st)))"

definition rotateleft :: "'a rbstate_scheme \<Rightarrow> ptr \<Rightarrow> 'a rbstate_scheme option" where
  "rotateleft st x = do {
     xn \<leftarrow> rb_ld st x;
     let y = rb_right xn;
     yn \<leftarrow> rb_ld st y;
     st \<leftarrow> rb_st st x (\<lambda>n. n\<lparr>rb_right := rb_left yn\<rparr>);
     yn \<leftarrow> rb_ld st y;
     st \<leftarrow> (if rb_left yn \<noteq> None then rb_st st (rb_left yn) (\<lambda>n. n\<lparr>rb_parent := x\<rparr>) else Some st);
     xn \<leftarrow> rb_ld st x;
     st \<leftarrow> rb_st st y (\<lambda>n. n\<lparr>rb_parent := rb_parent xn\<rparr>);
     xn \<leftarrow> rb_ld st x;
     st \<leftarrow> (if rb_parent xn = None then Some (st\<lparr>rb_root := y\<rparr>)
           else do {
             pn \<leftarrow> rb_ld st (rb_parent xn);
             if x = rb_left pn then rb_st st (rb_parent xn) (\<lambda>n. n\<lparr>rb_left := y\<rparr>)
             else rb_st st (rb_parent xn) (\<lambda>n. n\<lparr>rb_right := y\<rparr>) });
     st \<leftarrow> rb_st st y (\<lambda>n. n\<lparr>rb_left := x\<rparr>);
     rb_st st x (\<lambda>n. n\<lparr>rb_parent := y\<rparr>) }"

definition rotateright :: "'a rbstate_scheme \<Rightarrow> ptr \<Rightarrow> 'a rbstate_scheme option" where
  "rotateright st y = do {
     yn \<leftarrow> rb_ld st y;
     let x = rb_left yn;
     xn \<leftarrow> rb_ld st x;
     st \<leftarrow> rb_st st y (\<lambda>n. n\<lparr>rb_left := rb_right xn\<rparr>);
     xn \<leftarrow> rb_ld st x;
     st \<leftarrow> (if rb_right xn \<noteq> None then rb_st st (rb_right xn) (\<lambda>n. n\<lparr>rb_parent := y\<rparr>) else Some st);
     yn \<leftarrow> rb_ld st y;
     st \<leftarrow> rb_st st x (\<lambda>n. n\<lparr>rb_parent := rb_parent yn\<rparr>);
     yn \<leftarrow> rb_ld st y;
     st \<leftarrow> (if rb_parent yn = None then Some (st\<lparr>rb_root := x\<rparr>)
           else do {
             pn \<leftarrow> rb_ld st (rb_parent yn);
             if y = rb_left pn then rb_st st (rb_parent yn) (\<lambda>n. n\<lparr>rb_left := x\<rparr>)
             else rb_st st (rb_parent yn) (\<lambda>n. n\<lparr>rb_right := x\<rparr>) });
     st \<leftarrow> rb_st st x (\<lambda>n. n\<lparr>rb_right := y\<rparr>);
     rb_st st y (\<lambda>n. n\<lparr>rb_parent := x\<rparr>) }"

text \<open>The rotations of \<^verbatim>\<open>R-Blacktree-file-2.c\<close> end with \<^verbatim>\<open>rotationcount++\<close>.\<close>

definition rotateleft2 :: "rbcstate \<Rightarrow> ptr \<Rightarrow> rbcstate option" where
  "rotateleft2 st x = do {
     st \<leftarrow> rotateleft st x;
     Some (st\<lparr>rotationcount := rotationcount st + 1\<rparr>) }"

definition rotateright2 :: "rbcstate \<Rightarrow> ptr \<Rightarrow> rbcstate option" where
  "rotateright2 st y = do {
     st \<leftarrow> rotateright st y;
     Some (st\<lparr>rotationcount := rotationcount st + 1\<rparr>) }"

text \<open>
  \<open>fixinsertion\<close>, over the rotations of either file. \<open>fix_body\<close> is one run of the loop's
  body: it returns the state and the new value of the variable \<open>newnode\<close>. The variables
  \<open>parentnode\<close> and \<open>grandparnt\<close> are read once, before the rotation of the inner case, and
  keep their values after it, as in the source.
\<close>

type_synonym 'a rotation = "'a rbstate_scheme \<Rightarrow> ptr \<Rightarrow> 'a rbstate_scheme option"

definition uncle_red :: "'a rbstate_scheme \<Rightarrow> ptr \<Rightarrow> bool option" where
  "uncle_red st u = (if u = None then Some False
                     else do { un \<leftarrow> rb_ld st u; Some (rb_color un = RED) })"

definition set_color :: "color \<Rightarrow> rbnode \<Rightarrow> rbnode" where
  "set_color c n = n\<lparr>rb_color := c\<rparr>"

definition fix_body :: "'a rotation \<Rightarrow> 'a rotation \<Rightarrow> 'a rbstate_scheme \<Rightarrow> ptr \<Rightarrow>
    ('a rbstate_scheme \<times> ptr) option" where
  "fix_body rotl rotr st newnode = do {
     nn \<leftarrow> rb_ld st newnode;
     let parentnode = rb_parent nn;
     pn \<leftarrow> rb_ld st parentnode;
     let grandparnt = rb_parent pn;
     gn \<leftarrow> rb_ld st grandparnt;
     if parentnode = rb_left gn then do {
       let unclenode = rb_right gn;
       ured \<leftarrow> uncle_red st unclenode;
       if ured then do {
         st \<leftarrow> rb_st st grandparnt (set_color RED);
         st \<leftarrow> rb_st st parentnode (set_color BLACK);
         st \<leftarrow> rb_st st unclenode (set_color BLACK);
         Some (st, grandparnt) }
       else do {
         (st, newnode) \<leftarrow> (if newnode = rb_right pn
            then do { st \<leftarrow> rotl st parentnode; Some (st, parentnode) }
            else Some (st, newnode));
         st \<leftarrow> rb_st st parentnode (set_color BLACK);
         st \<leftarrow> rb_st st grandparnt (set_color RED);
         st \<leftarrow> rotr st grandparnt;
         Some (st, newnode) } }
     else do {
       let unclenode = rb_left gn;
       ured \<leftarrow> uncle_red st unclenode;
       if ured then do {
         st \<leftarrow> rb_st st grandparnt (set_color RED);
         st \<leftarrow> rb_st st parentnode (set_color BLACK);
         st \<leftarrow> rb_st st unclenode (set_color BLACK);
         Some (st, grandparnt) }
       else do {
         (st, newnode) \<leftarrow> (if newnode = rb_left pn
            then do { st \<leftarrow> rotr st parentnode; Some (st, parentnode) }
            else Some (st, newnode));
         st \<leftarrow> rb_st st parentnode (set_color BLACK);
         st \<leftarrow> rb_st st grandparnt (set_color RED);
         st \<leftarrow> rotl st grandparnt;
         Some (st, newnode) } } }"

partial_function (option) fix_loop :: "'a rotation \<Rightarrow> 'a rotation \<Rightarrow> 'a rbstate_scheme \<Rightarrow> ptr \<Rightarrow>
    'a rbstate_scheme option" where
  "fix_loop rotl rotr st newnode =
     (if newnode = rb_root st then Some st
      else do {
        nn \<leftarrow> rb_ld st newnode;
        if rb_color nn \<noteq> RED then Some st
        else do {
          pn \<leftarrow> rb_ld st (rb_parent nn);
          if rb_color pn \<noteq> RED then Some st
          else do {
            r \<leftarrow> fix_body rotl rotr st newnode;
            fix_loop rotl rotr (fst r) (snd r) } } })"

definition fixinsertion_with :: "'a rotation \<Rightarrow> 'a rotation \<Rightarrow> 'a rbstate_scheme \<Rightarrow> ptr \<Rightarrow>
    'a rbstate_scheme option" where
  "fixinsertion_with rotl rotr st newnode = do {
     st \<leftarrow> fix_loop rotl rotr st newnode;
     rb_st st (rb_root st) (set_color BLACK) }"

definition fixinsertion :: "rbstate \<Rightarrow> ptr \<Rightarrow> rbstate option" where
  "fixinsertion = fixinsertion_with rotateleft rotateright"

definition fixinsertion2 :: "rbcstate \<Rightarrow> ptr \<Rightarrow> rbcstate option" where
  "fixinsertion2 = fixinsertion_with rotateleft2 rotateright2"

text \<open>
  \<open>insertion\<close>: the search loop (its result is the last node visited), the link to the
  parent, and the repair. The search compares with \<open>data < current->data\<close>, so equal
  keys go right.
\<close>

partial_function (option) ins_search :: "'a rbstate_scheme \<Rightarrow> int \<Rightarrow> ptr \<Rightarrow> ptr \<Rightarrow> ptr option" where
  "ins_search st d current parentnode =
     (if current = None then Some parentnode
      else do {
        cn \<leftarrow> rb_ld st current;
        if d < rb_data cn then ins_search st d (rb_left cn) current
        else ins_search st d (rb_right cn) current })"

definition insertion_with :: "('a rbstate_scheme \<Rightarrow> ptr \<Rightarrow> 'a rbstate_scheme option) \<Rightarrow>
    'a rbstate_scheme \<Rightarrow> int \<Rightarrow> 'a rbstate_scheme option" where
  "insertion_with fixins st d = do {
     (st, newnode) \<leftarrow> createnode st d;
     parentnode \<leftarrow> ins_search st d (rb_root st) None;
     st \<leftarrow> rb_st st newnode (\<lambda>n. n\<lparr>rb_parent := parentnode\<rparr>);
     st \<leftarrow> (if parentnode = None then Some (st\<lparr>rb_root := newnode\<rparr>)
           else do {
             pn \<leftarrow> rb_ld st parentnode;
             if d < rb_data pn then rb_st st parentnode (\<lambda>n. n\<lparr>rb_left := newnode\<rparr>)
             else rb_st st parentnode (\<lambda>n. n\<lparr>rb_right := newnode\<rparr>) });
     fixins st newnode }"

definition insertion :: "rbstate \<Rightarrow> int \<Rightarrow> rbstate option" where
  "insertion = insertion_with fixinsertion"

definition insertion2 :: "rbcstate \<Rightarrow> int \<Rightarrow> rbcstate option" where
  "insertion2 = insertion_with fixinsertion2"

text \<open>The traversals, as the sequence of the lines they print.\<close>

partial_function (option) inorder :: "'a rbstate_scheme \<Rightarrow> ptr \<Rightarrow> (int \<times> color) list option" where
  "inorder st p =
     (if p = None then Some []
      else do {
        n \<leftarrow> rb_ld st p;
        ls \<leftarrow> inorder st (rb_left n);
        rs \<leftarrow> inorder st (rb_right n);
        Some (ls @ (rb_data n, rb_color n) # rs) })"

partial_function (option) printtree :: "'a rbstate_scheme \<Rightarrow> ptr \<Rightarrow> nat \<Rightarrow>
    (nat \<times> int \<times> color) list option" where
  "printtree st p level =
     (if p = None then Some []
      else do {
        n \<leftarrow> rb_ld st p;
        rs \<leftarrow> printtree st (rb_right n) (level + 1);
        ls \<leftarrow> printtree st (rb_left n) (level + 1);
        Some (rs @ (level, rb_data n, rb_color n) # ls) })"

definition printtree2 :: "rbcstate \<Rightarrow> ptr \<Rightarrow> nat \<Rightarrow> (nat \<times> int \<times> color) list option" where
  "printtree2 st p level = printtree st p level"

section \<open>The two programs\<close>

declare fix_loop.simps [code] ins_search.simps [code] inorder.simps [code] printtree.simps [code]

definition init_rb :: "nat \<Rightarrow> rbstate" where
  "init_rb mem = \<lparr>rb_cells = Map.empty, rb_root = None, rb_next = 0, rb_mem = mem\<rparr>"

definition init_rb2 :: "nat \<Rightarrow> rbcstate" where
  "init_rb2 mem = \<lparr>rb_cells = Map.empty, rb_root = None, rb_next = 0, rb_mem = mem, rotationcount = 0\<rparr>"

text \<open>\<open>main\<close> of \<^verbatim>\<open>RD-Black-tree-1.c\<close>: insert each value and print the tree after it.\<close>

fun rb1_run :: "rbstate \<Rightarrow> int list \<Rightarrow> (rbstate \<times> (nat \<times> int \<times> color) list list) option" where
  "rb1_run st [] = Some (st, [])"
| "rb1_run st (v # vs) = do {
     st \<leftarrow> insertion st v;
     out \<leftarrow> printtree st (rb_root st) 0;
     (st, outs) \<leftarrow> rb1_run st vs;
     Some (st, out # outs) }"

definition rb1_values :: "int list" where
  "rb1_values = [10, 20, 30, 15, 25, 5, 1]"

definition rb1_main :: "nat \<Rightarrow> (rbstate \<times> (nat \<times> int \<times> color) list list) option" where
  "rb1_main mem = rb1_run (init_rb mem) rb1_values"

text \<open>
  \<open>main\<close> of \<^verbatim>\<open>R-Blacktree-file-2.c\<close>: \<open>file\<close> is \<open>None\<close> when \<^verbatim>\<open>data.txt\<close> cannot be opened and
  else the integers \<open>fscanf\<close> reads from it before it stops. The result is the exit code
  with what is printed: the inorder line, the number of rotations and the tree.
\<close>

fun rb2_fill :: "rbcstate \<Rightarrow> int list \<Rightarrow> rbcstate option" where
  "rb2_fill st [] = Some st"
| "rb2_fill st (v # vs) = do { st \<leftarrow> insertion2 st v; rb2_fill st vs }"

definition rb2_main :: "nat \<Rightarrow> int list option \<Rightarrow>
    (int \<times> ((int \<times> color) list \<times> int \<times> (nat \<times> int \<times> color) list) option) option" where
  "rb2_main mem file =
     (case file of
        None \<Rightarrow> Some (1, None)
      | Some nums \<Rightarrow> do {
          st \<leftarrow> rb2_fill (init_rb2 mem) nums;
          ino \<leftarrow> inorder st (rb_root st);
          tree \<leftarrow> printtree2 st (rb_root st) 0;
          Some (0, Some (ino, rotationcount st, tree)) })"

end
