(* ===== verification/RB_Zipper.thy ===== *)
theory RB_Zipper
  imports RB_Heap
begin

text \<open>
  The abstract counterpart of the red-black heap programs: trees whose nodes carry their
  address, a path from a node to the root (a list of frames, innermost first), and
  insertion written over the two. The last part holds what insertion does to the
  sequence of keys and to the red-black invariants.
\<close>

section \<open>Trees, frames and paths\<close>

datatype ptree = PLeaf | PNode ptree nat color int ptree

datatype side = LeftSide | RightSide

datatype frame = Frame (fside: side) (faddr: nat) (fcolor: color) (fkey: int) (fsib: ptree)

fun paddrs :: "ptree \<Rightarrow> nat list" where
  "paddrs PLeaf = []"
| "paddrs (PNode l a c d r) = paddrs l @ a # paddrs r"

fun faddrs :: "frame list \<Rightarrow> nat list" where
  "faddrs [] = []"
| "faddrs (Frame s a c d t # fs) = a # paddrs t @ faddrs fs"

fun pinorder :: "ptree \<Rightarrow> int list" where
  "pinorder PLeaf = []"
| "pinorder (PNode l a c d r) = pinorder l @ d # pinorder r"

fun tcolor :: "ptree \<Rightarrow> color" where
  "tcolor PLeaf = BLACK"
| "tcolor (PNode l a c d r) = c"

fun ppaint :: "color \<Rightarrow> ptree \<Rightarrow> ptree" where
  "ppaint c PLeaf = PLeaf"
| "ppaint c (PNode l a _ d r) = PNode l a c d r"

fun paint_at :: "nat \<Rightarrow> color \<Rightarrow> ptree \<Rightarrow> ptree" where
  "paint_at x k PLeaf = PLeaf"
| "paint_at x k (PNode l a c d r) =
     PNode (paint_at x k l) a (if a = x then k else c) d (paint_at x k r)"

fun fplug :: "frame \<Rightarrow> ptree \<Rightarrow> ptree" where
  "fplug (Frame LeftSide a c d t) u = PNode u a c d t"
| "fplug (Frame RightSide a c d t) u = PNode t a c d u"

fun plug :: "frame list \<Rightarrow> ptree \<Rightarrow> ptree" where
  "plug [] t = t"
| "plug (f # fs) t = plug fs (fplug f t)"

definition ctx_ptr :: "frame list \<Rightarrow> ptr" where
  "ctx_ptr fs = (case fs of [] \<Rightarrow> None | f # _ \<Rightarrow> Some (faddr f))"

definition root_black :: "frame list \<Rightarrow> bool" where
  "root_black fs \<longleftrightarrow> fs = [] \<or> fcolor (last fs) = BLACK"

lemma ctx_ptr_simps [simp]: "ctx_ptr [] = None" "ctx_ptr (f # fs) = Some (faddr f)"
  by (simp_all add: ctx_ptr_def)

lemma paint_at_id [simp]: "x \<notin> set (paddrs t) \<Longrightarrow> paint_at x k t = t"
  by (induction t) auto

lemma paddrs_paint_at [simp]: "paddrs (paint_at x k t) = paddrs t"
  by (induction t) auto

lemma paddrs_ppaint [simp]: "paddrs (ppaint c t) = paddrs t"
  by (cases t) auto

lemma pinorder_ppaint [simp]: "pinorder (ppaint c t) = pinorder t"
  by (cases t) auto

lemma tcolor_ppaint: "tcolor (ppaint BLACK t) = BLACK"
  by (cases t) auto

lemma set_paddrs_fplug [simp]: "set (paddrs (fplug f t)) = insert (faddr f) (set (paddrs (fsib f)) \<union> set (paddrs t))"
  by (cases "(f, t)" rule: fplug.cases) auto

lemma set_paddrs_plug [simp]: "set (paddrs (plug fs t)) = set (paddrs t) \<union> set (faddrs fs)"
proof (induction fs arbitrary: t)
  case (Cons f fs)
  then show ?case by (cases f) auto
qed simp

section \<open>Insertion on the path\<close>

text \<open>
  \<open>rot_case g p t\<close> is the subtree after the rotations of the loop's body for the red node
  \<open>t\<close> below the red parent \<open>p\<close> below \<open>g\<close>. In the two inner cases (the parent and the node
  hang on different sides) the node keeps its colour and the old parent is painted
  black: the source paints \<open>parentnode\<close>, which the first rotation has moved below
  \<open>newnode\<close>.
\<close>

fun rot_case :: "frame \<Rightarrow> frame \<Rightarrow> ptree \<Rightarrow> ptree" where
  "rot_case (Frame LeftSide g cg dg u) (Frame LeftSide p cp dp s) t =
     PNode t p BLACK dp (PNode s g RED dg u)"
| "rot_case (Frame RightSide g cg dg u) (Frame RightSide p cp dp s) t =
     PNode (PNode u g RED dg s) p BLACK dp t"
| "rot_case (Frame LeftSide g cg dg u) (Frame RightSide p cp dp s) (PNode a n c d b) =
     PNode (PNode s p BLACK dp a) n c d (PNode b g RED dg u)"
| "rot_case (Frame RightSide g cg dg u) (Frame LeftSide p cp dp s) (PNode a n c d b) =
     PNode (PNode u g RED dg a) n c d (PNode b p BLACK dp s)"
| "rot_case _ _ PLeaf = PLeaf"

fun fpaint :: "color \<Rightarrow> frame \<Rightarrow> frame" where
  "fpaint k (Frame s a c d t) = Frame s a k d t"

fun sib_black :: "frame \<Rightarrow> frame" where
  "sib_black (Frame s a c d t) = Frame s a c d (ppaint BLACK t)"

fun zfix :: "ptree \<Rightarrow> frame list \<Rightarrow> ptree" where
  "zfix t (p # g # fs) =
     (if tcolor t = RED \<and> fcolor p = RED then
        if tcolor (fsib g) = RED
        then zfix (fplug (fpaint RED (sib_black g)) (fplug (fpaint BLACK p) t)) fs
        else plug fs (rot_case g p t)
      else plug (p # g # fs) t)"
| "zfix t fs = plug fs t"

fun zrots :: "ptree \<Rightarrow> frame list \<Rightarrow> nat" where
  "zrots t (p # g # fs) =
     (if tcolor t = RED \<and> fcolor p = RED then
        if tcolor (fsib g) = RED
        then zrots (fplug (fpaint RED (sib_black g)) (fplug (fpaint BLACK p) t)) fs
        else if fside g = fside p then 1 else 2
      else 0)"
| "zrots t fs = 0"

fun zdesc :: "int \<Rightarrow> ptree \<Rightarrow> frame list \<Rightarrow> frame list" where
  "zdesc d PLeaf fs = fs"
| "zdesc d (PNode l a c e r) fs =
     (if d < e then zdesc d l (Frame LeftSide a c e r # fs)
      else zdesc d r (Frame RightSide a c e l # fs))"

definition zinsert :: "nat \<Rightarrow> int \<Rightarrow> ptree \<Rightarrow> ptree" where
  "zinsert a d t = ppaint BLACK (zfix (PNode PLeaf a RED d PLeaf) (zdesc d t []))"

text \<open>\<open>zouter t fs\<close>: the repair of \<open>t\<close> at \<open>fs\<close> never reaches one of the inner cases.\<close>

definition zouter :: "ptree \<Rightarrow> frame list \<Rightarrow> bool" where
  "zouter t fs \<longleftrightarrow> zrots t fs \<le> 1"

lemmas zfix_induct = zfix.induct [case_names two_up top one_up]

section \<open>The sequence of keys\<close>

fun fpre :: "frame list \<Rightarrow> int list" where
  "fpre [] = []"
| "fpre (Frame LeftSide a c d t # fs) = fpre fs"
| "fpre (Frame RightSide a c d t # fs) = fpre fs @ pinorder t @ [d]"

fun fpost :: "frame list \<Rightarrow> int list" where
  "fpost [] = []"
| "fpost (Frame LeftSide a c d t # fs) = d # pinorder t @ fpost fs"
| "fpost (Frame RightSide a c d t # fs) = fpost fs"

lemma pinorder_plug [simp]: "pinorder (plug fs t) = fpre fs @ pinorder t @ fpost fs"
proof (induction fs arbitrary: t)
  case (Cons f fs)
  then show ?case by (cases "(f, t)" rule: fplug.cases) auto
qed simp

lemma pinorder_rot_case:
  "t \<noteq> PLeaf \<Longrightarrow> pinorder (rot_case g p t) = pinorder (fplug g (fplug p t))"
  by (cases "(g, p, t)" rule: rot_case.cases) auto

lemma pinorder_fplug_paint [simp]:
  "pinorder (fplug (fpaint k f) t) = pinorder (fplug f t)"
  "pinorder (fplug (sib_black f) t) = pinorder (fplug f t)"
  by (cases "(f, t)" rule: fplug.cases; simp)+

lemma pinorder_fplug_cong:
  "pinorder t = pinorder u \<Longrightarrow> pinorder (fplug f t) = pinorder (fplug f u)"
  by (cases "(f, t)" rule: fplug.cases) auto

lemma fplug_not_PLeaf [simp]: "fplug f t \<noteq> PLeaf"
  by (cases "(f, t)" rule: fplug.cases) auto

lemma pinorder_zfix: "t \<noteq> PLeaf \<Longrightarrow> pinorder (zfix t fs) = pinorder (plug fs t)"
proof (induction t fs rule: zfix.induct)
  case (1 t p g fs)
  have "pinorder (fplug (fpaint RED (sib_black g)) (fplug (fpaint BLACK p) t)) =
      pinorder (fplug g (fplug p t))"
    by (simp cong: pinorder_fplug_cong)
  with 1 show ?case by (auto simp: pinorder_rot_case)
qed simp_all

lemma zdesc_split:
  "\<exists>xs ys. pinorder t = xs @ ys \<and> fpre (zdesc d t fs) = fpre fs @ xs \<and>
     fpost (zdesc d t fs) = ys @ fpost fs \<and>
     (sorted (pinorder t) \<longrightarrow> (\<forall>x\<in>set xs. x \<le> d) \<and> (\<forall>y\<in>set ys. d < y))"
proof (induction d t fs rule: zdesc.induct)
  case (2 d l a c e r fs)
  show ?case
  proof (cases "d < e")
    case True
    with 2(1) obtain xs ys where "pinorder l = xs @ ys"
      "fpre (zdesc d l (Frame LeftSide a c e r # fs)) = fpre fs @ xs"
      "fpost (zdesc d l (Frame LeftSide a c e r # fs)) = ys @ e # pinorder r @ fpost fs"
      "sorted (pinorder l) \<longrightarrow> (\<forall>x\<in>set xs. x \<le> d) \<and> (\<forall>y\<in>set ys. d < y)"
      by auto
    with True show ?thesis
      by (intro exI [of _ xs] exI [of _ "ys @ e # pinorder r"]) (auto simp: sorted_append)
  next
    case False
    with 2(2) obtain xs ys where "pinorder r = xs @ ys"
      "fpre (zdesc d r (Frame RightSide a c e l # fs)) = fpre fs @ pinorder l @ e # xs"
      "fpost (zdesc d r (Frame RightSide a c e l # fs)) = ys @ fpost fs"
      "sorted (pinorder r) \<longrightarrow> (\<forall>x\<in>set xs. x \<le> d) \<and> (\<forall>y\<in>set ys. d < y)"
      by auto
    with False show ?thesis
      by (intro exI [of _ "pinorder l @ e # xs"] exI [of _ ys]) (auto simp: sorted_append)
  qed
qed simp

lemma insort_split:
  fixes d :: int
  assumes "sorted (xs @ ys)" and "\<forall>x\<in>set xs. x \<le> d" and "\<forall>y\<in>set ys. d < y"
  shows "insort d (xs @ ys) = xs @ d # ys"
proof -
  have "sorted (xs @ d # ys)"
    using assms by (force simp: sorted_append)
  moreover have "sorted (insort d (xs @ ys))"
    using assms(1) by (simp add: sorted_insort)
  moreover have "mset (insort d (xs @ ys)) = mset (xs @ d # ys)"
    by simp
  ultimately show ?thesis
    by (metis properties_for_sort)
qed

text \<open>Insertion keeps the other keys in order, whatever it does to the colours.\<close>

lemma mset_zinsert: "mset (pinorder (zinsert a d t)) = add_mset d (mset (pinorder t))"
proof -
  obtain xs ys where "pinorder t = xs @ ys" "fpre (zdesc d t []) = xs" "fpost (zdesc d t []) = ys"
    using zdesc_split [of t d "[]"] by auto
  then show ?thesis by (simp add: zinsert_def pinorder_zfix)
qed

lemma pinorder_zinsert:
  assumes "sorted (pinorder t)"
  shows "pinorder (zinsert a d t) = insort d (pinorder t)"
proof -
  obtain xs ys where xy: "pinorder t = xs @ ys" "\<forall>x\<in>set xs. x \<le> d" "\<forall>y\<in>set ys. d < y"
    and "fpre (zdesc d t []) = xs" "fpost (zdesc d t []) = ys"
    using zdesc_split [of t d "[]"] assms by auto
  then have "pinorder (zinsert a d t) = xs @ d # ys"
    by (simp add: zinsert_def pinorder_zfix)
  also have "\<dots> = insort d (xs @ ys)"
    using insort_split [of xs ys d] assms xy by simp
  finally show ?thesis using xy by simp
qed

section \<open>The red-black invariants\<close>

fun pbheight :: "ptree \<Rightarrow> nat" where
  "pbheight PLeaf = 0"
| "pbheight (PNode l a c d r) = pbheight l + (if c = BLACK then 1 else 0)"

fun pinvh :: "ptree \<Rightarrow> bool" where
  "pinvh PLeaf = True"
| "pinvh (PNode l a c d r) = (pbheight l = pbheight r \<and> pinvh l \<and> pinvh r)"

fun pinvc :: "ptree \<Rightarrow> bool" where
  "pinvc PLeaf = True"
| "pinvc (PNode l a c d r) =
     ((c = RED \<longrightarrow> tcolor l = BLACK \<and> tcolor r = BLACK) \<and> pinvc l \<and> pinvc r)"

definition rbt :: "ptree \<Rightarrow> bool" where
  "rbt t \<longleftrightarrow> pinvc t \<and> pinvh t \<and> tcolor t = BLACK"

fun cinvh :: "frame list \<Rightarrow> nat \<Rightarrow> bool" where
  "cinvh [] h = True"
| "cinvh (Frame s a c d t # fs) h =
     (pinvh t \<and> pbheight t = h \<and> cinvh fs (h + (if c = BLACK then 1 else 0)))"

fun cinvc :: "frame list \<Rightarrow> color \<Rightarrow> bool" where
  "cinvc [] k = True"
| "cinvc (Frame s a c d t # fs) k =
     ((c = RED \<longrightarrow> k = BLACK \<and> tcolor t = BLACK) \<and> pinvc t \<and> cinvc fs c)"

lemma pbheight_ppaint: "tcolor t = RED \<Longrightarrow> pbheight (ppaint BLACK t) = Suc (pbheight t)"
  by (cases t) auto

lemma pinvh_ppaint [simp]: "pinvh (ppaint c t) = pinvh t"
  by (cases t) auto

lemma pinvc_ppaint: "pinvc t \<Longrightarrow> pinvc (ppaint BLACK t)"
  by (cases t) auto

lemma cinvc_BLACK: "cinvc fs k \<Longrightarrow> cinvc fs BLACK"
  by (cases "(fs, k)" rule: cinvc.cases) auto

lemma pinvh_plug: "pinvh (plug fs t) \<longleftrightarrow> pinvh t \<and> cinvh fs (pbheight t)"
proof (induction fs arbitrary: t)
  case (Cons f fs)
  then show ?case by (cases "(f, t)" rule: fplug.cases; simp; metis)
qed simp

lemma pinvc_plug: "pinvc (plug fs t) \<longleftrightarrow> pinvc t \<and> cinvc fs (tcolor t)"
proof (induction fs arbitrary: t)
  case (Cons f fs)
  then show ?case by (cases "(f, t)" rule: fplug.cases; simp; metis)
qed simp

lemma zdesc_plug: "plug (zdesc d t fs) PLeaf = plug fs t"
  by (induction d t fs rule: zdesc.induct) auto

lemma root_black_zdesc: "root_black fs \<Longrightarrow> (fs = [] \<Longrightarrow> tcolor t = BLACK) \<Longrightarrow> root_black (zdesc d t fs)"
  by (induction d t fs rule: zdesc.induct) (auto simp: root_black_def split: if_splits)

lemma tcolor_neq: "c \<noteq> RED \<longleftrightarrow> c = BLACK"
  by (cases c) auto

text \<open>
  One recolouring round moves the red node two levels up and keeps the invariants of the
  tree outside it; an outer rotation restores them.
\<close>

lemma recolour_inv:
  assumes "pinvc t" "pinvh t" "tcolor t = RED" "cinvh (p # g # fs) (pbheight t)"
    "cinvc (p # g # fs) BLACK" "fcolor p = RED" "tcolor (fsib g) = RED"
  defines "u \<equiv> fplug (fpaint RED (sib_black g)) (fplug (fpaint BLACK p) t)"
  shows "pinvc u" "pinvh u" "tcolor u = RED" "cinvh fs (pbheight u)" "cinvc fs BLACK"
  using assms
  by (cases p; cases g; cases "fside p"; cases "fside g";
      auto simp: pbheight_ppaint pinvc_ppaint tcolor_ppaint tcolor_neq elim: cinvc_BLACK)+

lemma outer_inv:
  assumes "pinvc t" "pinvh t" "tcolor t = RED" "cinvh (p # g # fs) (pbheight t)"
    "cinvc (p # g # fs) BLACK" "fcolor p = RED" "tcolor (fsib g) \<noteq> RED" "fside g = fside p"
  shows "pinvh (plug fs (rot_case g p t))" "pinvc (plug fs (rot_case g p t))"
  using assms
  by (cases p; cases g; cases "fside p"; cases "fside g";
      auto simp: pinvh_plug pinvc_plug tcolor_neq elim: cinvc_BLACK)+

lemma zfix_inv:
  assumes "pinvc t" "pinvh t" "tcolor t = RED" "cinvh fs (pbheight t)" "cinvc fs BLACK"
    "root_black fs" "zouter t fs"
  shows "pinvh (zfix t fs) \<and> pinvc (ppaint BLACK (zfix t fs))"
  using assms
proof (induction t fs rule: zfix_induct)
  case (two_up t p g fs)
  let ?u = "fplug (fpaint RED (sib_black g)) (fplug (fpaint BLACK p) t)"
  show ?case
  proof (cases "fcolor p = RED")
    case False
    then have "cinvc (p # g # fs) (tcolor t)"
      using two_up(6) by (cases p) (auto simp: tcolor_neq)
    then have "pinvh (plug (p # g # fs) t)" "pinvc (plug (p # g # fs) t)"
      using two_up(2,3,5) unfolding pinvh_plug pinvc_plug by blast+
    with False show ?thesis by (simp add: pinvc_ppaint)
  next
    case p: True
    show ?thesis
    proof (cases "tcolor (fsib g) = RED")
      case True
      note r = recolour_inv [OF two_up(2-6) p True]
      have "root_black fs" "zouter ?u fs"
        using two_up(7,8) p True two_up(4) by (auto simp: root_black_def zouter_def split: if_splits)
      with two_up(1) [OF _ True r] p True two_up(4) show ?thesis by simp
    next
      case False
      have "fside g = fside p"
        using two_up(8) p False two_up(4) by (auto simp: zouter_def split: if_splits)
      from outer_inv [OF two_up(2-6) p False this] show ?thesis
        using p False two_up(4) by (simp add: pinvc_ppaint)
    qed
  qed
next
  case (top t)
  then show ?case by (auto simp: pinvc_ppaint)
next
  case (one_up t f)
  then show ?case
    by (cases f; cases "fside f") (auto simp: root_black_def pinvc_ppaint)
qed

lemma rbt_zinsert:
  assumes "rbt t" and "zouter (PNode PLeaf a RED d PLeaf) (zdesc d t [])"
  shows "rbt (zinsert a d t)"
proof -
  let ?fs = "zdesc d t []"
  have "pinvh (plug ?fs PLeaf)" "pinvc (plug ?fs PLeaf)"
    using assms(1) by (simp_all add: zdesc_plug rbt_def)
  then have "cinvh ?fs 0" "cinvc ?fs BLACK"
    by (simp_all add: pinvh_plug pinvc_plug)
  moreover have "root_black ?fs"
    using assms(1) by (intro root_black_zdesc) (auto simp: root_black_def rbt_def)
  ultimately show ?thesis
    using zfix_inv [of "PNode PLeaf a RED d PLeaf" ?fs] assms(2)
    by (simp add: rbt_def zinsert_def tcolor_ppaint)
qed

end
