(* ===== verification/RB_Refine.thy ===== *)
theory RB_Refine
  imports RB_Zipper
begin

text \<open>
  The heap programs of \<open>RB_Heap\<close> implement the tree functions of \<open>RB_Zipper\<close>. The relation
  \<open>zrep\<close> says that the heap holds a tree at a pointer and the rest of the structure along
  the path to the root, with every parent pointer in place and no node shared. The
  locale \<open>rb_rotations\<close> is the interface between \<open>fixinsertion\<close> and the rotations it calls;
  it is interpreted for the rotations of both files.
\<close>

section \<open>The representation relation\<close>

fun is_tree :: "(nat \<rightharpoonup> rbnode) \<Rightarrow> ptr \<Rightarrow> ptr \<Rightarrow> ptree \<Rightarrow> bool" where
  "is_tree h par p PLeaf \<longleftrightarrow> p = None"
| "is_tree h par p (PNode l a c d r) \<longleftrightarrow> p = Some a \<and>
     (\<exists>n. h a = Some n \<and> rb_data n = d \<and> rb_color n = c \<and> rb_parent n = par \<and>
          is_tree h (Some a) (rb_left n) l \<and> is_tree h (Some a) (rb_right n) r)"

fun is_ctx :: "(nat \<rightharpoonup> rbnode) \<Rightarrow> ptr \<Rightarrow> ptr \<Rightarrow> ptr \<Rightarrow> frame list \<Rightarrow> bool" where
  "is_ctx h rt par p [] \<longleftrightarrow> par = None \<and> rt = p"
| "is_ctx h rt par p (Frame s a c d t # fs) \<longleftrightarrow> par = Some a \<and>
     (\<exists>n. h a = Some n \<and> rb_data n = d \<and> rb_color n = c \<and>
        (case s of LeftSide \<Rightarrow> rb_left n = p \<and> is_tree h (Some a) (rb_right n) t
                 | RightSide \<Rightarrow> rb_right n = p \<and> is_tree h (Some a) (rb_left n) t) \<and>
        is_ctx h rt (rb_parent n) (Some a) fs)"

definition zrep :: "'a rbstate_scheme \<Rightarrow> frame list \<Rightarrow> ptr \<Rightarrow> ptr \<Rightarrow> ptree \<Rightarrow> bool" where
  "zrep st fs par p t \<longleftrightarrow> is_tree (rb_cells st) par p t \<and>
     is_ctx (rb_cells st) (rb_root st) par p fs \<and> distinct (paddrs t @ faddrs fs)"

definition rb_rep :: "'a rbstate_scheme \<Rightarrow> ptree \<Rightarrow> bool" where
  "rb_rep st t \<longleftrightarrow> zrep st [] None (rb_root st) t \<and> (\<forall>a\<in>set (paddrs t). a < rb_next st)"

lemma is_tree_upd [simp]:
  "a \<notin> set (paddrs t) \<Longrightarrow> is_tree (h(a := v)) par p t = is_tree h par p t"
  by (induction t arbitrary: par p) auto

lemma is_ctx_upd [simp]:
  "a \<notin> set (faddrs fs) \<Longrightarrow> is_ctx (h(a := v)) rt par p fs = is_ctx h rt par p fs"
  apply (induction h rt par p fs rule: is_ctx.induct)
   apply simp
  subgoal for h rt par p s b c d t fs
    by (cases s) simp_all
  done

lemmas is_tree_upd_lambda [simp] = is_tree_upd [unfolded fun_upd_def]
  and is_ctx_upd_lambda [simp] = is_ctx_upd [unfolded fun_upd_def]

lemma is_tree_None [simp]: "is_tree h par None t \<longleftrightarrow> t = PLeaf"
  by (cases t) auto

lemma is_tree_neq: "is_tree h par p t \<Longrightarrow> a \<notin> set (paddrs t) \<Longrightarrow> p \<noteq> Some a \<and> Some a \<noteq> p"
  by (cases t) auto

lemma is_ctx_ptr: "is_ctx h rt par p fs \<Longrightarrow> ctx_ptr fs = par"
  by (cases "(h, rt, par, p, fs)" rule: is_ctx.cases) auto

lemma is_ctx_root:
  "is_ctx h rt par p fs \<Longrightarrow> fs \<noteq> [] \<Longrightarrow> rt = Some (faddr (last fs))"
proof (induction h rt par p fs rule: is_ctx.induct)
  case (2 h rt par p s a c d t fs)
  then show ?case by (cases "fs = []") auto
qed simp

lemma last_faddr: "fs \<noteq> [] \<Longrightarrow> faddr (last fs) \<in> set (faddrs fs)"
  by (induction fs rule: faddrs.induct) auto

lemma zrep_root_neq: "zrep st fs par (Some n) t \<Longrightarrow> n \<in> set (paddrs t) \<Longrightarrow>
    rb_root st = Some n \<longleftrightarrow> fs = []"
  using is_ctx_root [of "rb_cells st" "rb_root st" par "Some n" fs] last_faddr [of fs]
  by (auto simp: zrep_def)

lemma zrep_cong: "rb_cells st' = rb_cells st \<Longrightarrow> rb_root st' = rb_root st \<Longrightarrow>
    zrep st' fs par p t = zrep st fs par p t"
  by (simp add: zrep_def)

subsection \<open>Moving along the path\<close>

lemma zoom_out: "zrep st (f # fs) par p t \<Longrightarrow> zrep st fs (ctx_ptr fs) (Some (faddr f)) (fplug f t)"
  by (cases f; cases "fside f") (auto simp: zrep_def is_ctx_ptr)

lemma zoom_left: "zrep st fs par q (PNode l a c d r) \<Longrightarrow>
    \<exists>p. zrep st (Frame LeftSide a c d r # fs) (Some a) p l \<and> (l = PLeaf \<longrightarrow> p = None)"
  by (auto simp: zrep_def)

lemma zoom_right: "zrep st fs par q (PNode l a c d r) \<Longrightarrow>
    \<exists>p. zrep st (Frame RightSide a c d l # fs) (Some a) p r \<and> (r = PLeaf \<longrightarrow> p = None)"
  by (auto simp: zrep_def)

lemma zoom_all: "zrep st fs par p t \<Longrightarrow> \<exists>q. zrep st [] None q (plug fs t)"
proof (induction fs arbitrary: par p t)
  case Nil
  then show ?case by (auto simp: zrep_def)
next
  case (Cons f fs)
  from Cons.IH [OF zoom_out [OF Cons.prems]] show ?case by simp
qed

lemma zrep_root: "zrep st [] par q t \<Longrightarrow> par = None \<and> q = rb_root st"
  by (simp add: zrep_def)

subsection \<open>Painting\<close>

lemma is_tree_paint:
  "is_tree h par p t \<Longrightarrow> a \<in> set (paddrs t) \<Longrightarrow> distinct (paddrs t) \<Longrightarrow>
    \<exists>n. h a = Some n \<and> is_tree (h(a \<mapsto> set_color k n)) par p (paint_at a k t)"
proof (induction t arbitrary: par p)
  case (PNode l b c d r)
  then obtain n where n: "p = Some b" "h b = Some n" "rb_data n = d" "rb_color n = c" "rb_parent n = par"
    "is_tree h (Some b) (rb_left n) l" "is_tree h (Some b) (rb_right n) r"
    by auto
  have d: "distinct (paddrs l)" "distinct (paddrs r)" using PNode.prems by auto
  consider "a = b" | "a \<in> set (paddrs l)" "a \<noteq> b" "a \<notin> set (paddrs r)"
    | "a \<in> set (paddrs r)" "a \<noteq> b" "a \<notin> set (paddrs l)"
    using PNode.prems by auto
  then show ?case
  proof cases
    case 1
    with PNode.prems show ?thesis by (auto simp: set_color_def)
  next
    case 2
    from PNode.IH(1) [OF n(6) 2(1) d(1)] obtain m where
      "h a = Some m" "is_tree (h(a \<mapsto> set_color k m)) (Some b) (rb_left n) (paint_at a k l)"
      by blast
    with 2 n show ?thesis by (simp add: fun_upd_def)
  next
    case 3
    from PNode.IH(2) [OF n(7) 3(1) d(2)] obtain m where
      "h a = Some m" "is_tree (h(a \<mapsto> set_color k m)) (Some b) (rb_right n) (paint_at a k r)"
      by blast
    with 3 n show ?thesis by (simp add: fun_upd_def)
  qed
qed simp

lemma zrep_paint:
  assumes "zrep st fs par p t" and "a \<in> set (paddrs t)"
  shows "\<exists>st'. rb_st st (Some a) (set_color k) = Some st' \<and> zrep st' fs par p (paint_at a k t) \<and>
     rb_next st' = rb_next st \<and> rb_mem st' = rb_mem st \<and> rbstate.more st' = rbstate.more st \<and>
     rb_root st' = rb_root st"
proof -
  have "a \<notin> set (faddrs fs)"
    using assms by (auto simp: zrep_def)
  with assms is_tree_paint [of "rb_cells st" par p t a k] show ?thesis
    by (auto simp: zrep_def rb_st_def)
qed

section \<open>Rotations\<close>

lemma rotateleft_zrep:
  assumes "zrep st fs par (Some x) (PNode a x c d (PNode b y c' d' e))"
  shows "\<exists>st'. rotateleft st (Some x) = Some st' \<and>
     zrep st' fs par (Some y) (PNode (PNode a x c d b) y c' d' e) \<and>
     rb_next st' = rb_next st \<and> rb_mem st' = rb_mem st \<and> rbstate.more st' = rbstate.more st"
proof (cases fs)
  case Nil
  with assms show ?thesis
    by (cases b) (clarsimp simp: zrep_def rotateleft_def heap_ops Let_def)+
next
  case (Cons f fs')
  obtain s p cp dp sib where f: "f = Frame s p cp dp sib" by (cases f)
  show ?thesis
    using assms unfolding Cons f
    by (cases b; cases s)
      (clarsimp simp: zrep_def rotateleft_def heap_ops Let_def is_tree_neq)+
qed

lemma rotateright_zrep:
  assumes "zrep st fs par (Some y) (PNode (PNode a x c d b) y c' d' e)"
  shows "\<exists>st'. rotateright st (Some y) = Some st' \<and>
     zrep st' fs par (Some x) (PNode a x c d (PNode b y c' d' e)) \<and>
     rb_next st' = rb_next st \<and> rb_mem st' = rb_mem st \<and> rbstate.more st' = rbstate.more st"
proof (cases fs)
  case Nil
  with assms show ?thesis
    by (cases b) (clarsimp simp: zrep_def rotateright_def heap_ops Let_def)+
next
  case (Cons f fs')
  obtain s p cp dp sib where f: "f = Frame s p cp dp sib" by (cases f)
  show ?thesis
    using assms unfolding Cons f
    by (cases b; cases s)
      (clarsimp simp: zrep_def rotateright_def heap_ops Let_def is_tree_neq)+
qed

section \<open>The repair loop over any rotations that keep their contract\<close>

lemma zrep_ld:
  assumes "zrep st fs par (Some n) (PNode l n c d r)"
  shows "\<exists>nd. rb_ld st (Some n) = Some nd \<and> rb_color nd = c \<and> rb_data nd = d \<and> rb_parent nd = ctx_ptr fs"
  using assms by (auto simp: zrep_def rb_ld_def is_ctx_ptr)

lemma zrep_distinct: "zrep st fs par p t \<Longrightarrow> distinct (paddrs t)"
  by (simp add: zrep_def)

lemma set_paddrs_rot_case: "t \<noteq> PLeaf \<Longrightarrow> set (paddrs (rot_case g p t)) = set (paddrs (fplug g (fplug p t)))"
  by (cases "(g, p, t)" rule: rot_case.cases) auto

lemma set_paddrs_zfix: "t \<noteq> PLeaf \<Longrightarrow> set (paddrs (zfix t fs)) = set (paddrs (plug fs t))"
proof (induction t fs rule: zfix.induct)
  case (1 t p g fs)
  have "faddr (fpaint RED (sib_black g)) = faddr g" "faddr (fpaint BLACK p) = faddr p"
    "set (paddrs (fsib (fpaint RED (sib_black g)))) = set (paddrs (fsib g))"
    "fsib (fpaint BLACK p) = fsib p"
    by (cases g; cases p; simp)+
  with 1 show ?case by (auto simp: set_paddrs_rot_case)
qed simp_all

locale rb_rotations =
  fixes rotl rotr :: "'a rotation" and rots :: "'a rbstate_scheme \<Rightarrow> int" and k :: int
  assumes rotl: "zrep st fs par (Some x) (PNode a x c d (PNode b y c' d' e)) \<Longrightarrow>
      \<exists>st'. rotl st (Some x) = Some st' \<and> zrep st' fs par (Some y) (PNode (PNode a x c d b) y c' d' e) \<and>
        rb_next st' = rb_next st \<and> rb_mem st' = rb_mem st \<and> rots st' = rots st + k"
    and rotr: "zrep st fs par (Some y) (PNode (PNode a x c d b) y c' d' e) \<Longrightarrow>
      \<exists>st'. rotr st (Some y) = Some st' \<and> zrep st' fs par (Some x) (PNode a x c d (PNode b y c' d' e)) \<and>
        rb_next st' = rb_next st \<and> rb_mem st' = rb_mem st \<and> rots st' = rots st + k"
    and rots_more: "rbstate.more st' = rbstate.more st \<Longrightarrow> rots st' = rots st"
begin

definition same :: "'a rbstate_scheme \<Rightarrow> 'a rbstate_scheme \<Rightarrow> int \<Rightarrow> bool" where
  "same st st' i \<longleftrightarrow> rb_next st' = rb_next st \<and> rb_mem st' = rb_mem st \<and> rots st' = rots st + i"

lemma paint:
  assumes "zrep st fs par p t" and "a \<in> set (paddrs t)"
  obtains st' where "rb_st st (Some a) (set_color c) = Some st'" "zrep st' fs par p (paint_at a c t)"
    "same st st' 0"
  using zrep_paint [OF assms, of c] by (auto simp: same_def dest: rots_more)

lemma left:
  assumes "zrep st fs par (Some x) (PNode a x c d (PNode b y c' d' e))"
  obtains st' where "rotl st (Some x) = Some st'"
    "zrep st' fs par (Some y) (PNode (PNode a x c d b) y c' d' e)" "same st st' k"
  using rotl [OF assms] by (auto simp: same_def)

lemma right:
  assumes "zrep st fs par (Some y) (PNode (PNode a x c d b) y c' d' e)"
  obtains st' where "rotr st (Some y) = Some st'"
    "zrep st' fs par (Some x) (PNode a x c d (PNode b y c' d' e))" "same st st' k"
  using rotr [OF assms] by (auto simp: same_def)

lemma same_trans: "same st st' i \<Longrightarrow> same st' st'' j \<Longrightarrow> same st st'' (i + j)"
  by (simp add: same_def)

text \<open>The reads at the head of the body.\<close>

lemma body_reads:
  assumes "zrep st (Frame s p cp dp t1 # Frame s' g cg dg t2 # fs) par (Some n) (PNode l n c d r)"
  obtains nn pn gn where "rb_ld st (Some n) = Some nn" "rb_parent nn = Some p"
    "rb_ld st (Some p) = Some pn" "rb_parent pn = Some g" "rb_ld st (Some g) = Some gn"
    "rb_left pn = Some n \<longleftrightarrow> s = LeftSide" "rb_right pn = Some n \<longleftrightarrow> s = RightSide"
    "rb_left gn = Some p \<longleftrightarrow> s' = LeftSide"
    "uncle_red st (if s' = LeftSide then rb_right gn else rb_left gn) = Some (tcolor t2 = RED)"
    "(if s' = LeftSide then rb_right gn else rb_left gn) =
       (case t2 of PLeaf \<Rightarrow> None | PNode _ u _ _ _ \<Rightarrow> Some u)"
proof -
  let ?h = "rb_cells st"
  have tr: "is_tree ?h par (Some n) (PNode l n c d r)"
    and cx: "is_ctx ?h (rb_root st) par (Some n) (Frame s p cp dp t1 # Frame s' g cg dg t2 # fs)"
    and di: "p \<noteq> n" "g \<noteq> n" "g \<noteq> p" "n \<notin> set (paddrs t1)" "p \<notin> set (paddrs t2)"
    using assms by (auto simp: zrep_def)
  obtain nn where nn: "?h n = Some nn" "rb_parent nn = Some p" using tr cx by auto
  obtain pn where pn: "?h p = Some pn" "rb_parent pn = Some g"
    "s = LeftSide \<longrightarrow> rb_left pn = Some n \<and> is_tree ?h (Some p) (rb_right pn) t1"
    "s = RightSide \<longrightarrow> rb_right pn = Some n \<and> is_tree ?h (Some p) (rb_left pn) t1"
    using cx by (cases s) auto
  obtain gn where gn: "?h g = Some gn"
    "s' = LeftSide \<longrightarrow> rb_left gn = Some p \<and> is_tree ?h (Some g) (rb_right gn) t2"
    "s' = RightSide \<longrightarrow> rb_right gn = Some p \<and> is_tree ?h (Some g) (rb_left gn) t2"
    using cx by (cases s') auto
  have s: "rb_left pn = Some n \<longleftrightarrow> s = LeftSide" "rb_right pn = Some n \<longleftrightarrow> s = RightSide"
    using pn(3,4) di is_tree_neq [of ?h _ _ t1 n] by (cases s; auto)+
  have s': "rb_left gn = Some p \<longleftrightarrow> s' = LeftSide"
    using gn(2,3) di is_tree_neq [of ?h _ _ t2 p] by (cases s'; auto)
  have u: "is_tree ?h (Some g) (if s' = LeftSide then rb_right gn else rb_left gn) t2"
    using gn by (cases s') auto
  then have "uncle_red st (if s' = LeftSide then rb_right gn else rb_left gn) = Some (tcolor t2 = RED)"
    by (cases t2) (auto simp: uncle_red_def rb_ld_def)
  moreover from u have "(if s' = LeftSide then rb_right gn else rb_left gn) =
       (case t2 of PLeaf \<Rightarrow> None | PNode _ u _ _ _ \<Rightarrow> Some u)"
    by (cases t2) auto
  ultimately show ?thesis
    using that [of nn pn gn] nn pn(1,2) gn(1) s s' by (simp add: rb_ld_def)
qed

lemma body_recolour:
  assumes z: "zrep st (Frame s p cp dp t1 # Frame s' g cg dg t2 # fs) par (Some n) (PNode l n c d r)"
    and red: "tcolor t2 = RED"
  shows "\<exists>st'. fix_body rotl rotr st (Some n) = Some (st', Some g) \<and> same st st' 0 \<and>
     zrep st' fs (ctx_ptr fs) (Some g)
       (fplug (Frame s' g RED dg (ppaint BLACK t2)) (fplug (Frame s p BLACK dp t1) (PNode l n c d r)))"
proof -
  let ?T = "fplug (Frame s' g cg dg t2) (fplug (Frame s p cp dp t1) (PNode l n c d r))"
  obtain ul u du ur where t2: "t2 = PNode ul u RED du ur"
    using red by (cases t2) auto
  from zoom_out [OF zoom_out [OF z]] zoom_out [OF z] have Z: "zrep st fs (ctx_ptr fs) (Some g) ?T"
    by (simp add: zoom_out)
  have di: "distinct (paddrs (PNode l n c d r) @ faddrs (Frame s p cp dp t1 # Frame s' g cg dg t2 # fs))"
    using z by (simp add: zrep_def)
  obtain st1 where st1: "rb_st st (Some g) (set_color RED) = Some st1"
      "zrep st1 fs (ctx_ptr fs) (Some g) (paint_at g RED ?T)" "same st st1 0"
    by (rule paint [OF Z, of g RED]) simp_all
  obtain st2 where st2: "rb_st st1 (Some p) (set_color BLACK) = Some st2"
      "zrep st2 fs (ctx_ptr fs) (Some g) (paint_at p BLACK (paint_at g RED ?T))" "same st1 st2 0"
    by (rule paint [OF st1(2), of p BLACK]) simp_all
  obtain st3 where st3: "rb_st st2 (Some u) (set_color BLACK) = Some st3"
      "zrep st3 fs (ctx_ptr fs) (Some g) (paint_at u BLACK (paint_at p BLACK (paint_at g RED ?T)))"
      "same st2 st3 0"
    by (rule paint [OF st2(2), of u BLACK]) (simp_all add: t2)
  have T: "paint_at u BLACK (paint_at p BLACK (paint_at g RED ?T)) =
      fplug (Frame s' g RED dg (ppaint BLACK t2)) (fplug (Frame s p BLACK dp t1) (PNode l n c d r))"
    using di by (cases s; cases s') (auto simp: t2)
  have "same st st3 0"
    using same_trans [OF same_trans [OF st1(3) st2(3)] st3(3)] by simp
  moreover obtain nn pn gn where rd: "rb_ld st (Some n) = Some nn" "rb_parent nn = Some p"
    "rb_ld st (Some p) = Some pn" "rb_parent pn = Some g" "rb_ld st (Some g) = Some gn"
    "rb_left pn = Some n \<longleftrightarrow> s = LeftSide" "rb_right pn = Some n \<longleftrightarrow> s = RightSide"
    "rb_left gn = Some p \<longleftrightarrow> s' = LeftSide"
    "uncle_red st (if s' = LeftSide then rb_right gn else rb_left gn) = Some (tcolor t2 = RED)"
    "(if s' = LeftSide then rb_right gn else rb_left gn) =
       (case t2 of PLeaf \<Rightarrow> None | PNode _ u _ _ _ \<Rightarrow> Some u)"
    by (rule body_reads [OF z])
  have "fix_body rotl rotr st (Some n) = Some (st3, Some g)"
    using rd st1(1) st2(1) st3(1) by (cases s') (auto simp: fix_body_def Let_def t2)
  ultimately show ?thesis
    using st3(2) unfolding T by blast
qed

lemma end_left:
  assumes z: "zrep st fs par (Some g) (PNode (PNode a x c d b) g cg dg u)"
    and p: "p \<in> set (paddrs (PNode a x c d b))"
  shows "\<exists>st1 st2 st3. rb_st st (Some p) (set_color BLACK) = Some st1 \<and>
     rb_st st1 (Some g) (set_color RED) = Some st2 \<and> rotr st2 (Some g) = Some st3 \<and> same st st3 k \<and>
     zrep st3 fs par (Some x) (PNode (paint_at p BLACK a) x (if x = p then BLACK else c) d
        (PNode (paint_at p BLACK b) g RED dg u))"
proof -
  let ?T = "PNode (PNode a x c d b) g cg dg u"
  have di: "distinct (paddrs ?T)" using zrep_distinct [OF z] .
  obtain st1 where st1: "rb_st st (Some p) (set_color BLACK) = Some st1"
      "zrep st1 fs par (Some g) (paint_at p BLACK ?T)" "same st st1 0"
    by (rule paint [OF z, of p BLACK]) (use p in auto)
  obtain st2 where st2: "rb_st st1 (Some g) (set_color RED) = Some st2"
      "zrep st2 fs par (Some g) (paint_at g RED (paint_at p BLACK ?T))" "same st1 st2 0"
    by (rule paint [OF st1(2), of g RED]) simp
  have "p \<notin> set (paddrs u)" "p \<noteq> g"
    using di p by auto
  then have "paint_at g RED (paint_at p BLACK ?T) =
      PNode (PNode (paint_at p BLACK a) x (if x = p then BLACK else c) d (paint_at p BLACK b)) g RED dg u"
    using di p by auto
  from right [OF st2(2) [unfolded this]] obtain st3 where st3: "rotr st2 (Some g) = Some st3"
    "zrep st3 fs par (Some x) (PNode (paint_at p BLACK a) x (if x = p then BLACK else c) d
        (PNode (paint_at p BLACK b) g RED dg u))" "same st2 st3 k"
    by blast
  have "same st st3 k"
    using same_trans [OF same_trans [OF st1(3) st2(3)] st3(3)] by simp
  with st1(1) st2(1) st3 show ?thesis by blast
qed

lemma end_right:
  assumes z: "zrep st fs par (Some g) (PNode u g cg dg (PNode a x c d b))"
    and p: "p \<in> set (paddrs (PNode a x c d b))"
  shows "\<exists>st1 st2 st3. rb_st st (Some p) (set_color BLACK) = Some st1 \<and>
     rb_st st1 (Some g) (set_color RED) = Some st2 \<and> rotl st2 (Some g) = Some st3 \<and> same st st3 k \<and>
     zrep st3 fs par (Some x) (PNode (PNode u g RED dg (paint_at p BLACK a)) x
        (if x = p then BLACK else c) d (paint_at p BLACK b))"
proof -
  let ?T = "PNode u g cg dg (PNode a x c d b)"
  have di: "distinct (paddrs ?T)" using zrep_distinct [OF z] .
  obtain st1 where st1: "rb_st st (Some p) (set_color BLACK) = Some st1"
      "zrep st1 fs par (Some g) (paint_at p BLACK ?T)" "same st st1 0"
    by (rule paint [OF z, of p BLACK]) (use p in auto)
  obtain st2 where st2: "rb_st st1 (Some g) (set_color RED) = Some st2"
      "zrep st2 fs par (Some g) (paint_at g RED (paint_at p BLACK ?T))" "same st1 st2 0"
    by (rule paint [OF st1(2), of g RED]) simp
  have "p \<notin> set (paddrs u)" "p \<noteq> g"
    using di p by auto
  then have "paint_at g RED (paint_at p BLACK ?T) =
      PNode u g RED dg (PNode (paint_at p BLACK a) x (if x = p then BLACK else c) d (paint_at p BLACK b))"
    using di p by auto
  from left [OF st2(2) [unfolded this]] obtain st3 where st3: "rotl st2 (Some g) = Some st3"
    "zrep st3 fs par (Some x) (PNode (PNode u g RED dg (paint_at p BLACK a)) x
        (if x = p then BLACK else c) d (paint_at p BLACK b))" "same st2 st3 k"
    by blast
  have "same st st3 k"
    using same_trans [OF same_trans [OF st1(3) st2(3)] st3(3)] by simp
  with st1(1) st2(1) st3 show ?thesis by blast
qed

text \<open>The loop stops at \<open>m\<close>: the node is not red, or its parent is not.\<close>

definition stops :: "'a rbstate_scheme \<Rightarrow> nat \<Rightarrow> bool" where
  "stops st m \<longleftrightarrow> (\<exists>mn. rb_ld st (Some m) = Some mn \<and>
     (rb_color mn \<noteq> RED \<or> (\<exists>pn. rb_ld st (rb_parent mn) = Some pn \<and> rb_color pn \<noteq> RED)))"

lemma body_rotate:
  assumes z: "zrep st (Frame s p cp dp t1 # Frame s' g cg dg t2 # fs) par (Some n) (PNode l n c d r)"
    and black: "tcolor t2 \<noteq> RED"
  shows "\<exists>st' m q. fix_body rotl rotr st (Some n) = Some (st', Some m) \<and> stops st' m \<and>
     same st st' (if s' = s then k else 2 * k) \<and>
     zrep st' fs (ctx_ptr fs) q (rot_case (Frame s' g cg dg t2) (Frame s p cp dp t1) (PNode l n c d r))"
proof -
  have Z1: "zrep st (Frame s' g cg dg t2 # fs) (Some g) (Some p) (fplug (Frame s p cp dp t1) (PNode l n c d r))"
    using zoom_out [OF z] by simp
  have Z: "zrep st fs (ctx_ptr fs) (Some g)
      (fplug (Frame s' g cg dg t2) (fplug (Frame s p cp dp t1) (PNode l n c d r)))"
    using zoom_out [OF Z1] by simp
  have di: "distinct (paddrs (PNode l n c d r) @ faddrs (Frame s p cp dp t1 # Frame s' g cg dg t2 # fs))"
    using z by (simp add: zrep_def)
  obtain nn pn gn where rd: "rb_ld st (Some n) = Some nn" "rb_parent nn = Some p"
    "rb_ld st (Some p) = Some pn" "rb_parent pn = Some g" "rb_ld st (Some g) = Some gn"
    "rb_left pn = Some n \<longleftrightarrow> s = LeftSide" "rb_right pn = Some n \<longleftrightarrow> s = RightSide"
    "rb_left gn = Some p \<longleftrightarrow> s' = LeftSide"
    "uncle_red st (if s' = LeftSide then rb_right gn else rb_left gn) = Some (tcolor t2 = RED)"
    "(if s' = LeftSide then rb_right gn else rb_left gn) =
       (case t2 of PLeaf \<Rightarrow> None | PNode _ u _ _ _ \<Rightarrow> Some u)"
    by (rule body_reads [OF z])
  show ?thesis
  proof (cases s'; cases s)
    assume [simp]: "s' = LeftSide" "s = LeftSide"
    from end_left [of st fs "ctx_ptr fs" g "PNode l n c d r" p cp dp t1 cg dg t2 p] Z obtain st1 st2 st3
      where e: "rb_st st (Some p) (set_color BLACK) = Some st1"
        "rb_st st1 (Some g) (set_color RED) = Some st2" "rotr st2 (Some g) = Some st3" "same st st3 k"
        "zrep st3 fs (ctx_ptr fs) (Some p) (PNode (PNode l n c d r) p BLACK dp (PNode t1 g RED dg t2))"
      using di by auto
    have "stops st3 n"
      using e(5) by (auto simp: stops_def zrep_def rb_ld_def)
    moreover have "fix_body rotl rotr st (Some n) = Some (st3, Some n)"
      using rd e(1-3) black by (auto simp: fix_body_def Let_def)
    ultimately show ?thesis using e(4,5) by auto
  next
    assume [simp]: "s' = RightSide" "s = RightSide"
    from end_right [of st fs "ctx_ptr fs" g t2 cg dg t1 p cp dp "PNode l n c d r" p] Z obtain st1 st2 st3
      where e: "rb_st st (Some p) (set_color BLACK) = Some st1"
        "rb_st st1 (Some g) (set_color RED) = Some st2" "rotl st2 (Some g) = Some st3" "same st st3 k"
        "zrep st3 fs (ctx_ptr fs) (Some p) (PNode (PNode t2 g RED dg t1) p BLACK dp (PNode l n c d r))"
      using di by auto
    have "stops st3 n"
      using e(5) by (auto simp: stops_def zrep_def rb_ld_def)
    moreover have "fix_body rotl rotr st (Some n) = Some (st3, Some n)"
      using rd e(1-3) black by (auto simp: fix_body_def Let_def)
    ultimately show ?thesis using e(4,5) by auto
  next
    assume [simp]: "s' = LeftSide" "s = RightSide"
    from left [of st _ _ p t1 cp dp l n c d r] Z1 obtain st0 where st0: "rotl st (Some p) = Some st0"
      "zrep st0 (Frame LeftSide g cg dg t2 # fs) (Some g) (Some n) (PNode (PNode t1 p cp dp l) n c d r)"
      "same st st0 k"
      by auto
    have Z0: "zrep st0 fs (ctx_ptr fs) (Some g) (PNode (PNode (PNode t1 p cp dp l) n c d r) g cg dg t2)"
      using zoom_out [OF st0(2)] by simp
    from end_left [OF Z0, of p] obtain st1 st2 st3
      where e: "rb_st st0 (Some p) (set_color BLACK) = Some st1"
        "rb_st st1 (Some g) (set_color RED) = Some st2" "rotr st2 (Some g) = Some st3" "same st0 st3 k"
        "zrep st3 fs (ctx_ptr fs) (Some n) (PNode (PNode t1 p BLACK dp l) n c d (PNode r g RED dg t2))"
      using di by auto
    have "stops st3 p"
      using e(5) by (auto simp: stops_def zrep_def rb_ld_def)
    moreover have "fix_body rotl rotr st (Some n) = Some (st3, Some p)"
      using rd st0(1) e(1-3) black by (auto simp: fix_body_def Let_def)
    moreover have "same st st3 (2 * k)"
      using same_trans [OF st0(3) e(4)] by simp
    ultimately show ?thesis using e(5) by auto
  next
    assume [simp]: "s' = RightSide" "s = LeftSide"
    from right [of st _ _ p l n c d r cp dp t1] Z1 obtain st0 where st0: "rotr st (Some p) = Some st0"
      "zrep st0 (Frame RightSide g cg dg t2 # fs) (Some g) (Some n) (PNode l n c d (PNode r p cp dp t1))"
      "same st st0 k"
      by auto
    have Z0: "zrep st0 fs (ctx_ptr fs) (Some g) (PNode t2 g cg dg (PNode l n c d (PNode r p cp dp t1)))"
      using zoom_out [OF st0(2)] by simp
    from end_right [OF Z0, of p] obtain st1 st2 st3
      where e: "rb_st st0 (Some p) (set_color BLACK) = Some st1"
        "rb_st st1 (Some g) (set_color RED) = Some st2" "rotl st2 (Some g) = Some st3" "same st0 st3 k"
        "zrep st3 fs (ctx_ptr fs) (Some n) (PNode (PNode t2 g RED dg l) n c d (PNode r p BLACK dp t1))"
      using di by auto
    have "stops st3 p"
      using e(5) by (auto simp: stops_def zrep_def rb_ld_def)
    moreover have "fix_body rotl rotr st (Some n) = Some (st3, Some p)"
      using rd st0(1) e(1-3) black by (auto simp: fix_body_def Let_def)
    moreover have "same st st3 (2 * k)"
      using same_trans [OF st0(3) e(4)] by simp
    ultimately show ?thesis using e(5) by auto
  qed
qed

lemma loop_stops: "stops st m \<Longrightarrow> fix_loop rotl rotr st (Some m) = Some st"
  by (subst fix_loop.simps) (auto simp: stops_def)

lemma loop_zfix:
  assumes "zrep st fs par (Some n) (PNode l n c d r)" and "root_black fs"
  shows "\<exists>st' q. fix_loop rotl rotr st (Some n) = Some st' \<and>
     zrep st' [] None q (zfix (PNode l n c d r) fs) \<and>
     same st st' (k * int (zrots (PNode l n c d r) fs))"
  using assms
proof (induction "PNode l n c d r" fs arbitrary: st par l n c d r rule: zfix_induct)
  case (two_up p g fs)
  obtain s pa cp dp t1 where p: "p = Frame s pa cp dp t1" by (cases p)
  obtain s' ga cg dg t2 where g: "g = Frame s' ga cg dg t2" by (cases g)
  note z = two_up.prems(1) [unfolded p g]
  have root: "Some n \<noteq> rb_root st"
    using zrep_root_neq [OF z] by auto
  obtain nn where nn: "rb_ld st (Some n) = Some nn" "rb_color nn = c" "rb_parent nn = Some pa"
    using zrep_ld [OF z] by auto
  obtain pn where pn: "rb_ld st (Some pa) = Some pn" "rb_color pn = cp"
    using zoom_out [OF z] zrep_ld by (cases s) fastforce+
  show ?case
  proof (cases "c = RED \<and> cp = RED")
    case False
    with nn pn have "stops st n" by (auto simp: stops_def)
    moreover obtain q where "zrep st [] None q (plug (p # g # fs) (PNode l n c d r))"
      using zoom_all [OF two_up.prems(1)] by blast
    ultimately show ?thesis
      using False by (auto simp: loop_stops same_def p g)
  next
    case col: True
    have step: "fix_loop rotl rotr st (Some n) =
        do { q \<leftarrow> fix_body rotl rotr st (Some n); fix_loop rotl rotr (fst q) (snd q) }"
      by (subst fix_loop.simps) (use root nn pn col in simp)
    show ?thesis
    proof (cases "tcolor t2 = RED")
      case True
      obtain st1 where st1: "fix_body rotl rotr st (Some n) = Some (st1, Some ga)" "same st st1 0"
        "zrep st1 fs (ctx_ptr fs) (Some ga)
          (fplug (Frame s' ga RED dg (ppaint BLACK t2)) (fplug (Frame s pa BLACK dp t1) (PNode l n c d r)))"
        using body_recolour [OF z True] by blast
      obtain l' r' where u: "fplug (Frame s' ga RED dg (ppaint BLACK t2))
          (fplug (Frame s pa BLACK dp t1) (PNode l n c d r)) = PNode l' ga RED dg r'"
        by (cases s') auto
      have "root_black fs"
        using two_up.prems(2) by (auto simp: root_black_def split: if_splits)
      with two_up.hyps [of l' ga RED dg r' st1 "ctx_ptr fs"] st1(3) u col True
      obtain st2 q where st2: "fix_loop rotl rotr st1 (Some ga) = Some st2"
        "zrep st2 [] None q (zfix (PNode l' ga RED dg r') fs)"
        "same st1 st2 (k * int (zrots (PNode l' ga RED dg r') fs))"
        by (auto simp: p g)
      moreover have "same st st2 (0 + k * int (zrots (PNode l' ga RED dg r') fs))"
        by (rule same_trans [OF st1(2) st2(3)])
      ultimately show ?thesis
        using step st1(1) u col True by (auto simp: p g)
    next
      case False
      obtain st1 m q where st1: "fix_body rotl rotr st (Some n) = Some (st1, Some m)" "stops st1 m"
        "same st st1 (if s' = s then k else 2 * k)"
        "zrep st1 fs (ctx_ptr fs) q (rot_case g p (PNode l n c d r))"
        using body_rotate [OF z False] p g by blast
      moreover obtain q' where "zrep st1 [] None q' (plug fs (rot_case g p (PNode l n c d r)))"
        using zoom_all [OF st1(4)] by blast
      ultimately show ?thesis
        using step loop_stops [OF st1(2)] col False by (auto simp: p g mult.commute split: if_splits)
    qed
  qed
next
  case top
  then have "rb_root st = Some n" "par = None" by (auto simp: zrep_def)
  with top show ?case
    by (subst fix_loop.simps) (auto simp: same_def)
next
  case (one_up f)
  obtain s pa cp dp t1 where f: "f = Frame s pa cp dp t1" by (cases f)
  note z = one_up(1) [unfolded f]
  have "cp = BLACK" using one_up(2) by (simp add: f root_black_def)
  obtain nn where nn: "rb_ld st (Some n) = Some nn" "rb_color nn = c" "rb_parent nn = Some pa"
    using zrep_ld [OF z] by auto
  obtain pn where pn: "rb_ld st (Some pa) = Some pn" "rb_color pn = cp"
    using zoom_out [OF z] zrep_ld by (cases s) fastforce+
  have "stops st n"
    using nn pn \<open>cp = BLACK\<close> by (auto simp: stops_def)
  with zoom_all [OF one_up(1)] show ?case
    by (auto simp: loop_stops same_def)
qed

lemma fixinsertion_zfix:
  assumes "zrep st fs par (Some n) (PNode l n c d r)" and "root_black fs"
  shows "\<exists>st'. fixinsertion_with rotl rotr st (Some n) = Some st' \<and>
     zrep st' [] None (rb_root st') (ppaint BLACK (zfix (PNode l n c d r) fs)) \<and>
     same st st' (k * int (zrots (PNode l n c d r) fs))"
proof -
  obtain st1 q where st1: "fix_loop rotl rotr st (Some n) = Some st1"
     "zrep st1 [] None q (zfix (PNode l n c d r) fs)"
     "same st st1 (k * int (zrots (PNode l n c d r) fs))"
    using loop_zfix [OF assms] by blast
  obtain l' a c' d' r' where t: "zfix (PNode l n c d r) fs = PNode l' a c' d' r'"
    using pinorder_zfix [of "PNode l n c d r" fs]
    by (cases "zfix (PNode l n c d r) fs") auto
  have q: "q = Some a" "rb_root st1 = Some a"
    using st1(2) by (auto simp: t zrep_def)
  obtain st2 where st2: "rb_st st1 (Some a) (set_color BLACK) = Some st2"
      "zrep st2 [] None q (paint_at a BLACK (PNode l' a c' d' r'))" "same st1 st2 0"
    by (rule paint [OF st1(2) [unfolded t], of a BLACK]) simp
  have "paint_at a BLACK (PNode l' a c' d' r') = PNode l' a BLACK d' r'"
    using zrep_distinct [OF st1(2)] by (auto simp: t)
  with st2 zrep_root [OF st2(2)] same_trans [OF st1(3) st2(3)] st1(1) show ?thesis
    by (auto simp: fixinsertion_with_def t q)
qed

end

section \<open>Search and link\<close>

lemma ins_search_zdesc:
  assumes "zrep st fs par p t"
  shows "ins_search st d p (ctx_ptr fs) = Some (ctx_ptr (zdesc d t fs)) \<and>
     zrep st (zdesc d t fs) (ctx_ptr (zdesc d t fs)) None PLeaf"
  using assms
proof (induction d t fs arbitrary: par p rule: zdesc.induct)
  case (1 d fs)
  then show ?case
    by (subst ins_search.simps) (auto simp: zrep_def is_ctx_ptr)
next
  case (2 d l a c e r fs)
  from "2.prems" obtain cn where cn: "p = Some a" "rb_ld st (Some a) = Some cn" "rb_data cn = e"
    "zrep st (Frame LeftSide a c e r # fs) (Some a) (rb_left cn) l"
    "zrep st (Frame RightSide a c e l # fs) (Some a) (rb_right cn) r"
    by (auto simp: zrep_def rb_ld_def)
  then show ?case
    using 2(1) [OF _ cn(4)] 2(2) [OF _ cn(5)] by (subst ins_search.simps) auto
qed

lemma zdesc_side:
  "(\<And>f fs'. fs = f # fs' \<Longrightarrow> fside f = LeftSide \<longleftrightarrow> d < fkey f) \<Longrightarrow>
   zdesc d t fs = g # gs \<Longrightarrow> fside g = LeftSide \<longleftrightarrow> d < fkey g"
  by (induction d t fs arbitrary: g gs rule: zdesc.induct) (auto split: if_splits)

lemma zdesc_addrs: "set (faddrs (zdesc d t fs)) = set (paddrs t) \<union> set (faddrs fs)"
  by (induction d t fs rule: zdesc.induct) auto

lemma zrep_fresh: "a \<notin> set (paddrs t) \<Longrightarrow> a \<notin> set (faddrs fs) \<Longrightarrow>
    rb_cells st' = (rb_cells st)(a := v) \<Longrightarrow> rb_root st' = rb_root st \<Longrightarrow>
    zrep st' fs par p t = zrep st fs par p t"
  by (simp add: zrep_def)

lemma link_zrep:
  assumes z: "zrep st fs (ctx_ptr fs) None PLeaf" and a: "a \<notin> set (faddrs fs)"
    and nd: "rb_cells st a = Some nd" "rb_data nd = d" "rb_color nd = RED"
      "rb_left nd = None" "rb_right nd = None"
    and side: "\<forall>f fs'. fs = f # fs' \<longrightarrow> (fside f = LeftSide \<longleftrightarrow> d < fkey f)"
  shows "\<exists>st' st''. rb_st st (Some a) (\<lambda>n. n\<lparr>rb_parent := ctx_ptr fs\<rparr>) = Some st' \<and>
     (if ctx_ptr fs = None then Some (st'\<lparr>rb_root := Some a\<rparr>)
      else do {
        pn \<leftarrow> rb_ld st' (ctx_ptr fs);
        if d < rb_data pn then rb_st st' (ctx_ptr fs) (\<lambda>n. n\<lparr>rb_left := Some a\<rparr>)
        else rb_st st' (ctx_ptr fs) (\<lambda>n. n\<lparr>rb_right := Some a\<rparr>) }) = Some st'' \<and>
     zrep st'' fs (ctx_ptr fs) (Some a) (PNode PLeaf a RED d PLeaf) \<and>
     rb_next st'' = rb_next st \<and> rb_mem st'' = rb_mem st \<and> rbstate.more st'' = rbstate.more st"
proof (cases fs)
  case Nil
  with assms show ?thesis by (auto simp: heap_ops zrep_def)
next
  case (Cons f fs')
  obtain s p cp dp sib where f: "f = Frame s p cp dp sib" by (cases f)
  have "s = LeftSide \<longleftrightarrow> d < dp" using side Cons by (simp add: f)
  with z a nd show ?thesis
    unfolding Cons f by (cases s) (auto simp: heap_ops zrep_def)
qed

lemma createnode_ok:
  "0 < rb_mem st \<Longrightarrow> \<exists>st0. createnode st d = Some (st0, Some (rb_next st)) \<and>
     rb_root st0 = rb_root st \<and> rb_next st0 = Suc (rb_next st) \<and> rb_mem st0 = rb_mem st - 1 \<and>
     rbstate.more st0 = rbstate.more st \<and>
     rb_cells st0 = (rb_cells st)(rb_next st \<mapsto>
       \<lparr>rb_data = d, rb_color = RED, rb_left = None, rb_right = None, rb_parent = None\<rparr>)"
  by (simp add: createnode_def)

context rb_rotations
begin

lemma insertion_zinsert:
  assumes rep: "rb_rep st t" and black: "tcolor t = BLACK" and mem: "rb_mem st > 0"
  shows "\<exists>st'. insertion_with (fixinsertion_with rotl rotr) st d = Some st' \<and>
     rb_rep st' (zinsert (rb_next st) d t) \<and> rb_mem st' = rb_mem st - 1 \<and>
     rb_next st' = Suc (rb_next st) \<and>
     rots st' = rots st + k * int (zrots (PNode PLeaf (rb_next st) RED d PLeaf) (zdesc d t []))"
proof -
  let ?a = "rb_next st" and ?fs = "zdesc d t []"
  obtain st0 where st0: "createnode st d = Some (st0, Some ?a)" "rb_root st0 = rb_root st"
    "rb_next st0 = Suc ?a" "rb_mem st0 = rb_mem st - 1" "rbstate.more st0 = rbstate.more st"
    "rb_cells st0 = (rb_cells st)(?a \<mapsto>
       \<lparr>rb_data = d, rb_color = RED, rb_left = None, rb_right = None, rb_parent = None\<rparr>)"
    using createnode_ok [OF mem, of d] by blast
  have fresh: "?a \<notin> set (paddrs t)" using rep by (auto simp: rb_rep_def)
  have z0: "zrep st0 [] None (rb_root st0) t"
    using rep zrep_fresh [OF fresh _ st0(6,2), of "[]"] st0(2) by (simp add: rb_rep_def)
  have search: "ins_search st0 d (rb_root st0) None = Some (ctx_ptr ?fs)"
    "zrep st0 ?fs (ctx_ptr ?fs) None PLeaf"
    using ins_search_zdesc [OF z0, of d] by auto
  let ?nd = "\<lparr>rb_data = d, rb_color = RED, rb_left = None, rb_right = None, rb_parent = None\<rparr>"
  have nd: "rb_cells st0 ?a = Some ?nd" "rb_data ?nd = d" "rb_color ?nd = RED"
    "rb_left ?nd = None" "rb_right ?nd = None"
    using st0(6) by simp_all
  have side: "\<forall>f fs'. ?fs = f # fs' \<longrightarrow> (fside f = LeftSide \<longleftrightarrow> d < fkey f)"
    using zdesc_side [of "[]" d t] by blast
  have "?a \<notin> set (faddrs ?fs)" using fresh by (simp add: zdesc_addrs)
  from link_zrep [OF search(2) this nd side, unfolded st0(3-5)]
  obtain st1 st2 where st2: "rb_st st0 (Some ?a) (\<lambda>n. n\<lparr>rb_parent := ctx_ptr ?fs\<rparr>) = Some st1"
     "(if ctx_ptr ?fs = None then Some (st1\<lparr>rb_root := Some ?a\<rparr>)
      else do {
        pn \<leftarrow> rb_ld st1 (ctx_ptr ?fs);
        if d < rb_data pn then rb_st st1 (ctx_ptr ?fs) (\<lambda>n. n\<lparr>rb_left := Some ?a\<rparr>)
        else rb_st st1 (ctx_ptr ?fs) (\<lambda>n. n\<lparr>rb_right := Some ?a\<rparr>) }) = Some st2"
     "zrep st2 ?fs (ctx_ptr ?fs) (Some ?a) (PNode PLeaf ?a RED d PLeaf)"
     "rb_next st2 = Suc ?a" "rb_mem st2 = rb_mem st - 1" "rbstate.more st2 = rbstate.more st"
    by blast
  have "root_black ?fs"
    using black by (intro root_black_zdesc) (auto simp: root_black_def)
  from fixinsertion_zfix [OF st2(3) this] obtain st3 where
    st3: "fixinsertion_with rotl rotr st2 (Some ?a) = Some st3"
      "zrep st3 [] None (rb_root st3) (zinsert ?a d t)"
      "same st2 st3 (k * int (zrots (PNode PLeaf ?a RED d PLeaf) ?fs))"
    by (auto simp: zinsert_def)
  have "set (paddrs (zinsert ?a d t)) = insert ?a (set (paddrs t))"
    by (simp add: zinsert_def set_paddrs_zfix zdesc_addrs)
  then have "rb_rep st3 (zinsert ?a d t)"
    using st3(2,3) st2(4) rep by (auto simp: rb_rep_def same_def)
  moreover have "insertion_with (fixinsertion_with rotl rotr) st d = Some st3"
    using st0(1) search(1) st2(1,2) st3(1) by (simp add: insertion_with_def)
  ultimately show ?thesis
    using st3(3) st2(4-6) rots_more [OF st2(6)] by (auto simp: same_def)
qed

end

section \<open>The rotations of the two files keep the contract\<close>

lemma rotationcount_more:
  "rbstate.more st' = rbstate.more st \<Longrightarrow> rotationcount st' = rotationcount (st :: rbcstate)"
  by (cases st; cases st') simp

interpretation rb1: rb_rotations "rotateleft :: unit rotation" rotateright "\<lambda>_. 0" 0
proof unfold_locales
qed (use rotateleft_zrep rotateright_zrep in fastforce)+

interpretation rb2: rb_rotations rotateleft2 rotateright2 rotationcount 1
proof unfold_locales
  fix st :: rbcstate and fs par x a c d b y c' d' e
  assume "zrep st fs par (Some x) (PNode a x c d (PNode b y c' d' e))"
  from rotateleft_zrep [OF this] obtain st' where "rotateleft st (Some x) = Some st'"
     "zrep st' fs par (Some y) (PNode (PNode a x c d b) y c' d' e)"
     "rb_next st' = rb_next st" "rb_mem st' = rb_mem st" "rbstate.more st' = rbstate.more st"
    by blast
  then show "\<exists>st'. rotateleft2 st (Some x) = Some st' \<and>
        zrep st' fs par (Some y) (PNode (PNode a x c d b) y c' d' e) \<and>
        rb_next st' = rb_next st \<and> rb_mem st' = rb_mem st \<and> rotationcount st' = rotationcount st + 1"
    using rotationcount_more [of st' st] by (auto simp: rotateleft2_def zrep_def)
next
  fix st :: rbcstate and fs par x a c d b y c' d' e
  assume "zrep st fs par (Some y) (PNode (PNode a x c d b) y c' d' e)"
  from rotateright_zrep [OF this] obtain st' where "rotateright st (Some y) = Some st'"
     "zrep st' fs par (Some x) (PNode a x c d (PNode b y c' d' e))"
     "rb_next st' = rb_next st" "rb_mem st' = rb_mem st" "rbstate.more st' = rbstate.more st"
    by blast
  then show "\<exists>st'. rotateright2 st (Some y) = Some st' \<and>
        zrep st' fs par (Some x) (PNode a x c d (PNode b y c' d' e)) \<and>
        rb_next st' = rb_next st \<and> rb_mem st' = rb_mem st \<and> rotationcount st' = rotationcount st + 1"
    using rotationcount_more [of st' st] by (auto simp: rotateright2_def zrep_def)
qed (rule rotationcount_more)

section \<open>Traversals\<close>

fun pcolored :: "ptree \<Rightarrow> (int \<times> color) list" where
  "pcolored PLeaf = []"
| "pcolored (PNode l a c d r) = pcolored l @ (d, c) # pcolored r"

fun plevels :: "ptree \<Rightarrow> nat \<Rightarrow> (nat \<times> int \<times> color) list" where
  "plevels PLeaf i = []"
| "plevels (PNode l a c d r) i = plevels r (Suc i) @ (i, d, c) # plevels l (Suc i)"

lemma map_fst_pcolored: "map fst (pcolored t) = pinorder t"
  by (induction t) auto

lemma map_plevels: "map (fst \<circ> snd) (plevels t i) = rev (pinorder t)"
  by (induction t arbitrary: i) auto

lemma inorder_tree: "is_tree (rb_cells st) par p t \<Longrightarrow> inorder st p = Some (pcolored t)"
  by (induction t arbitrary: par p) (subst inorder.simps; fastforce simp: rb_ld_def)+

lemma printtree_tree: "is_tree (rb_cells st) par p t \<Longrightarrow> printtree st p i = Some (plevels t i)"
  by (induction t arbitrary: par p i) (subst printtree.simps; fastforce simp: rb_ld_def)+

end
