(* ===== verification/RB_Programs.thy ===== *)
theory RB_Programs
  imports RB_Refine
begin

text \<open>
  What the two red-black tree programs do: insertion never follows a bad pointer, returns,
  and implements the tree insertion; the programs print the keys in order; the tree
  keeps the red-black invariants as long as no repair takes an inner (zig-zag) case, and
  loses them there.
\<close>

section \<open>One insertion\<close>

lemma tcolor_zinsert: "tcolor (zinsert a d t) = BLACK"
  by (simp add: zinsert_def tcolor_ppaint)

text \<open>C1: \<open>insertion\<close> of \<^verbatim>\<open>RD-Black-tree-1.c\<close>, on a heap that holds a search tree with a black
  root and with memory for one node, follows no bad pointer, returns, and leaves a heap
  that holds the tree of the abstract insertion, parent pointers and sharing included;
  its root is black again.\<close>

theorem insertion_refines:
  assumes "rb_rep st t" and "tcolor t = BLACK" and "0 < rb_mem st"
  shows "\<exists>st'. insertion st d = Some st' \<and> rb_rep st' (zinsert (rb_next st) d t) \<and>
     tcolor (zinsert (rb_next st) d t) = BLACK \<and> rb_mem st' = rb_mem st - 1"
  using rb1.insertion_zinsert [OF assms, of d]
  by (auto simp: insertion_def fixinsertion_def tcolor_zinsert)

lemma rb_rep_init: "rb_rep (init_rb mem) PLeaf" "rb_rep (init_rb2 mem) PLeaf"
  by (simp_all add: rb_rep_def zrep_def init_rb_def init_rb2_def)

theorem insertion_refines_witness:
  "\<exists>st'. insertion (init_rb 1) 7 = Some st' \<and> rb_rep st' (zinsert 0 7 PLeaf) \<and>
     tcolor (zinsert 0 7 PLeaf) = BLACK \<and> rb_mem st' = 0"
  using insertion_refines [of "init_rb 1" PLeaf 7] rb_rep_init(1) [of 1] by (simp add: init_rb_def)

text \<open>The same step for the counting program, with the number of rotations.\<close>

lemma insertion2_step:
  assumes "rb_rep st t" and "tcolor t = BLACK" and "0 < rb_mem st"
  shows "\<exists>st'. insertion2 st d = Some st' \<and> rb_rep st' (zinsert (rb_next st) d t) \<and>
     rb_mem st' = rb_mem st - 1 \<and> rb_next st' = Suc (rb_next st) \<and>
     rotationcount st' = rotationcount st +
       int (zrots (PNode PLeaf (rb_next st) RED d PLeaf) (zdesc d t []))"
  using rb2.insertion_zinsert [OF assms, of d]
  by (auto simp: insertion2_def fixinsertion2_def)

lemma zrots_le_2: "zrots t fs \<le> 2"
  by (induction t fs rule: zrots.induct) auto

text \<open>One insertion of the counting program adds at most two to \<open>rotationcount\<close>, and
  exactly the number of rotations of the abstract repair.\<close>

theorem insertion2_rotations:
  assumes "rb_rep st t" and "tcolor t = BLACK" and "0 < rb_mem st"
  shows "\<exists>st'. insertion2 st d = Some st' \<and> rb_rep st' (zinsert (rb_next st) d t) \<and>
     rotationcount st' = rotationcount st +
       int (zrots (PNode PLeaf (rb_next st) RED d PLeaf) (zdesc d t [])) \<and>
     rotationcount st' \<le> rotationcount st + 2"
  using insertion2_step [OF assms, of d]
    zrots_le_2 [of "PNode PLeaf (rb_next st) RED d PLeaf" "zdesc d t []"]
  by force

theorem insertion2_rotations_witness:
  "\<exists>st'. insertion2 (init_rb2 1) 7 = Some st' \<and> rb_rep st' (zinsert 0 7 PLeaf) \<and>
     rotationcount st' = 0 \<and> rotationcount st' \<le> 0 + 2"
  using insertion2_rotations [of "init_rb2 1" PLeaf 7] rb_rep_init(2) [of 1] by (simp add: init_rb2_def)

section \<open>Whole programs\<close>

fun zinserts :: "nat \<Rightarrow> int list \<Rightarrow> ptree \<Rightarrow> ptree" where
  "zinserts a [] t = t"
| "zinserts a (d # ds) t = zinserts (Suc a) ds (zinsert a d t)"

lemma tcolor_zinserts: "tcolor t = BLACK \<Longrightarrow> tcolor (zinserts a ds t) = BLACK"
  by (induction ds arbitrary: a t) (auto simp: tcolor_zinsert)

lemma pinorder_zinserts:
  "sorted (pinorder t) \<Longrightarrow> pinorder (zinserts a ds t) = sort (pinorder t @ ds)"
proof (induction ds arbitrary: a t)
  case Nil
  then show ?case by (simp add: sorted_sort_id)
next
  case (Cons d ds)
  have p: "pinorder (zinsert a d t) = insort d (pinorder t)"
    by (rule pinorder_zinsert [OF Cons.prems])
  then have "sorted (pinorder (zinsert a d t))"
    using Cons.prems by (simp add: sorted_insort)
  with Cons.IH [of "zinsert a d t" "Suc a"] p have
    "pinorder (zinserts a (d # ds) t) = sort (insort d (pinorder t) @ ds)" by simp
  also have "\<dots> = sort (pinorder t @ d # ds)"
    by (rule properties_for_sort) (simp_all)
  finally show ?case .
qed

lemma rb2_fill_rep:
  assumes "rb_rep st t" and "tcolor t = BLACK" and "length ds \<le> rb_mem st"
  shows "\<exists>st'. rb2_fill st ds = Some st' \<and> rb_rep st' (zinserts (rb_next st) ds t) \<and>
     rotationcount st' \<le> rotationcount st + 2 * int (length ds)"
  using assms
proof (induction ds arbitrary: st t)
  case (Cons d ds)
  then have "0 < rb_mem st" by simp
  from insertion2_step [OF Cons.prems(1,2) this, of d]
    zrots_le_2 [of "PNode PLeaf (rb_next st) RED d PLeaf" "zdesc d t []"]
  obtain st1 where st1: "insertion2 st d = Some st1" "rb_rep st1 (zinsert (rb_next st) d t)"
    "rb_mem st1 = rb_mem st - 1" "rb_next st1 = Suc (rb_next st)"
    "rotationcount st1 \<le> rotationcount st + 2"
    by force
  have "length ds \<le> rb_mem st1" using Cons.prems(3) st1(3) by simp
  from Cons.IH [OF st1(2) tcolor_zinsert this] obtain st2 where
    "rb2_fill st1 ds = Some st2" "rb_rep st2 (zinserts (Suc (rb_next st)) ds (zinsert (rb_next st) d t))"
    "rotationcount st2 \<le> rotationcount st1 + 2 * int (length ds)"
    using st1(4) by auto
  with st1 show ?case by auto
qed auto

lemma rb_rep_tree: "rb_rep st t \<Longrightarrow> is_tree (rb_cells st) None (rb_root st) t"
  by (simp add: rb_rep_def zrep_def)

text \<open>C19: \<open>main\<close> of \<^verbatim>\<open>R-Blacktree-file-2.c\<close>, whatever integers the file holds and with memory for
  as many nodes, returns 0 and prints the file's integers in ascending order, the tree's
  lines hold them in descending order, and at most two rotations per integer were
  counted.\<close>

theorem rb2_main_sorts:
  assumes "length nums \<le> mem"
  shows "\<exists>ino rots tree. rb2_main mem (Some nums) = Some (0, Some (ino, rots, tree)) \<and>
     map fst ino = sort nums \<and> map (fst \<circ> snd) tree = rev (sort nums) \<and>
     rots \<le> 2 * int (length nums)"
proof -
  let ?t = "zinserts 0 nums PLeaf"
  obtain st where st: "rb2_fill (init_rb2 mem) nums = Some st" "rb_rep st ?t"
    "rotationcount st \<le> 2 * int (length nums)"
    using rb2_fill_rep [OF rb_rep_init(2) _, of nums mem] assms by (auto simp: init_rb2_def)
  have "pinorder ?t = sort nums" by (simp add: pinorder_zinserts)
  with st inorder_tree [OF rb_rep_tree [OF st(2)]] printtree_tree [OF rb_rep_tree [OF st(2)], of 0]
  show ?thesis
    by (simp add: rb2_main_def printtree2_def map_fst_pcolored map_plevels [unfolded comp_def] comp_def)
qed

theorem rb2_main_sorts_witness:
  "\<exists>ino rots tree. rb2_main 3 (Some [10, 30, 20]) = Some (0, Some (ino, rots, tree)) \<and>
     map fst ino = [10, 20, 30] \<and> map (fst \<circ> snd) tree = [30, 20, 10] \<and> rots \<le> 6"
  using rb2_main_sorts [of "[10, 30, 20]" 3] by simp

lemma rb1_run_rep:
  assumes "rb_rep st t" and "tcolor t = BLACK" and "sorted (pinorder t)" and "length ds \<le> rb_mem st"
  shows "\<exists>st' outs. rb1_run st ds = Some (st', outs) \<and> rb_rep st' (zinserts (rb_next st) ds t) \<and>
     map (map (fst \<circ> snd)) outs =
       map (\<lambda>i. rev (sort (pinorder t @ take (Suc i) ds))) [0..<length ds]"
  using assms
proof (induction ds arbitrary: st t)
  case (Cons d ds)
  let ?t = "zinsert (rb_next st) d t"
  have "0 < rb_mem st" using Cons.prems by simp
  from rb1.insertion_zinsert [OF Cons.prems(1,2) this, of d] obtain st1 where
    st1: "insertion st d = Some st1" "rb_rep st1 ?t" "rb_mem st1 = rb_mem st - 1"
      "rb_next st1 = Suc (rb_next st)"
    by (auto simp: insertion_def fixinsertion_def)
  have p: "pinorder ?t = sort (pinorder t @ [d])"
    using pinorder_zinserts [OF Cons.prems(3), of "rb_next st" "[d]"] by simp
  then have s: "sorted (pinorder ?t)" by simp
  have len: "length ds \<le> rb_mem st1" using Cons.prems(4) st1(3) by simp
  from Cons.IH [OF st1(2) tcolor_zinsert s len, unfolded st1(4)] obtain st2 outs where
    st2: "rb1_run st1 ds = Some (st2, outs)" "rb_rep st2 (zinserts (Suc (rb_next st)) ds ?t)"
      "map (map (fst \<circ> snd)) outs = map (\<lambda>i. rev (sort (pinorder ?t @ take (Suc i) ds))) [0..<length ds]"
    by blast
  have "sort (pinorder ?t @ take (Suc i) ds) = sort (pinorder t @ take (Suc (Suc i)) (d # ds))" for i
    by (rule properties_for_sort) (simp_all add: p)
  with st2(3) have "map (map (fst \<circ> snd)) outs =
      map (\<lambda>i. rev (sort (pinorder t @ take (Suc (Suc i)) (d # ds)))) [0..<length ds]"
    by simp
  moreover have "map (fst \<circ> snd) (plevels ?t 0) = rev (sort (pinorder t @ take (Suc 0) (d # ds)))"
    by (simp add: map_plevels p)
  ultimately have "map (map (fst \<circ> snd)) (plevels ?t 0 # outs) =
      map (\<lambda>i. rev (sort (pinorder t @ take (Suc i) (d # ds)))) [0..<length (d # ds)]"
    by (simp add: upt_conv_Cons map_Suc_upt [symmetric] del: upt_Suc take_Suc_Cons)
  moreover have "rb1_run st (d # ds) = Some (st2, plevels ?t 0 # outs)"
    using st1(1) st2(1) printtree_tree [OF rb_rep_tree [OF st1(2)], of 0] by simp
  ultimately show ?case using st2(2) unfolding zinserts.simps by blast
qed auto

text \<open>The program of \<^verbatim>\<open>RD-Black-tree-1.c\<close>, for any values it is given: after each insertion
  it prints the values inserted so far, in descending order.\<close>

theorem rb1_run_prints_sorted:
  assumes "length vs \<le> mem"
  shows "\<exists>st outs. rb1_run (init_rb mem) vs = Some (st, outs) \<and>
     map (map (fst \<circ> snd)) outs = map (\<lambda>i. rev (sort (take (Suc i) vs))) [0..<length vs]"
  using rb1_run_rep [OF rb_rep_init(1), of vs mem] assms by (auto simp: init_rb_def)

theorem rb1_run_prints_sorted_witness:
  "\<exists>st outs. rb1_main 7 = Some (st, outs) \<and>
     map (map (fst \<circ> snd)) outs =
       [[10], [20, 10], [30, 20, 10], [30, 20, 15, 10], [30, 25, 20, 15, 10],
        [30, 25, 20, 15, 10, 5], [30, 25, 20, 15, 10, 5, 1]]"
  using rb1_run_prints_sorted [of rb1_values 7]
  by (simp add: rb1_main_def rb1_values_def upt_conv_Cons)

section \<open>The red-black invariants\<close>

text \<open>C27: an insertion whose repair never takes an inner case keeps the red-black invariants:
  no red node has a red child, every path to a leaf has the same number of black nodes,
  and the root is black.\<close>

theorem insertion_keeps_rbt:
  assumes "rb_rep st t" and "rbt t" and "0 < rb_mem st"
    and "zouter (PNode PLeaf (rb_next st) RED d PLeaf) (zdesc d t [])"
  shows "\<exists>st' t'. insertion st d = Some st' \<and> rb_rep st' t' \<and> rbt t' \<and>
     mset (pinorder t') = add_mset d (mset (pinorder t))"
proof -
  have "tcolor t = BLACK" using assms(2) by (simp add: rbt_def)
  from rb1.insertion_zinsert [OF assms(1) this assms(3), of d] rbt_zinsert [OF assms(2,4)]
    mset_zinsert [of "rb_next st" d t]
  show ?thesis
    unfolding insertion_def fixinsertion_def by blast
qed

theorem insertion_keeps_rbt_witness:
  "\<exists>st' t'. insertion (init_rb 1) 7 = Some st' \<and> rb_rep st' t' \<and> rbt t' \<and>
     mset (pinorder t') = {#7#}"
  using insertion_keeps_rbt [of "init_rb 1" PLeaf 7] rb_rep_init(1) [of 1]
  by (simp add: init_rb_def rbt_def zouter_def)

lemma zdesc_all_right:
  "\<forall>x\<in>set (pinorder t). x \<le> d \<Longrightarrow> \<forall>f\<in>set fs. fside f = RightSide \<Longrightarrow>
   \<forall>f\<in>set (zdesc d t fs). fside f = RightSide"
proof (induction d t fs rule: zdesc.induct)
  case (2 d l a c e r fs)
  have nl: "\<not> d < e" using "2.prems"(1) by auto
  have "\<forall>x\<in>set (pinorder r). x \<le> d"
    "\<forall>f\<in>set (Frame RightSide a c e l # fs). fside f = RightSide" using "2.prems" by auto
  from "2.IH"(2) [OF nl this] nl show ?case by simp
qed simp

lemma zrots_all_right: "\<forall>f\<in>set fs. fside f = RightSide \<Longrightarrow> zrots t fs \<le> 1"
  by (induction t fs rule: zrots.induct) auto

lemma rbt_zinserts_sorted:
  "rbt t \<Longrightarrow> sorted (pinorder t @ ds) \<Longrightarrow> rbt (zinserts a ds t)"
proof (induction ds arbitrary: a t)
  case (Cons d ds)
  then have "\<forall>x\<in>set (pinorder t). x \<le> d" "sorted (pinorder t)"
    by (auto simp: sorted_append)
  then have "zouter (PNode PLeaf a RED d PLeaf) (zdesc d t [])"
    using zrots_all_right [OF zdesc_all_right [of t d "[]"]] by (simp add: zouter_def)
  then have "rbt (zinsert a d t)" by (rule rbt_zinsert [OF Cons.prems(1)])
  moreover have "pinorder (zinsert a d t) = pinorder t @ [d]"
    using pinorder_zinserts [OF \<open>sorted (pinorder t)\<close>, of a "[d]"] Cons.prems(2)
    by (simp add: sorted_append sorted_sort_id)
  ultimately show ?case using Cons by simp
qed simp

text \<open>For a file whose integers ascend, the tree the program builds is a red-black tree.\<close>

theorem rb2_fill_sorted_rbt:
  assumes "sorted nums" and "length nums \<le> mem"
  shows "\<exists>st t. rb2_fill (init_rb2 mem) nums = Some st \<and> rb_rep st t \<and> rbt t \<and> pinorder t = nums"
proof -
  obtain st where "rb2_fill (init_rb2 mem) nums = Some st" "rb_rep st (zinserts 0 nums PLeaf)"
    using rb2_fill_rep [OF rb_rep_init(2), of nums mem] assms(2) by (auto simp: init_rb2_def)
  moreover have "rbt (zinserts 0 nums PLeaf)"
    using assms(1) by (intro rbt_zinserts_sorted) (simp_all add: rbt_def)
  moreover have "pinorder (zinserts 0 nums PLeaf) = nums"
    using assms(1) by (simp add: pinorder_zinserts sorted_sort_id)
  ultimately show ?thesis by blast
qed

theorem rb2_fill_sorted_rbt_witness:
  "\<exists>st t. rb2_fill (init_rb2 4) [1, 2, 3, 4] = Some st \<and> rb_rep st t \<and> rbt t \<and> pinorder t = [1, 2, 3, 4]"
  using rb2_fill_sorted_rbt [of "[1, 2, 3, 4]" 4] by simp

text \<open>The inner case breaks the invariants. After 10, 30, 20 the heap holds a tree in which
  the paths to the leaves have different numbers of black nodes: the source paints the
  node that the first rotation has moved down.\<close>

theorem rb2_inner_case_unbalanced:
  "\<exists>st t. rb2_fill (init_rb2 3) [10, 30, 20] = Some st \<and> rb_rep st t \<and> \<not> pinvh t \<and> \<not> rbt t"
proof -
  obtain st where "rb2_fill (init_rb2 3) [10, 30, 20] = Some st"
      "rb_rep st (zinserts 0 [10, 30, 20] PLeaf)"
    using rb2_fill_rep [OF rb_rep_init(2), of "[10, 30, 20]" 3] by (auto simp: init_rb2_def)
  moreover have "zinserts 0 [10, 30, 20] PLeaf =
      PNode (PNode PLeaf 0 RED 10 PLeaf) 2 BLACK 20 (PNode PLeaf 1 BLACK 30 PLeaf)"
    by (simp add: zinsert_def)
  then have "\<not> pinvh (zinserts 0 [10, 30, 20] PLeaf)" by simp
  ultimately show ?thesis by (auto simp: rbt_def)
qed

end
