(* ===== verification/C_Strings.thy ===== *)
theory C_Strings
  imports GT_Prelude
begin

text \<open>
  C strings and character arrays. An array is the list of its bytes; the string it holds
  ends at the first NUL (\<open>c_str\<close>). \<open>strncpy\<close> copies at most \<open>n\<close> bytes, stops at the
  source's NUL and pads with NULs; it writes no terminator when the source has \<open>n\<close> or
  more bytes.
\<close>

definition NUL :: char where
  "NUL = CHR 0x00"

definition c_str :: "char list \<Rightarrow> string" where
  "c_str b = takeWhile (\<lambda>c. c \<noteq> NUL) b"

definition strncpy :: "nat \<Rightarrow> char list \<Rightarrow> char list" where
  "strncpy n s = take n (c_str s) @ replicate (n - length (c_str s)) NUL"

text \<open>The idiom \<^verbatim>\<open>strncpy(b, s, n - 1); b[n - 1] = 0\<close> on an array of size \<open>n\<close>.\<close>

definition strncpy_term :: "nat \<Rightarrow> char list \<Rightarrow> char list" where
  "strncpy_term n s = strncpy (n - 1) s @ [NUL]"

text \<open>\<open>int c = *str\<close> for a signed \<open>char\<close>.\<close>

definition char_int :: "char \<Rightarrow> int" where
  "char_int c = (let n = of_char c in if n \<ge> 128 then n - 256 else n)"

text \<open>The decimal digits of \<open>n\<close>, as \<^verbatim>\<open>sprintf\<close> writes them.\<close>

fun dec_str :: "nat \<Rightarrow> string" where
  "dec_str n = (if n < 10 then [char_of (48 + n)] else dec_str (n div 10) @ [char_of (48 + n mod 10)])"

declare dec_str.simps [simp del]

lemma length_strncpy [simp]: "length (strncpy n s) = n"
  by (simp add: strncpy_def)

lemma c_str_no_NUL: "NUL \<notin> set (c_str b)"
  by (auto simp: c_str_def dest: set_takeWhileD)

lemma c_str_id: "NUL \<notin> set s \<Longrightarrow> c_str s = s"
  by (auto simp: c_str_def takeWhile_eq_all_conv)

lemma c_str_idem [simp]: "c_str (c_str b) = c_str b"
  by (rule c_str_id) (rule c_str_no_NUL)

lemma c_str_append_NUL: "NUL \<notin> set s \<Longrightarrow> c_str (s @ NUL # r) = s"
  unfolding c_str_def by (subst takeWhile_append2) auto

lemma c_str_replicate [simp]: "c_str (replicate n NUL) = []"
  by (cases n) (auto simp: c_str_def)

lemma c_str_append_replicate: "NUL \<notin> set s \<Longrightarrow> c_str (s @ replicate n NUL) = s"
  by (cases n) (auto simp: c_str_append_NUL c_str_id)

lemma c_str_strncpy: "c_str (strncpy n s) = take n (c_str s)"
  unfolding strncpy_def
  by (rule c_str_append_replicate) (meson c_str_no_NUL in_set_takeD)

lemma c_str_strncpy_term: "c_str (strncpy_term n s) = take (n - 1) (c_str s)"
proof -
  have nn: "NUL \<notin> set (take (n - 1) (c_str s))"
    by (meson c_str_no_NUL in_set_takeD)
  have "strncpy_term n s = take (n - 1) (c_str s) @ replicate (Suc (n - 1 - length (c_str s))) NUL"
    by (simp add: strncpy_term_def strncpy_def replicate_append_same)
  then show ?thesis using c_str_append_replicate [OF nn] by metis
qed

lemma strncpy_strncpy: "n \<le> m \<Longrightarrow> strncpy n (strncpy m s) = strncpy n s"
  by (simp add: strncpy_def [of n] c_str_strncpy min_def)

lemma strncpy_same: "length b = n \<Longrightarrow> strncpy n b = c_str b @ replicate (n - length (c_str b)) NUL"
  by (auto simp: strncpy_def c_str_def length_takeWhile_le)

end
