(* ===== verification/Mvcc.thy ===== *)
theory Mvcc
  imports C_Strings
begin

text \<open>
  The in-memory multi-version store of \<^verbatim>\<open>src/mvcc-in-memory-key-value.c\<close>: its data and its
  operations.

  The global variables are the fields of the record \<open>mvcc\<close>; a version list is the list of
  its nodes, newest first; a \<open>Transaction *\<close> is \<open>None\<close> for \<open>NULL\<close> and else an index into
  \<open>txs\<close>. Timestamps are \<open>unsigned long\<close>: integers from 0 to \<open>2 ^ 64 - 1\<close> whose increment
  wraps. Every operation is the whole function, as it runs when nothing comes in between, which is how \<open>main\<close> calls
  it. \<open>tx_write\<close> and \<open>tx_commit\<close> are composed of the sections they run under \<open>global_lock\<close>, which are definitions of their own:
  \<open>try_acquire_lock\<close>, \<open>write_cleanup\<close> and \<open>write_buffered\<close>; \<open>next_ts\<close>, which takes no lock, and \<open>commit_locked\<close>. The threads
  of \<open>Mvcc_Threads\<close> interleave these sections. Messages are not part of the state.
\<close>

definition MAX_KEYS :: nat where "MAX_KEYS = 5"
definition MAX_TRANSACTIONS :: nat where "MAX_TRANSACTIONS = 5"
definition MAX_WRITES_PER_TX :: nat where "MAX_WRITES_PER_TX = 8"
definition KEY_NAME_LEN :: nat where "KEY_NAME_LEN = 16"
definition VALUE_LEN :: nat where "VALUE_LEN = 32"
definition ULONG_MAX :: int where "ULONG_MAX = 2 ^ 64 - 1"

lemmas mvcc_consts = MAX_KEYS_def MAX_TRANSACTIONS_def MAX_WRITES_PER_TX_def KEY_NAME_LEN_def
  VALUE_LEN_def

record version =
  v_value :: "char list"
  begin_ts :: int
  end_ts :: int

record kvpair =
  kv_name :: string
  versions :: "version list"
  locked_by :: int

datatype txstate = TX_UNUSED | TX_ACTIVE | TX_ABORTED | TX_COMMITTED

record transaction =
  tx_id :: int
  tx_state :: txstate
  start_ts :: int
  write_count :: nat
  write_keys :: "nat list"
  write_values :: "char list list"

record mvcc =
  store :: "kvpair list"
  txs :: "transaction list"
  wait_for :: "bool list list"
  global_ts :: int

text \<open>\<open>atomic_fetch_add(&global_ts, 1)\<close>: the old value and the state after it.\<close>

definition next_ts :: "mvcc \<Rightarrow> int \<times> mvcc" where
  "next_ts s = (global_ts s, s\<lparr>global_ts := (global_ts s + 1) mod 2 ^ 64\<rparr>)"

fun find_key_from :: "kvpair list \<Rightarrow> string \<Rightarrow> int \<Rightarrow> int" where
  "find_key_from [] name i = -1"
| "find_key_from (k # ks) name i = (if kv_name k = name then i else find_key_from ks name (i + 1))"

definition find_key_index :: "mvcc \<Rightarrow> string \<Rightarrow> int" where
  "find_key_index s name = find_key_from (store s) name 0"

text \<open>\<open>snprintf(name, KEY_NAME_LEN, "key%d", i)\<close> for a one-digit \<open>i\<close>.\<close>

definition key_name :: "nat \<Rightarrow> string" where
  "key_name i = take (KEY_NAME_LEN - 1) (''key'' @ [char_of (48 + i)])"

definition init_store :: "mvcc \<Rightarrow> mvcc" where
  "init_store s = s\<lparr>
     store := map (\<lambda>i. \<lparr>kv_name = key_name i,
                        versions = [\<lparr>v_value = strncpy VALUE_LEN ''-'', begin_ts = 1, end_ts = ULONG_MAX\<rparr>],
                        locked_by = -1\<rparr>) [0..<MAX_KEYS],
     txs := map (\<lambda>(i, t). t\<lparr>tx_id := int i, tx_state := TX_UNUSED, write_count := 0\<rparr>)
              (zip [0..<MAX_TRANSACTIONS] (txs s)),
     wait_for := replicate MAX_TRANSACTIONS (replicate MAX_TRANSACTIONS False)\<rparr>"

text \<open>
  Static storage: before \<open>init_store\<close> every field is zero and \<open>global_ts\<close> is 1.
\<close>

definition mvcc_static :: mvcc where
  "mvcc_static = \<lparr>
     store = replicate MAX_KEYS \<lparr>kv_name = [], versions = [], locked_by = 0\<rparr>,
     txs = replicate MAX_TRANSACTIONS \<lparr>tx_id = 0, tx_state = TX_UNUSED, start_ts = 0, write_count = 0,
             write_keys = replicate MAX_WRITES_PER_TX 0,
             write_values = replicate MAX_WRITES_PER_TX (replicate VALUE_LEN NUL)\<rparr>,
     wait_for = replicate MAX_TRANSACTIONS (replicate MAX_TRANSACTIONS False),
     global_ts = 1\<rparr>"

section \<open>Deadlock detection\<close>

text \<open>
  \<open>dfs_cycle\<close> recurses on nodes that are not visited yet and marks each before it recurses,
  so its depth is bounded by the number of transactions. The fuel is that depth; \<open>None\<close>
  is running out of it. The result is the returned flag with the two arrays.
\<close>

type_synonym dfs_result = "(bool \<times> bool list \<times> bool list) option"

fun dfs_cycle :: "nat \<Rightarrow> bool list list \<Rightarrow> nat \<Rightarrow> bool list \<Rightarrow> bool list \<Rightarrow> dfs_result"
and dfs_edges :: "nat \<Rightarrow> bool list list \<Rightarrow> nat \<Rightarrow> nat list \<Rightarrow> bool list \<Rightarrow> bool list \<Rightarrow> dfs_result" where
  "dfs_cycle 0 w u visited recStack = None"
| "dfs_cycle (Suc n) w u visited recStack =
     dfs_edges n w u [0..<MAX_TRANSACTIONS] (visited[u := True]) (recStack[u := True])"
| "dfs_edges n w u [] visited recStack = Some (False, visited, recStack[u := False])"
| "dfs_edges n w u (v # vs) visited recStack =
     (if w ! u ! v then
        if \<not> visited ! v then
          (case dfs_cycle n w v visited recStack of
             None \<Rightarrow> None
           | Some (True, visited', recStack') \<Rightarrow> Some (True, visited', recStack')
           | Some (False, visited', recStack') \<Rightarrow>
               if recStack' ! v then Some (True, visited', recStack')
               else dfs_edges n w u vs visited' recStack')
        else if recStack ! v then Some (True, visited, recStack)
        else dfs_edges n w u vs visited recStack
      else dfs_edges n w u vs visited recStack)"

fun dfs_roots :: "bool list list \<Rightarrow> nat list \<Rightarrow> bool list \<Rightarrow> bool list \<Rightarrow> bool option" where
  "dfs_roots w [] visited recStack = Some False"
| "dfs_roots w (i # is) visited recStack =
     (if \<not> visited ! i then
        (case dfs_cycle MAX_TRANSACTIONS w i visited recStack of
           None \<Rightarrow> None
         | Some (True, _, _) \<Rightarrow> Some True
         | Some (False, visited', recStack') \<Rightarrow> dfs_roots w is visited' recStack')
      else dfs_roots w is visited recStack)"

definition detect_deadlock :: "bool list list \<Rightarrow> bool option" where
  "detect_deadlock w = dfs_roots w [0..<MAX_TRANSACTIONS]
     (replicate MAX_TRANSACTIONS False) (replicate MAX_TRANSACTIONS False)"

section \<open>Transactions\<close>

text \<open>\<open>wait_for[id][i] = wait_for[i][id] = 0\<close> for all \<open>i\<close>.\<close>

definition clear_edges :: "bool list list \<Rightarrow> nat \<Rightarrow> bool list list" where
  "clear_edges w t = (map (\<lambda>row. row[t := False]) w)[t := replicate MAX_TRANSACTIONS False]"

definition clear_row :: "bool list list \<Rightarrow> nat \<Rightarrow> bool list list" where
  "clear_row w t = w[t := replicate MAX_TRANSACTIONS False]"

definition release_locks :: "kvpair list \<Rightarrow> int \<Rightarrow> kvpair list" where
  "release_locks ks t = map (\<lambda>k. if locked_by k = t then k\<lparr>locked_by := -1\<rparr> else k) ks"

definition upd_tx :: "mvcc \<Rightarrow> nat \<Rightarrow> (transaction \<Rightarrow> transaction) \<Rightarrow> mvcc" where
  "upd_tx s t f = s\<lparr>txs := (txs s)[t := f (txs s ! t)]\<rparr>"

definition begin_tx :: "mvcc \<Rightarrow> int \<Rightarrow> mvcc \<times> nat option" where
  "begin_tx s i =
     (if i < 0 \<or> i \<ge> int MAX_TRANSACTIONS then (s, None)
      else
        let t = nat i;
            (ts, s) = next_ts s;
            s = upd_tx s t (\<lambda>x. x\<lparr>tx_id := i, tx_state := TX_ACTIVE, start_ts := ts, write_count := 0\<rparr>)
        in (s\<lparr>wait_for := clear_edges (wait_for s) t\<rparr>, Some t))"

text \<open>
  \<open>try_acquire_lock\<close>: 0 acquired, 1 blocked, -1 a cycle in the wait-for graph. The outer
  \<open>None\<close> is the search running out of fuel.
\<close>

definition try_acquire_lock :: "mvcc \<Rightarrow> nat \<Rightarrow> nat \<Rightarrow> (mvcc \<times> int) option" where
  "try_acquire_lock s t kidx =
     (let me = tx_id (txs s ! t); owner = locked_by (store s ! kidx) in
      if owner = -1 \<or> owner = me then
        Some (s\<lparr>store := (store s)[kidx := (store s ! kidx)\<lparr>locked_by := me\<rparr>],
                wait_for := clear_row (wait_for s) (nat me)\<rparr>, 0)
      else do {
        let w = (wait_for s)[nat me := (wait_for s ! nat me)[nat owner := True]];
        cycle \<leftarrow> detect_deadlock w;
        Some (s\<lparr>wait_for := w\<rparr>, if cycle then -1 else 1) })"

text \<open>The search in the write buffer: the first \<open>i < write_count\<close> with \<open>write_keys[i] = kidx\<close>.\<close>

definition own_write :: "transaction \<Rightarrow> nat \<Rightarrow> nat option" where
  "own_write x kidx = find (\<lambda>i. write_keys x ! i = kidx) [0..<write_count x]"

definition visible :: "int \<Rightarrow> version \<Rightarrow> bool" where
  "visible ts v \<longleftrightarrow> begin_ts v \<le> ts \<and> ts < end_ts v"

text \<open>
  \<open>tx_read\<close>: the return code and the caller's buffer of \<open>out_len\<close> bytes, which is written
  only when the code is 0.
\<close>

definition tx_read :: "mvcc \<Rightarrow> nat option \<Rightarrow> string \<Rightarrow> char list \<Rightarrow> int \<times> char list" where
  "tx_read s tp kname out =
     (case tp of
        None \<Rightarrow> (-1, out)
      | Some t \<Rightarrow>
          let x = txs s ! t in
          if tx_state x \<noteq> TX_ACTIVE then (-1, out)
          else
            let kidx = find_key_index s kname in
            if kidx < 0 then (-1, out)
            else
              (case own_write x (nat kidx) of
                 Some i \<Rightarrow> (0, strncpy (length out) (write_values x ! i))
               | None \<Rightarrow>
                   (case find (visible (start_ts x)) (versions (store s ! nat kidx)) of
                      Some v \<Rightarrow> (0, strncpy (length out) (v_value v))
                    | None \<Rightarrow> (-1, out))))"

text \<open>The two further sections of \<open>tx_write\<close>: after a deadlock, and after the lock of the key was acquired.\<close>

definition write_cleanup :: "mvcc \<Rightarrow> nat \<Rightarrow> mvcc" where
  "write_cleanup s t =
     (let me = tx_id (txs s ! t) in
      s\<lparr>wait_for := clear_edges (wait_for s) (nat me), store := release_locks (store s) me\<rparr>)"

definition write_buffered :: "mvcc \<Rightarrow> nat \<Rightarrow> nat \<Rightarrow> char list \<Rightarrow> mvcc \<times> int" where
  "write_buffered s t kidx value =
     (case own_write (txs s ! t) kidx of
        Some i \<Rightarrow> (upd_tx s t (\<lambda>x. x\<lparr>write_values := (write_values x)[i := strncpy VALUE_LEN value]\<rparr>), 0)
      | None \<Rightarrow>
          if write_count (txs s ! t) \<ge> MAX_WRITES_PER_TX then (s, -1)
          else
            (upd_tx s t (\<lambda>x. x\<lparr>
               write_keys := (write_keys x)[write_count x := kidx],
               write_values := (write_values x)[write_count x := strncpy VALUE_LEN value],
               write_count := write_count x + 1\<rparr>), 0))"

definition tx_write :: "mvcc \<Rightarrow> nat option \<Rightarrow> string \<Rightarrow> char list \<Rightarrow> (mvcc \<times> int) option" where
  "tx_write s tp kname value =
     (case tp of
        None \<Rightarrow> Some (s, -1)
      | Some t \<Rightarrow>
          if tx_state (txs s ! t) \<noteq> TX_ACTIVE then Some (s, -1)
          else
            let ki = find_key_index s kname in
            if ki < 0 then Some (s, -1)
            else do {
              let kidx = nat ki;
              (s, lock_res) \<leftarrow> try_acquire_lock s t kidx;
              if lock_res = -1 then
                let s = upd_tx s t (\<lambda>x. x\<lparr>tx_state := TX_ABORTED\<rparr>) in Some (write_cleanup s t, -1)
              else if lock_res = 1 then Some (s, 1)
              else Some (write_buffered s t kidx value) })"

definition install_version :: "int \<Rightarrow> nat \<times> char list \<Rightarrow> kvpair list \<Rightarrow> kvpair list" where
  "install_version ts = (\<lambda>(kidx, val) ks.
     let k = ks ! kidx;
         newv = \<lparr>v_value = strncpy VALUE_LEN val, begin_ts = ts, end_ts = ULONG_MAX\<rparr>;
         old = (case versions k of [] \<Rightarrow> [] | v # vs \<Rightarrow> v\<lparr>end_ts := ts\<rparr> # vs)
     in ks[kidx := k\<lparr>versions := newv # old\<rparr>])"

definition buffered :: "transaction \<Rightarrow> (nat \<times> char list) list" where
  "buffered x = take (write_count x) (zip (write_keys x) (write_values x))"

text \<open>The locked section of \<open>tx_commit\<close>, with the timestamp taken before it.\<close>

definition commit_locked :: "mvcc \<Rightarrow> nat \<Rightarrow> int \<Rightarrow> mvcc" where
  "commit_locked s t commit_ts =
     (let x = txs s ! t;
          ks = fold (install_version commit_ts) (buffered x) (store s);
          s = s\<lparr>store := release_locks ks (tx_id x),
                wait_for := clear_edges (wait_for s) (nat (tx_id x))\<rparr>
      in upd_tx s t (\<lambda>x. x\<lparr>tx_state := TX_COMMITTED\<rparr>))"

definition tx_commit :: "mvcc \<Rightarrow> nat option \<Rightarrow> mvcc \<times> int" where
  "tx_commit s tp =
     (case tp of
        None \<Rightarrow> (s, -1)
      | Some t \<Rightarrow>
          if tx_state (txs s ! t) \<noteq> TX_ACTIVE then (s, -1)
          else let (commit_ts, s) = next_ts s in (commit_locked s t commit_ts, 0))"

definition tx_abort :: "mvcc \<Rightarrow> nat option \<Rightarrow> mvcc" where
  "tx_abort s tp =
     (case tp of
        None \<Rightarrow> s
      | Some t \<Rightarrow>
          let me = tx_id (txs s ! t);
              s = s\<lparr>store := release_locks (store s) me, wait_for := clear_edges (wait_for s) (nat me)\<rparr>
          in upd_tx s t (\<lambda>x. x\<lparr>write_count := 0, tx_state := TX_ABORTED\<rparr>))"

text \<open>\<open>dump_store\<close>: per key its name, its lock, and for each version the value, the begin and
  whether the end prints as \<^verbatim>\<open>INF\<close>.\<close>

definition dump_store :: "mvcc \<Rightarrow> (string \<times> int \<times> (string \<times> int \<times> bool) list) list" where
  "dump_store s = map (\<lambda>k. (kv_name k, locked_by k,
      map (\<lambda>v. (c_str (v_value v), begin_ts v, end_ts v = ULONG_MAX)) (versions k))) (store s)"

text \<open>\<open>main\<close>: the two reads of \<open>key0\<close> by transaction 0 and the final state.\<close>

definition mvcc_main :: "(string \<times> string \<times> mvcc) option" where
  "mvcc_main = do {
     let s = init_store mvcc_static;
     let (s, t0) = begin_tx s 0;
     let (s, t1) = begin_tx s 1;
     let buf = replicate VALUE_LEN NUL;
     let (_, buf1) = tx_read s t0 ''key0'' buf;
     (s, _) \<leftarrow> tx_write s t1 ''key0'' ''value_from_t1'';
     let (s, _) = tx_commit s t1;
     let (_, buf2) = tx_read s t0 ''key0'' buf1;
     (s, _) \<leftarrow> tx_write s t0 ''key1'' ''t0_writes_key1'';
     (s, _) \<leftarrow> tx_write s t1 ''key2'' ''t1_writes_key2'';
     (s, r0) \<leftarrow> tx_write s t0 ''key2'' ''t0_try_key2'';
     (s, r1) \<leftarrow> tx_write s t1 ''key1'' ''t1_try_key1'';
     let s = (if tx_state (txs s ! the t0) = TX_ACTIVE then fst (tx_commit s t0) else tx_abort s t0);
     let s = (if tx_state (txs s ! the t1) = TX_ACTIVE then fst (tx_commit s t1) else tx_abort s t1);
     Some (c_str buf1, c_str buf2, s) }"

end
