(* ===== verification/Mvcc_Deadlock.thy ===== *)
theory Mvcc_Deadlock
  imports Mvcc
begin

text \<open>
  Correctness of the deadlock detection of \<^verbatim>\<open>mvcc-in-memory-key-value.c\<close>: the depth-first
  search ends within its fuel and answers true exactly when the wait-for graph has a
  cycle. The nodes that are visited and off the stack are closed under edges and carry
  no cycle; every node on the stack reaches the current one.
\<close>

definition marked :: "bool list \<Rightarrow> nat set" where
  "marked xs = {i. i < length xs \<and> xs ! i}"

definition wedges :: "bool list list \<Rightarrow> (nat \<times> nat) set" where
  "wedges w = {(u, v). u < MAX_TRANSACTIONS \<and> v < MAX_TRANSACTIONS \<and> w ! u ! v}"

lemma marked_set [simp]: "i < length xs \<Longrightarrow> marked (xs[i := True]) = insert i (marked xs)"
  "marked (xs[i := False]) = marked xs - {i}"
  by (auto simp: marked_def nth_list_update) (metis list_update_beyond not_le nth_list_update)+

lemma marked_less: "i \<in> marked xs \<Longrightarrow> i < length xs"
  by (simp add: marked_def)

lemma marked_nth: "i < length xs \<Longrightarrow> i \<in> marked xs \<longleftrightarrow> xs ! i"
  by (simp add: marked_def)

lemma finite_marked [simp]: "finite (marked xs)"
  by (simp add: marked_def)

lemma marked_replicate [simp]: "marked (replicate n False) = {}"
  by (simp add: marked_def)

definition done_set :: "(nat \<times> nat) set \<Rightarrow> nat set \<Rightarrow> bool" where
  "done_set E B \<longleftrightarrow> (\<forall>b\<in>B. \<forall>v. (b, v) \<in> E \<longrightarrow> v \<in> B) \<and> acyclic (E \<inter> B \<times> UNIV)"

lemma done_path:
  assumes "\<forall>b\<in>B. \<forall>v. (b, v) \<in> E \<longrightarrow> v \<in> B" and "(a, b) \<in> E\<^sup>+" and "a \<in> B"
  shows "b \<in> B \<and> (a, b) \<in> (E \<inter> B \<times> UNIV)\<^sup>+"
  using assms(2,3)
proof (induction rule: trancl.induct)
  case (r_into_trancl a b)
  then show ?case using assms(1) by auto
next
  case (trancl_into_trancl a b c)
  then have "b \<in> B" "(a, b) \<in> (E \<inter> B \<times> UNIV)\<^sup>+" by auto
  moreover have "(b, c) \<in> E \<inter> B \<times> UNIV" using trancl_into_trancl \<open>b \<in> B\<close> by auto
  ultimately show ?case using assms(1) trancl_into_trancl(2)
    by (auto intro: trancl.trancl_into_trancl)
qed

lemma done_set_acyclic: "done_set E B \<Longrightarrow> b \<in> B \<Longrightarrow> (b, b) \<notin> E\<^sup>+"
  using done_path [of B E b b] by (auto simp: done_set_def acyclic_def)

lemma done_set_insert:
  assumes "done_set E B" and "\<forall>v. (u, v) \<in> E \<longrightarrow> v \<in> B"
  shows "done_set E (insert u B)"
proof (cases "u \<in> B")
  case True
  then show ?thesis using assms(1) by (simp add: insert_absorb)
next
  case False
  have "(x, x) \<notin> E\<^sup>+" if "x \<in> insert u B" for x
  proof
    assume c: "(x, x) \<in> E\<^sup>+"
    have "x \<notin> B" using c done_set_acyclic [OF assms(1)] by blast
    with that have "x = u" by simp
    with c obtain y where y: "(u, y) \<in> E" "(y, u) \<in> E\<^sup>*"
      by (meson tranclD)
    then have "y \<in> B" using assms(2) by blast
    with y(2) False show False
      using done_path [of B E y u] assms(1) by (auto simp: done_set_def rtrancl_eq_or_trancl)
  qed
  moreover have "x \<in> insert u B" if "(x, x) \<in> (E \<inter> insert u B \<times> UNIV)\<^sup>+" for x
    using that by (meson IntD2 mem_Sigma_iff tranclD)
  moreover have "(E \<inter> insert u B \<times> UNIV)\<^sup>+ \<subseteq> E\<^sup>+"
    by (rule trancl_mono_subset) simp
  ultimately have "acyclic (E \<inter> insert u B \<times> UNIV)"
    by (auto simp: acyclic_def)
  with assms show ?thesis by (auto simp: done_set_def)
qed

section \<open>The search\<close>

definition dfs_inv :: "bool list list \<Rightarrow> bool list \<Rightarrow> bool list \<Rightarrow> bool" where
  "dfs_inv w vis stk \<longleftrightarrow> length vis = MAX_TRANSACTIONS \<and> length stk = MAX_TRANSACTIONS \<and>
     marked stk \<subseteq> marked vis \<and> done_set (wedges w) (marked vis - marked stk)"

definition dfs_post :: "bool list list \<Rightarrow> bool list \<Rightarrow> nat set \<Rightarrow> nat \<Rightarrow> nat set \<Rightarrow> dfs_result \<Rightarrow> bool" where
  "dfs_post w vis R u R' res \<longleftrightarrow> (\<exists>b vis' stk'. res = Some (b, vis', stk') \<and>
     (b \<longrightarrow> (\<forall>r\<in>R. (r, u) \<in> (wedges w)\<^sup>*) \<longrightarrow> (\<exists>x. (x, x) \<in> (wedges w)\<^sup>+)) \<and>
     (\<not> b \<longrightarrow> dfs_inv w vis' stk' \<and> insert u (marked vis) \<subseteq> marked vis' \<and> marked stk' = R'))"

lemma dfs_post_mono:
  "dfs_post w vis' R u R' res \<Longrightarrow> marked vis \<subseteq> marked vis' \<Longrightarrow> dfs_post w vis R u R' res"
  unfolding dfs_post_def by (elim exE conjE, intro exI conjI) auto

lemma card_marked_insert:
  "u < length xs \<Longrightarrow> u \<notin> marked xs \<Longrightarrow> MAX_TRANSACTIONS - card (marked xs) \<le> Suc n \<Longrightarrow>
   MAX_TRANSACTIONS - card (insert u (marked xs)) \<le> n"
  by simp

lemma card_marked_less:
  assumes "length xs = MAX_TRANSACTIONS" "u < MAX_TRANSACTIONS" "u \<notin> marked xs"
  shows "card (marked xs) < MAX_TRANSACTIONS"
proof -
  have "marked xs \<subset> {..<MAX_TRANSACTIONS}" using assms by (auto simp: marked_def)
  from psubset_card_mono [OF _ this] show ?thesis by simp
qed

lemma dfs_correct:
  "u < MAX_TRANSACTIONS \<Longrightarrow> dfs_inv w vis stk \<Longrightarrow> u \<notin> marked vis \<Longrightarrow>
     MAX_TRANSACTIONS - card (marked vis) \<le> n \<Longrightarrow>
     dfs_post w vis (marked stk) u (marked stk) (dfs_cycle n w u vis stk)"
  "u < MAX_TRANSACTIONS \<Longrightarrow> dfs_inv w vis stk \<Longrightarrow> u \<in> marked stk \<Longrightarrow>
     MAX_TRANSACTIONS - card (marked vis) \<le> n \<Longrightarrow> set vs \<subseteq> {..<MAX_TRANSACTIONS} \<Longrightarrow>
     \<forall>v. (u, v) \<in> wedges w \<and> v \<notin> set vs \<longrightarrow> v \<in> marked vis - marked stk \<Longrightarrow>
     dfs_post w vis (marked stk) u (marked stk - {u}) (dfs_edges n w u vs vis stk)"
proof (induction n w u vis stk and n w u vs vis stk rule: dfs_cycle_dfs_edges.induct)
  case (1 w u vis stk)
  then show ?case using card_marked_less [of vis u] by (auto simp: dfs_inv_def)
next
  case (2 n w u vis stk)
  let ?vis = "vis[u := True]" and ?stk = "stk[u := True]"
  have l: "length vis = MAX_TRANSACTIONS" "length stk = MAX_TRANSACTIONS" "marked stk \<subseteq> marked vis"
    using 2(3) by (auto simp: dfs_inv_def)
  have m: "marked ?vis = insert u (marked vis)" "marked ?stk = insert u (marked stk)"
    using l 2(2) by auto
  have u: "u \<notin> marked stk" using l 2(4) by auto
  have "marked ?vis - marked ?stk = marked vis - marked stk" using m 2(4) by auto
  then have inv: "dfs_inv w ?vis ?stk" using 2(3) l m by (auto simp: dfs_inv_def)
  have "MAX_TRANSACTIONS - card (marked ?vis) \<le> n"
    using card_marked_insert [of u vis n] 2(2,4,5) l m by simp
  from 2(1) [OF 2(2) inv _ this] m
  have "dfs_post w ?vis (insert u (marked stk)) u (insert u (marked stk) - {u})
      (dfs_edges n w u [0..<MAX_TRANSACTIONS] ?vis ?stk)"
    by (force simp: wedges_def)
  then show ?case using u m by (auto simp: dfs_post_def)
next
  case (3 n w u vis stk)
  have l: "length vis = MAX_TRANSACTIONS" "length stk = MAX_TRANSACTIONS" "marked stk \<subseteq> marked vis"
    and d: "done_set (wedges w) (marked vis - marked stk)"
    using 3(2) by (auto simp: dfs_inv_def)
  have "done_set (wedges w) (insert u (marked vis - marked stk))"
    using 3(6) by (intro done_set_insert [OF d]) auto
  moreover have "insert u (marked vis - marked stk) = marked vis - (marked stk - {u})"
    using 3(3) l(3) by auto
  ultimately have "dfs_inv w vis (stk[u := False])"
    using l by (auto simp: dfs_inv_def)
  then show ?case using 3(3) l(3) by (auto simp: dfs_post_def)
next
  case (4 n w u v vs vis stk)
  let ?E = "wedges w"
  note IH = 4(1-4) and prems = 4(5-10)
  have l: "length vis = MAX_TRANSACTIONS" "length stk = MAX_TRANSACTIONS" "marked stk \<subseteq> marked vis"
    and v: "v < MAX_TRANSACTIONS" and vs: "set vs \<subseteq> {..<MAX_TRANSACTIONS}"
    using prems by (auto simp: dfs_inv_def)
  have vE: "(u, v) \<in> ?E \<longleftrightarrow> w ! u ! v" using prems(1) v by (simp add: wedges_def)
  have rest: "\<forall>x. (u, x) \<in> ?E \<and> x \<notin> set vs \<longrightarrow> x \<in> marked vis - marked stk"
    if "w ! u ! v \<Longrightarrow> v \<in> marked vis - marked stk"
    using prems(6) that vE by (metis set_ConsD)
  have mv: "v \<in> marked vis \<longleftrightarrow> vis ! v" "v \<in> marked stk \<longleftrightarrow> stk ! v"
    using l v by (auto simp: marked_nth)
  show ?case
  proof (cases "w ! u ! v")
    case False
    with IH(4) [OF False prems(1-4) vs rest] show ?thesis by simp
  next
    case e: True
    show ?thesis
    proof (cases "vis ! v")
      case vis: True
      show ?thesis
      proof (cases "stk ! v")
        case True
        with mv have "v \<in> marked stk" by simp
        with e vE have "\<forall>r\<in>marked stk. (r, u) \<in> ?E\<^sup>* \<Longrightarrow> (u, u) \<in> ?E\<^sup>+"
          by (meson rtrancl_into_trancl2)
        with e vis True show ?thesis by (auto simp: dfs_post_def)
      next
        case False
        with IH(3) e vis prems(1-4) vs rest mv show ?thesis by simp
      qed
    next
      case vis: False
      from IH(1) [OF e vis v prems(2) _ prems(4)] mv vis
      have "dfs_post w vis (marked stk) v (marked stk) (dfs_cycle n w v vis stk)" by simp
      then obtain b vis' stk' where r: "dfs_cycle n w v vis stk = Some (b, vis', stk')"
        "b \<longrightarrow> (\<forall>r\<in>marked stk. (r, v) \<in> ?E\<^sup>*) \<longrightarrow> (\<exists>x. (x, x) \<in> ?E\<^sup>+)"
        "\<not> b \<longrightarrow> dfs_inv w vis' stk' \<and> insert v (marked vis) \<subseteq> marked vis' \<and> marked stk' = marked stk"
        unfolding dfs_post_def by blast
      show ?thesis
      proof (cases b)
        case True
        with r(2) e vE have "\<forall>r\<in>marked stk. (r, u) \<in> ?E\<^sup>* \<Longrightarrow> \<exists>x. (x, x) \<in> ?E\<^sup>+"
          by (meson rtrancl.rtrancl_into_rtrancl)
        with True r(1) e vis show ?thesis by (auto simp: dfs_post_def)
      next
        case False
        with r(3) have r': "dfs_inv w vis' stk'" "insert v (marked vis) \<subseteq> marked vis'"
          "marked stk' = marked stk"
          by auto
        have "v \<notin> marked stk'" using r'(3) l(3) mv vis by auto
        moreover have "length stk' = MAX_TRANSACTIONS" using r'(1) by (simp add: dfs_inv_def)
        ultimately have st: "\<not> stk' ! v" using v by (simp add: marked_nth)
        have "card (marked vis) \<le> card (marked vis')"
          using r'(2) by (intro card_mono) auto
        with prems(4) have c: "MAX_TRANSACTIONS - card (marked vis') \<le> n" by simp
        have "\<forall>x. (u, x) \<in> ?E \<and> x \<notin> set vs \<longrightarrow> x \<in> marked vis' - marked stk'"
          using prems(6) r'(2,3) \<open>v \<notin> marked stk'\<close> by (metis DiffI DiffE insert_subset set_ConsD subsetD)
        with IH(2) [of "(False, vis', stk')" False "(vis', stk')" vis' stk'] e vis r(1) False st prems(1) r'(1) c vs prems(3) r'(3)
        have "dfs_post w vis' (marked stk) u (marked stk - {u}) (dfs_edges n w u vs vis' stk')"
          by simp
        from dfs_post_mono [OF this, of vis] e vis r(1) False st r'(2) show ?thesis by simp
      qed
    qed
  qed
qed


lemma dfs_roots_correct:
  assumes "dfs_inv w vis stk" and "marked stk = {}" and "set is \<subseteq> {..<MAX_TRANSACTIONS}"
    and "{..<MAX_TRANSACTIONS} - set is \<subseteq> marked vis"
  shows "\<exists>b. dfs_roots w is vis stk = Some b \<and> (b \<longleftrightarrow> (\<exists>x. (x, x) \<in> (wedges w)\<^sup>+))"
  using assms
proof (induction "is" arbitrary: vis stk)
  case Nil
  then have d: "done_set (wedges w) {..<MAX_TRANSACTIONS}"
    using marked_less [of _ vis] by (auto simp: dfs_inv_def subset_antisym) (metis subset_antisym lessThan_iff subsetI)
  have "(x, x) \<notin> (wedges w)\<^sup>+" for x
  proof
    assume c: "(x, x) \<in> (wedges w)\<^sup>+"
    then have "x < MAX_TRANSACTIONS" by (auto dest!: tranclD simp: wedges_def)
    with c d show False using done_set_acyclic by blast
  qed
  then show ?case by (intro exI [of _ False]) simp
next
  case (Cons i "is")
  have i: "i < MAX_TRANSACTIONS" and l: "length vis = MAX_TRANSACTIONS"
    using Cons.prems by (auto simp: dfs_inv_def)
  show ?case
  proof (cases "vis ! i")
    case True
    with i l have "i \<in> marked vis" by (simp add: marked_nth)
    with Cons.prems True Cons.IH [of vis stk] show ?thesis by auto
  next
    case False
    with i l have "i \<notin> marked vis" by (simp add: marked_nth)
    from dfs_correct(1) [OF i Cons.prems(1) this, of MAX_TRANSACTIONS] Cons.prems(2)
    have "dfs_post w vis {} i {} (dfs_cycle MAX_TRANSACTIONS w i vis stk)" by simp
    then obtain b vis' stk' where r: "dfs_cycle MAX_TRANSACTIONS w i vis stk = Some (b, vis', stk')"
      "b \<longrightarrow> (\<exists>x. (x, x) \<in> (wedges w)\<^sup>+)"
      "\<not> b \<longrightarrow> dfs_inv w vis' stk' \<and> insert i (marked vis) \<subseteq> marked vis' \<and> marked stk' = {}"
      unfolding dfs_post_def by blast
    show ?thesis
    proof (cases b)
      case True
      with r False show ?thesis by auto
    next
      case b: False
      with r(3) have r': "dfs_inv w vis' stk'" "insert i (marked vis) \<subseteq> marked vis'" "marked stk' = {}"
        by auto
      have "{..<MAX_TRANSACTIONS} - set is \<subseteq> marked vis'"
        using Cons.prems(4) r'(2) by auto
      with Cons.IH [OF r'(1,3)] Cons.prems(3) obtain c where
        "dfs_roots w is vis' stk' = Some c" "c \<longleftrightarrow> (\<exists>x. (x, x) \<in> (wedges w)\<^sup>+)"
        by auto
      with r(1) b False show ?thesis by auto
    qed
  qed
qed

lemma detect_deadlock_cycle: "detect_deadlock w = Some (\<exists>x. (x, x) \<in> (wedges w)\<^sup>+)"
  using dfs_roots_correct [of w "replicate MAX_TRANSACTIONS False" "replicate MAX_TRANSACTIONS False"
      "[0..<MAX_TRANSACTIONS]"]
  by (force simp: detect_deadlock_def dfs_inv_def done_set_def acyclic_def)

text \<open>C14: \<open>detect_deadlock\<close> always answers, and answers true exactly when the wait-for graph has
  a cycle.\<close>

theorem detect_deadlock_iff_cycle:
  "\<exists>b. detect_deadlock w = Some b \<and> (b \<longleftrightarrow> (\<exists>x. (x, x) \<in> (wedges w)\<^sup>+))"
  by (simp add: detect_deadlock_cycle)

end
