(* ===== verification/Mvcc_Inv.thy ===== *)
theory Mvcc_Inv
  imports Mvcc_Deadlock
begin

text \<open>
  The invariant of the multi-version store and what it gives: every key has exactly one
  version per timestamp, buffered writes are protected by locks, the wait-for graph
  stays acyclic, and a transaction's reads are not disturbed by the others.
\<close>

section \<open>Version chains\<close>

text \<open>
  \<open>vchain e vs\<close>: the intervals of the versions, newest first, partition the timestamps from
  1 up to \<open>e\<close>.
\<close>

fun vchain :: "int \<Rightarrow> version list \<Rightarrow> bool" where
  "vchain e [] \<longleftrightarrow> e = 1"
| "vchain e (v # vs) \<longleftrightarrow> end_ts v = e \<and> begin_ts v < e \<and> vchain (begin_ts v) vs"

definition install_head :: "int \<Rightarrow> char list \<Rightarrow> version list \<Rightarrow> version list" where
  "install_head ts val vs = \<lparr>v_value = strncpy VALUE_LEN val, begin_ts = ts, end_ts = ULONG_MAX\<rparr> #
     (case vs of [] \<Rightarrow> [] | v # vs \<Rightarrow> v\<lparr>end_ts := ts\<rparr> # vs)"

lemma vchain_visible:
  "vchain e vs \<Longrightarrow> 1 \<le> ts \<Longrightarrow> ts < e \<Longrightarrow> \<exists>v. find (visible ts) vs = Some v \<and> v \<in> set vs \<and> visible ts v"
proof (induction e vs rule: vchain.induct)
  case (2 e v vs)
  then show ?case by (cases "begin_ts v \<le> ts") (auto simp: visible_def)
qed simp

lemma vchain_ge: "vchain e vs \<Longrightarrow> v \<in> set vs \<Longrightarrow> end_ts v \<le> e"
  by (induction e vs rule: vchain.induct) force+

lemma vchain_unique:
  "vchain e vs \<Longrightarrow> v \<in> set vs \<Longrightarrow> v' \<in> set vs \<Longrightarrow> visible ts v \<Longrightarrow> visible ts v' \<Longrightarrow> v = v'"
proof (induction e vs rule: vchain.induct)
  case (2 e u vs)
  then show ?case
    using vchain_ge [of "begin_ts u" vs v] vchain_ge [of "begin_ts u" vs v']
    by (auto simp: visible_def)
qed simp

lemma vchain_install:
  "vchain ULONG_MAX vs \<Longrightarrow> vs \<noteq> [] \<Longrightarrow> begin_ts (hd vs) < ts \<Longrightarrow> ts < ULONG_MAX \<Longrightarrow>
   vchain ULONG_MAX (install_head ts val vs)"
  by (cases vs) (auto simp: install_head_def)

text \<open>Installing a version does not change what an older snapshot sees.\<close>

lemma find_install_head:
  "st < ts \<Longrightarrow> ts \<le> ULONG_MAX \<Longrightarrow> \<forall>v\<in>set vs. begin_ts v \<le> st \<longrightarrow> v = hd vs \<longrightarrow> st < end_ts v \<Longrightarrow>
   map_option v_value (find (visible st) (install_head ts val vs)) =
   map_option v_value (find (visible st) vs)"
  by (cases vs) (auto simp: install_head_def visible_def)

section \<open>The invariant\<close>

definition wait_ok :: "bool list list \<Rightarrow> bool" where
  "wait_ok w \<longleftrightarrow> length w = MAX_TRANSACTIONS \<and> (\<forall>r\<in>set w. length r = MAX_TRANSACTIONS) \<and>
     acyclic (wedges w)"

definition key_ok :: "int \<Rightarrow> nat \<Rightarrow> kvpair \<Rightarrow> bool" where
  "key_ok g i k \<longleftrightarrow> kv_name k = key_name i \<and> versions k \<noteq> [] \<and> vchain ULONG_MAX (versions k) \<and>
     begin_ts (hd (versions k)) \<le> g \<and> (1 < g \<longrightarrow> begin_ts (hd (versions k)) < g) \<and>
     (locked_by k = -1 \<or> 0 \<le> locked_by k \<and> locked_by k < int MAX_TRANSACTIONS)"

definition wkeys :: "transaction \<Rightarrow> nat list" where
  "wkeys x = take (write_count x) (write_keys x)"

definition tx_ok :: "mvcc \<Rightarrow> nat \<Rightarrow> transaction \<Rightarrow> bool" where
  "tx_ok s t x \<longleftrightarrow> tx_id x = int t \<and> length (write_keys x) = MAX_WRITES_PER_TX \<and>
     length (write_values x) = MAX_WRITES_PER_TX \<and> write_count x \<le> MAX_WRITES_PER_TX \<and>
     distinct (wkeys x) \<and> set (wkeys x) \<subseteq> {..<MAX_KEYS} \<and>
     (tx_state x = TX_ACTIVE \<longrightarrow> 1 \<le> start_ts x \<and> start_ts x < global_ts s \<and>
        (\<forall>k\<in>set (wkeys x). locked_by (store s ! k) = int t))"

definition mvcc_inv :: "mvcc \<Rightarrow> bool" where
  "mvcc_inv s \<longleftrightarrow> length (store s) = MAX_KEYS \<and> length (txs s) = MAX_TRANSACTIONS \<and>
     wait_ok (wait_for s) \<and> 1 \<le> global_ts s \<and> global_ts s \<le> ULONG_MAX \<and>
     (\<forall>i<MAX_KEYS. key_ok (global_ts s) i (store s ! i)) \<and>
     (\<forall>t<MAX_TRANSACTIONS. tx_ok s t (txs s ! t))"

lemma inv_key: "mvcc_inv s \<Longrightarrow> i < MAX_KEYS \<Longrightarrow> key_ok (global_ts s) i (store s ! i)"
  and inv_tx: "mvcc_inv s \<Longrightarrow> t < MAX_TRANSACTIONS \<Longrightarrow> tx_ok s t (txs s ! t)"
  and inv_len: "mvcc_inv s \<Longrightarrow> length (store s) = MAX_KEYS"
    "mvcc_inv s \<Longrightarrow> length (txs s) = MAX_TRANSACTIONS"
  and inv_wait: "mvcc_inv s \<Longrightarrow> wait_ok (wait_for s)"
  and inv_ts: "mvcc_inv s \<Longrightarrow> 1 \<le> global_ts s" "mvcc_inv s \<Longrightarrow> global_ts s \<le> ULONG_MAX"
  by (auto simp: mvcc_inv_def)

subsection \<open>The key table\<close>

lemma find_key_from_ge: "i \<le> find_key_from ks n i \<or> find_key_from ks n i = -1"
  by (induction ks n i rule: find_key_from.induct) auto

lemma find_key_from_nth:
  "find_key_from ks n (int i) = int j \<Longrightarrow> i \<le> j \<and> j < i + length ks \<and> kv_name (ks ! (j - i)) = n"
proof (induction ks arbitrary: i)
  case (Cons k ks)
  show ?case
  proof (cases "kv_name k = n")
    case True
    with Cons.prems show ?thesis by auto
  next
    case False
    with Cons.prems have "find_key_from ks n (int (Suc i)) = int j" by (simp add: add.commute)
    from Cons.IH [OF this] show ?thesis by (auto simp: nth_Cons')
  qed
qed simp

lemma find_key_index_nth:
  assumes "mvcc_inv s" and "0 \<le> find_key_index s n"
  shows "nat (find_key_index s n) < MAX_KEYS \<and> n = key_name (nat (find_key_index s n))"
proof -
  obtain j where j: "find_key_index s n = int j"
    using assms(2) nonneg_int_cases by blast
  then have "j < MAX_KEYS \<and> kv_name (store s ! j) = n"
    using find_key_from_nth [of "store s" n 0 j] inv_len(1) [OF assms(1)] by (simp add: find_key_index_def)
  then show ?thesis using j inv_key [OF assms(1), of j] by (simp add: key_ok_def)
qed

lemma key_name_inj: "i < MAX_KEYS \<Longrightarrow> j < MAX_KEYS \<Longrightarrow> key_name i = key_name j \<Longrightarrow> i = j"
  by (auto simp: key_name_def mvcc_consts)

lemma find_key_from_hit:
  "i < length ks \<Longrightarrow> kv_name (ks ! i) = n \<Longrightarrow> 0 \<le> j \<Longrightarrow> 0 \<le> find_key_from ks n j"
proof (induction ks arbitrary: i j)
  case (Cons k ks)
  from Cons.prems show ?case
    using Cons.IH [of "i - 1" "j + 1"] by (cases i) auto
qed simp

lemma find_key_index_key:
  assumes "mvcc_inv s" and "i < MAX_KEYS"
  shows "find_key_index s (key_name i) = int i"
proof -
  have "0 \<le> find_key_index s (key_name i)"
    unfolding find_key_index_def
    by (rule find_key_from_hit [of i]) (use assms inv_len(1) inv_key in \<open>auto simp: key_ok_def\<close>)
  moreover from find_key_index_nth [OF assms(1) this] assms(2)
  have "i = nat (find_key_index s (key_name i))" by (blast intro: key_name_inj)
  ultimately show ?thesis by linarith
qed

text \<open>The names, and with them the result of the search, do not change.\<close>

lemma find_key_from_names:
  "map kv_name ks = map kv_name ks' \<Longrightarrow> find_key_from ks n i = find_key_from ks' n i"
proof (induction ks arbitrary: ks' i)
  case (Cons k ks)
  from Cons.prems obtain k' ls where "ks' = k' # ls" and "kv_name k = kv_name k'"
    and "map kv_name ks = map kv_name ls"
    by (cases ks') simp_all
  then show ?case using Cons.IH [of ls "i + 1"] by simp
qed simp

lemma find_key_index_names:
  "map kv_name (store s) = map kv_name (store s') \<Longrightarrow> find_key_index s n = find_key_index s' n"
  unfolding find_key_index_def by (rule find_key_from_names)

subsection \<open>The write buffer\<close>

lemma own_write_None: "write_count x \<le> length (write_keys x) \<Longrightarrow> own_write x k = None \<longleftrightarrow> k \<notin> set (wkeys x)"
  by (auto simp: own_write_def wkeys_def find_None_iff in_set_conv_nth)

lemma own_write_Some: "own_write x k = Some i \<Longrightarrow> i < write_count x \<and> write_keys x ! i = k"
  by (auto simp: own_write_def find_Some_iff)

lemma own_write_cong:
  "write_keys x = write_keys y \<Longrightarrow> write_count x = write_count y \<Longrightarrow> own_write x k = own_write y k"
  by (simp add: own_write_def)

text \<open>There are fewer keys than buffer slots, so a buffer of distinct keys never fills up.\<close>

lemma write_buffer_room: "tx_ok s t x \<Longrightarrow> write_count x < MAX_WRITES_PER_TX"
proof -
  assume a: "tx_ok s t x"
  then have "write_count x = card (set (wkeys x))"
    by (auto simp: tx_ok_def distinct_card wkeys_def)
  also have "\<dots> \<le> card {..<MAX_KEYS}"
    using a by (intro card_mono) (auto simp: tx_ok_def)
  finally show ?thesis by (simp add: mvcc_consts)
qed

subsection \<open>The wait-for graph\<close>

lemma wedges_clear_edges:
  "wedges (clear_edges w t) \<subseteq> {(u, v) \<in> wedges w. u \<noteq> t \<and> v \<noteq> t}"
  if "length w = MAX_TRANSACTIONS" "\<forall>r\<in>set w. length r = MAX_TRANSACTIONS"
  using that
  by (cases "t < MAX_TRANSACTIONS")
     (auto simp: wedges_def clear_edges_def nth_list_update split: if_splits)

lemma wedges_clear_row: "length w = MAX_TRANSACTIONS \<Longrightarrow> wedges (clear_row w t) \<subseteq> wedges w"
  by (cases "t < MAX_TRANSACTIONS") (auto simp: wedges_def clear_row_def nth_list_update split: if_splits)

lemma wait_ok_clear_edges: "wait_ok w \<Longrightarrow> wait_ok (clear_edges w t)"
  using wedges_clear_edges [of w t]
  by (auto simp: wait_ok_def clear_edges_def dest!: set_update_subset_insert [THEN subsetD]
      intro: acyclic_subset)

lemma wait_ok_clear_row: "wait_ok w \<Longrightarrow> wait_ok (clear_row w t)"
  using wedges_clear_row [of w t]
  by (auto simp: wait_ok_def clear_row_def dest!: set_update_subset_insert [THEN subsetD]
      intro: acyclic_subset)

subsection \<open>The operations keep the invariant\<close>

lemma release_locks_nth:
  "i < length ks \<Longrightarrow> release_locks ks t ! i =
     (ks ! i)\<lparr>locked_by := if locked_by (ks ! i) = t then -1 else locked_by (ks ! i)\<rparr>"
  and length_release_locks [simp]: "length (release_locks ks t) = length ks"
  by (simp_all add: release_locks_def)

lemma map_fst_buffered: "length (write_keys x) = length (write_values x) \<Longrightarrow> map fst (buffered x) = wkeys x"
  by (simp add: buffered_def wkeys_def take_map [symmetric])

lemma fold_install:
  "distinct (map fst b) \<Longrightarrow> set (map fst b) \<subseteq> {..<length ks} \<Longrightarrow>
   fold (install_version ts) b ks = map (\<lambda>i. case map_of b i of
       None \<Rightarrow> ks ! i
     | Some v \<Rightarrow> (ks ! i)\<lparr>versions := install_head ts v (versions (ks ! i))\<rparr>) [0..<length ks]"
proof (induction b arbitrary: ks)
  case Nil
  show ?case by (simp add: map_nth)
next
  case (Cons p b)
  obtain k v where p: "p = (k, v)" by (cases p)
  have len: "length (install_version ts p ks) = length ks"
    by (simp add: install_version_def p Let_def)
  have hd: "install_version ts p ks ! i =
      (if i = k then (ks ! i)\<lparr>versions := install_head ts v (versions (ks ! i))\<rparr> else ks ! i)"
    if "i < length ks" for i
    using that by (auto simp: install_version_def install_head_def p Let_def)
  have none: "map_of b k = None" using Cons.prems(1) by (auto simp: p map_of_eq_None_iff)
  have "fold (install_version ts) (p # b) ks = fold (install_version ts) b (install_version ts p ks)"
    by simp
  also have "\<dots> = map (\<lambda>i. case map_of b i of
       None \<Rightarrow> install_version ts p ks ! i
     | Some v \<Rightarrow> (install_version ts p ks ! i)\<lparr>versions := install_head ts v (versions (install_version ts p ks ! i))\<rparr>)
     [0..<length (install_version ts p ks)]"
    by (rule Cons.IH) (use Cons.prems len in auto)
  also have "\<dots> = map (\<lambda>i. case map_of (p # b) i of
       None \<Rightarrow> ks ! i
     | Some v \<Rightarrow> (ks ! i)\<lparr>versions := install_head ts v (versions (ks ! i))\<rparr>) [0..<length ks]"
    unfolding len by (rule map_cong [OF refl]) (use none in \<open>auto simp: hd [unfolded p] p split: option.splits\<close>)
  finally show ?case .
qed

lemma key_ok_mono: "key_ok g i k \<Longrightarrow> g \<le> g' \<Longrightarrow> key_ok g' i k"
  by (auto simp: key_ok_def)

lemma key_ok_lock:
  "key_ok g i k \<Longrightarrow> l = -1 \<or> 0 \<le> l \<and> l < int MAX_TRANSACTIONS \<Longrightarrow> key_ok g i (k\<lparr>locked_by := l\<rparr>)"
  by (auto simp: key_ok_def)

lemma key_ok_install:
  "key_ok g i k \<Longrightarrow> 1 < g \<Longrightarrow> g < ULONG_MAX \<Longrightarrow>
   key_ok (g + 1) i (k\<lparr>versions := install_head g v (versions k)\<rparr>)"
  using vchain_install [of "versions k" g v] by (auto simp: key_ok_def install_head_def)

lemma tx_ok_frame:
  "tx_ok s t x \<Longrightarrow> global_ts s \<le> global_ts s' \<Longrightarrow>
   (\<And>k. locked_by (store s ! k) = int t \<Longrightarrow> k < MAX_KEYS \<Longrightarrow> locked_by (store s' ! k) = int t) \<Longrightarrow>
   tx_ok s' t x"
  by (auto simp: tx_ok_def subset_iff)

lemma tx_ok_inactive: "tx_ok s t x \<Longrightarrow> tx_state y \<noteq> TX_ACTIVE \<Longrightarrow> tx_id y = tx_id x \<Longrightarrow>
   write_keys y = write_keys x \<Longrightarrow> write_values y = write_values x \<Longrightarrow>
   write_count y = write_count x \<or> write_count y = 0 \<Longrightarrow> tx_ok s' t y"
  by (auto simp: tx_ok_def wkeys_def)

lemma ULONG_MAX_Suc: "2 ^ 64 = ULONG_MAX + 1" "1 < ULONG_MAX"
  by (simp_all add: ULONG_MAX_def)

lemma next_ts_less: "1 \<le> global_ts s \<Longrightarrow> global_ts s < ULONG_MAX \<Longrightarrow> (global_ts s + 1) mod 2 ^ 64 = global_ts s + 1"
  by (simp add: ULONG_MAX_def)

lemma init_inv: "mvcc_inv (init_store mvcc_static)"
proof -
  let ?s = "init_store mvcc_static"
  have "wedges (wait_for ?s) = {}" by (auto simp: wedges_def init_store_def)
  then have "wait_ok (wait_for ?s)"
    by (auto simp: wait_ok_def init_store_def acyclic_def)
  moreover have "key_ok 1 i (store ?s ! i)" if "i < MAX_KEYS" for i
    using that by (auto simp: key_ok_def init_store_def ULONG_MAX_Suc)
  moreover have "tx_ok ?s i (txs ?s ! i)" if "i < MAX_TRANSACTIONS" for i
    using that by (auto simp: tx_ok_def init_store_def mvcc_static_def wkeys_def)
  ultimately show ?thesis
    using ULONG_MAX_Suc(2) by (simp add: mvcc_inv_def init_store_def mvcc_static_def)
qed


lemma mvcc_invI:
  assumes "mvcc_inv s" and "length (store s') = MAX_KEYS" and "wait_ok (wait_for s')"
    and "global_ts s \<le> global_ts s'" and "global_ts s' \<le> ULONG_MAX"
    and "\<And>i. i < MAX_KEYS \<Longrightarrow> key_ok (global_ts s') i (store s' ! i)"
    and "txs s' = (txs s)[t := x]" and "t < MAX_TRANSACTIONS" and "tx_ok s' t x"
    and "\<And>u k. u \<noteq> t \<Longrightarrow> k < MAX_KEYS \<Longrightarrow> locked_by (store s ! k) = int u \<Longrightarrow> locked_by (store s' ! k) = int u"
  shows "mvcc_inv s'"
proof -
  have "tx_ok s' u (txs s' ! u)" if "u < MAX_TRANSACTIONS" for u
  proof (cases "u = t")
    case False
    then have "tx_ok s' u (txs s ! u)"
      using inv_tx [OF assms(1) that] assms(4,10) by (blast intro: tx_ok_frame)
    then show ?thesis using False assms(7) by simp
  qed (use assms(7-9) inv_len(2) [OF assms(1)] in simp)
  then show ?thesis
    using assms inv_len [OF assms(1)] inv_ts [OF assms(1)] by (simp add: mvcc_inv_def)
qed

lemma inv_tx_id: "mvcc_inv s \<Longrightarrow> t < MAX_TRANSACTIONS \<Longrightarrow> tx_id (txs s ! t) = int t"
  using inv_tx by (simp add: tx_ok_def)

lemma begin_tx_inv:
  assumes "mvcc_inv s" and "global_ts s < ULONG_MAX"
  shows "mvcc_inv (fst (begin_tx s i))"
proof (cases "i < 0 \<or> i \<ge> int MAX_TRANSACTIONS")
  case False
  then obtain t where i: "i = int t" "t < MAX_TRANSACTIONS"
    by (metis nonneg_int_cases not_less of_nat_less_iff)
  note nx = next_ts_less [OF inv_ts(1) [OF assms(1)] assms(2)]
  show ?thesis
  proof (rule mvcc_invI [OF assms(1), where t = t])
    show "wait_ok (wait_for (fst (begin_tx s i)))"
      using i inv_wait [OF assms(1)]
      by (simp add: begin_tx_def next_ts_def upd_tx_def wait_ok_clear_edges)
    show "tx_ok (fst (begin_tx s i)) t ((txs s ! t)\<lparr>tx_id := i, tx_state := TX_ACTIVE, start_ts := global_ts s, write_count := 0\<rparr>)"
      using i inv_tx [OF assms(1) i(2)] inv_ts [OF assms(1)] nx
      by (simp add: begin_tx_def next_ts_def upd_tx_def tx_ok_def wkeys_def)
  qed (use i nx assms(2) in \<open>auto simp: begin_tx_def next_ts_def upd_tx_def inv_len [OF assms(1)]
        intro: key_ok_mono [OF inv_key [OF assms(1)]]\<close>)
qed (use assms in \<open>simp add: begin_tx_def\<close>)

lemma release_key_ok:
  "key_ok g i (ks ! i) \<Longrightarrow> i < length ks \<Longrightarrow> key_ok g i (release_locks ks t ! i)"
  by (auto simp: release_locks_nth key_ok_def)

lemma release_inv:
  assumes "mvcc_inv s" and "t < MAX_TRANSACTIONS" and "tx_state x \<noteq> TX_ACTIVE" and "tx_ok s t x"
  shows "mvcc_inv (s\<lparr>store := release_locks (store s) (int t), wait_for := clear_edges (wait_for s) t,
           txs := (txs s)[t := x]\<rparr>)"
proof (rule mvcc_invI [OF assms(1) _ _ _ _ _ _ assms(2), where x = x])
  show "tx_ok (s\<lparr>store := release_locks (store s) (int t), wait_for := clear_edges (wait_for s) t,
           txs := (txs s)[t := x]\<rparr>) t x"
    by (rule tx_ok_inactive [OF assms(4,3)]) simp_all
qed (use inv_wait [OF assms(1)] inv_ts [OF assms(1)] inv_key [OF assms(1)] inv_len [OF assms(1)] in
    \<open>auto simp: wait_ok_clear_edges release_locks_nth key_ok_lock\<close>)

lemma tx_abort_eq:
  "mvcc_inv s \<Longrightarrow> t < MAX_TRANSACTIONS \<Longrightarrow> tx_abort s (Some t) =
   s\<lparr>store := release_locks (store s) (int t), wait_for := clear_edges (wait_for s) t,
     txs := (txs s)[t := (txs s ! t)\<lparr>write_count := 0, tx_state := TX_ABORTED\<rparr>]\<rparr>"
  by (simp add: tx_abort_def inv_tx_id upd_tx_def)

lemma tx_abort_inv:
  assumes "mvcc_inv s" and "t < MAX_TRANSACTIONS"
  shows "mvcc_inv (tx_abort s (Some t))"
proof -
  have "tx_ok s t ((txs s ! t)\<lparr>write_count := 0, tx_state := TX_ABORTED\<rparr>)"
    by (rule tx_ok_inactive [OF inv_tx [OF assms]]) simp_all
  with assms show ?thesis by (simp add: tx_abort_eq release_inv)
qed

lemma commit_store_nth:
  assumes "mvcc_inv s" and "t < MAX_TRANSACTIONS" and "i < MAX_KEYS"
  shows "fold (install_version ts) (buffered (txs s ! t)) (store s) ! i =
    (case map_of (buffered (txs s ! t)) i of
       None \<Rightarrow> store s ! i
     | Some v \<Rightarrow> (store s ! i)\<lparr>versions := install_head ts v (versions (store s ! i))\<rparr>)"
    and "length (fold (install_version ts) (buffered (txs s ! t)) (store s)) = MAX_KEYS"
proof -
  let ?b = "buffered (txs s ! t)"
  have "map fst ?b = wkeys (txs s ! t)"
    using inv_tx [OF assms(1,2)] by (intro map_fst_buffered) (simp add: tx_ok_def)
  with inv_tx [OF assms(1,2)] inv_len(1) [OF assms(1)] have b: "distinct (map fst ?b)" "set (map fst ?b) \<subseteq> {..<length (store s)}"
    by (simp_all add: tx_ok_def)
  show "fold (install_version ts) ?b (store s) ! i = (case map_of ?b i of
       None \<Rightarrow> store s ! i
     | Some v \<Rightarrow> (store s ! i)\<lparr>versions := install_head ts v (versions (store s ! i))\<rparr>)"
    unfolding fold_install [OF b] using assms(3) inv_len(1) [OF assms(1)] by (simp split: option.split)
  show "length (fold (install_version ts) ?b (store s)) = MAX_KEYS"
    unfolding fold_install [OF b] by (simp add: inv_len(1) [OF assms(1)])
qed

lemma tx_commit_inv:
  assumes "mvcc_inv s" and "t < MAX_TRANSACTIONS" and "global_ts s < ULONG_MAX"
  shows "mvcc_inv (fst (tx_commit s (Some t)))"
proof (cases "tx_state (txs s ! t) = TX_ACTIVE")
  case True
  let ?ks = "fold (install_version (global_ts s)) (buffered (txs s ! t)) (store s)"
  note nx = next_ts_less [OF inv_ts(1) [OF assms(1)] assms(3)]
  note ks = commit_store_nth [OF assms(1,2), of _ "global_ts s"]
  have g: "1 < global_ts s" using inv_tx [OF assms(1,2)] True by (simp add: tx_ok_def)
  let ?x = "(txs s ! t)\<lparr>tx_state := TX_COMMITTED\<rparr>"
  define s1 where "s1 = s\<lparr>store := ?ks, global_ts := global_ts s + 1\<rparr>"
  have "mvcc_inv s1"
  proof (rule mvcc_invI [OF assms(1) _ _ _ _ _ _ assms(2), where x = "txs s ! t"])
    show "key_ok (global_ts s1) i (store s1 ! i)" if "i < MAX_KEYS" for i
      using inv_key [OF assms(1) that] g assms(3)
      by (auto simp: s1_def ks [OF that] key_ok_install split: option.split intro: key_ok_mono)
    show "tx_ok s1 t (txs s ! t)"
      by (rule tx_ok_frame [OF inv_tx [OF assms(1,2)]]) (auto simp: s1_def ks split: option.split)
  qed (use inv_wait [OF assms(1)] ks(2) [of 0] assms(3) in
      \<open>auto simp: s1_def ks mvcc_consts split: option.split\<close>)
  moreover have "tx_ok s1 t ?x"
    by (rule tx_ok_inactive [OF inv_tx [OF assms(1,2)]]) simp_all
  ultimately have "mvcc_inv (s1\<lparr>store := release_locks (store s1) (int t), wait_for := clear_edges (wait_for s1) t,
           txs := (txs s1)[t := ?x]\<rparr>)"
    by (intro release_inv) (simp_all add: assms(2))
  then show ?thesis
    using True nx by (simp add: tx_commit_def next_ts_def commit_locked_def upd_tx_def s1_def
      inv_tx_id [OF assms(1,2)] Let_def)
qed (use assms in \<open>simp add: tx_commit_def\<close>)


subsection \<open>Writing\<close>

text \<open>The write buffer after a write of \<open>val\<close> to the key with index \<open>k\<close>.\<close>

definition put_write :: "transaction \<Rightarrow> nat \<Rightarrow> char list \<Rightarrow> transaction" where
  "put_write x k val = (case own_write x k of
     Some i \<Rightarrow> x\<lparr>write_values := (write_values x)[i := strncpy VALUE_LEN val]\<rparr>
   | None \<Rightarrow> x\<lparr>write_keys := (write_keys x)[write_count x := k],
              write_values := (write_values x)[write_count x := strncpy VALUE_LEN val],
              write_count := write_count x + 1\<rparr>)"

definition add_edge :: "bool list list \<Rightarrow> nat \<Rightarrow> nat \<Rightarrow> bool list list" where
  "add_edge w t u = w[t := (w ! t)[u := True]]"

lemma wkeys_put_write:
  assumes "tx_ok s t x"
  shows "set (wkeys (put_write x k val)) = insert k (set (wkeys x))" and "distinct (wkeys (put_write x k val))"
proof -
  have room: "write_count x < length (write_keys x)"
    using write_buffer_room [OF assms] assms by (simp add: tx_ok_def)
  have "set (wkeys (put_write x k val)) = insert k (set (wkeys x)) \<and> distinct (wkeys (put_write x k val))"
  proof (cases "own_write x k")
    case None
    then have "k \<notin> set (wkeys x)" using room by (simp add: own_write_None)
    moreover have "wkeys (put_write x k val) = wkeys x @ [k]"
      using None room by (simp add: put_write_def wkeys_def take_Suc_conv_app_nth)
    ultimately show ?thesis using assms by (simp add: tx_ok_def)
  next
    case (Some i)
    then have "k \<in> set (wkeys x)" using room own_write_None [of x k] by auto
    then show ?thesis using Some assms by (auto simp: put_write_def wkeys_def tx_ok_def)
  qed
  then show "set (wkeys (put_write x k val)) = insert k (set (wkeys x))"
    and "distinct (wkeys (put_write x k val))" by simp_all
qed

lemma put_write_fields:
  "tx_id (put_write x k val) = tx_id x" "tx_state (put_write x k val) = tx_state x"
  "start_ts (put_write x k val) = start_ts x"
  "length (write_keys (put_write x k val)) = length (write_keys x)"
  "length (write_values (put_write x k val)) = length (write_values x)"
  by (simp_all add: put_write_def split: option.split)

lemma tx_write_blocked_eq:
  assumes "mvcc_inv s" and "t < MAX_TRANSACTIONS" and "tx_state (txs s ! t) = TX_ACTIVE"
    and "k < MAX_KEYS"
  shows tx_write_free: "locked_by (store s ! k) \<in> {-1, int t} \<Longrightarrow>
      tx_write s (Some t) (key_name k) val =
      Some (s\<lparr>store := (store s)[k := (store s ! k)\<lparr>locked_by := int t\<rparr>], wait_for := clear_row (wait_for s) t,
              txs := (txs s)[t := put_write (txs s ! t) k val]\<rparr>, 0)"
    and tx_write_deadlock: "locked_by (store s ! k) = int u \<Longrightarrow> u \<noteq> t \<Longrightarrow>
      \<exists>x. (x, x) \<in> (wedges (add_edge (wait_for s) t u))\<^sup>+ \<Longrightarrow>
      tx_write s (Some t) (key_name k) val =
      Some (s\<lparr>store := release_locks (store s) (int t), wait_for := clear_edges (add_edge (wait_for s) t u) t,
              txs := (txs s)[t := (txs s ! t)\<lparr>tx_state := TX_ABORTED\<rparr>]\<rparr>, -1)"
    and tx_write_blocked: "locked_by (store s ! k) = int u \<Longrightarrow> u \<noteq> t \<Longrightarrow>
      acyclic (wedges (add_edge (wait_for s) t u)) \<Longrightarrow>
      tx_write s (Some t) (key_name k) val = Some (s\<lparr>wait_for := add_edge (wait_for s) t u\<rparr>, 1)"
proof -
  note facts = tx_write_def write_cleanup_def write_buffered_def try_acquire_lock_def find_key_index_key [OF assms(1,4)]
    inv_tx_id [OF assms(1,2)] assms(3) upd_tx_def
  have "write_count (txs s ! t) < MAX_WRITES_PER_TX"
    using write_buffer_room inv_tx [OF assms(1,2)] by blast
  then show "locked_by (store s ! k) \<in> {-1, int t} \<Longrightarrow>
      tx_write s (Some t) (key_name k) val =
      Some (s\<lparr>store := (store s)[k := (store s ! k)\<lparr>locked_by := int t\<rparr>], wait_for := clear_row (wait_for s) t,
              txs := (txs s)[t := put_write (txs s ! t) k val]\<rparr>, 0)"
    by (auto simp: facts put_write_def split: option.splits)
  show "locked_by (store s ! k) = int u \<Longrightarrow> u \<noteq> t \<Longrightarrow>
      \<exists>x. (x, x) \<in> (wedges (add_edge (wait_for s) t u))\<^sup>+ \<Longrightarrow>
      tx_write s (Some t) (key_name k) val =
      Some (s\<lparr>store := release_locks (store s) (int t), wait_for := clear_edges (add_edge (wait_for s) t u) t,
              txs := (txs s)[t := (txs s ! t)\<lparr>tx_state := TX_ABORTED\<rparr>]\<rparr>, -1)"
    using assms(2) inv_len(2) [OF assms(1)] by (simp add: facts Let_def detect_deadlock_cycle flip: add_edge_def)
  show "locked_by (store s ! k) = int u \<Longrightarrow> u \<noteq> t \<Longrightarrow>
      acyclic (wedges (add_edge (wait_for s) t u)) \<Longrightarrow>
      tx_write s (Some t) (key_name k) val = Some (s\<lparr>wait_for := add_edge (wait_for s) t u\<rparr>, 1)"
    by (simp add: facts detect_deadlock_cycle acyclic_def flip: add_edge_def)
qed

lemma wait_ok_clear_add_edge:
  assumes "wait_ok w" and "t < MAX_TRANSACTIONS"
  shows "wait_ok (clear_edges (add_edge w t u) t)"
proof -
  have "clear_edges (add_edge w t u) t = clear_edges w t"
    by (simp add: clear_edges_def add_edge_def map_update)
  with assms show ?thesis by (simp add: wait_ok_clear_edges)
qed

lemma wait_ok_add_edge:
  "wait_ok w \<Longrightarrow> acyclic (wedges (add_edge w t u)) \<Longrightarrow> t < MAX_TRANSACTIONS \<Longrightarrow> wait_ok (add_edge w t u)"
  by (auto simp: wait_ok_def add_edge_def dest!: set_update_subset_insert [THEN subsetD])

lemma tx_write_outcomes:
  assumes "mvcc_inv s" and "t < MAX_TRANSACTIONS" and "tx_state (txs s ! t) = TX_ACTIVE"
    and "k < MAX_KEYS"
  obtains (free) "locked_by (store s ! k) \<in> {-1, int t}"
    | (deadlock) u where "locked_by (store s ! k) = int u" "u \<noteq> t"
        "\<exists>x. (x, x) \<in> (wedges (add_edge (wait_for s) t u))\<^sup>+"
    | (blocked) u where "locked_by (store s ! k) = int u" "u \<noteq> t"
        "acyclic (wedges (add_edge (wait_for s) t u))"
proof -
  from inv_key [OF assms(1,4)] consider "locked_by (store s ! k) = -1" | u where "locked_by (store s ! k) = int u"
    by (auto simp: key_ok_def dest: nonneg_int_cases)
  then show thesis using that by cases (auto simp: acyclic_def)
qed

lemma tx_write_inv:
  assumes "mvcc_inv s" and "t < MAX_TRANSACTIONS"
  shows "\<exists>s' r. tx_write s (Some t) n val = Some (s', r) \<and> mvcc_inv s'"
proof (cases "tx_state (txs s ! t) = TX_ACTIVE \<and> 0 \<le> find_key_index s n")
  case False
  then have "tx_write s (Some t) n val = Some (s, -1)" by (auto simp: tx_write_def Let_def)
  with assms show ?thesis by blast
next
  case True
  define k where "k = nat (find_key_index s n)"
  have n: "n = key_name k" and k: "k < MAX_KEYS"
    using find_key_index_nth [of s n] True assms(1) by (simp_all add: k_def)
  have act: "tx_state (txs s ! t) = TX_ACTIVE" using True by simp
  from assms act k show ?thesis
  proof (cases rule: tx_write_outcomes)
    case free
    let ?s' = "s\<lparr>store := (store s)[k := (store s ! k)\<lparr>locked_by := int t\<rparr>], wait_for := clear_row (wait_for s) t,
              txs := (txs s)[t := put_write (txs s ! t) k val]\<rparr>"
    have "mvcc_inv ?s'"
    proof (rule mvcc_invI [OF assms(1) _ _ _ _ _ _ assms(2), where x = "put_write (txs s ! t) k val"])
      show "tx_ok ?s' t (put_write (txs s ! t) k val)"
        using inv_tx [OF assms] act k wkeys_put_write [OF inv_tx [OF assms], of k val] inv_len(1) [OF assms(1)]
          write_buffer_room [OF inv_tx [OF assms]]
        by (auto simp: tx_ok_def put_write_fields nth_list_update subset_iff)
           (auto simp: put_write_def split: option.splits)
    qed (use k free assms(2) inv_wait [OF assms(1)] inv_ts [OF assms(1)] inv_key [OF assms(1)] inv_len [OF assms(1)] in
        \<open>auto simp: wait_ok_clear_row nth_list_update key_ok_lock\<close>)
    then show ?thesis using tx_write_free [OF assms act k free, of val] by (auto simp: n)
  next
    case (deadlock u)
    let ?x = "(txs s ! t)\<lparr>tx_state := TX_ABORTED\<rparr>"
    have "tx_ok s t ?x" by (rule tx_ok_inactive [OF inv_tx [OF assms]]) simp_all
    then have "mvcc_inv (s\<lparr>store := release_locks (store s) (int t), wait_for := clear_edges (wait_for s) t,
              txs := (txs s)[t := ?x]\<rparr>)"
      by (intro release_inv assms) simp_all
    then have "mvcc_inv (s\<lparr>store := release_locks (store s) (int t), wait_for := clear_edges (add_edge (wait_for s) t u) t,
              txs := (txs s)[t := ?x]\<rparr>)"
      using wait_ok_clear_add_edge [OF inv_wait [OF assms(1)] assms(2), of u]
      by (simp add: mvcc_inv_def tx_ok_def)
    then show ?thesis using tx_write_deadlock [OF assms act k deadlock, of val] by (auto simp: n)
  next
    case (blocked u)
    have "mvcc_inv (s\<lparr>wait_for := add_edge (wait_for s) t u\<rparr>)"
      using assms(1) wait_ok_add_edge [OF inv_wait [OF assms(1)] blocked(3) assms(2)]
      by (simp add: mvcc_inv_def tx_ok_def)
    then show ?thesis using tx_write_blocked [OF assms act k blocked, of val] by (auto simp: n)
  qed
qed

end
