(* ===== verification/Mvcc_Steps.thy ===== *)
theory Mvcc_Steps
  imports Mvcc_Inv
begin

text \<open>
  The store as a state machine whose operations run one after the other, as \<open>main\<close> of \<^verbatim>\<open>mvcc-in-memory-key-value.c\<close> calls them: each is
  one step of the transaction that calls it, and the properties of the reachable states follow from the invariant
  of \<open>Mvcc_Inv\<close>. In \<open>Mvcc_Threads\<close> the operations of several threads interleave section by section. The timestamp
  counter is assumed not to reach \<open>ULONG_MAX\<close>.
\<close>

inductive mvcc_step :: "nat \<Rightarrow> mvcc \<Rightarrow> mvcc \<Rightarrow> bool" where
  st_begin: "t < MAX_TRANSACTIONS \<Longrightarrow> global_ts s < ULONG_MAX \<Longrightarrow> mvcc_step t s (fst (begin_tx s (int t)))"
| st_write: "t < MAX_TRANSACTIONS \<Longrightarrow> tx_write s (Some t) n v = Some (s', r) \<Longrightarrow> mvcc_step t s s'"
| st_commit: "t < MAX_TRANSACTIONS \<Longrightarrow> global_ts s < ULONG_MAX \<Longrightarrow> mvcc_step t s (fst (tx_commit s (Some t)))"
| st_abort: "t < MAX_TRANSACTIONS \<Longrightarrow> mvcc_step t s (tx_abort s (Some t))"

inductive mvcc_reach :: "mvcc \<Rightarrow> bool" where
  reach_init: "mvcc_reach (init_store mvcc_static)"
| reach_step: "mvcc_reach s \<Longrightarrow> mvcc_step t s s' \<Longrightarrow> mvcc_reach s'"

inductive_cases mvcc_stepE: "mvcc_step t s s'"

lemma step_inv: "mvcc_step t s s' \<Longrightarrow> mvcc_inv s \<Longrightarrow> mvcc_inv s'"
proof (induction rule: mvcc_step.induct)
  case (st_write t s n v s' r)
  then show ?case using tx_write_inv [of s t n v] by auto
qed (simp_all add: begin_tx_inv tx_commit_inv tx_abort_inv)

lemma reach_inv: "mvcc_reach s \<Longrightarrow> mvcc_inv s"
  by (induction rule: mvcc_reach.induct) (auto intro: init_inv step_inv)

section \<open>What a commit changes\<close>

lemma commit_store:
  assumes "mvcc_inv s" and "t < MAX_TRANSACTIONS" and "tx_state (txs s ! t) = TX_ACTIVE" and "k < MAX_KEYS"
  shows "versions (store (fst (tx_commit s (Some t))) ! k) =
    (case map_of (buffered (txs s ! t)) k of
       None \<Rightarrow> versions (store s ! k)
     | Some v \<Rightarrow> install_head (global_ts s) v (versions (store s ! k)))"
  using assms(3) commit_store_nth [OF assms(1,2,4), of "global_ts s"] assms(4)
  by (simp add: tx_commit_def next_ts_def commit_locked_def upd_tx_def Let_def release_locks_nth split: option.split)

lemma inv_names: "mvcc_inv s \<Longrightarrow> map kv_name (store s) = map key_name [0..<MAX_KEYS]"
  using inv_key [of s] inv_len(1) [of s] by (intro nth_equalityI) (auto simp: key_ok_def)

lemma step_keys: "mvcc_inv s \<Longrightarrow> mvcc_inv s' \<Longrightarrow> find_key_index s n = find_key_index s' n"
  by (rule find_key_index_names) (simp add: inv_names)

text \<open>Installing a version does not change what an earlier snapshot sees of the key.\<close>

lemma install_head_snapshot:
  assumes "key_ok g i kv" and "st < ts" and "ts \<le> ULONG_MAX"
  shows "map_option v_value (find (visible st) (install_head ts v (versions kv))) =
    map_option v_value (find (visible st) (versions kv))"
proof (rule find_install_head [OF assms(2,3)])
  show "\<forall>v\<in>set (versions kv). begin_ts v \<le> st \<longrightarrow> v = hd (versions kv) \<longrightarrow> st < end_ts v"
    using assms by (cases "versions kv") (auto simp: key_ok_def)
qed

section \<open>Reading\<close>

lemma tx_read_eq:
  assumes "mvcc_inv s" and "tx_state (txs s ! t) = TX_ACTIVE" and "k < MAX_KEYS"
  shows "tx_read s (Some t) (key_name k) out =
    (case own_write (txs s ! t) k of
       Some i \<Rightarrow> (0, strncpy (length out) (write_values (txs s ! t) ! i))
     | None \<Rightarrow> (case map_option v_value (find (visible (start_ts (txs s ! t))) (versions (store s ! k))) of
           None \<Rightarrow> (-1, out)
         | Some w \<Rightarrow> (0, strncpy (length out) w)))"
  using assms(2) find_key_index_key [OF assms(1,3)] by (auto simp: tx_read_def split: option.split)

section \<open>The specification: a timeline per key\<close>

text \<open>
  Abstractly the store maps a key and a timestamp to the value the key has at that time. A commit
  at time \<open>ts\<close> overwrites the timeline of the keys it wrote from \<open>ts\<close> on.
\<close>

definition timeline :: "mvcc \<Rightarrow> nat \<Rightarrow> int \<Rightarrow> char list option" where
  "timeline s k ts = map_option v_value (find (visible ts) (versions (store s ! k)))"

definition overwrite_from :: "int \<Rightarrow> (nat \<rightharpoonup> char list) \<Rightarrow> (nat \<Rightarrow> int \<Rightarrow> char list option) \<Rightarrow> nat \<Rightarrow> int \<Rightarrow> char list option" where
  "overwrite_from ts ws T k \<tau> = (case ws k of
     Some v \<Rightarrow> if ts \<le> \<tau> then Some (strncpy VALUE_LEN v) else T k \<tau>
   | None \<Rightarrow> T k \<tau>)"

lemma timeline_defined:
  "mvcc_inv s \<Longrightarrow> k < MAX_KEYS \<Longrightarrow> 1 \<le> ts \<Longrightarrow> ts < ULONG_MAX \<Longrightarrow> \<exists>v. timeline s k ts = Some v"
  using inv_key [of s k] vchain_visible [of ULONG_MAX "versions (store s ! k)" ts]
  by (auto simp: timeline_def key_ok_def)

lemma commit_timeline:
  assumes "mvcc_inv s" and "t < MAX_TRANSACTIONS" and "tx_state (txs s ! t) = TX_ACTIVE" and "k < MAX_KEYS"
    and "\<tau> < ULONG_MAX"
  shows "timeline (fst (tx_commit s (Some t))) k \<tau> =
    overwrite_from (global_ts s) (map_of (buffered (txs s ! t))) (timeline s) k \<tau>"
proof (cases "map_of (buffered (txs s ! t)) k")
  case None
  then show ?thesis using commit_store [OF assms(1-4)] by (simp add: timeline_def overwrite_from_def)
next
  case (Some v)
  have "timeline (fst (tx_commit s (Some t))) k \<tau> =
      map_option v_value (find (visible \<tau>) (install_head (global_ts s) v (versions (store s ! k))))"
    using commit_store [OF assms(1-4)] Some by (simp add: timeline_def)
  also have "\<dots> = (if global_ts s \<le> \<tau> then Some (strncpy VALUE_LEN v) else timeline s k \<tau>)"
  proof (cases "global_ts s \<le> \<tau>")
    case True
    then show ?thesis using assms(5) by (simp add: install_head_def visible_def)
  next
    case False
    then show ?thesis
      using install_head_snapshot [OF inv_key [OF assms(1,4)], of \<tau> "global_ts s" v] inv_ts(2) [OF assms(1)]
      by (simp add: timeline_def)
  qed
  finally show ?thesis using Some by (simp add: overwrite_from_def)
qed

lemma read_put_write:
  assumes "tx_ok s t x"
  shows "\<exists>i. own_write (put_write x k val) k = Some i \<and> write_values (put_write x k val) ! i = strncpy VALUE_LEN val"
proof -
  have room: "write_count x < length (write_keys x)" "write_count x < length (write_values x)"
    using write_buffer_room [OF assms] assms by (simp_all add: tx_ok_def)
  show ?thesis
  proof (cases "own_write x k")
    case None
    then have no: "write_keys x ! j \<noteq> k" if "j < write_count x" for j
      using that by (auto simp: own_write_def find_None_iff)
    have "find (\<lambda>i. (write_keys x)[write_count x := k] ! i = k) [0..<Suc (write_count x)] = Some (write_count x)"
      unfolding find_Some_iff by (rule exI [of _ "write_count x"])
        (use room no in \<open>auto simp: nth_list_update nth_append\<close>)
    then have "own_write (put_write x k val) k = Some (write_count x)"
      unfolding put_write_def None by (simp add: own_write_def del: upt_Suc)
    then show ?thesis using None room by (simp add: put_write_def)
  next
    case (Some i)
    then have "own_write (put_write x k val) k = Some i"
      unfolding put_write_def Some by (simp add: Some [unfolded own_write_def] own_write_def)
    then show ?thesis using Some own_write_Some [OF Some] room by (simp add: put_write_def)
  qed
qed


section \<open>Two transactions\<close>

text \<open>The state of \<open>main\<close> after its two calls of \<open>begin_tx\<close>, and after the write of the second.\<close>

definition two_started :: mvcc where
  "two_started = fst (begin_tx (fst (begin_tx (init_store mvcc_static) (int 0))) (int 1))"

definition second_wrote :: mvcc where
  "second_wrote = fst (the (tx_write two_started (Some 1) ''key0'' ''value_from_t1''))"

lemma init_ts: "global_ts (init_store mvcc_static) = 1"
  by (simp add: init_store_def mvcc_static_def)

lemma begin_ts_ts: "1 \<le> global_ts s \<Longrightarrow> global_ts s < ULONG_MAX \<Longrightarrow> t < MAX_TRANSACTIONS \<Longrightarrow>
    global_ts (fst (begin_tx s (int t))) = global_ts s + 1"
  using next_ts_less [of s] by (simp add: begin_tx_def next_ts_def upd_tx_def)

lemma two_started_reach: "mvcc_reach two_started"
  unfolding two_started_def
  by (rule reach_step [OF reach_step [OF reach_init st_begin] st_begin])
    (use begin_ts_ts [of "init_store mvcc_static" 0] in
      \<open>simp_all add: init_ts MAX_TRANSACTIONS_def ULONG_MAX_def\<close>)

lemma two_started_read:
  "tx_state (txs two_started ! 0) = TX_ACTIVE" "tx_state (txs two_started ! 1) = TX_ACTIVE"
  "tx_write two_started (Some 1) ''key0'' ''value_from_t1'' = Some (second_wrote, 0)"
  "tx_state (txs second_wrote ! 1) = TX_ACTIVE"
  "global_ts second_wrote < ULONG_MAX"
  by code_simp+

lemma second_wrote_reach: "mvcc_reach second_wrote"
  by (rule reach_step [OF two_started_reach st_write [OF _ two_started_read(3)]])
     (simp add: MAX_TRANSACTIONS_def)

section \<open>Properties\<close>

text \<open>C23: Every state the operations can reach from \<open>init_store\<close>, one after the other, satisfies the store's invariant: the
  versions of each key partition the timestamps, an active transaction holds the lock of every key
  it has buffered, its snapshot lies in the past, and the wait-for graph has no cycle.\<close>

theorem mvcc_reachable_inv:
  "mvcc_reach s \<Longrightarrow> mvcc_inv s"
  by (rule reach_inv)

theorem mvcc_reachable_inv_witness:
  "mvcc_inv (fst (begin_tx (init_store mvcc_static) (int 2)))"
proof (rule mvcc_reachable_inv)
  have "mvcc_step 2 (init_store mvcc_static) (fst (begin_tx (init_store mvcc_static) (int 2)))"
    by (rule st_begin) (simp_all add: MAX_TRANSACTIONS_def init_store_def mvcc_static_def ULONG_MAX_def)
  then show "mvcc_reach (fst (begin_tx (init_store mvcc_static) (int 2)))"
    by (rule reach_step [OF reach_init])
qed

text \<open>C13: A commit is atomic on the timeline: every key the transaction buffered has the new value
  from the commit timestamp on, and every other point of the timeline is unchanged.\<close>

theorem tx_commit_refines_timeline:
  assumes "mvcc_reach s" and "t < MAX_TRANSACTIONS" and "tx_state (txs s ! t) = TX_ACTIVE"
    and "k < MAX_KEYS" and "\<tau> < ULONG_MAX"
  shows "timeline (fst (tx_commit s (Some t))) k \<tau> =
    overwrite_from (global_ts s) (map_of (buffered (txs s ! t))) (timeline s) k \<tau>"
  using commit_timeline [OF reach_inv [OF assms(1)] assms(2-5)] .

theorem tx_commit_refines_timeline_witness:
  "timeline (fst (tx_commit second_wrote (Some 1))) 0 7 =
    overwrite_from (global_ts second_wrote) (map_of (buffered (txs second_wrote ! 1))) (timeline second_wrote) 0 7"
  by (rule tx_commit_refines_timeline [OF second_wrote_reach _ two_started_read(4)])
     (simp_all add: mvcc_consts ULONG_MAX_def)

text \<open>A transaction reads its own last write: after a successful \<open>tx_write\<close> the read returns 0 and
  the written value as the buffer stores it.\<close>

theorem tx_read_own_write:
  assumes "mvcc_reach s" and "t < MAX_TRANSACTIONS" and "tx_write s (Some t) n val = Some (s', 0)"
  shows "tx_read s' (Some t) n out = (0, strncpy (length out) (strncpy VALUE_LEN val))"
proof -
  have inv: "mvcc_inv s" by (rule reach_inv [OF assms(1)])
  obtain inv': "mvcc_inv s'" using tx_write_inv [OF inv assms(2), of n val] assms(3) by auto
  have act: "tx_state (txs s ! t) = TX_ACTIVE" "0 \<le> find_key_index s n"
    using assms(3) by (auto simp: tx_write_def Let_def split: if_splits)
  define k where "k = nat (find_key_index s n)"
  have n: "n = key_name k" and k: "k < MAX_KEYS"
    using find_key_index_nth [OF inv act(2)] by (simp_all add: k_def)
  from inv assms(2) act(1) k have "locked_by (store s ! k) \<in> {-1, int t}"
    by (cases rule: tx_write_outcomes)
       (use assms(3) tx_write_deadlock [OF inv assms(2) act(1) k, of _ val]
         tx_write_blocked [OF inv assms(2) act(1) k, of _ val] in \<open>auto simp: n\<close>)
  from tx_write_free [OF inv assms(2) act(1) k this, of val] assms(3) assms(2) inv_len(2) [OF inv]
  have x: "txs s' ! t = put_write (txs s ! t) k val" by (auto simp: n)
  from read_put_write [OF inv_tx [OF inv assms(2)], of k val] show ?thesis
    unfolding n using tx_read_eq [OF inv' _ k, of t out] x act(1) by (auto simp: put_write_fields)
qed


theorem tx_read_own_write_witness:
  "tx_read second_wrote (Some 1) ''key0'' (replicate 32 NUL) =
    (0, strncpy (length (replicate 32 NUL)) (strncpy VALUE_LEN ''value_from_t1''))"
  by (rule tx_read_own_write [OF two_started_reach _ two_started_read(3)]) (simp add: MAX_TRANSACTIONS_def)

text \<open>C26: What \<open>tx_write\<close> of an active transaction does, by the owner of the key: a free or own key is
  locked and the value buffered; a key of another transaction makes the writer wait for it, unless
  that closes a cycle of waiting transactions, in which case the writer is aborted, its locks are
  released and its edges removed. The search always answers and the buffer never overflows.\<close>

theorem tx_write_by_owner:
  assumes "mvcc_reach s" and "t < MAX_TRANSACTIONS" and "tx_state (txs s ! t) = TX_ACTIVE" and "k < MAX_KEYS"
  shows "tx_write s (Some t) (key_name k) val = Some
    (let owner = locked_by (store s ! k); w = add_edge (wait_for s) t (nat owner) in
     if owner = -1 \<or> owner = int t then
       (s\<lparr>store := (store s)[k := (store s ! k)\<lparr>locked_by := int t\<rparr>],
          wait_for := clear_row (wait_for s) t,
          txs := (txs s)[t := put_write (txs s ! t) k val]\<rparr>, 0)
     else if \<exists>x. (x, x) \<in> (wedges w)\<^sup>+ then
       (s\<lparr>store := release_locks (store s) (int t), wait_for := clear_edges w t,
          txs := (txs s)[t := (txs s ! t)\<lparr>tx_state := TX_ABORTED\<rparr>]\<rparr>, -1)
     else (s\<lparr>wait_for := w\<rparr>, 1))"
proof -
  have inv: "mvcc_inv s" by (rule reach_inv [OF assms(1)])
  from inv assms(2-4) show ?thesis
  proof (cases rule: tx_write_outcomes)
    case free
    then show ?thesis using tx_write_free [OF inv assms(2-4) free, of val] by (auto simp: Let_def)
  next
    case (deadlock u)
    then show ?thesis using tx_write_deadlock [OF inv assms(2-4) deadlock, of val] by (auto simp: Let_def)
  next
    case (blocked u)
    then show ?thesis using tx_write_blocked [OF inv assms(2-4) blocked, of val]
      by (auto simp: Let_def acyclic_def)
  qed
qed

theorem tx_write_by_owner_witness:
  "tx_write second_wrote (Some 1) (key_name 3) ''x'' = Some
    (let owner = locked_by (store second_wrote ! 3); w = add_edge (wait_for second_wrote) 1 (nat owner) in
     if owner = -1 \<or> owner = int 1 then
       (second_wrote\<lparr>store := (store second_wrote)[3 := (store second_wrote ! 3)\<lparr>locked_by := int 1\<rparr>],
          wait_for := clear_row (wait_for second_wrote) 1,
          txs := (txs second_wrote)[1 := put_write (txs second_wrote ! 1) 3 ''x'']\<rparr>, 0)
     else if \<exists>x. (x, x) \<in> (wedges w)\<^sup>+ then
       (second_wrote\<lparr>store := release_locks (store second_wrote) (int 1), wait_for := clear_edges w 1,
          txs := (txs second_wrote)[1 := (txs second_wrote ! 1)\<lparr>tx_state := TX_ABORTED\<rparr>]\<rparr>, -1)
     else (second_wrote\<lparr>wait_for := w\<rparr>, 1))"
  by (rule tx_write_by_owner [OF second_wrote_reach _ two_started_read(4)]) (simp_all add: mvcc_consts)

text \<open>Two active transactions never have the same key in their write buffers.\<close>

theorem active_writes_disjoint:
  assumes "mvcc_reach s" and "t < MAX_TRANSACTIONS" and "u < MAX_TRANSACTIONS" and "t \<noteq> u"
    and "tx_state (txs s ! t) = TX_ACTIVE" and "tx_state (txs s ! u) = TX_ACTIVE"
  shows "set (map fst (buffered (txs s ! t))) \<inter> set (map fst (buffered (txs s ! u))) = {}"
proof -
  note inv = reach_inv [OF assms(1)]
  have "set (map fst (buffered (txs s ! v))) \<subseteq> {k. locked_by (store s ! k) = int v}"
    if "v < MAX_TRANSACTIONS" "tx_state (txs s ! v) = TX_ACTIVE" for v
    using inv_tx [OF inv that(1)] that(2) map_fst_buffered [of "txs s ! v"] by (auto simp: tx_ok_def)
  from this [OF assms(2,5)] this [OF assms(3,6)] assms(4) show ?thesis by fastforce
qed

theorem active_writes_disjoint_witness:
  "set (map fst (buffered (txs two_started ! 0))) \<inter> set (map fst (buffered (txs two_started ! 1))) = {}"
  by (rule active_writes_disjoint [OF two_started_reach _ _ _ two_started_read(1,2)])
     (simp_all add: MAX_TRANSACTIONS_def)

text \<open>The demonstration \<open>main\<close>: both reads of \<open>key0\<close> by transaction 0 see the initial value although
  transaction 1 commits in between, transaction 0 commits, and the committed transaction 1 is
  marked aborted by the last call.\<close>

theorem mvcc_main_result:
  "map_option (\<lambda>(a, b, s). (a, b, map tx_state (txs s), map (c_str \<circ> v_value \<circ> hd \<circ> versions) (store s))) mvcc_main =
   Some (''-'', ''-'', [TX_COMMITTED, TX_ABORTED, TX_UNUSED, TX_UNUSED, TX_UNUSED],
     [''value_from_t1'', ''t0_writes_key1'', ''t0_try_key2'', ''-'', ''-''])"
  by code_simp

end
