(* ===== verification/Mvcc_Threads.thy ===== *)
theory Mvcc_Threads
  imports Mvcc_Steps
begin

text \<open>
  The store of \<^verbatim>\<open>mvcc-in-memory-key-value.c\<close> with a thread per transaction. The sections under \<open>global_lock\<close> are one
  step each, and so are the two things that are done outside the lock: the timestamp that \<open>tx_commit\<close> draws before it
  takes the lock, and the \<open>state\<close> that \<open>tx_write\<close> sets after a deadlock. Between two sections of an operation the others
  can run. A transaction is used by one thread, as the code requires: the fields of a \<open>Transaction\<close> are read
  outside the lock by the thread that calls the operation. The timestamp counter is assumed not to reach \<open>ULONG_MAX\<close>.
\<close>

section \<open>Sections and threads\<close>

text \<open>
  Where the thread of a transaction is: outside the operations; in \<open>tx_write\<close> with the lock of the key, about to buffer the value,
  or after a deadlock, before and after the transaction is marked aborted; in \<open>tx_commit\<close> with its timestamp.
\<close>

datatype tx_pc = Tx_outside | Tx_buffering nat "char list" | Tx_deadlocked | Tx_cleaning | Tx_installing int

record mvcc_threads =
  shared :: mvcc
  pcs :: "nat \<Rightarrow> tx_pc"

definition moved :: "mvcc_threads \<Rightarrow> mvcc \<Rightarrow> nat \<Rightarrow> tx_pc \<Rightarrow> mvcc_threads" where
  "moved c s t pc = c\<lparr>shared := s, pcs := (pcs c)(t := pc)\<rparr>"

inductive section_step :: "nat \<Rightarrow> mvcc_threads \<Rightarrow> mvcc_threads \<Rightarrow> bool" where
  sec_begin: "pcs c t = Tx_outside \<Longrightarrow> t < MAX_TRANSACTIONS \<Longrightarrow> global_ts (shared c) < ULONG_MAX \<Longrightarrow>
    section_step t c (moved c (fst (begin_tx (shared c) (int t))) t Tx_outside)"
| sec_acquire: "pcs c t = Tx_outside \<Longrightarrow> t < MAX_TRANSACTIONS \<Longrightarrow> tx_state (txs (shared c) ! t) = TX_ACTIVE \<Longrightarrow>
    find_key_index (shared c) n = int k \<Longrightarrow> try_acquire_lock (shared c) t k = Some (s, r) \<Longrightarrow>
    section_step t c (moved c s t (if r = -1 then Tx_deadlocked else if r = 1 then Tx_outside else Tx_buffering k v))"
| sec_mark: "pcs c t = Tx_deadlocked \<Longrightarrow>
    section_step t c (moved c (upd_tx (shared c) t (\<lambda>x. x\<lparr>tx_state := TX_ABORTED\<rparr>)) t Tx_cleaning)"
| sec_cleanup: "pcs c t = Tx_cleaning \<Longrightarrow> section_step t c (moved c (write_cleanup (shared c) t) t Tx_outside)"
| sec_buffer: "pcs c t = Tx_buffering k v \<Longrightarrow>
    section_step t c (moved c (fst (write_buffered (shared c) t k v)) t Tx_outside)"
| sec_draw: "pcs c t = Tx_outside \<Longrightarrow> t < MAX_TRANSACTIONS \<Longrightarrow> tx_state (txs (shared c) ! t) = TX_ACTIVE \<Longrightarrow>
    global_ts (shared c) < ULONG_MAX \<Longrightarrow> next_ts (shared c) = (ts, s) \<Longrightarrow>
    section_step t c (moved c s t (Tx_installing ts))"
| sec_install: "pcs c t = Tx_installing ts \<Longrightarrow>
    section_step t c (moved c (commit_locked (shared c) t ts) t Tx_outside)"
| sec_abort: "pcs c t = Tx_outside \<Longrightarrow> t < MAX_TRANSACTIONS \<Longrightarrow>
    section_step t c (moved c (tx_abort (shared c) (Some t)) t Tx_outside)"

definition threads_init :: mvcc_threads where
  "threads_init = \<lparr>shared = init_store mvcc_static, pcs = (\<lambda>_. Tx_outside)\<rparr>"

inductive threads_reach :: "mvcc_threads \<Rightarrow> bool" where
  threads_start: "threads_reach threads_init"
| threads_step: "threads_reach c \<Longrightarrow> section_step t c c' \<Longrightarrow> threads_reach c'"

text \<open>Steps of threads other than that of \<open>t\<close>.\<close>

definition others :: "nat \<Rightarrow> mvcc_threads \<Rightarrow> mvcc_threads \<Rightarrow> bool" where
  "others t c c' \<longleftrightarrow> (\<exists>u. u \<noteq> t \<and> section_step u c c')"

text \<open>
  Every commit that took its timestamp before \<open>t\<close> began is through with its locked section.
\<close>

definition settled :: "mvcc_threads \<Rightarrow> nat \<Rightarrow> bool" where
  "settled c t \<longleftrightarrow> (\<forall>u ts. u \<noteq> t \<longrightarrow> pcs c u = Tx_installing ts \<longrightarrow> start_ts (txs (shared c) ! t) < ts)"

lemma moved_simps [simp]:
  "shared (moved c s t pc) = s" "pcs (moved c s t pc) = (pcs c)(t := pc)"
  by (simp_all add: moved_def)

section \<open>The invariant between the sections\<close>

text \<open>
  Between two sections the wait-for graph may have a cycle, until the transaction that closed it has cleaned up; the rest of the store
  keeps its invariant. So the invariant is stated for the store with an empty graph.
\<close>

definition no_edges :: "bool list list" where
  "no_edges = replicate MAX_TRANSACTIONS (replicate MAX_TRANSACTIONS False)"

definition calm :: "mvcc \<Rightarrow> mvcc" where
  "calm s = s\<lparr>wait_for := no_edges\<rparr>"

fun pc_ok :: "mvcc \<Rightarrow> nat \<Rightarrow> tx_pc \<Rightarrow> bool" where
  "pc_ok s t Tx_outside \<longleftrightarrow> True"
| "pc_ok s t (Tx_buffering k v) \<longleftrightarrow> t < MAX_TRANSACTIONS \<and> k < MAX_KEYS \<and> locked_by (store s ! k) = int t"
| "pc_ok s t Tx_deadlocked \<longleftrightarrow> t < MAX_TRANSACTIONS"
| "pc_ok s t Tx_cleaning \<longleftrightarrow> t < MAX_TRANSACTIONS \<and> tx_state (txs s ! t) \<noteq> TX_ACTIVE"
| "pc_ok s t (Tx_installing ts) \<longleftrightarrow> t < MAX_TRANSACTIONS \<and> tx_state (txs s ! t) = TX_ACTIVE \<and> 1 < ts \<and> ts < global_ts s \<and>
     (\<forall>k\<in>set (wkeys (txs s ! t)). begin_ts (hd (versions (store s ! k))) < ts)"

definition threads_inv :: "mvcc_threads \<Rightarrow> bool" where
  "threads_inv c \<longleftrightarrow> mvcc_inv (calm (shared c)) \<and> (\<forall>t. pc_ok (shared c) t (pcs c t))"

lemma calm_simps [simp]:
  "store (calm s) = store s" "txs (calm s) = txs s" "global_ts (calm s) = global_ts s" "calm (s\<lparr>wait_for := w\<rparr>) = calm s"
  "calm (s\<lparr>store := ks\<rparr>) = (calm s)\<lparr>store := ks\<rparr>" "calm (s\<lparr>txs := xs\<rparr>) = (calm s)\<lparr>txs := xs\<rparr>"
  "calm (s\<lparr>global_ts := g\<rparr>) = (calm s)\<lparr>global_ts := g\<rparr>" "wait_for (calm s) = no_edges"
  by (simp_all add: calm_def)

lemma replicate_update [simp]: "(replicate n x)[i := x] = replicate n x"
proof (rule nth_equalityI)
  show "(replicate n x)[i := x] ! j = replicate n x ! j" if "j < length ((replicate n x)[i := x])" for j
    using that by (cases "j = i") auto
qed simp

lemma clear_no_edges [simp]: "clear_edges no_edges t = no_edges" "clear_row no_edges t = no_edges"
  by (simp_all add: clear_edges_def clear_row_def no_edges_def)

lemma wait_ok_no_edges: "wait_ok no_edges"
proof -
  have "wedges no_edges = {}" by (auto simp: wedges_def no_edges_def)
  then show ?thesis by (simp add: wait_ok_def acyclic_def) (simp add: no_edges_def)
qed

lemma find_key_index_calm: "find_key_index (calm s) n = find_key_index s n"
  by (simp add: find_key_index_def)

text \<open>The operations do not look at the edges, except to find a cycle.\<close>

lemma begin_calm: "calm (fst (begin_tx s i)) = fst (begin_tx (calm s) i)"
  by (simp add: begin_tx_def next_ts_def upd_tx_def Let_def)

lemma abort_calm: "calm (tx_abort s (Some t)) = tx_abort (calm s) (Some t)"
  by (simp add: tx_abort_def upd_tx_def Let_def)

lemma key_ok_install_pending:
  "key_ok g i k \<Longrightarrow> begin_ts (hd (versions k)) < ts \<Longrightarrow> ts < g \<Longrightarrow> g \<le> ULONG_MAX \<Longrightarrow>
   key_ok g i (k\<lparr>versions := install_head ts v (versions k)\<rparr>)"
  using vchain_install [of "versions k" ts v] by (auto simp: key_ok_def install_head_def)

section \<open>Every section keeps the invariant\<close>

text \<open>What a section of \<open>u\<close> changes: its own transaction, and versions only when it installs.\<close>

definition changes :: "nat \<Rightarrow> mvcc_threads \<Rightarrow> mvcc_threads \<Rightarrow> bool" where
  "changes u c c' \<longleftrightarrow>
     (\<forall>t. t \<noteq> u \<longrightarrow> txs (shared c') ! t = txs (shared c) ! t \<and> pcs c' t = pcs c t) \<and>
     global_ts (shared c) \<le> global_ts (shared c') \<and>
     (\<forall>k<MAX_KEYS. \<forall>t. t \<noteq> u \<longrightarrow> locked_by (store (shared c) ! k) = int t \<longrightarrow> locked_by (store (shared c') ! k) = int t) \<and>
     (\<forall>k<MAX_KEYS. versions (store (shared c') ! k) = versions (store (shared c) ! k) \<or>
        locked_by (store (shared c) ! k) = int u \<and>
        (\<exists>ts v. pcs c u = Tx_installing ts \<and>
           versions (store (shared c') ! k) = install_head ts v (versions (store (shared c) ! k))))"

text \<open>What the invariant says of the other threads survives.\<close>

lemma pc_ok_other:
  assumes "threads_inv c" and "changes u c c'" and "t \<noteq> u"
  shows "pc_ok (shared c') t (pcs c' t)"
proof -
  have pc: "pc_ok (shared c) t (pcs c t)" and inv: "mvcc_inv (calm (shared c))" using assms(1) by (simp_all add: threads_inv_def)
  have ch: "txs (shared c') ! t = txs (shared c) ! t" "pcs c' t = pcs c t" "global_ts (shared c) \<le> global_ts (shared c')"
    "\<And>k. k < MAX_KEYS \<Longrightarrow> locked_by (store (shared c) ! k) = int t \<Longrightarrow> locked_by (store (shared c') ! k) = int t"
    using assms(2,3) by (auto simp: changes_def)
  show ?thesis
  proof (cases "pcs c t")
    case (Tx_installing ts)
    then have p: "t < MAX_TRANSACTIONS" "tx_state (txs (shared c) ! t) = TX_ACTIVE" "1 < ts" "ts < global_ts (shared c)"
      "\<And>k. k \<in> set (wkeys (txs (shared c) ! t)) \<Longrightarrow> begin_ts (hd (versions (store (shared c) ! k))) < ts"
      using pc by auto
    have ok: "tx_ok (calm (shared c)) t (txs (shared c) ! t)" using inv_tx [OF inv p(1)] by simp
    have "versions (store (shared c') ! k) = versions (store (shared c) ! k)" if "k \<in> set (wkeys (txs (shared c) ! t))" for k
    proof -
      have "locked_by (store (shared c) ! k) = int t" "k < MAX_KEYS" using that ok p(2) by (auto simp: tx_ok_def)
      then show ?thesis using assms(2,3) by (auto simp: changes_def)
    qed
    then show ?thesis using Tx_installing p ch by auto
  qed (use pc ch in auto)
qed

lemma threads_invI:
  assumes "threads_inv c" and "mvcc_inv (calm (shared c'))" and "changes u c c'" and "pc_ok (shared c') u (pcs c' u)"
  shows "threads_inv c'"
  unfolding threads_inv_def
proof (intro conjI allI)
  show "pc_ok (shared c') t (pcs c' t)" for t using pc_ok_other [OF assms(1,3)] assms(4) by (cases "t = u") auto
qed (rule assms(2))

text \<open>A section that only changes the transaction of its thread, locks and edges.\<close>

lemma changes_plain:
  assumes "\<And>t. t \<noteq> u \<Longrightarrow> txs s ! t = txs (shared c) ! t" and "global_ts (shared c) \<le> global_ts s"
    and "\<And>k. k < MAX_KEYS \<Longrightarrow> versions (store s ! k) = versions (store (shared c) ! k)"
    and "\<And>k t. k < MAX_KEYS \<Longrightarrow> t \<noteq> u \<Longrightarrow> locked_by (store (shared c) ! k) = int t \<Longrightarrow> locked_by (store s ! k) = int t"
  shows "changes u c (moved c s u pc)"
  using assms by (simp add: changes_def)

lemma section_ok:
  assumes "section_step u c c'" and "threads_inv c"
  shows "threads_inv c' \<and> changes u c c'"
proof -
  have inv: "mvcc_inv (calm (shared c))" and pc: "pc_ok (shared c) u (pcs c u)" using assms(2) by (simp_all add: threads_inv_def)
  note len = inv_len [OF inv, simplified] and ts = inv_ts [OF inv, simplified]
  note id = inv_tx_id [OF inv, simplified] and key = inv_key [OF inv, simplified] and tx = inv_tx [OF inv, simplified]
  have fin: "threads_inv (moved c s u pc') \<and> changes u c (moved c s u pc')"
    if "mvcc_inv (calm s)" "changes u c (moved c s u pc')" "pc_ok s u pc'" for s pc'
    using threads_invI [OF assms(2) _ that(2)] that by simp
  from assms(1) show ?thesis
  proof cases
    case sec_begin
    note nx = begin_ts_ts [OF ts(1) sec_begin(4,3)]
    show ?thesis unfolding sec_begin(1)
    proof (rule fin)
      show "mvcc_inv (calm (fst (begin_tx (shared c) (int u))))" using begin_tx_inv [OF inv] sec_begin(4) by (simp add: begin_calm)
      show "changes u c (moved c (fst (begin_tx (shared c) (int u))) u Tx_outside)"
        by (rule changes_plain) (use nx in \<open>auto simp: begin_tx_def next_ts_def upd_tx_def Let_def\<close>)
    qed simp
  next
    case (sec_mark)
    then have u: "u < MAX_TRANSACTIONS" using pc by simp
    let ?x = "(txs (shared c) ! u)\<lparr>tx_state := TX_ABORTED\<rparr>"
    show ?thesis unfolding sec_mark(1)
    proof (rule fin)
      show "mvcc_inv (calm (upd_tx (shared c) u (\<lambda>x. x\<lparr>tx_state := TX_ABORTED\<rparr>)))"
        by (rule mvcc_invI [OF inv, where t = u and x = ?x])
          (use u len ts key wait_ok_no_edges tx_ok_inactive [OF tx [OF u], of ?x] in \<open>auto simp: upd_tx_def\<close>)
      show "changes u c (moved c (upd_tx (shared c) u (\<lambda>x. x\<lparr>tx_state := TX_ABORTED\<rparr>)) u Tx_cleaning)"
        by (rule changes_plain) (auto simp: upd_tx_def)
    qed (use u len in \<open>simp add: upd_tx_def\<close>)
  next
    case sec_cleanup
    then have u: "u < MAX_TRANSACTIONS" "tx_state (txs (shared c) ! u) \<noteq> TX_ACTIVE" using pc by auto
    have eq: "write_cleanup (shared c) u = (shared c)\<lparr>wait_for := clear_edges (wait_for (shared c)) u, store := release_locks (store (shared c)) (int u)\<rparr>"
      using id [OF u(1)] by (simp add: write_cleanup_def Let_def)
    have "(calm (shared c))\<lparr>store := release_locks (store (shared c)) (int u), wait_for := clear_edges (wait_for (calm (shared c))) u,
        txs := (txs (shared c))[u := txs (shared c) ! u]\<rparr> = calm (write_cleanup (shared c) u)"
      unfolding eq by (simp add: calm_def)
    then have "mvcc_inv (calm (write_cleanup (shared c) u))"
      using release_inv [OF inv u(1,2)] tx [OF u(1)] by simp
    then show ?thesis unfolding sec_cleanup(1)
    proof (rule fin)
      show "changes u c (moved c (write_cleanup (shared c) u) u Tx_outside)"
        by (rule changes_plain) (auto simp: eq release_locks_nth len)
    qed simp
  next
    case sec_abort
    show ?thesis unfolding sec_abort(1)
    proof (rule fin)
      show "mvcc_inv (calm (tx_abort (shared c) (Some u)))" using tx_abort_inv [OF inv] sec_abort(3) by (simp add: abort_calm)
      show "changes u c (moved c (tx_abort (shared c) (Some u)) u Tx_outside)"
        by (rule changes_plain) (auto simp: tx_abort_def upd_tx_def Let_def release_locks_nth len id [OF sec_abort(3)])
    qed simp
  next
    case (sec_draw tsn s)
    then have s: "tsn = global_ts (shared c)" "s = (shared c)\<lparr>global_ts := global_ts (shared c) + 1\<rparr>"
      using next_ts_less [OF ts(1) sec_draw(5)] by (auto simp: next_ts_def)
    have active: "tx_ok (calm (shared c)) u (txs (shared c) ! u)" using tx [OF sec_draw(3)] .
    then have one: "1 < global_ts (shared c)" using sec_draw(4) by (simp add: tx_ok_def)
    show ?thesis unfolding sec_draw(1)
    proof (rule fin)
      show "mvcc_inv (calm s)"
        by (rule mvcc_invI [OF inv, where t = u and x = "txs (shared c) ! u"])
          (use sec_draw(3,5) s len ts wait_ok_no_edges key active in
            \<open>auto intro!: key_ok_mono [OF key] tx_ok_frame [OF active]\<close>)
      show "changes u c (moved c s u (Tx_installing tsn))" by (rule changes_plain) (auto simp: s)
      have "begin_ts (hd (versions (store (shared c) ! k))) < global_ts (shared c)" if "k \<in> set (wkeys (txs (shared c) ! u))" for k
      proof -
        have "k < MAX_KEYS" using that active by (auto simp: tx_ok_def)
        from key [OF this] one show ?thesis by (simp add: key_ok_def)
      qed
      then show "pc_ok s u (Tx_installing tsn)" using sec_draw(3,4) one by (simp add: s)
    qed
  next
    case (sec_install tsn)
    then have p: "u < MAX_TRANSACTIONS" "tx_state (txs (shared c) ! u) = TX_ACTIVE" "tsn < global_ts (shared c)"
      "\<And>k. k \<in> set (wkeys (txs (shared c) ! u)) \<Longrightarrow> begin_ts (hd (versions (store (shared c) ! k))) < tsn"
      using pc by auto
    let ?ks = "fold (install_version tsn) (buffered (txs (shared c) ! u)) (store (shared c))"
    let ?x = "(txs (shared c) ! u)\<lparr>tx_state := TX_COMMITTED\<rparr>"
    note ks = commit_store_nth [OF inv p(1), of _ tsn, simplified]
    have wk: "k \<in> set (wkeys (txs (shared c) ! u))" if "map_of (buffered (txs (shared c) ! u)) k = Some v" for k v
    proof -
      have "map fst (buffered (txs (shared c) ! u)) = wkeys (txs (shared c) ! u)"
        using tx [OF p(1)] by (intro map_fst_buffered) (simp add: tx_ok_def)
      moreover have "k \<in> set (map fst (buffered (txs (shared c) ! u)))" using map_of_SomeD [OF that] by force
      ultimately show ?thesis by simp
    qed
    define s1 where "s1 = (calm (shared c))\<lparr>store := ?ks\<rparr>"
    have s1: "mvcc_inv s1"
    proof (rule mvcc_invI [OF inv _ _ _ _ _ _ p(1), where x = "txs (shared c) ! u"])
      show "key_ok (global_ts s1) i (store s1 ! i)" if "i < MAX_KEYS" for i
        using key [OF that] ts(2) p(3,4) wk
        by (auto simp: s1_def ks(1) [OF that] intro!: key_ok_install_pending split: option.split)
      show "tx_ok s1 u (txs (shared c) ! u)"
        by (rule tx_ok_frame [OF tx [OF p(1)]]) (auto simp: s1_def ks(1) split: option.split)
    qed (use wait_ok_no_edges ks(2) [of 0] ts in \<open>auto simp: s1_def ks(1) mvcc_consts split: option.split\<close>)
    moreover have "tx_ok s1 u ?x" by (rule tx_ok_inactive [OF tx [OF p(1)]]) simp_all
    ultimately have "mvcc_inv (s1\<lparr>store := release_locks (store s1) (int u), wait_for := clear_edges (wait_for s1) u,
           txs := (txs s1)[u := ?x]\<rparr>)"
      by (intro release_inv) (simp_all add: p(1))
    moreover have eq: "commit_locked (shared c) u tsn = (shared c)\<lparr>store := release_locks ?ks (int u),
        wait_for := clear_edges (wait_for (shared c)) u, txs := (txs (shared c))[u := ?x]\<rparr>"
      by (simp add: commit_locked_def upd_tx_def id [OF p(1)] Let_def)
    have "s1\<lparr>store := release_locks (store s1) (int u), wait_for := clear_edges (wait_for s1) u, txs := (txs s1)[u := ?x]\<rparr> =
        calm (commit_locked (shared c) u tsn)"
      by (rule mvcc.equality) (simp_all add: eq s1_def)
    ultimately have i: "mvcc_inv (calm (commit_locked (shared c) u tsn))" by simp
    have lock: "locked_by (store (shared c) ! k) = int u" if "k \<in> set (wkeys (txs (shared c) ! u))" for k
      using that tx [OF p(1)] p(2) by (auto simp: tx_ok_def)
    have "changes u c (moved c (commit_locked (shared c) u tsn) u Tx_outside)"
      unfolding changes_def
    proof (intro conjI allI impI)
      show "versions (store (shared (moved c (commit_locked (shared c) u tsn) u Tx_outside)) ! k) = versions (store (shared c) ! k) \<or>
          locked_by (store (shared c) ! k) = int u \<and> (\<exists>ts v. pcs c u = Tx_installing ts \<and>
            versions (store (shared (moved c (commit_locked (shared c) u tsn) u Tx_outside)) ! k) =
            install_head ts v (versions (store (shared c) ! k)))" if "k < MAX_KEYS" for k
        using that lock [OF wk] sec_install(2) by (auto simp: eq release_locks_nth ks split: option.split)
    qed (auto simp: eq release_locks_nth ks split: option.split)
    with i show ?thesis unfolding sec_install(1) by (intro fin) simp_all
  next
    case (sec_acquire n k s r v)
    have k: "k < MAX_KEYS" using find_key_index_nth [OF inv, of n] sec_acquire(5) by (simp add: find_key_index_calm)
    note u = sec_acquire(3) and me = id [OF sec_acquire(3)]
    show ?thesis
    proof (cases "locked_by (store (shared c) ! k) = -1 \<or> locked_by (store (shared c) ! k) = int u")
      case True
      then have s: "r = 0" "s = (shared c)\<lparr>store := (store (shared c))[k := (store (shared c) ! k)\<lparr>locked_by := int u\<rparr>],
          wait_for := clear_row (wait_for (shared c)) u\<rparr>"
        using sec_acquire(6) by (auto simp: try_acquire_lock_def me)
      have "mvcc_inv (calm s)"
        by (rule mvcc_invI [OF inv _ _ _ _ _ _ u, where x = "txs (shared c) ! u"])
          (use k u True ts len key wait_ok_no_edges tx_ok_frame [OF tx [OF u], of "calm s"] in
            \<open>auto simp: s nth_list_update key_ok_lock\<close>)
      moreover have "changes u c (moved c s u (Tx_buffering k v))"
        by (rule changes_plain) (use True len k in \<open>auto simp: s nth_list_update\<close>)
      moreover have "pc_ok s u (Tx_buffering k v)" using k u len by (simp add: s)
      ultimately show ?thesis unfolding sec_acquire(1) using s(1) by (simp add: fin)
    next
      case False
      then obtain w where s: "s = (shared c)\<lparr>wait_for := w\<rparr>" "r = -1 \<or> r = 1"
        using sec_acquire(6) by (auto simp: try_acquire_lock_def me Let_def split: bind_splits if_splits)
      have "changes u c (moved c s u pc')" for pc' by (rule changes_plain) (simp_all add: s)
      moreover have "mvcc_inv (calm s)" using inv by (simp add: s)
      ultimately show ?thesis unfolding sec_acquire(1) 
        using s(2) u fin [of s Tx_deadlocked] fin [of s Tx_outside] by auto
    qed
  next
    case (sec_buffer k v)
    then have u: "u < MAX_TRANSACTIONS" "k < MAX_KEYS" "locked_by (store (shared c) ! k) = int u" using pc by auto
    let ?s = "(shared c)\<lparr>txs := (txs (shared c))[u := put_write (txs (shared c) ! u) k v]\<rparr>"
    note room = write_buffer_room [OF tx [OF u(1)]]
    have s: "fst (write_buffered (shared c) u k v) = ?s"
      using room by (simp add: write_buffered_def put_write_def upd_tx_def split: option.split)
    have "tx_ok (calm ?s) u (put_write (txs (shared c) ! u) k v)"
      using tx [OF u(1)] u wkeys_put_write [OF tx [OF u(1)], of k v] room
      by (auto simp: tx_ok_def put_write_fields subset_iff) (auto simp: put_write_def split: option.splits)
    then have "mvcc_inv (calm ?s)"
      by (intro mvcc_invI [OF inv _ _ _ _ _ _ u(1), where x = "put_write (txs (shared c) ! u) k v"])
        (use ts len key wait_ok_no_edges in auto)
    moreover have "changes u c (moved c ?s u Tx_outside)" by (rule changes_plain) simp_all
    ultimately show ?thesis unfolding sec_buffer(1) s by (intro fin) simp_all
  qed
qed

lemma threads_reach_inv: "threads_reach c \<Longrightarrow> threads_inv c"
proof (induction rule: threads_reach.induct)
  case threads_start
  have "calm (init_store mvcc_static) = init_store mvcc_static"
    by (simp add: calm_def init_store_def no_edges_def)
  then show ?case using init_inv by (simp add: threads_inv_def threads_init_def)
qed (use section_ok in blast)

section \<open>A snapshot while the sections of the others run\<close>

lemma find_key_index_keeps: "threads_inv c \<Longrightarrow> threads_inv c' \<Longrightarrow> find_key_index (shared c) n = find_key_index (shared c') n"
  using step_keys [of "calm (shared c)" "calm (shared c')" n] by (simp add: threads_inv_def find_key_index_calm)

text \<open>What \<open>tx_read\<close> of an active transaction depends on.\<close>

lemma tx_read_cong:
  assumes "txs s' ! t = txs s ! t" and "find_key_index s' n = find_key_index s n"
    and "\<And>k. find_key_index s n = int k \<Longrightarrow> tx_state (txs s ! t) = TX_ACTIVE \<Longrightarrow>
      map_option v_value (find (visible (start_ts (txs s ! t))) (versions (store s' ! k))) =
      map_option v_value (find (visible (start_ts (txs s ! t))) (versions (store s ! k)))"
  shows "tx_read s' (Some t) n out = tx_read s (Some t) n out"
proof (cases "tx_state (txs s ! t) = TX_ACTIVE \<and> 0 \<le> find_key_index s n")
  case True
  then obtain k where k: "find_key_index s n = int k" using nonneg_int_cases by blast
  from assms(3) [OF k] True show ?thesis
    by (auto simp: tx_read_def Let_def k assms(1,2) split: option.split)
qed (use assms in \<open>auto simp: tx_read_def Let_def\<close>)

text \<open>A section of another transaction: the transaction itself, the condition on the commits under way and what is read stay.\<close>

lemma section_snapshot:
  assumes "section_step u c c'" and "u \<noteq> t" and "threads_inv c" and "t < MAX_TRANSACTIONS"
    and "tx_state (txs (shared c) ! t) = TX_ACTIVE" and "settled c t"
  shows "txs (shared c') ! t = txs (shared c) ! t" and "settled c' t"
    and "tx_read (shared c') (Some t) n out = tx_read (shared c) (Some t) n out"
proof -
  have ok: "threads_inv c'" "changes u c c'" using section_ok [OF assms(1,3)] by simp_all
  have inv: "mvcc_inv (calm (shared c))" using assms(3) by (simp add: threads_inv_def)
  have st: "start_ts (txs (shared c) ! t) < global_ts (shared c)"
    using inv_tx [OF inv assms(4)] assms(5) by (simp add: tx_ok_def)
  show same: "txs (shared c') ! t = txs (shared c) ! t" using ok(2) assms(2) by (auto simp: changes_def)
  have "start_ts (txs (shared c) ! t) < ts" if "pcs c' u = Tx_installing ts" for ts
    using assms(1) by cases (use that st in \<open>auto simp: next_ts_def split: if_splits\<close>)
  then show "settled c' t" using assms(6) ok(2) unfolding settled_def same by (metis changes_def)
  show "tx_read (shared c') (Some t) n out = tx_read (shared c) (Some t) n out"
  proof (rule tx_read_cong [OF same find_key_index_keeps [OF ok(1) assms(3)]])
    fix k assume k: "find_key_index (shared c) n = int k"
    then have km: "k < MAX_KEYS" using find_key_index_nth [OF inv, of n] by (simp add: find_key_index_calm)
    from ok(2) km consider "versions (store (shared c') ! k) = versions (store (shared c) ! k)"
      | ts v where "pcs c u = Tx_installing ts"
          "versions (store (shared c') ! k) = install_head ts v (versions (store (shared c) ! k))"
      unfolding changes_def by blast
    then show "map_option v_value (find (visible (start_ts (txs (shared c) ! t))) (versions (store (shared c') ! k))) =
      map_option v_value (find (visible (start_ts (txs (shared c) ! t))) (versions (store (shared c) ! k)))"
    proof cases
      case (2 ts v)
      have "ts < global_ts (shared c)" using assms(3) 2(1) by (metis pc_ok.simps(5) threads_inv_def)
      moreover have "start_ts (txs (shared c) ! t) < ts" using assms(2,6) 2(1) by (auto simp: settled_def)
      ultimately show ?thesis
        using install_head_snapshot [OF inv_key [OF inv km], of "start_ts (txs (shared c) ! t)" ts v]
          inv_ts(2) [OF inv] 2(2) by simp
    qed simp
  qed
qed

section \<open>Runs of sections\<close>

text \<open>The sections as functions of the state: \<open>None\<close> when the thread is not at that section.\<close>

datatype sec = Sec_begin | Sec_acquire string "char list" | Sec_mark | Sec_cleanup | Sec_buffer | Sec_draw | Sec_install | Sec_abort

fun do_section :: "nat \<Rightarrow> sec \<Rightarrow> mvcc_threads \<Rightarrow> mvcc_threads option" where
  "do_section t Sec_begin c = (if pcs c t = Tx_outside \<and> t < MAX_TRANSACTIONS \<and> global_ts (shared c) < ULONG_MAX
     then Some (moved c (fst (begin_tx (shared c) (int t))) t Tx_outside) else None)"
| "do_section t (Sec_acquire n v) c =
     (if pcs c t = Tx_outside \<and> t < MAX_TRANSACTIONS \<and> tx_state (txs (shared c) ! t) = TX_ACTIVE \<and> 0 \<le> find_key_index (shared c) n
      then map_option (\<lambda>(s, r). moved c s t (if r = -1 then Tx_deadlocked else if r = 1 then Tx_outside
          else Tx_buffering (nat (find_key_index (shared c) n)) v)) (try_acquire_lock (shared c) t (nat (find_key_index (shared c) n)))
      else None)"
| "do_section t Sec_mark c = (case pcs c t of
     Tx_deadlocked \<Rightarrow> Some (moved c (upd_tx (shared c) t (\<lambda>x. x\<lparr>tx_state := TX_ABORTED\<rparr>)) t Tx_cleaning) | _ \<Rightarrow> None)"
| "do_section t Sec_cleanup c = (case pcs c t of
     Tx_cleaning \<Rightarrow> Some (moved c (write_cleanup (shared c) t) t Tx_outside) | _ \<Rightarrow> None)"
| "do_section t Sec_buffer c = (case pcs c t of
     Tx_buffering k v \<Rightarrow> Some (moved c (fst (write_buffered (shared c) t k v)) t Tx_outside) | _ \<Rightarrow> None)"
| "do_section t Sec_draw c =
     (if pcs c t = Tx_outside \<and> t < MAX_TRANSACTIONS \<and> tx_state (txs (shared c) ! t) = TX_ACTIVE \<and> global_ts (shared c) < ULONG_MAX
      then Some (moved c (snd (next_ts (shared c))) t (Tx_installing (fst (next_ts (shared c))))) else None)"
| "do_section t Sec_install c = (case pcs c t of
     Tx_installing ts \<Rightarrow> Some (moved c (commit_locked (shared c) t ts) t Tx_outside) | _ \<Rightarrow> None)"
| "do_section t Sec_abort c = (if pcs c t = Tx_outside \<and> t < MAX_TRANSACTIONS
     then Some (moved c (tx_abort (shared c) (Some t)) t Tx_outside) else None)"

lemma section_step_iff: "section_step t c c' \<longleftrightarrow> (\<exists>a. do_section t a c = Some c')"
proof
  assume "section_step t c c'"
  then show "\<exists>a. do_section t a c = Some c'"
  proof cases
    case sec_begin then show ?thesis by (intro exI [of _ Sec_begin]) simp
  next
    case (sec_acquire n k s r v) then show ?thesis by (intro exI [of _ "Sec_acquire n v"]) simp
  next
    case sec_mark then show ?thesis by (intro exI [of _ Sec_mark]) simp
  next
    case sec_cleanup then show ?thesis by (intro exI [of _ Sec_cleanup]) simp
  next
    case sec_buffer then show ?thesis by (intro exI [of _ Sec_buffer]) simp
  next
    case sec_draw then show ?thesis by (intro exI [of _ Sec_draw]) simp
  next
    case sec_install then show ?thesis by (intro exI [of _ Sec_install]) simp
  next
    case sec_abort then show ?thesis by (intro exI [of _ Sec_abort]) simp
  qed
next
  assume "\<exists>a. do_section t a c = Some c'"
  then obtain a where a: "do_section t a c = Some c'" ..
  show "section_step t c c'"
  proof (cases a)
    case (Sec_acquire n v)
    let ?k = "nat (find_key_index (shared c) n)"
    have pre: "pcs c t = Tx_outside" "t < MAX_TRANSACTIONS" "tx_state (txs (shared c) ! t) = TX_ACTIVE"
      "0 \<le> find_key_index (shared c) n"
      using a Sec_acquire by (simp_all split: if_splits)
    with a Sec_acquire obtain s r where s: "try_acquire_lock (shared c) t ?k = Some (s, r)"
      "c' = moved c s t (if r = -1 then Tx_deadlocked else if r = 1 then Tx_outside else Tx_buffering ?k v)"
      by auto
    show ?thesis unfolding s(2) by (rule sec_acquire [OF pre(1-3) _ s(1)]) (use pre(4) in simp)
  next
    case Sec_begin then show ?thesis using a sec_begin [of c t] by (auto split: if_splits tx_pc.splits)
  next
    case Sec_mark then show ?thesis using a sec_mark [of c t] by (auto split: if_splits tx_pc.splits)
  next
    case Sec_cleanup then show ?thesis using a sec_cleanup [of c t] by (auto split: if_splits tx_pc.splits)
  next
    case Sec_buffer then show ?thesis using a sec_buffer [of c t] by (auto split: if_splits tx_pc.splits)
  next
    case Sec_draw then show ?thesis using a sec_draw [of c t] by (auto split: if_splits tx_pc.splits)
  next
    case Sec_install then show ?thesis using a sec_install [of c t] by (auto split: if_splits tx_pc.splits)
  next
    case Sec_abort then show ?thesis using a sec_abort [of c t] by (auto split: if_splits tx_pc.splits)
  qed
qed

definition run_sections :: "(nat \<times> sec) list \<Rightarrow> mvcc_threads \<Rightarrow> mvcc_threads option" where
  "run_sections as c = fold (\<lambda>(t, a) r. Option.bind r (do_section t a)) as (Some c)"

lemma run_sections_simps [simp]:
  "run_sections [] c = Some c"
  "run_sections ((t, a) # as) c = Option.bind (do_section t a c) (run_sections as)"
proof -
  have "fold (\<lambda>(t, a) r. Option.bind r (do_section t a)) as None = None" for as :: "(nat \<times> sec) list"
    by (induction as) auto
  then show "run_sections [] c = Some c" "run_sections ((t, a) # as) c = Option.bind (do_section t a c) (run_sections as)"
    by (auto simp: run_sections_def split: bind_splits)
qed

lemma run_sections_reach: "threads_reach c \<Longrightarrow> run_sections as c = Some c' \<Longrightarrow> threads_reach c'"
proof (induction as arbitrary: c)
  case (Cons p as)
  then obtain u a d where p: "p = (u, a)" "do_section u a c = Some d" "run_sections as d = Some c'"
    by (cases p) (auto split: bind_splits)
  then have "threads_reach d" using threads_step [OF Cons.prems(1)] by (auto simp: section_step_iff)
  then show ?case using Cons.IH p(3) by blast
qed simp

lemma run_sections_pcs: "u \<notin> fst ` set as \<Longrightarrow> run_sections as c = Some c' \<Longrightarrow> pcs c' u = pcs c u"
proof (induction as arbitrary: c)
  case (Cons p as)
  then obtain t a d where p: "p = (t, a)" "do_section t a c = Some d" "run_sections as d = Some c'"
    by (cases p) (auto split: bind_splits)
  then have "pcs d u = pcs c u" using Cons.prems(1) by (cases a) (auto split: if_splits tx_pc.splits)
  then show ?case using Cons p by simp
qed simp

lemma run_sections_others:
  "t \<notin> fst ` set as \<Longrightarrow> run_sections as c = Some c' \<Longrightarrow> (others t)\<^sup>*\<^sup>* c c'"
proof (induction as arbitrary: c)
  case (Cons p as)
  then obtain u a d where p: "p = (u, a)" "do_section u a c = Some d" "run_sections as d = Some c'"
    by (cases p) (auto split: bind_splits)
  then have "others t c d" using Cons.prems(1) by (auto simp: others_def section_step_iff)
  then show ?case using Cons p by (auto intro: converse_rtranclp_into_rtranclp)
qed simp

text \<open>The operations as functions are the runs of their sections in a row.\<close>

lemma write_is_sections:
  assumes "pcs c t = Tx_outside" and "t < MAX_TRANSACTIONS" and "tx_state (txs (shared c) ! t) = TX_ACTIVE"
    and "0 \<le> find_key_index (shared c) n" and "tx_write (shared c) (Some t) n v = Some (s, r)"
  shows "map_option shared (run_sections (if r = 1 then [(t, Sec_acquire n v)]
      else if \<exists>q. try_acquire_lock (shared c) t (nat (find_key_index (shared c) n)) = Some (q, -1)
      then [(t, Sec_acquire n v), (t, Sec_mark), (t, Sec_cleanup)]
      else [(t, Sec_acquire n v), (t, Sec_buffer)]) c) = Some s"
proof -
  have "snd (write_buffered q t k v) \<noteq> 1" for q k by (simp add: write_buffered_def split: option.split)
  then have "write_buffered q t k v \<noteq> (s, 1)" for q k by (metis snd_conv)
  with assms show ?thesis by (auto simp: tx_write_def Let_def split: bind_splits if_splits prod.splits)
qed

lemma commit_is_sections:
  assumes "pcs c t = Tx_outside" and "t < MAX_TRANSACTIONS" and "tx_state (txs (shared c) ! t) = TX_ACTIVE"
    and "global_ts (shared c) < ULONG_MAX"
  shows "map_option shared (run_sections [(t, Sec_draw), (t, Sec_install)] c) = Some (fst (tx_commit (shared c) (Some t)))"
  using assms by (simp add: tx_commit_def next_ts_def)

section \<open>Properties\<close>

text \<open>
  Transaction 0 buffers a write of \<open>key0\<close>; transaction 1 begins before or after transaction 0 takes its commit timestamp.
\<close>

definition writer_ready :: "(nat \<times> sec) list" where
  "writer_ready = [(0, Sec_begin), (0, Sec_acquire ''key0'' ''a''), (0, Sec_buffer)]"

definition reader_before :: mvcc_threads where
  "reader_before = the (run_sections (writer_ready @ [(1, Sec_begin)]) threads_init)"

definition reader_between :: mvcc_threads where
  "reader_between = the (run_sections (writer_ready @ [(0, Sec_draw), (1, Sec_begin)]) threads_init)"

text \<open>C2: Snapshot isolation with the operations of the other transactions interleaved section by section: when no commit
  is under way that took its timestamp before transaction \<open>t\<close> began, every read of \<open>t\<close> returns the same, whatever
  sections of other transactions run in between.\<close>

theorem snapshot_read_repeatable:
  assumes "threads_reach c" and "t < MAX_TRANSACTIONS" and "tx_state (txs (shared c) ! t) = TX_ACTIVE" and "settled c t"
    and "(others t)\<^sup>*\<^sup>* c c'"
  shows "tx_read (shared c') (Some t) n out = tx_read (shared c) (Some t) n out"
proof -
  from assms(5) have "threads_inv c' \<and> txs (shared c') ! t = txs (shared c) ! t \<and> settled c' t \<and>
    tx_read (shared c') (Some t) n out = tx_read (shared c) (Some t) n out"
  proof (induction rule: rtranclp_induct)
    case base
    then show ?case using threads_reach_inv [OF assms(1)] assms(4) by simp
  next
    case (step d e)
    then obtain u where u: "u \<noteq> t" "section_step u d e" by (auto simp: others_def)
    then show ?case
      using section_snapshot [OF u(2,1) _ assms(2)] section_ok [OF u(2)] step.IH assms(3) by simp
  qed
  then show ?thesis by simp
qed

theorem snapshot_read_repeatable_witness:
  "tx_read (shared (the (run_sections [(0, Sec_draw), (2, Sec_begin), (0, Sec_install)] reader_before))) (Some 1) ''key0'' (replicate 32 NUL) =
    tx_read (shared reader_before) (Some 1) ''key0'' (replicate 32 NUL)"
proof (rule snapshot_read_repeatable)
  have run: "run_sections (writer_ready @ [(1, Sec_begin)]) threads_init = Some reader_before"
    "run_sections [(0, Sec_draw), (2, Sec_begin), (0, Sec_install)] reader_before =
      Some (the (run_sections [(0, Sec_draw), (2, Sec_begin), (0, Sec_install)] reader_before))"
    unfolding reader_before_def by (rule option.collapse [symmetric], code_simp)+
  show "threads_reach reader_before" by (rule run_sections_reach [OF threads_start run(1)])
  show "(others 1)\<^sup>*\<^sup>* reader_before (the (run_sections [(0, Sec_draw), (2, Sec_begin), (0, Sec_install)] reader_before))"
    by (rule run_sections_others [OF _ run(2)]) simp
  show "tx_state (txs (shared reader_before) ! 1) = TX_ACTIVE" by code_simp
  show "settled reader_before 1"
    unfolding settled_def
  proof (intro allI impI)
    fix u ts assume "u \<noteq> 1" and pc: "pcs reader_before u = Tx_installing ts"
    have "pcs reader_before 0 = Tx_outside" by code_simp
    moreover have "u \<noteq> 0 \<Longrightarrow> pcs reader_before u = Tx_outside"
      using run_sections_pcs [OF _ run(1), of u] \<open>u \<noteq> 1\<close> by (simp add: writer_ready_def threads_init_def)
    ultimately show "start_ts (txs (shared reader_before) ! 1) < ts" using pc by (cases "u = 0") simp_all
  qed
qed (simp add: MAX_TRANSACTIONS_def)

text \<open>The condition is needed: transaction 1 begins between the two halves of the commit of transaction 0, reads the old
  value of \<open>key0\<close>, and reads the new one once the commit has installed it.\<close>

theorem commit_timestamp_race:
  "threads_reach reader_between \<and> pcs reader_between 0 = Tx_installing 2 \<and>
   start_ts (txs (shared reader_between) ! 1) = 3 \<and> tx_state (txs (shared reader_between) ! 1) = TX_ACTIVE \<and>
   tx_read (shared reader_between) (Some 1) ''key0'' (replicate 32 NUL) = (0, strncpy VALUE_LEN ''-'') \<and>
   (\<exists>c'. others 1 reader_between c' \<and>
      tx_read (shared c') (Some 1) ''key0'' (replicate 32 NUL) = (0, strncpy VALUE_LEN ''a''))"
proof -
  let ?c = "moved reader_between (commit_locked (shared reader_between) 0 2) 0 Tx_outside"
  have run: "run_sections (writer_ready @ [(0, Sec_draw), (1, Sec_begin)]) threads_init = Some reader_between"
    unfolding reader_between_def by (rule option.collapse [symmetric]) code_simp
  have pc: "pcs reader_between 0 = Tx_installing 2" by code_simp
  have "others 1 reader_between ?c" unfolding others_def using sec_install [OF pc] by fastforce
  moreover have "tx_read (shared ?c) (Some 1) ''key0'' (replicate 32 NUL) = (0, strncpy VALUE_LEN ''a'')" by code_simp
  moreover have "start_ts (txs (shared reader_between) ! 1) = 3" "tx_state (txs (shared reader_between) ! 1) = TX_ACTIVE"
    "tx_read (shared reader_between) (Some 1) ''key0'' (replicate 32 NUL) = (0, strncpy VALUE_LEN ''-'')"
    by code_simp+
  ultimately show ?thesis using pc run_sections_reach [OF threads_start run] by blast
qed

text \<open>
  Between the step that finds a cycle and the cleanup, any other transaction that has to wait is told that it is in a
  deadlock too: transactions 0 and 1 wait for each other, transaction 2 waits for 0, and nobody waits for 2.
\<close>

definition cycle_closed :: "(nat \<times> sec) list" where
  "cycle_closed = [(0, Sec_begin), (1, Sec_begin), (2, Sec_begin),
     (0, Sec_acquire ''key0'' ''a''), (0, Sec_buffer), (1, Sec_acquire ''key1'' ''b''), (1, Sec_buffer),
     (0, Sec_acquire ''key1'' ''c''), (1, Sec_acquire ''key0'' ''d''), (2, Sec_acquire ''key0'' ''e'')]"

theorem spurious_deadlock:
  "\<exists>c. threads_reach c \<and> pcs c 1 = Tx_deadlocked \<and> pcs c 2 = Tx_deadlocked \<and>
     (\<forall>t<MAX_TRANSACTIONS. \<not> wait_for (shared c) ! t ! 2) \<and> (2, 2) \<notin> (wedges (wait_for (shared c)))\<^sup>+"
proof -
  let ?c = "the (run_sections cycle_closed threads_init)"
  have run: "run_sections cycle_closed threads_init = Some ?c" by (rule option.collapse [symmetric]) code_simp
  have no: "\<forall>t\<in>set [0..<MAX_TRANSACTIONS]. \<not> wait_for (shared ?c) ! t ! 2" by code_simp
  have "(2, 2) \<notin> (wedges (wait_for (shared ?c)))\<^sup>+"
  proof
    assume "(2, 2) \<in> (wedges (wait_for (shared ?c)))\<^sup>+"
    then obtain t where "(t, 2) \<in> wedges (wait_for (shared ?c))" by (blast elim: tranclE)
    then show False using no by (auto simp: wedges_def)
  qed
  moreover have "pcs ?c 1 = Tx_deadlocked" "pcs ?c 2 = Tx_deadlocked" by code_simp+
  ultimately show ?thesis using run_sections_reach [OF threads_start run] no by (intro exI [of _ ?c]) simp
qed

end
