(* ===== verification/Page_Cache.thy ===== *)
theory Page_Cache
  imports GT_Prelude
begin

text \<open>
  The three page replacement simulations of \<^verbatim>\<open>src/page_cache_simulator.c\<close>, each over an arbitrary
  request sequence (the program runs them on the array \<open>pages\<close>). A simulation returns what it
  prints per request together with its final state. The linked lists of the ARC
  simulation are never shared, so each is the list of its pages, front first.
\<close>

definition MAX_FRAMES :: nat where "MAX_FRAMES = 3"

definition pages :: "int list" where
  "pages = [1, 2, 3, 1, 2, 3, 1, 4, 2, 5, 1, 2]"

definition findPage :: "int list \<Rightarrow> int \<Rightarrow> nat \<Rightarrow> int" where
  "findPage buffer page n =
     (case find (\<lambda>i. buffer ! i = page) [0..<n] of Some i \<Rightarrow> int i | None \<Rightarrow> -1)"

text \<open>\<open>printBuffer\<close>: \<open>None\<close> is the dash printed for an empty frame.\<close>

definition printBuffer :: "int list \<Rightarrow> nat \<Rightarrow> int option list" where
  "printBuffer buffer n = map (\<lambda>i. if buffer ! i \<noteq> -1 then Some (buffer ! i) else None) [0..<n]"

section \<open>LRU\<close>

record lru =
  lru_buffer :: "int list"
  lru_time :: "int list"
  lru_hits :: nat
  lru_misses :: nat
  lru_counter :: int

datatype lru_event = HIT | MISS_Evict int | MISS_Insert

definition lru_init :: lru where
  "lru_init = \<lparr>lru_buffer = replicate MAX_FRAMES (-1), lru_time = replicate MAX_FRAMES (-1),
     lru_hits = 0, lru_misses = 0, lru_counter = 0\<rparr>"

definition lru_empty :: "int list \<Rightarrow> int" where
  "lru_empty buffer =
     (case find (\<lambda>j. buffer ! j = -1) [0..<MAX_FRAMES] of Some j \<Rightarrow> int j | None \<Rightarrow> -1)"

definition lru_victim :: "int list \<Rightarrow> nat" where
  "lru_victim time = fold (\<lambda>j l. if time ! j < time ! l then j else l) [1..<MAX_FRAMES] 0"

text \<open>\<open>buffer[i] = page; time[i] = ++counter\<close>.\<close>

definition lru_put :: "lru \<Rightarrow> nat \<Rightarrow> int \<Rightarrow> lru" where
  "lru_put s i page = s\<lparr>lru_buffer := (lru_buffer s)[i := page], lru_counter := lru_counter s + 1,
     lru_time := (lru_time s)[i := lru_counter s + 1]\<rparr>"

definition lru_step :: "lru \<Rightarrow> int \<Rightarrow> lru \<times> lru_event" where
  "lru_step s page =
     (let pos = findPage (lru_buffer s) page MAX_FRAMES in
      if pos \<noteq> -1 then
        (s\<lparr>lru_hits := lru_hits s + 1, lru_counter := lru_counter s + 1,
           lru_time := (lru_time s)[nat pos := lru_counter s + 1]\<rparr>, HIT)
      else
        let s = s\<lparr>lru_misses := lru_misses s + 1\<rparr>;
            empty = lru_empty (lru_buffer s) in
        if empty = -1 then
          let l = lru_victim (lru_time s) in (lru_put s l page, MISS_Evict (lru_buffer s ! l))
        else (lru_put s (nat empty) page, MISS_Insert))"

fun lru_run :: "lru \<Rightarrow> int list \<Rightarrow> lru \<times> (lru_event \<times> int option list) list" where
  "lru_run s [] = (s, [])"
| "lru_run s (page # ps) =
     (let (s, e) = lru_step s page;
          (s', out) = lru_run s ps
      in (s', (e, printBuffer (lru_buffer s) MAX_FRAMES) # out))"

definition simulateLRU :: "int list \<Rightarrow> lru \<times> (lru_event \<times> int option list) list" where
  "simulateLRU ps = lru_run lru_init ps"

section \<open>Clock\<close>

record clock =
  ck_buffer :: "int list"
  ck_ref :: "bool list"
  ck_pointer :: nat
  ck_hits :: nat
  ck_misses :: nat

definition clock_init :: clock where
  "clock_init = \<lparr>ck_buffer = replicate MAX_FRAMES (-1), ck_ref = replicate MAX_FRAMES False,
     ck_pointer = 0, ck_hits = 0, ck_misses = 0\<rparr>"

text \<open>The loop \<open>while (1)\<close> that looks for a frame; \<open>None\<close> is not returning.\<close>

partial_function (option) clock_sweep :: "clock \<Rightarrow> int \<Rightarrow> clock option" where
  "clock_sweep s page =
     (let i = ck_pointer s in
      if \<not> ck_ref s ! i then
        Some (s\<lparr>ck_buffer := (ck_buffer s)[i := page], ck_ref := (ck_ref s)[i := True],
                ck_pointer := (i + 1) mod MAX_FRAMES\<rparr>)
      else clock_sweep (s\<lparr>ck_ref := (ck_ref s)[i := False], ck_pointer := (i + 1) mod MAX_FRAMES\<rparr>) page)"

declare clock_sweep.simps [code]

definition clock_step :: "clock \<Rightarrow> int \<Rightarrow> clock option" where
  "clock_step s page =
     (case find (\<lambda>j. ck_buffer s ! j = page) [0..<MAX_FRAMES] of
        Some j \<Rightarrow> Some (s\<lparr>ck_ref := (ck_ref s)[j := True], ck_hits := ck_hits s + 1\<rparr>)
      | None \<Rightarrow> clock_sweep (s\<lparr>ck_misses := ck_misses s + 1\<rparr>) page)"

definition clock_line :: "clock \<Rightarrow> (int \<times> bool) option list" where
  "clock_line s = map (\<lambda>j. if ck_buffer s ! j \<noteq> -1 then Some (ck_buffer s ! j, ck_ref s ! j) else None)
     [0..<MAX_FRAMES]"

fun clock_run :: "clock \<Rightarrow> int list \<Rightarrow> (clock \<times> (int \<times> bool) option list list) option" where
  "clock_run s [] = Some (s, [])"
| "clock_run s (page # ps) = do {
     s \<leftarrow> clock_step s page;
     (s', out) \<leftarrow> clock_run s ps;
     Some (s', clock_line s # out) }"

definition simulateClock :: "int list \<Rightarrow> (clock \<times> (int \<times> bool) option list list) option" where
  "simulateClock ps = clock_run clock_init ps"

section \<open>ARC\<close>

record arc =
  T1 :: "int list"
  T2 :: "int list"
  B1 :: "int list"
  B2 :: "int list"
  arc_p :: int
  hitsARC :: nat
  missesARC :: nat

definition arc_init :: arc where
  "arc_init = \<lparr>T1 = [], T2 = [], B1 = [], B2 = [], arc_p = 0, hitsARC = 0, missesARC = 0\<rparr>"

fun contains :: "int list \<Rightarrow> int \<Rightarrow> bool" where
  "contains [] page = False"
| "contains (c # cs) page = (if c = page then True else contains cs page)"

fun removeNode :: "int list \<Rightarrow> int \<Rightarrow> int list" where
  "removeNode [] page = []"
| "removeNode (c # cs) page = (if c = page then cs else c # removeNode cs page)"

definition addToFront :: "int list \<Rightarrow> int \<Rightarrow> int list" where
  "addToFront xs page = page # xs"

text \<open>\<open>removeLRU\<close>: the page of the last node, or -1, and the list without it.\<close>

fun removeLRU :: "int list \<Rightarrow> int \<times> int list" where
  "removeLRU [] = (-1, [])"
| "removeLRU [c] = (c, [])"
| "removeLRU (c # cs) = (let (page, cs') = removeLRU cs in (page, c # cs'))"

definition replaceARC :: "arc \<Rightarrow> arc" where
  "replaceARC s =
     (if length (T1 s) \<ge> 1 \<and> (int (length (T1 s)) > arc_p s \<or>
          contains (B2 s) 0 \<and> int (length (T1 s)) = arc_p s) then
        let (old, t1) = removeLRU (T1 s) in s\<lparr>T1 := t1, B1 := addToFront (B1 s) old\<rparr>
      else
        let (old, t2) = removeLRU (T2 s) in s\<lparr>T2 := t2, B2 := addToFront (B2 s) old\<rparr>)"

datatype arc_event = ARC_HIT | ARC_MISS_B1 | ARC_MISS_B2 | ARC_MISS_new

definition arc_step :: "arc \<Rightarrow> int \<Rightarrow> arc \<times> arc_event" where
  "arc_step s page =
     (if contains (T1 s) page \<or> contains (T2 s) page then
        let s = s\<lparr>hitsARC := hitsARC s + 1\<rparr> in
        (if contains (T1 s) page then
           s\<lparr>T1 := removeNode (T1 s) page, T2 := addToFront (T2 s) page\<rparr>
         else s\<lparr>T2 := addToFront (removeNode (T2 s) page) page\<rparr>, ARC_HIT)
      else
        let s = s\<lparr>missesARC := missesARC s + 1\<rparr> in
        if contains (B1 s) page then
          let s = s\<lparr>arc_p := if arc_p s + (if length (B2 s) > 0 then 1 else 0) < int MAX_FRAMES
                             then arc_p s + 1 else int MAX_FRAMES\<rparr>;
              s = replaceARC s
          in (s\<lparr>B1 := removeNode (B1 s) page, T2 := addToFront (T2 s) page\<rparr>, ARC_MISS_B1)
        else if contains (B2 s) page then
          let s = s\<lparr>arc_p := if arc_p s - (if length (B1 s) > 0 then 1 else 0) > 0
                             then arc_p s - 1 else 0\<rparr>;
              s = replaceARC s
          in (s\<lparr>B2 := removeNode (B2 s) page, T2 := addToFront (T2 s) page\<rparr>, ARC_MISS_B2)
        else
          let s = (if length (T1 s) + length (T2 s) \<ge> MAX_FRAMES then replaceARC s else s)
          in (s\<lparr>T1 := addToFront (T1 s) page\<rparr>, ARC_MISS_new))"

text \<open>After a hit the loop continues without printing the lists.\<close>

fun arc_run :: "arc \<Rightarrow> int list \<Rightarrow> arc \<times> (arc_event \<times> (int list \<times> int list \<times> int list \<times> int list) option) list" where
  "arc_run s [] = (s, [])"
| "arc_run s (page # ps) =
     (let (s, e) = arc_step s page;
          (s', out) = arc_run s ps
      in (s', (e, if e = ARC_HIT then None else Some (T1 s, T2 s, B1 s, B2 s)) # out))"

definition simulateARC :: "int list \<Rightarrow> arc \<times> (arc_event \<times> (int list \<times> int list \<times> int list \<times> int list) option) list" where
  "simulateARC ps = arc_run arc_init ps"

text \<open>\<open>main\<close>: the simulation \<open>scanf\<close> selects, or the error message.\<close>

datatype cache_output =
    Out_LRU "lru \<times> (lru_event \<times> int option list) list"
  | Out_Clock "(clock \<times> (int \<times> bool) option list list) option"
  | Out_ARC "arc \<times> (arc_event \<times> (int list \<times> int list \<times> int list \<times> int list) option) list"
  | Out_Invalid

definition page_cache_main :: "int \<Rightarrow> cache_output" where
  "page_cache_main choice =
     (if choice = 1 then Out_LRU (simulateLRU pages)
      else if choice = 2 then Out_Clock (simulateClock pages)
      else if choice = 3 then Out_ARC (simulateARC pages)
      else Out_Invalid)"

end
