(* ===== verification/Page_Cache_Props.thy ===== *)
theory Page_Cache_Props
  imports Page_Cache
begin

text \<open>
  What the page replacement simulations guarantee: LRU refines a specification by recency lists,
  the clock hand stops and gives second chances, and the bookkeeping of the ARC simulation with
  the case in which it exceeds the frames.
\<close>

section \<open>LRU: the simulation keeps the most recently requested pages\<close>

text \<open>
  The specification has no frames and no counter: \<open>xs\<close> is the list of all pages requested so
  far, most recent first, and the cache is its first \<open>MAX_FRAMES\<close> elements.
\<close>

definition touch :: "int \<Rightarrow> int list \<Rightarrow> int list" where
  "touch page xs = page # removeAll page xs"

definition lru_event_spec :: "int list \<Rightarrow> int \<Rightarrow> lru_event" where
  "lru_event_spec cache page =
     (if page \<in> set cache then HIT
      else if length cache < MAX_FRAMES then MISS_Insert
      else MISS_Evict (last cache))"

fun lru_spec :: "int list \<Rightarrow> int list \<Rightarrow> lru_event list" where
  "lru_spec xs [] = []"
| "lru_spec xs (page # ps) = lru_event_spec (take MAX_FRAMES xs) page # lru_spec (touch page xs) ps"

definition lru_rep_by :: "nat list \<Rightarrow> lru \<Rightarrow> int list \<Rightarrow> bool" where
  "lru_rep_by js s xs \<longleftrightarrow> length (lru_buffer s) = MAX_FRAMES \<and> length (lru_time s) = MAX_FRAMES \<and>
     distinct js \<and> set js = {i. i < MAX_FRAMES \<and> lru_buffer s ! i \<noteq> -1} \<and>
     xs = map ((!) (lru_buffer s)) js \<and> distinct xs \<and>
     sorted_wrt (\<lambda>i j. lru_time s ! j < lru_time s ! i) js \<and>
     (\<forall>i\<in>set js. lru_time s ! i \<le> lru_counter s)"

definition lru_rep :: "lru \<Rightarrow> int list \<Rightarrow> bool" where
  "lru_rep s xs \<longleftrightarrow> (\<exists>js. lru_rep_by js s xs)"

lemma take_removeAll:
  "distinct ys \<Longrightarrow> take m (removeAll p ys) = take m (removeAll p (take (Suc m) ys))"
proof (induction ys arbitrary: m)
  case (Cons y ys)
  then have IH: "take (m - 1) (removeAll p ys) = take (m - 1) (removeAll p (take m ys))" if "0 < m"
    using Cons.IH [of "m - 1"] that by simp
  show ?case
  proof (cases "p = y")
    case True
    with Cons.prems have "removeAll p ys = ys" "removeAll p (take m ys) = take m ys"
      by (auto intro!: removeAll_id dest: in_set_takeD)
    then show ?thesis using True by simp
  next
    case False
    then show ?thesis using IH by (cases m) simp_all
  qed
qed simp

lemma take_touch: "distinct xs \<Longrightarrow> take (Suc m) (touch p xs) = take (Suc m) (touch p (take (Suc m) xs))"
  using take_removeAll [of xs m p] by (simp add: touch_def)

lemma distinct_touch: "distinct xs \<Longrightarrow> distinct (touch p xs)"
  by (simp add: touch_def distinct_removeAll)

lemma lru_victim_least:
  "lru_victim t < MAX_FRAMES \<and> (\<forall>j<MAX_FRAMES. t ! lru_victim t \<le> t ! j)"
  by (auto simp: lru_victim_def MAX_FRAMES_def upt_rec numeral_3_eq_3 less_Suc_eq)

lemma findPage_Some: "findPage b p n \<noteq> -1 \<Longrightarrow> nat (findPage b p n) < n \<and> b ! nat (findPage b p n) = p"
  and findPage_None: "findPage b p n = -1 \<Longrightarrow> i < n \<Longrightarrow> b ! i \<noteq> p"
  by (auto simp: findPage_def find_Some_iff find_None_iff split: option.splits)

lemma lru_empty_Some: "lru_empty b \<noteq> -1 \<Longrightarrow> nat (lru_empty b) < MAX_FRAMES \<and> b ! nat (lru_empty b) = -1"
  and lru_empty_None: "lru_empty b = -1 \<Longrightarrow> i < MAX_FRAMES \<Longrightarrow> b ! i \<noteq> -1"
  by (auto simp: lru_empty_def find_Some_iff find_None_iff split: option.splits)

lemma lru_init_rep: "lru_rep lru_init []"
  unfolding lru_rep_def by (rule exI [of _ "[]"]) (auto simp: lru_rep_by_def lru_init_def)

text \<open>The frames of a full cache: the victim is the last of the recency order.\<close>

lemma lru_rep_full:
  assumes "lru_rep_by js s xs" and "lru_empty (lru_buffer s) = -1"
  shows "js \<noteq> []" and "length xs = MAX_FRAMES" and "last js = lru_victim (lru_time s)"
proof -
  have all: "set js = {..<MAX_FRAMES}"
    using assms(1) lru_empty_None [OF assms(2)] by (auto simp: lru_rep_by_def)
  have len: "length js = card (set js)" using assms(1) unfolding lru_rep_by_def by (metis distinct_card)
  then have "length js = 3" unfolding all by (simp add: MAX_FRAMES_def)
  then show ne: "js \<noteq> []" by auto
  from len all show "length xs = MAX_FRAMES" using assms(1) by (simp add: lru_rep_by_def)
  have js: "js = butlast js @ [last js]" using ne by simp
  have v: "lru_victim (lru_time s) \<in> set js" using lru_victim_least all by simp
  have "lru_time s ! last js < lru_time s ! i" if "i \<in> set (butlast js)" for i
  proof -
    have "sorted_wrt (\<lambda>i j. lru_time s ! j < lru_time s ! i) (butlast js @ [last js])"
      using assms(1) js by (simp add: lru_rep_by_def)
    with that show ?thesis by (simp add: sorted_wrt_append)
  qed
  moreover have "lru_time s ! lru_victim (lru_time s) \<le> lru_time s ! last js"
    using lru_victim_least all last_in_set [OF ne] by auto
  moreover have "lru_victim (lru_time s) \<in> set (butlast js) \<or> lru_victim (lru_time s) = last js"
    using v js by (metis Un_iff list.set(1) list.set(2) set_append singletonD)
  ultimately show "last js = lru_victim (lru_time s)" by fastforce
qed

text \<open>Writing a frame makes it the first of the order.\<close>

lemma lru_rep_put:
  assumes "lru_rep_by js s xs" and "i < MAX_FRAMES" and "page \<noteq> -1"
    and "page \<notin> set (map ((!) (lru_buffer s)) (removeAll i js))"
  shows "lru_rep_by (i # removeAll i js) (lru_put s i page)
    (page # map ((!) (lru_buffer s)) (removeAll i js))"
proof -
  let ?ks = "removeAll i js"
  have mem: "set ?ks = {j. j < MAX_FRAMES \<and> lru_buffer s ! j \<noteq> -1} - {i}"
    using assms(1) by (simp add: lru_rep_by_def)
  have nth: "lru_time (lru_put s i page) ! j = lru_time s ! j" "lru_buffer (lru_put s i page) ! j = lru_buffer s ! j"
    if "j \<in> set ?ks" for j
    using that mem by (auto simp: lru_put_def)
  have i: "lru_time (lru_put s i page) ! i = lru_counter s + 1" "lru_buffer (lru_put s i page) ! i = page"
    using assms(1,2) by (simp_all add: lru_put_def lru_rep_by_def)
  have srt: "sorted_wrt (\<lambda>a b. lru_time s ! b < lru_time s ! a) ?ks"
    using assms(1) by (simp add: lru_rep_by_def removeAll_filter_not_eq sorted_wrt_filter)
  have cnt: "\<forall>j\<in>set ?ks. lru_time s ! j \<le> lru_counter s"
    using assms(1) by (simp add: lru_rep_by_def)
  have "inj_on ((!) (lru_buffer s)) (set ?ks)"
    using assms(1) by (auto simp: lru_rep_by_def distinct_map intro: inj_on_subset)
  then have "distinct (map ((!) (lru_buffer s)) ?ks)"
    using assms(1) by (simp add: lru_rep_by_def distinct_map distinct_removeAll)
  moreover have "sorted_wrt (\<lambda>a b. lru_time (lru_put s i page) ! b < lru_time (lru_put s i page) ! a) ?ks"
    using srt by (rule sorted_wrt_mono_rel [rotated]) (simp add: nth)
  moreover have "map ((!) (lru_buffer (lru_put s i page))) ?ks = map ((!) (lru_buffer s)) ?ks"
    by (rule map_cong) (simp_all add: nth)
  moreover have "insert i (set ?ks) = {j. j < MAX_FRAMES \<and> lru_buffer (lru_put s i page) ! j \<noteq> -1}"
    using assms(1-3) mem by (auto simp: lru_put_def nth_list_update lru_rep_by_def)
  moreover have "distinct ?ks" using assms(1) by (simp add: lru_rep_by_def distinct_removeAll)
  moreover have "lru_counter (lru_put s i page) = lru_counter s + 1"
    "length (lru_buffer (lru_put s i page)) = MAX_FRAMES" "length (lru_time (lru_put s i page)) = MAX_FRAMES"
    using assms(1) by (simp_all add: lru_put_def lru_rep_by_def)
  moreover have lt: "\<forall>j\<in>set ?ks. lru_time (lru_put s i page) ! j < lru_counter s + 1"
    using cnt nth(1) by force
  moreover from lt have "\<forall>j\<in>set (i # ?ks). lru_time (lru_put s i page) ! j \<le> lru_counter s + 1"
    using i(1) by (metis (no_types, lifting) less_imp_le order_refl set_ConsD)
  ultimately show ?thesis
    using assms(4) unfolding lru_rep_by_def by (simp add: i)
qed


lemma lru_rep_by_counts [simp]:
  "lru_rep_by js (s\<lparr>lru_hits := h\<rparr>) xs = lru_rep_by js s xs"
  "lru_rep_by js (s\<lparr>lru_misses := h\<rparr>) xs = lru_rep_by js s xs"
  by (simp_all add: lru_rep_by_def)

lemma removeAll_map_inj:
  "inj_on f (insert i (set js)) \<Longrightarrow> removeAll (f i) (map f js) = map f (removeAll i js)"
  by (induction js) (auto simp: inj_on_def)

lemma removeAll_last: "distinct js \<Longrightarrow> js \<noteq> [] \<Longrightarrow> removeAll (last js) js = butlast js"
  by (induction js) auto

lemma lru_step_rep:
  assumes "lru_rep s xs" and "page \<noteq> -1"
  shows "lru_rep (fst (lru_step s page)) (take MAX_FRAMES (touch page xs)) \<and>
    snd (lru_step s page) = lru_event_spec xs page"
proof -
  from assms(1) obtain js where js: "lru_rep_by js s xs" by (auto simp: lru_rep_def)
  then have xs: "xs = map ((!) (lru_buffer s)) js" and mem: "set js = {i. i < MAX_FRAMES \<and> lru_buffer s ! i \<noteq> -1}"
    and d: "distinct js" "distinct xs"
    unfolding lru_rep_by_def by blast+
  then have inj: "inj_on ((!) (lru_buffer s)) (set js)" by (simp add: distinct_map)
  have lens: "length xs = card (set js)" using distinct_card [OF d(1)] xs by simp
  have lenx: "length xs \<le> MAX_FRAMES"
    using card_mono [of "{..<MAX_FRAMES}" "set js"] mem lens by auto
  let ?pos = "findPage (lru_buffer s) page MAX_FRAMES"
  show ?thesis
  proof (cases "?pos = -1")
    case False
    define i where "i = nat ?pos"
    have i: "i < MAX_FRAMES" "lru_buffer s ! i = page" using findPage_Some [OF False] by (simp_all add: i_def)
    then have ijs: "i \<in> set js" using mem assms(2) by simp
    then have rm: "removeAll page xs = map ((!) (lru_buffer s)) (removeAll i js)"
      using removeAll_map_inj [of "(!) (lru_buffer s)" i js] inj i(2) xs by (simp add: insert_absorb)
    then have "page \<notin> set (map ((!) (lru_buffer s)) (removeAll i js))" by (metis DiffD2 set_removeAll singletonI)
    from lru_rep_put [OF js i(1) assms(2) this] have
      "lru_rep (lru_put s i page) (touch page xs)"
      unfolding lru_rep_def touch_def rm by blast
    moreover have "page \<in> set xs" using ijs i(2) xs by auto
    moreover from this have "length (touch page xs) \<le> MAX_FRAMES"
      using lenx length_removeAll_less [of page xs] by (simp add: touch_def)
    moreover have "lru_step s page = ((lru_put s i page)\<lparr>lru_hits := lru_hits s + 1\<rparr>, HIT)"
    proof -
      have "(lru_buffer s)[i := page] = lru_buffer s" using i(2) by (metis list_update_id)
      then have "lru_put s i page = s\<lparr>lru_counter := lru_counter s + 1, lru_time := (lru_time s)[i := lru_counter s + 1]\<rparr>"
        by (cases s) (simp add: lru_put_def)
      then show ?thesis using False by (simp add: lru_step_def i_def Let_def)
    qed
    ultimately show ?thesis by (simp add: lru_event_spec_def lru_rep_def)
  next
    case True
    then have nx: "page \<notin> set xs" using findPage_None [OF True] mem xs by auto
    let ?s = "s\<lparr>lru_misses := lru_misses s + 1\<rparr>"
    have js': "lru_rep_by js ?s xs" using js by simp
    show ?thesis
    proof (cases "lru_empty (lru_buffer s) = -1")
      case empty: False
      define e where "e = nat (lru_empty (lru_buffer s))"
      have e: "e < MAX_FRAMES" "lru_buffer s ! e = -1"
        using lru_empty_Some [OF empty] by (simp_all add: e_def)
      then have ne: "removeAll e js = js" using mem by simp
      have "set js \<subset> {..<MAX_FRAMES}" using e mem by blast
      then have len: "length xs < MAX_FRAMES"
        using psubset_card_mono [of "{..<MAX_FRAMES}" "set js"] lens by simp
      have "lru_rep (lru_put ?s e page) (touch page xs)"
        using lru_rep_put [OF js' e(1) assms(2)] nx xs ne unfolding lru_rep_def touch_def by auto
      moreover have "lru_step s page = (lru_put ?s e page, MISS_Insert)"
        using True empty by (simp add: lru_step_def e_def Let_def)
      ultimately show ?thesis using len nx by (simp add: lru_event_spec_def touch_def)
    next
      case empty: True
      note full = lru_rep_full [OF js empty]
      define v where "v = lru_victim (lru_time s)"
      have v: "v < MAX_FRAMES" using lru_victim_least [of "lru_time s"] by (simp add: v_def)
      have rm: "removeAll v js = butlast js"
        using removeAll_last [OF d(1) full(1)] full(3) by (simp add: v_def)
      then have map: "map ((!) (lru_buffer s)) (removeAll v js) = butlast xs"
        using xs by (simp add: map_butlast)
      then have "page \<notin> set (map ((!) (lru_buffer ?s)) (removeAll v js))"
        using nx by (auto dest: in_set_butlastD)
      from lru_rep_put [OF js' v assms(2) this] have
        "lru_rep (lru_put ?s v page) (page # butlast xs)"
        using map unfolding lru_rep_def by auto
      moreover have "take MAX_FRAMES (touch page xs) = page # butlast xs"
        using full(2) nx by (simp add: touch_def butlast_conv_take MAX_FRAMES_def take_Cons')
      moreover have "lru_step s page = (lru_put ?s v page, MISS_Evict (lru_buffer s ! v))"
        using True empty by (simp add: lru_step_def v_def Let_def)
      moreover have "lru_buffer s ! v = last xs"
        using full(1,3) xs by (simp add: last_map v_def)
      ultimately show ?thesis using full(2) nx by (simp add: lru_event_spec_def)
    qed
  qed
qed

lemma lru_run_spec:
  assumes "lru_rep s (take MAX_FRAMES xs)" and "distinct xs" and "-1 \<notin> set ps"
  shows "map fst (snd (lru_run s ps)) = lru_spec xs ps \<and>
    lru_rep (fst (lru_run s ps)) (take MAX_FRAMES (fold touch ps xs))"
  using assms
proof (induction ps arbitrary: s xs)
  case (Cons page ps)
  obtain s' e where st: "lru_step s page = (s', e)" by fastforce
  from Cons.prems have "page \<noteq> -1" by auto
  note step = lru_step_rep [OF Cons.prems(1) this]
  have "take MAX_FRAMES (touch page (take MAX_FRAMES xs)) = take MAX_FRAMES (touch page xs)"
    using take_touch [OF Cons.prems(2), of 2 page] by (simp add: MAX_FRAMES_def numeral_3_eq_3)
  with step st have s': "lru_rep s' (take MAX_FRAMES (touch page xs))"
    and e: "e = lru_event_spec (take MAX_FRAMES xs) page" by simp_all
  from Cons.IH [OF s' distinct_touch [OF Cons.prems(2)]] Cons.prems(3) st e show ?case
    by (simp add: case_prod_beta Let_def)
qed simp

lemma lru_rep_set:
  assumes "lru_rep s xs"
  shows "set (lru_buffer s) - {-1} = set xs"
proof -
  from assms obtain js where len: "length (lru_buffer s) = MAX_FRAMES"
    and mem: "set js = {i. i < MAX_FRAMES \<and> lru_buffer s ! i \<noteq> -1}" and xs: "xs = map ((!) (lru_buffer s)) js"
    unfolding lru_rep_def lru_rep_by_def by blast
  have "set xs = (!) (lru_buffer s) ` {i. i < MAX_FRAMES \<and> lru_buffer s ! i \<noteq> -1}"
    unfolding xs mem [symmetric] by simp
  then show ?thesis using len by (auto simp: in_set_conv_nth)
qed

lemma lru_run_counts:
  "lru_hits (fst (lru_run s ps)) = lru_hits s + length (filter (\<lambda>e. e = HIT) (map fst (snd (lru_run s ps)))) \<and>
   lru_hits (fst (lru_run s ps)) + lru_misses (fst (lru_run s ps)) = lru_hits s + lru_misses s + length ps"
proof (induction ps arbitrary: s)
  case (Cons page ps)
  have "lru_hits (fst (lru_step s page)) = lru_hits s + (if snd (lru_step s page) = HIT then 1 else 0) \<and>
    lru_hits (fst (lru_step s page)) + lru_misses (fst (lru_step s page)) = lru_hits s + lru_misses s + 1"
    by (simp add: lru_step_def lru_put_def Let_def)
  with Cons.IH [of "fst (lru_step s page)"] show ?case
    by (simp add: case_prod_beta Let_def)
qed simp


section \<open>Clock: the sweep returns and gives a second chance\<close>

text \<open>The reference bits after the hand has passed \<open>d\<close> frames from \<open>p\<close> on.\<close>

definition clear_refs :: "bool list \<Rightarrow> nat \<Rightarrow> nat \<Rightarrow> bool list" where
  "clear_refs r p d = fold (\<lambda>j r. r[(p + j) mod MAX_FRAMES := False]) [0..<d] r"

definition clock_place :: "clock \<Rightarrow> nat \<Rightarrow> int \<Rightarrow> clock" where
  "clock_place s d page = (let v = (ck_pointer s + d) mod MAX_FRAMES in
     s\<lparr>ck_buffer := (ck_buffer s)[v := page], ck_ref := (clear_refs (ck_ref s) (ck_pointer s) d)[v := True],
       ck_pointer := (v + 1) mod MAX_FRAMES\<rparr>)"

definition clock_wf :: "clock \<Rightarrow> bool" where
  "clock_wf s \<longleftrightarrow> length (ck_buffer s) = MAX_FRAMES \<and> length (ck_ref s) = MAX_FRAMES \<and>
     ck_pointer s < MAX_FRAMES \<and>
     (\<forall>i<MAX_FRAMES. \<forall>j<MAX_FRAMES. ck_buffer s ! i = ck_buffer s ! j \<longrightarrow> i = j \<or> ck_buffer s ! i = -1)"

lemma MAX_FRAMES_pos [simp]: "0 < MAX_FRAMES"
  by (simp add: MAX_FRAMES_def)

lemma clear_refs_Suc:
  "clear_refs r p (Suc d) = clear_refs (r[p mod MAX_FRAMES := False]) (Suc p mod MAX_FRAMES) d"
proof -
  have "[0..<Suc d] = 0 # map Suc [0..<d]" by (simp only: upt_conv_Cons map_Suc_upt zero_less_Suc)
  moreover have "(Suc p mod MAX_FRAMES + j) mod MAX_FRAMES = (p + Suc j) mod MAX_FRAMES" for j
    by (simp add: mod_add_left_eq [of "Suc p" MAX_FRAMES j])
  ultimately show ?thesis by (simp add: clear_refs_def fold_map o_def del: upt_Suc)
qed

lemma length_clear_refs [simp]: "length (clear_refs r p d) = length r"
  unfolding clear_refs_def by (induction d) auto

lemma mod_frames_neq: "p < MAX_FRAMES \<Longrightarrow> 0 < j \<Longrightarrow> j < MAX_FRAMES \<Longrightarrow> (p + j) mod MAX_FRAMES \<noteq> p"
  unfolding MAX_FRAMES_def by presburger

lemma next_frames_kept:
  "p < MAX_FRAMES \<Longrightarrow> Suc j < MAX_FRAMES \<Longrightarrow> r[p := False] ! (Suc (p + j) mod MAX_FRAMES) = r ! (Suc (p + j) mod MAX_FRAMES)"
  using mod_frames_neq [of p "Suc j"] by simp

lemma clock_sweep_walk:
  "ck_pointer s < MAX_FRAMES \<Longrightarrow> d < MAX_FRAMES \<Longrightarrow>
   \<forall>j<d. ck_ref s ! ((ck_pointer s + j) mod MAX_FRAMES) \<Longrightarrow>
   \<not> ck_ref s ! ((ck_pointer s + d) mod MAX_FRAMES) \<Longrightarrow>
   clock_sweep s page = Some (clock_place s d page)"
proof (induction d arbitrary: s)
  case 0
  then show ?case
    by (subst clock_sweep.simps) (simp add: clock_place_def clear_refs_def Let_def)
next
  case (Suc d)
  let ?i = "ck_pointer s"
  let ?s = "s\<lparr>ck_ref := (ck_ref s)[?i := False], ck_pointer := (?i + 1) mod MAX_FRAMES\<rparr>"
  have shift: "(Suc ?i mod MAX_FRAMES + j) mod MAX_FRAMES = (?i + Suc j) mod MAX_FRAMES" for j
    by (simp add: mod_add_left_eq [of "Suc ?i" MAX_FRAMES j])
  have "clock_sweep ?s page = Some (clock_place ?s d page)"
  proof (rule Suc.IH)
    show "\<forall>j<d. ck_ref ?s ! ((ck_pointer ?s + j) mod MAX_FRAMES)"
      using Suc.prems by (auto simp: shift next_frames_kept dest: spec [of _ "Suc _"])
    show "\<not> ck_ref ?s ! ((ck_pointer ?s + d) mod MAX_FRAMES)"
      using Suc.prems by (simp add: shift next_frames_kept)
  qed (use Suc.prems in simp_all)
  moreover have "ck_ref s ! ?i" using Suc.prems by force
  moreover have "clock_place ?s d page = clock_place s (Suc d) page"
    using Suc.prems(1) by (simp add: clock_place_def clear_refs_Suc shift Let_def)
  ultimately show ?case by (subst clock_sweep.simps) (simp add: Let_def)
qed

lemma clock_sweep_full:
  assumes "clock_wf s" and "\<forall>j<MAX_FRAMES. ck_ref s ! ((ck_pointer s + j) mod MAX_FRAMES)"
  shows "clock_sweep s page = Some (clock_place s MAX_FRAMES page)"
proof -
  let ?i = "ck_pointer s"
  let ?s = "s\<lparr>ck_ref := (ck_ref s)[?i := False], ck_pointer := (?i + 1) mod MAX_FRAMES\<rparr>"
  have p: "?i < MAX_FRAMES" "length (ck_ref s) = MAX_FRAMES" using assms(1) by (simp_all add: clock_wf_def)
  have shift: "(Suc ?i mod MAX_FRAMES + j) mod MAX_FRAMES = (?i + Suc j) mod MAX_FRAMES" for j
    by (simp add: mod_add_left_eq [of "Suc ?i" MAX_FRAMES j])
  have N: "Suc (MAX_FRAMES - 1) = MAX_FRAMES" by (simp add: MAX_FRAMES_def)
  have "clock_sweep ?s page = Some (clock_place ?s (MAX_FRAMES - 1) page)"
  proof (rule clock_sweep_walk)
    show "\<forall>j<MAX_FRAMES - 1. ck_ref ?s ! ((ck_pointer ?s + j) mod MAX_FRAMES)"
    proof (intro allI impI)
      fix j assume "j < MAX_FRAMES - 1"
      then show "ck_ref ?s ! ((ck_pointer ?s + j) mod MAX_FRAMES)"
        using assms(2) [rule_format, of "Suc j"] p by (simp add: shift next_frames_kept)
    qed
    show "\<not> ck_ref ?s ! ((ck_pointer ?s + (MAX_FRAMES - 1)) mod MAX_FRAMES)"
      using p shift [of "MAX_FRAMES - 1"] by (simp add: N)
  qed simp_all
  moreover have "ck_ref s ! ?i" using assms(2) p by force
  moreover have "clock_place ?s (MAX_FRAMES - 1) page = clock_place s MAX_FRAMES page"
    using p(1) clear_refs_Suc [of "ck_ref s" ?i "MAX_FRAMES - 1"] shift [of "MAX_FRAMES - 1"]
    by (simp add: clock_place_def N Let_def)
  ultimately show ?thesis by (subst clock_sweep.simps) (simp add: Let_def)
qed


lemma clock_sweep_place:
  assumes "clock_wf s"
  shows "\<exists>d\<le>MAX_FRAMES. (\<forall>j<d. ck_ref s ! ((ck_pointer s + j) mod MAX_FRAMES)) \<and>
    (d = MAX_FRAMES \<or> \<not> ck_ref s ! ((ck_pointer s + d) mod MAX_FRAMES)) \<and>
    clock_sweep s page = Some (clock_place s d page)"
proof (cases "\<exists>d<MAX_FRAMES. \<not> ck_ref s ! ((ck_pointer s + d) mod MAX_FRAMES)")
  case True
  define d where "d = (LEAST d. d < MAX_FRAMES \<and> \<not> ck_ref s ! ((ck_pointer s + d) mod MAX_FRAMES))"
  have d: "d < MAX_FRAMES" "\<not> ck_ref s ! ((ck_pointer s + d) mod MAX_FRAMES)"
    using LeastI_ex [OF True] by (simp_all add: d_def)
  have "\<forall>j<d. ck_ref s ! ((ck_pointer s + j) mod MAX_FRAMES)"
    using not_less_Least d(1) unfolding d_def by fastforce
  with clock_sweep_walk [OF _ d(1) this d(2)] assms d show ?thesis
    by (intro exI [of _ d]) (simp add: clock_wf_def)
next
  case False
  then show ?thesis using clock_sweep_full [OF assms] by auto
qed

lemma clock_place_wf:
  assumes "clock_wf s" and "\<forall>j<MAX_FRAMES. ck_buffer s ! j \<noteq> page"
  shows "clock_wf (clock_place s d page)" and "page \<in> set (ck_buffer (clock_place s d page))"
proof -
  have v: "(ck_pointer s + d) mod MAX_FRAMES < length (ck_buffer s)" using assms(1) by (simp add: clock_wf_def)
  then show "page \<in> set (ck_buffer (clock_place s d page))"
    by (simp add: clock_place_def Let_def set_update_memI)
  show "clock_wf (clock_place s d page)"
    using assms v unfolding clock_wf_def clock_place_def Let_def
    by (simp add: nth_list_update) blast
qed

lemma clock_step_ok:
  assumes "clock_wf s"
  shows "\<exists>s'. clock_step s page = Some s' \<and> clock_wf s' \<and> page \<in> set (ck_buffer s') \<and>
    ck_hits s' + ck_misses s' = ck_hits s + ck_misses s + 1"
proof (cases "find (\<lambda>j. ck_buffer s ! j = page) [0..<MAX_FRAMES]")
  case None
  let ?s = "s\<lparr>ck_misses := ck_misses s + 1\<rparr>"
  have wf: "clock_wf ?s" using assms by (simp add: clock_wf_def)
  from clock_sweep_place [OF this, of page] obtain d where "clock_sweep ?s page = Some (clock_place ?s d page)" by blast
  moreover have "\<forall>j<MAX_FRAMES. ck_buffer ?s ! j \<noteq> page" using None by (auto simp: find_None_iff)
  ultimately show ?thesis
    using None clock_place_wf [OF wf, of page d] by (simp add: clock_step_def) (simp add: clock_place_def Let_def)
next
  case (Some j)
  then have "j < MAX_FRAMES" "ck_buffer s ! j = page" by (auto simp: find_Some_iff)
  then have "page \<in> set (ck_buffer s)" using assms by (auto simp: clock_wf_def)
  then show ?thesis using Some assms by (simp add: clock_step_def clock_wf_def)
qed

lemma clock_run_ok:
  "clock_wf s \<Longrightarrow> \<exists>s' out. clock_run s ps = Some (s', out) \<and> clock_wf s' \<and> length out = length ps \<and>
     ck_hits s' + ck_misses s' = ck_hits s + ck_misses s + length ps \<and>
     (ps \<noteq> [] \<longrightarrow> last ps \<in> set (ck_buffer s'))"
proof (induction ps arbitrary: s)
  case (Cons page ps)
  from clock_step_ok [OF Cons.prems, of page] obtain s1 where s1: "clock_step s page = Some s1" "clock_wf s1"
    "page \<in> set (ck_buffer s1)" "ck_hits s1 + ck_misses s1 = ck_hits s + ck_misses s + 1" by blast
  from Cons.IH [OF s1(2)] obtain s' out where "clock_run s1 ps = Some (s', out)" "clock_wf s'" "length out = length ps"
    "ck_hits s' + ck_misses s' = ck_hits s1 + ck_misses s1 + length ps" "ps \<noteq> [] \<longrightarrow> last ps \<in> set (ck_buffer s')" by blast
  then show ?case using s1 by (cases "ps = []") auto
qed simp

lemma clock_init_wf: "clock_wf clock_init"
  by (simp add: clock_wf_def clock_init_def)

section \<open>ARC\<close>

lemma contains_set [simp]: "contains xs page \<longleftrightarrow> page \<in> set xs"
  by (induction xs) auto

lemma removeNode_remove1 [simp]: "removeNode xs page = remove1 page xs"
  by (induction xs) auto

lemma removeLRU_last: "removeLRU xs = (if xs = [] then -1 else last xs, butlast xs)"
  by (induction xs rule: removeLRU.induct) auto

definition arc_wf :: "arc \<Rightarrow> bool" where
  "arc_wf s \<longleftrightarrow> distinct (T1 s) \<and> distinct (T2 s) \<and> set (T1 s) \<inter> set (T2 s) = {} \<and>
     0 \<le> arc_p s \<and> arc_p s \<le> int MAX_FRAMES"

lemma replaceARC_fields:
  "T1 (replaceARC s) = T1 s \<and> T2 (replaceARC s) = butlast (T2 s) \<or>
   T1 (replaceARC s) = butlast (T1 s) \<and> T2 (replaceARC s) = T2 s"
  "arc_p (replaceARC s) = arc_p s" "hitsARC (replaceARC s) = hitsARC s" "missesARC (replaceARC s) = missesARC s"
  by (auto simp: replaceARC_def removeLRU_last Let_def)

lemma replaceARC_wf: "arc_wf s \<Longrightarrow> arc_wf (replaceARC s) \<and>
    set (T1 (replaceARC s)) \<subseteq> set (T1 s) \<and> set (T2 (replaceARC s)) \<subseteq> set (T2 s)"
  using replaceARC_fields [of s]
  by (auto simp: arc_wf_def distinct_butlast dest!: in_set_butlastD)

text \<open>The state a miss starts from: the counter is increased and \<open>p\<close> adapted.\<close>

definition arc_miss :: "arc \<Rightarrow> int \<Rightarrow> arc" where
  "arc_miss s q = s\<lparr>missesARC := missesARC s + 1, arc_p := q\<rparr>"

lemma arc_miss_id: "s\<lparr>missesARC := Suc (missesARC s), arc_p := arc_p s\<rparr> = s\<lparr>missesARC := Suc (missesARC s)\<rparr>"
  by (cases s) simp

lemma arc_step_cases:
  assumes "arc_wf s"
  obtains (hit) "page \<in> set (T1 s) \<union> set (T2 s)" "T1 (fst (arc_step s page)) = remove1 page (T1 s)"
      "T2 (fst (arc_step s page)) = page # remove1 page (T2 s)" "arc_p (fst (arc_step s page)) = arc_p s"
      "hitsARC (fst (arc_step s page)) = hitsARC s + 1" "missesARC (fst (arc_step s page)) = missesARC s"
  | (miss) s' where "page \<notin> set (T1 s) \<union> set (T2 s)" "arc_wf s'" "set (T1 s') \<subseteq> set (T1 s)" "set (T2 s') \<subseteq> set (T2 s)"
      "T1 (fst (arc_step s page)) = page # T1 s' \<and> T2 (fst (arc_step s page)) = T2 s' \<or>
       T1 (fst (arc_step s page)) = T1 s' \<and> T2 (fst (arc_step s page)) = page # T2 s'"
      "arc_p (fst (arc_step s page)) = arc_p s'"
      "hitsARC (fst (arc_step s page)) = hitsARC s" "missesARC (fst (arc_step s page)) = missesARC s + 1"
proof (cases "page \<in> set (T1 s) \<union> set (T2 s)")
  case True
  have "page \<in> set (T1 s) \<Longrightarrow> remove1 page (T2 s) = T2 s" "page \<notin> set (T1 s) \<Longrightarrow> remove1 page (T1 s) = T1 s"
    using assms by (auto simp: arc_wf_def intro!: remove1_idem)
  with True show thesis by (intro hit) (auto simp: arc_step_def addToFront_def Let_def)
next
  case False
  define q where "q = (if page \<in> set (B1 s) then
      if arc_p s + (if length (B2 s) > 0 then 1 else 0) < int MAX_FRAMES then arc_p s + 1 else int MAX_FRAMES
    else if page \<in> set (B2 s) then if arc_p s - (if length (B1 s) > 0 then 1 else 0) > 0 then arc_p s - 1 else 0
    else arc_p s)"
  have wf: "arc_wf (arc_miss s q)" using assms by (auto simp: arc_wf_def arc_miss_def q_def)
  note r = replaceARC_wf [OF wf] replaceARC_fields [of "arc_miss s q"]
  have m: "T1 (arc_miss s q) = T1 s" "T2 (arc_miss s q) = T2 s" "hitsARC (arc_miss s q) = hitsARC s"
    "missesARC (arc_miss s q) = missesARC s + 1"
    by (simp_all add: arc_miss_def)
  let ?s' = "if page \<in> set (B1 s) \<union> set (B2 s) \<or> length (T1 s) + length (T2 s) \<ge> MAX_FRAMES
    then replaceARC (arc_miss s q) else arc_miss s q"
  have "fst (arc_step s page) =
      (if page \<in> set (B1 s) then ?s'\<lparr>B1 := remove1 page (B1 ?s'), T2 := page # T2 ?s'\<rparr>
       else if page \<in> set (B2 s) then ?s'\<lparr>B2 := remove1 page (B2 ?s'), T2 := page # T2 ?s'\<rparr>
       else ?s'\<lparr>T1 := page # T1 ?s'\<rparr>)"
    using False arc_miss_id [of s] by (auto simp: arc_step_def addToFront_def Let_def arc_miss_def q_def)
  then have "T1 (fst (arc_step s page)) = page # T1 ?s' \<and> T2 (fst (arc_step s page)) = T2 ?s' \<or>
       T1 (fst (arc_step s page)) = T1 ?s' \<and> T2 (fst (arc_step s page)) = page # T2 ?s'"
     "arc_p (fst (arc_step s page)) = arc_p ?s'" "hitsARC (fst (arc_step s page)) = hitsARC ?s'"
     "missesARC (fst (arc_step s page)) = missesARC ?s'" by auto
  then show thesis using wf r m False by (intro miss [of ?s']) auto
qed

lemma arc_step_wf:
  assumes "arc_wf s"
  shows "arc_wf (fst (arc_step s page)) \<and>
    page \<in> set (T1 (fst (arc_step s page))) \<union> set (T2 (fst (arc_step s page))) \<and>
    hitsARC (fst (arc_step s page)) + missesARC (fst (arc_step s page)) = hitsARC s + missesARC s + 1"
  using assms
proof (cases rule: arc_step_cases [of s page])
  case hit
  then show ?thesis using assms by (auto simp: arc_wf_def)
next
  case (miss s')
  then show ?thesis unfolding arc_wf_def by auto
qed

lemma arc_run_wf:
  "arc_wf s \<Longrightarrow> arc_wf (fst (arc_run s ps)) \<and>
    hitsARC (fst (arc_run s ps)) + missesARC (fst (arc_run s ps)) = hitsARC s + missesARC s + length ps \<and>
    (ps \<noteq> [] \<longrightarrow> last ps \<in> set (T1 (fst (arc_run s ps))) \<union> set (T2 (fst (arc_run s ps))))"
proof (induction ps arbitrary: s)
  case (Cons page ps)
  then show ?case
    using arc_step_wf [OF Cons.prems, of page] Cons.IH [of "fst (arc_step s page)"]
    by (cases "ps = []") (simp_all add: case_prod_beta Let_def)
qed simp

lemma arc_init_wf: "arc_wf arc_init"
  by (simp add: arc_wf_def arc_init_def)

section \<open>Properties\<close>

text \<open>C6: \<open>simulateLRU\<close> implements least-recently-used replacement: with the pages requested so far in order
  of recency, a request is reported as a hit exactly when it is among the first \<open>MAX_FRAMES\<close>, a
  miss inserts while a frame is empty and otherwise evicts the least recently requested page of
  the cache; the counters add up.\<close>

theorem simulateLRU_refines:
  assumes "-1 \<notin> set ps"
  shows "map fst (snd (simulateLRU ps)) = lru_spec [] ps \<and>
    set (lru_buffer (fst (simulateLRU ps))) - {-1} = set (take MAX_FRAMES (fold touch ps [])) \<and>
    lru_hits (fst (simulateLRU ps)) = length (filter (\<lambda>e. e = HIT) (lru_spec [] ps)) \<and>
    lru_hits (fst (simulateLRU ps)) + lru_misses (fst (simulateLRU ps)) = length ps"
proof -
  have run: "map fst (snd (simulateLRU ps)) = lru_spec [] ps"
    and rep: "lru_rep (fst (simulateLRU ps)) (take MAX_FRAMES (fold touch ps []))"
    using lru_run_spec [of lru_init "[]" ps] lru_init_rep assms by (simp_all add: simulateLRU_def)
  from rep have "set (lru_buffer (fst (simulateLRU ps))) - {-1} = set (take MAX_FRAMES (fold touch ps []))"
    by (rule lru_rep_set)
  then show ?thesis
    using run lru_run_counts [of lru_init ps] by (simp add: simulateLRU_def lru_init_def)
qed

theorem simulateLRU_refines_witness:
  "map fst (snd (simulateLRU pages)) = lru_spec [] pages \<and>
    set (lru_buffer (fst (simulateLRU pages))) - {-1} = set (take MAX_FRAMES (fold touch pages [])) \<and>
    lru_hits (fst (simulateLRU pages)) = length (filter (\<lambda>e. e = HIT) (lru_spec [] pages)) \<and>
    lru_hits (fst (simulateLRU pages)) + lru_misses (fst (simulateLRU pages)) = length pages"
  by (rule simulateLRU_refines) (simp add: pages_def)

text \<open>On a miss the clock hand passes over the referenced frames, clearing their bits, and replaces the
  first unreferenced one; only when all frames are referenced does it go once around and
  replace the frame it started at. So the loop always ends.\<close>

theorem clock_step_second_chance:
  assumes "clock_wf s" and "page \<notin> set (ck_buffer s)"
  shows "\<exists>d\<le>MAX_FRAMES. (\<forall>j<d. ck_ref s ! ((ck_pointer s + j) mod MAX_FRAMES)) \<and>
    (d = MAX_FRAMES \<or> \<not> ck_ref s ! ((ck_pointer s + d) mod MAX_FRAMES)) \<and>
    clock_step s page = Some (clock_place (s\<lparr>ck_misses := ck_misses s + 1\<rparr>) d page)"
proof -
  have "find (\<lambda>j. ck_buffer s ! j = page) [0..<MAX_FRAMES] = None"
    using assms by (auto simp: find_None_iff clock_wf_def)
  moreover have "clock_wf (s\<lparr>ck_misses := ck_misses s + 1\<rparr>)" using assms(1) by (simp add: clock_wf_def)
  ultimately show ?thesis
    using clock_sweep_place [of "s\<lparr>ck_misses := ck_misses s + 1\<rparr>" page] by (auto simp: clock_step_def)
qed

theorem clock_step_second_chance_witness:
  "\<exists>d\<le>MAX_FRAMES. (\<forall>j<d. ck_ref clock_init ! ((ck_pointer clock_init + j) mod MAX_FRAMES)) \<and>
    (d = MAX_FRAMES \<or> \<not> ck_ref clock_init ! ((ck_pointer clock_init + d) mod MAX_FRAMES)) \<and>
    clock_step clock_init 4 = Some (clock_place (clock_init\<lparr>ck_misses := ck_misses clock_init + 1\<rparr>) d 4)"
  by (rule clock_step_second_chance [OF clock_init_wf]) (simp add: clock_init_def MAX_FRAMES_def)

text \<open>C30: \<open>simulateClock\<close> returns for every request sequence, no page occupies two frames, the page requested
  last is in a frame, and hits and misses add up to the requests.\<close>

theorem simulateClock_returns:
  "\<exists>s out. simulateClock ps = Some (s, out) \<and> clock_wf s \<and> length out = length ps \<and>
     ck_hits s + ck_misses s = length ps \<and> (ps = [] \<or> last ps \<in> set (ck_buffer s))"
  using clock_run_ok [OF clock_init_wf, of ps] by (auto simp: simulateClock_def clock_init_def)

text \<open>C31: In every run of \<open>simulateARC\<close> no page is cached twice in \<open>T1\<close> and \<open>T2\<close>, the page requested last is
  cached, the target \<open>p\<close> stays between 0 and \<open>MAX_FRAMES\<close>, and hits and misses add up.\<close>

theorem simulateARC_inv:
  "arc_wf (fst (simulateARC ps)) \<and> hitsARC (fst (simulateARC ps)) + missesARC (fst (simulateARC ps)) = length ps \<and>
    (ps = [] \<or> last ps \<in> set (T1 (fst (simulateARC ps))) \<union> set (T2 (fst (simulateARC ps))))"
  using arc_run_wf [OF arc_init_wf, of ps] by (auto simp: simulateARC_def arc_init_def)

text \<open>\<open>simulateARC\<close> can cache more pages than there are frames: with \<open>T2\<close> empty and \<open>p\<close> at \<open>MAX_FRAMES\<close>,
  \<open>replaceARC\<close> evicts nothing and records the page -1 in \<open>B2\<close>.\<close>

theorem simulateARC_exceeds_frames:
  "let s = fst (simulateARC [1, 2, 3, 4, 5, 6, 1, 2, 3, 4, 5, 6, 7, 8, 9, 10]) in
   length (T1 s) + length (T2 s) = MAX_FRAMES + 1 \<and> -1 \<in> set (B2 s)"
  by code_simp

end
