(* ===== verification/C_Scan.thy ===== *)
theory C_Scan
  imports C_Strings
begin

text \<open>
  The part of \<open>sscanf\<close> and of the string library that the command parsers use. A directive takes
  the unread input and gives what it converted and the rest, or \<open>None\<close> for a matching
  failure.
\<close>

definition isspace :: "char \<Rightarrow> bool" where
  "isspace c \<longleftrightarrow> c \<in> {CHR '' '', CHR 0x09, CHR 0x0A, CHR 0x0B, CHR 0x0C, CHR 0x0D}"

definition newline :: char where
  "newline = CHR 0x0A"

definition isdigit :: "char \<Rightarrow> bool" where
  "isdigit c \<longleftrightarrow> c \<in> set ''0123456789''"

definition skip_ws :: "string \<Rightarrow> string" where
  "skip_ws s = dropWhile isspace s"

fun scan_lit :: "string \<Rightarrow> string \<Rightarrow> string option" where
  "scan_lit [] s = Some s"
| "scan_lit (c # cs) [] = None"
| "scan_lit (c # cs) (d # s) = (if c = d then scan_lit cs s else None)"

text \<open>At most \<open>w\<close> characters (no bound for \<open>None\<close>) satisfying \<open>P\<close>, at least one.\<close>

definition scan_span :: "nat option \<Rightarrow> (char \<Rightarrow> bool) \<Rightarrow> string \<Rightarrow> (string \<times> string) option" where
  "scan_span w P s =
     (let t = takeWhile P s;
          t = (case w of None \<Rightarrow> t | Some n \<Rightarrow> take n t)
      in if t = [] then None else Some (t, drop (length t) s))"

text \<open>\<^verbatim>\<open>%s\<close> skips white space first, \<^verbatim>\<open>%[^\n]\<close> does not.\<close>

definition scan_word :: "nat option \<Rightarrow> string \<Rightarrow> (string \<times> string) option" where
  "scan_word w s = scan_span w (\<lambda>c. \<not> isspace c) (skip_ws s)"

definition scan_line :: "nat option \<Rightarrow> string \<Rightarrow> (string \<times> string) option" where
  "scan_line w s = scan_span w (\<lambda>c. c \<noteq> newline) s"

lemma newline_isspace [simp]: "isspace newline"
  by (simp add: isspace_def newline_def)

lemma scan_span_Some:
  assumes "scan_span w P s = Some (t, r)"
  shows "s = t @ r \<and> t \<noteq> [] \<and> (\<forall>c\<in>set t. P c) \<and> (\<forall>n. w = Some n \<longrightarrow> length t \<le> n)"
proof -
  let ?m = "case w of None \<Rightarrow> length s | Some n \<Rightarrow> n"
  have t: "t = take ?m (takeWhile P s)" and ne: "t \<noteq> []" and r: "r = drop (length t) s"
    using assms length_takeWhile_le [of P s]
    by (auto simp: scan_span_def Let_def split: option.splits if_splits)
  have "s = t @ drop ?m (takeWhile P s) @ dropWhile P s"
    unfolding t by (metis append_assoc append_take_drop_id takeWhile_dropWhile_id)
  then have "s = t @ r" unfolding r by (metis append_eq_conv_conj)
  moreover have "\<forall>c\<in>set t. P c" unfolding t by (auto dest: in_set_takeD set_takeWhileD)
  moreover have "\<forall>n. w = Some n \<longrightarrow> length t \<le> n" unfolding t by auto
  ultimately show ?thesis using ne by blast
qed

lemma scan_lit_append [simp]: "scan_lit xs (xs @ s) = Some s"
  by (induction xs) auto

lemma scan_lit_Some: "scan_lit xs s = Some r \<longleftrightarrow> s = xs @ r"
  by (induction xs s rule: scan_lit.induct) auto

text \<open>A word that is followed by white space or the end is read back as it is.\<close>

lemma scan_word_exact:
  assumes "w \<noteq> []" and "\<forall>c\<in>set w. \<not> isspace c" and "r = [] \<or> isspace (hd r)"
    and "\<forall>n. b = Some n \<longrightarrow> length w \<le> n"
  shows "scan_word b (CHR '' '' # w @ r) = Some (w, r)"
proof -
  have sp: "isspace CHR '' ''" by (simp add: isspace_def)
  have sk: "skip_ws (CHR '' '' # w @ r) = w @ r"
    using assms(1,2) by (cases w) (auto simp: skip_ws_def sp)
  have tw: "takeWhile (\<lambda>c. \<not> isspace c) (w @ r) = w"
    using assms(2,3) by (cases r) (simp_all add: takeWhile_append)
  show ?thesis
    using assms(1,4) by (auto simp: scan_word_def sk scan_span_def tw Let_def split: option.split)
qed

lemma scan_line_exact:
  assumes "v \<noteq> []" and "newline \<notin> set v" and "r = [] \<or> hd r = newline"
    and "\<forall>n. b = Some n \<longrightarrow> length v \<le> n"
  shows "scan_line b (v @ r) = Some (v, r)"
proof -
  have tw: "takeWhile (\<lambda>c. c \<noteq> newline) (v @ r) = v"
    using assms(2,3) by (cases r) (auto simp: takeWhile_append takeWhile_eq_all_conv)
  show ?thesis
    using assms(1,4) by (auto simp: scan_line_def scan_span_def tw Let_def split: option.split)
qed

section \<open>Lines\<close>

text \<open>\<open>fgets\<close>: up to \<open>n - 1\<close> characters, to the first newline and with it.\<close>

definition fgets_line :: "nat \<Rightarrow> string \<Rightarrow> string" where
  "fgets_line n s =
     (let t = takeWhile (\<lambda>c. c \<noteq> newline) s
      in take (n - 1) (if length t < length s then t @ [newline] else t))"

lemma fgets_line_pos: "s \<noteq> [] \<Longrightarrow> 1 < n \<Longrightarrow> 0 < length (fgets_line n s)"
  by (cases s) (auto simp: fgets_line_def Let_def)

function fgets_lines :: "nat \<Rightarrow> string \<Rightarrow> string list" where
  "fgets_lines n s =
     (if s = [] \<or> n \<le> 1 then []
      else let l = fgets_line n s in l # fgets_lines n (drop (length l) s))"
  by pat_completeness auto

termination
proof (relation "measure (\<lambda>(n, s). length s)")
  fix n :: nat and s l :: string
  assume "\<not> (s = [] \<or> n \<le> 1)" and "l = fgets_line n s"
  then have "0 < length l" "0 < length s" using fgets_line_pos [of s n] by auto
  then show "((n, drop (length l) s), n, s) \<in> measure (\<lambda>(n, s). length s)" by (simp del: length_greater_0_conv)
qed simp

declare fgets_lines.simps [simp del]

section \<open>Other string functions\<close>

text \<open>\<open>cmd[strcspn(cmd, "\n")] = 0\<close> on the string in \<open>cmd\<close>.\<close>

definition chop_newline :: "string \<Rightarrow> string" where
  "chop_newline s = takeWhile (\<lambda>c. c \<noteq> newline) s"

definition to_lower :: "char \<Rightarrow> char" where
  "to_lower c = (let n = of_char c :: nat in if 65 \<le> n \<and> n \<le> 90 then char_of (n + 32) else c)"

definition strcasecmp_eq :: "string \<Rightarrow> string \<Rightarrow> bool" where
  "strcasecmp_eq s t \<longleftrightarrow> map to_lower s = map to_lower t"

end
