(* ===== verification/KV_Store.thy ===== *)
theory KV_Store
  imports C_Scan
begin

text \<open>
  The key-value store of \<^verbatim>\<open>src/key-value/server.c\<close> and of the library
  \<^verbatim>\<open>src/Modularize Key-Value/kvstore_functions.c\<close>: a static array of pairs with a counter.
  The copy in \<^verbatim>\<open>src/mini-key-value/server.c\<close> is the same code.

  \<open>kv_map\<close> is the interface a server relies on; the bounded map \<open>kv_bounded\<close> is what the
  array gives, and both are interpreted here on the array's functions.
\<close>

section \<open>The interface\<close>

locale kv_map =
  fixes get :: "'s \<Rightarrow> string \<Rightarrow> 'v option"
    and put :: "'s \<Rightarrow> string \<Rightarrow> 'v \<Rightarrow> 's"
    and inv :: "'s \<Rightarrow> bool"
    and key_fits :: "string \<Rightarrow> bool"
    and val_fits :: "'v \<Rightarrow> bool"
    and room :: "'s \<Rightarrow> bool"
  assumes inv_put: "inv s \<Longrightarrow> key_fits k \<Longrightarrow> val_fits v \<Longrightarrow> inv (put s k v)"
    and get_put_same: "inv s \<Longrightarrow> key_fits k \<Longrightarrow> val_fits v \<Longrightarrow> room s \<or> get s k \<noteq> None \<Longrightarrow>
      get (put s k v) k = Some v"
    and get_put_other: "inv s \<Longrightarrow> key_fits k \<Longrightarrow> val_fits v \<Longrightarrow> k' \<noteq> k \<Longrightarrow> get (put s k v) k' = get s k'"
    and put_full: "inv s \<Longrightarrow> \<not> room s \<Longrightarrow> get s k = None \<Longrightarrow> put s k v = s"
begin

lemma get_put:
  assumes "inv s" and "key_fits k" and "val_fits v"
  shows "get (put s k v) = (if room s \<or> get s k \<noteq> None then (get s)(k \<mapsto> v) else get s)"
proof (cases "room s \<or> get s k \<noteq> None")
  case True
  have "get (put s k v) k' = ((get s)(k \<mapsto> v)) k'" for k'
    using get_put_same [OF assms True] get_put_other [OF assms] by (cases "k' = k") simp_all
  then show ?thesis using True by auto
qed (use put_full [OF assms(1), of k v] in auto)

end

text \<open>A store with a capacity: a new key beyond it is dropped without a trace.\<close>

definition bounded_put :: "nat \<Rightarrow> (string \<rightharpoonup> 'v) \<Rightarrow> string \<Rightarrow> 'v \<Rightarrow> string \<rightharpoonup> 'v" where
  "bounded_put cap m k v = (if card (dom m) < cap \<or> k \<in> dom m then m(k \<mapsto> v) else m)"

locale kv_bounded = kv_map +
  fixes cap :: nat
  assumes room_cap: "inv s \<Longrightarrow> room s \<longleftrightarrow> card (dom (get s)) < cap"
begin

lemma get_put_bounded:
  "inv s \<Longrightarrow> key_fits k \<Longrightarrow> val_fits v \<Longrightarrow> get (put s k v) = bounded_put cap (get s) k v"
  unfolding get_put bounded_put_def room_cap by auto

lemma get_puts_bounded:
  "inv s \<Longrightarrow> \<forall>(k, v)\<in>set ps. key_fits k \<and> val_fits v \<Longrightarrow>
   inv (fold (\<lambda>(k, v) s. put s k v) ps s) \<and>
   get (fold (\<lambda>(k, v) s. put s k v) ps s) = fold (\<lambda>(k, v) m. bounded_put cap m k v) ps (get s)"
proof (induction ps arbitrary: s)
  case (Cons p ps)
  obtain k v where p: "p = (k, v)" by fastforce
  with Cons.prems have ok: "inv s" "key_fits k" "val_fits v" "\<forall>(k, v)\<in>set ps. key_fits k \<and> val_fits v" by auto
  from Cons.IH [OF inv_put [OF ok(1-3)] ok(4)] get_put_bounded [OF ok(1-3)] p show ?case by simp
qed simp

end

section \<open>The array\<close>

definition BUF_SIZE :: nat where "BUF_SIZE = 256"
definition MAX_ENTRIES :: nat where "MAX_ENTRIES = 100"

record keyvalue =
  kv_key :: "char list"
  kv_value :: "char list"

record kvstore =
  store_arr :: "keyvalue list"
  store_count :: nat

definition kv_static :: kvstore where
  "kv_static = \<lparr>store_arr = replicate MAX_ENTRIES \<lparr>kv_key = replicate BUF_SIZE NUL, kv_value = replicate BUF_SIZE NUL\<rparr>,
     store_count = 0\<rparr>"

text \<open>The loop of both functions: the first index below \<open>store_count\<close> with \<open>strcmp(...) == 0\<close>.\<close>

definition kv_index :: "kvstore \<Rightarrow> string \<Rightarrow> nat option" where
  "kv_index s key = find (\<lambda>i. c_str (kv_key (store_arr s ! i)) = key) [0..<store_count s]"

definition kv_get :: "kvstore \<Rightarrow> string \<Rightarrow> string option" where
  "kv_get s key = map_option (\<lambda>i. c_str (kv_value (store_arr s ! i))) (kv_index s key)"

definition kv_set :: "kvstore \<Rightarrow> string \<Rightarrow> string \<Rightarrow> kvstore" where
  "kv_set s key value =
     (case kv_index s key of
        Some i \<Rightarrow> s\<lparr>store_arr := (store_arr s)[i := (store_arr s ! i)\<lparr>kv_value := strncpy_term BUF_SIZE value\<rparr>]\<rparr>
      | None \<Rightarrow>
          if store_count s < MAX_ENTRIES then
            s\<lparr>store_arr := (store_arr s)[store_count s :=
                 \<lparr>kv_key = strncpy_term BUF_SIZE key, kv_value = strncpy_term BUF_SIZE value\<rparr>],
              store_count := store_count s + 1\<rparr>
          else s)"

text \<open>
  The library's copy runs in several threads without a lock. A call that adds a key first
  searches and fills the slot, then increments the counter: two steps that can interleave. A call of \<open>kv_get\<close> returns
  a pointer into the array, which its caller follows later.
\<close>

definition lib_kv_set_fill :: "kvstore \<Rightarrow> string \<Rightarrow> string \<Rightarrow> kvstore" where
  "lib_kv_set_fill s key value =
     s\<lparr>store_arr := (store_arr s)[store_count s :=
          \<lparr>kv_key = strncpy_term BUF_SIZE key, kv_value = strncpy_term BUF_SIZE value\<rparr>]\<rparr>"

definition lib_kv_set_bump :: "kvstore \<Rightarrow> kvstore" where
  "lib_kv_set_bump s = s\<lparr>store_count := store_count s + 1\<rparr>"

definition lib_kv_set :: "kvstore \<Rightarrow> string \<Rightarrow> string \<Rightarrow> kvstore" where
  "lib_kv_set s key value =
     (case kv_index s key of
        Some i \<Rightarrow> s\<lparr>store_arr := (store_arr s)[i := (store_arr s ! i)\<lparr>kv_value := strncpy_term BUF_SIZE value\<rparr>]\<rparr>
      | None \<Rightarrow>
          if store_count s < MAX_ENTRIES then lib_kv_set_bump (lib_kv_set_fill s key value) else s)"

text \<open>A call of \<open>kv_set\<close> up to the counter, and whether the counter is still to be incremented.\<close>

definition lib_kv_set_start :: "kvstore \<Rightarrow> string \<Rightarrow> string \<Rightarrow> kvstore \<times> bool" where
  "lib_kv_set_start s key value =
     (case kv_index s key of
        Some i \<Rightarrow> (s\<lparr>store_arr := (store_arr s)[i := (store_arr s ! i)\<lparr>kv_value := strncpy_term BUF_SIZE value\<rparr>]\<rparr>, False)
      | None \<Rightarrow> if store_count s < MAX_ENTRIES then (lib_kv_set_fill s key value, True) else (s, False))"

definition lib_value :: "kvstore \<Rightarrow> nat \<Rightarrow> string" where
  "lib_value s i = c_str (kv_value (store_arr s ! i))"

definition lib_kv_get :: "kvstore \<Rightarrow> string \<Rightarrow> string option" where
  "lib_kv_get s key = map_option (\<lambda>i. c_str (kv_value (store_arr s ! i))) (kv_index s key)"

subsection \<open>The array implements the interface\<close>

definition kv_inv :: "kvstore \<Rightarrow> bool" where
  "kv_inv s \<longleftrightarrow> length (store_arr s) = MAX_ENTRIES \<and> store_count s \<le> MAX_ENTRIES \<and>
     distinct (map (\<lambda>i. c_str (kv_key (store_arr s ! i))) [0..<store_count s])"

definition fits :: "string \<Rightarrow> bool" where
  "fits k \<longleftrightarrow> NUL \<notin> set k \<and> length k < BUF_SIZE"

definition kv_room :: "kvstore \<Rightarrow> bool" where
  "kv_room s \<longleftrightarrow> store_count s < MAX_ENTRIES"

lemma c_str_field: "fits k \<Longrightarrow> c_str (strncpy_term BUF_SIZE k) = k"
  by (simp add: fits_def c_str_strncpy_term c_str_id BUF_SIZE_def)

lemma find_snoc: "find P (xs @ [x]) = (case find P xs of None \<Rightarrow> if P x then Some x else None | Some y \<Rightarrow> Some y)"
  by (induction xs) auto

lemma kv_index_Some: "kv_index s k = Some i \<Longrightarrow> i < store_count s \<and> c_str (kv_key (store_arr s ! i)) = k"
  by (auto simp: kv_index_def find_Some_iff)

lemma kv_index_None: "kv_index s k = None \<longleftrightarrow> (\<forall>i<store_count s. c_str (kv_key (store_arr s ! i)) \<noteq> k)"
  by (auto simp: kv_index_def find_None_iff)

text \<open>The keys, and so the search, after each of the two ways to set a value.\<close>

lemma kv_set_update:
  assumes "kv_inv s" and "kv_index s k = Some i" and "fits k" and "fits v"
  shows "kv_inv (kv_set s k v)" and "kv_get (kv_set s k v) = (kv_get s)(k \<mapsto> v)"
proof -
  from kv_index_Some [OF assms(2)] assms(1) have i: "i < store_count s" "i < length (store_arr s)"
    "c_str (kv_key (store_arr s ! i)) = k" by (auto simp: kv_inv_def)
  have nth: "kv_key (store_arr (kv_set s k v) ! j) = kv_key (store_arr s ! j)"
    "c_str (kv_value (store_arr (kv_set s k v) ! j)) = (if j = i then v else c_str (kv_value (store_arr s ! j)))"
    "store_count (kv_set s k v) = store_count s" for j
    using assms(2,4) i by (auto simp: kv_set_def nth_list_update c_str_field)
  then have idx: "kv_index (kv_set s k v) k' = kv_index s k'" for k' by (simp add: kv_index_def)
  show "kv_inv (kv_set s k v)" using assms(1,2) nth by (simp add: kv_inv_def) (simp add: kv_set_def)
  have "kv_get (kv_set s k v) k' = ((kv_get s)(k \<mapsto> v)) k'" for k'
    using assms(2) i(3) kv_index_Some [of s k'] by (cases "kv_index s k'") (auto simp: kv_get_def idx nth)
  then show "kv_get (kv_set s k v) = (kv_get s)(k \<mapsto> v)" by blast
qed

lemma kv_set_append:
  assumes "kv_inv s" and "kv_index s k = None" and "kv_room s" and "fits k" and "fits v"
  shows "kv_inv (kv_set s k v)" and "kv_get (kv_set s k v) = (kv_get s)(k \<mapsto> v)"
proof -
  let ?n = "store_count s"
  have n: "?n < length (store_arr s)" using assms(1,3) by (simp add: kv_inv_def kv_room_def)
  have cnt: "store_count (kv_set s k v) = Suc ?n" using assms(2,3) by (simp add: kv_set_def kv_room_def)
  have old: "store_arr (kv_set s k v) ! j = store_arr s ! j" if "j < ?n" for j
    using that assms(2,3) by (simp add: kv_set_def kv_room_def)
  have new: "c_str (kv_key (store_arr (kv_set s k v) ! ?n)) = k" "c_str (kv_value (store_arr (kv_set s k v) ! ?n)) = v"
    using n assms(2-5) by (simp_all add: kv_set_def kv_room_def c_str_field)
  have idx: "kv_index (kv_set s k v) k' = (case kv_index s k' of None \<Rightarrow> if k = k' then Some ?n else None | Some j \<Rightarrow> Some j)" for k'
  proof -
    have "find (\<lambda>i. c_str (kv_key (store_arr (kv_set s k v) ! i)) = k') [0..<?n] = kv_index s k'"
      unfolding kv_index_def by (rule find_cong) (simp_all add: old)
    then show ?thesis by (simp add: kv_index_def cnt find_snoc new)
  qed
  have "map (\<lambda>i. c_str (kv_key (store_arr (kv_set s k v) ! i))) [0..<Suc ?n] =
      map (\<lambda>i. c_str (kv_key (store_arr s ! i))) [0..<?n] @ [k]"
    by (simp add: old new)
  moreover have "k \<notin> set (map (\<lambda>i. c_str (kv_key (store_arr s ! i))) [0..<?n])"
    using assms(2) unfolding kv_index_None by auto
  ultimately have "distinct (map (\<lambda>i. c_str (kv_key (store_arr (kv_set s k v) ! i))) [0..<Suc ?n])"
    using assms(1) by (simp only: kv_inv_def distinct_append) simp
  then show "kv_inv (kv_set s k v)"
    using assms(1-3) cnt by (simp add: kv_inv_def del: upt_Suc) (simp add: kv_set_def kv_room_def)
  have "kv_get (kv_set s k v) k' = ((kv_get s)(k \<mapsto> v)) k'" for k'
    using assms(2) kv_index_Some [of s k'] old new by (cases "kv_index s k'") (auto simp: kv_get_def idx)
  then show "kv_get (kv_set s k v) = (kv_get s)(k \<mapsto> v)" by blast
qed

lemma kv_set_full: "\<not> kv_room s \<Longrightarrow> kv_get s k = None \<Longrightarrow> kv_set s k v = s"
  by (auto simp: kv_set_def kv_room_def kv_get_def)

lemma kv_static_inv: "kv_inv kv_static"
  by (simp add: kv_inv_def kv_static_def)

lemma card_dom_kv_get: "kv_inv s \<Longrightarrow> card (dom (kv_get s)) = store_count s"
proof -
  assume inv: "kv_inv s"
  have "dom (kv_get s) = set (map (\<lambda>i. c_str (kv_key (store_arr s ! i))) [0..<store_count s])"
    using kv_index_None [of s] by (auto simp: kv_get_def dom_def)
  then show ?thesis using inv distinct_card by (fastforce simp: kv_inv_def)
qed

lemma kv_set_ok:
  assumes "kv_inv s" and "fits k" and "fits v"
  shows "kv_inv (kv_set s k v) \<and>
    kv_get (kv_set s k v) = (if kv_room s \<or> kv_get s k \<noteq> None then (kv_get s)(k \<mapsto> v) else kv_get s)"
proof (cases "kv_index s k")
  case None
  then show ?thesis
    using assms kv_set_append [OF assms(1) None _ assms(2,3)] kv_set_full [of s k v]
    by (cases "kv_room s") (simp_all add: kv_get_def)
next
  case (Some i)
  then show ?thesis using kv_set_update [OF assms(1) Some assms(2,3)] by (simp add: kv_get_def)
qed

interpretation arr: kv_bounded kv_get kv_set kv_inv fits fits kv_room MAX_ENTRIES
proof unfold_locales
  show "kv_room s \<longleftrightarrow> card (dom (kv_get s)) < MAX_ENTRIES" if "kv_inv s" for s
    using card_dom_kv_get [OF that] by (simp add: kv_room_def)
qed (use kv_set_ok kv_set_full in auto)

text \<open>The library's functions are the same as long as calls do not overlap.\<close>

lemma lib_kv_eq: "lib_kv_get = kv_get" "lib_kv_set = kv_set"
  by (auto simp: fun_eq_iff lib_kv_get_def kv_get_def lib_kv_set_def kv_set_def lib_kv_set_fill_def
      lib_kv_set_bump_def split: option.split)

interpretation lib: kv_bounded lib_kv_get lib_kv_set kv_inv fits fits kv_room MAX_ENTRIES
  unfolding lib_kv_eq by (rule arr.kv_bounded_axioms)

subsection \<open>The library's calls in two steps\<close>

lemma lib_kv_set_steps:
  "lib_kv_set s k v = (case lib_kv_set_start s k v of (s', appended) \<Rightarrow> if appended then lib_kv_set_bump s' else s')"
  by (simp add: lib_kv_set_def lib_kv_set_start_def split: option.split)

lemma lib_kv_get_value: "lib_kv_get s k = map_option (lib_value s) (kv_index s k)"
  by (simp add: lib_kv_get_def lib_value_def [abs_def])

text \<open>A filled slot is invisible until the counter is incremented.\<close>

lemma fill_invisible:
  assumes "kv_inv s"
  shows "kv_inv (lib_kv_set_fill s k v)" and "kv_index (lib_kv_set_fill s k v) = kv_index s"
    and "lib_kv_get (lib_kv_set_fill s k v) = lib_kv_get s"
proof -
  let ?s = "lib_kv_set_fill s k v"
  have arr: "store_arr ?s ! i = store_arr s ! i" if "i < store_count s" for i
    using that by (simp add: lib_kv_set_fill_def)
  have cnt: "store_count ?s = store_count s" by (simp add: lib_kv_set_fill_def)
  have "map (\<lambda>i. c_str (kv_key (store_arr ?s ! i))) [0..<store_count s] = map (\<lambda>i. c_str (kv_key (store_arr s ! i))) [0..<store_count s]"
    by (simp add: arr)
  moreover have "length (store_arr ?s) = length (store_arr s)" by (simp add: lib_kv_set_fill_def)
  ultimately show "kv_inv ?s" using assms by (simp only: kv_inv_def cnt)
  show idx: "kv_index ?s = kv_index s"
  proof
    show "kv_index ?s k' = kv_index s k'" for k' unfolding kv_index_def cnt by (rule find_cong) (simp_all add: arr)
  qed
  show "lib_kv_get ?s = lib_kv_get s"
  proof
    fix k'
    show "lib_kv_get ?s k' = lib_kv_get s k'"
      using kv_index_Some [of s k'] arr by (cases "kv_index s k'") (auto simp: lib_kv_get_value idx lib_value_def)
  qed
qed

text \<open>A pointer into the array keeps pointing to its key.\<close>

lemma find_append_Some: "find P xs = Some x \<Longrightarrow> find P (xs @ ys) = Some x"
  by (induction xs) auto

lemma kv_index_stays:
  assumes "kv_inv s" and "kv_index s k' = Some i"
  shows "kv_index (lib_kv_set s k v) k' = Some i"
proof (cases "kv_index s k")
  case None
  let ?n = "store_count s"
  show ?thesis
  proof (cases "?n < MAX_ENTRIES")
    case True
    let ?s = "lib_kv_set s k v"
    have s: "store_count ?s = Suc ?n" "\<And>j. j < ?n \<Longrightarrow> store_arr ?s ! j = store_arr s ! j"
      using None True by (simp_all add: lib_kv_set_def lib_kv_set_fill_def lib_kv_set_bump_def)
    have "find (\<lambda>i. c_str (kv_key (store_arr ?s ! i)) = k') [0..<?n] = kv_index s k'"
      unfolding kv_index_def by (rule find_cong) (simp_all add: s(2))
    then have "find (\<lambda>i. c_str (kv_key (store_arr ?s ! i)) = k') ([0..<?n] @ [?n]) = Some i"
      using assms(2) by (intro find_append_Some) simp
    then show ?thesis by (simp add: kv_index_def s(1))
  qed (use None assms(2) in \<open>simp add: lib_kv_set_def\<close>)
next
  case (Some j)
  let ?s = "lib_kv_set s k v"
  have "j < length (store_arr s)" using kv_index_Some [OF Some] assms(1) by (simp add: kv_inv_def)
  then have "kv_key (store_arr ?s ! l) = kv_key (store_arr s ! l)" "store_count ?s = store_count s" for l
    using Some by (auto simp: lib_kv_set_def nth_list_update)
  then show ?thesis using assms(2) by (simp add: kv_index_def)
qed

end
