(* ===== verification/KV_Server.thy ===== *)
theory KV_Server
  imports KV_Store
begin

text \<open>
  The one-command servers of \<^verbatim>\<open>src/key-value\<close> and \<^verbatim>\<open>src/mini-key-value\<close>, the clients of all three key-value programs, and a session
  with \<^verbatim>\<open>src/Modularize Key-Value\<close> that has one client; its threads are in \<open>KV_Threads\<close>. The store's functions are parameters
  of \<open>kv_command\<close>. What the sockets deliver is an
  argument: the bytes of each \<open>read\<close>, with the empty list for \<open>n \<le> 0\<close>, and whether a \<open>write\<close>
  succeeds.
\<close>

section \<open>The commands\<close>

text \<open>\<open>Some\<close> stands for \<open>sscanf\<close> returning 2 and 1; \<open>w\<close> is the field width of the format.\<close>

definition sscanf_SET :: "nat option \<Rightarrow> string \<Rightarrow> (string \<times> string) option" where
  "sscanf_SET w buf = do {
     r \<leftarrow> scan_lit ''SET'' buf;
     (key, r) \<leftarrow> scan_word w r;
     (value, _) \<leftarrow> scan_line w (skip_ws r);
     Some (key, value) }"

definition sscanf_GET :: "nat option \<Rightarrow> string \<Rightarrow> string option" where
  "sscanf_GET w buf = do {
     r \<leftarrow> scan_lit ''GET'' buf;
     (key, _) \<leftarrow> scan_word w r;
     Some key }"

type_synonym 's getter = "'s \<Rightarrow> string \<Rightarrow> string option"
type_synonym 's setter = "'s \<Rightarrow> string \<Rightarrow> string \<Rightarrow> 's"

text \<open>The body that handles one message; \<open>buf[n] = 0\<close> makes the bytes read a C string.\<close>

definition kv_command :: "'s getter \<Rightarrow> 's setter \<Rightarrow> nat option \<Rightarrow> 's \<Rightarrow> char list \<Rightarrow> 's \<times> string" where
  "kv_command get put w s bytes =
     (let buf = c_str bytes in
      case sscanf_SET w buf of
        Some (key, value) \<Rightarrow> (put s key value, ''OK'' @ [newline])
      | None \<Rightarrow>
          (case sscanf_GET w buf of
             Some key \<Rightarrow>
               (case get s key of
                  Some val \<Rightarrow> (s, val @ [newline])
                | None \<Rightarrow> (s, ''NOT_FOUND'' @ [newline]))
           | None \<Rightarrow> (s, ''ERROR'' @ [newline])))"

section \<open>The server with one command per connection\<close>

datatype accept_event = Accepted "char list" | Accept_EINTR | Accept_error

text \<open>The accept loop: the reply sent on each connection, \<open>None\<close> when nothing was read.\<close>

fun kv_server_loop :: "kvstore \<Rightarrow> accept_event list \<Rightarrow> kvstore \<times> string option list" where
  "kv_server_loop s [] = (s, [])"
| "kv_server_loop s (Accept_EINTR # es) = kv_server_loop s es"
| "kv_server_loop s (Accept_error # es) = (s, [])"
| "kv_server_loop s (Accepted bytes # es) =
     (if bytes \<noteq> [] then
        let (s, reply) = kv_command kv_get kv_set None s bytes;
            (s, out) = kv_server_loop s es
        in (s, Some reply # out)
      else
        let (s, out) = kv_server_loop s es in (s, None # out))"

text \<open>\<open>main\<close>: each call of the set-up may fail and ends the program with its message.\<close>

definition kv_server_main :: "bool \<Rightarrow> bool \<Rightarrow> bool \<Rightarrow> accept_event list \<Rightarrow> string + kvstore \<times> string option list" where
  "kv_server_main socket_ok bind_ok listen_ok es =
     (if \<not> socket_ok then Inl ''socket''
      else if \<not> bind_ok then Inl ''bind''
      else if \<not> listen_ok then Inl ''listen''
      else Inr (kv_server_loop kv_static es))"

text \<open>The program \<^verbatim>\<open>src/mini-key-value/server.c\<close> has its own copy of the store; its search loops return at the first key that is equal.\<close>

fun mini_find :: "kvstore \<Rightarrow> string \<Rightarrow> nat list \<Rightarrow> nat option" where
  "mini_find s key [] = None"
| "mini_find s key (i # is) = (if c_str (kv_key (store_arr s ! i)) = key then Some i else mini_find s key is)"

definition mini_kv_get :: "kvstore \<Rightarrow> string \<Rightarrow> string option" where
  "mini_kv_get s key = map_option (\<lambda>i. c_str (kv_value (store_arr s ! i))) (mini_find s key [0..<store_count s])"

definition mini_kv_set :: "kvstore \<Rightarrow> string \<Rightarrow> string \<Rightarrow> kvstore" where
  "mini_kv_set s key value =
     (case mini_find s key [0..<store_count s] of
        Some i \<Rightarrow> s\<lparr>store_arr := (store_arr s)[i := (store_arr s ! i)\<lparr>kv_value := strncpy_term BUF_SIZE value\<rparr>]\<rparr>
      | None \<Rightarrow>
          if store_count s < MAX_ENTRIES then
            s\<lparr>store_arr := (store_arr s)[store_count s :=
                 \<lparr>kv_key = strncpy_term BUF_SIZE key, kv_value = strncpy_term BUF_SIZE value\<rparr>],
              store_count := store_count s + 1\<rparr>
          else s)"

fun mini_kv_loop :: "kvstore \<Rightarrow> accept_event list \<Rightarrow> kvstore \<times> string option list" where
  "mini_kv_loop s [] = (s, [])"
| "mini_kv_loop s (Accept_EINTR # es) = mini_kv_loop s es"
| "mini_kv_loop s (Accept_error # es) = (s, [])"
| "mini_kv_loop s (Accepted bytes # es) =
     (if bytes \<noteq> [] then
        let (s, reply) = kv_command mini_kv_get mini_kv_set None s bytes;
            (s, out) = mini_kv_loop s es
        in (s, Some reply # out)
      else
        let (s, out) = mini_kv_loop s es in (s, None # out))"

text \<open>\<open>die\<close> prints its message, removes the socket and ends the program.\<close>

definition mini_die :: "string \<Rightarrow> string + kvstore \<times> string option list" where
  "mini_die msg = Inl msg"

definition mini_kv_server_main :: "bool \<Rightarrow> bool \<Rightarrow> bool \<Rightarrow> accept_event list \<Rightarrow> string + kvstore \<times> string option list" where
  "mini_kv_server_main socket_ok bind_ok listen_ok es =
     (if \<not> socket_ok then mini_die ''socket''
      else if \<not> bind_ok then mini_die ''bind''
      else if \<not> listen_ok then mini_die ''listen''
      else Inr (mini_kv_loop kv_static es))"

lemma mini_find_index: "mini_find s key [0..<store_count s] = kv_index s key"
proof -
  have "mini_find s key is = find (\<lambda>i. c_str (kv_key (store_arr s ! i)) = key) is" for "is"
    by (induction "is") auto
  then show ?thesis by (simp add: kv_index_def)
qed

lemma mini_store: "mini_kv_get = kv_get" "mini_kv_set = kv_set"
  by (intro ext; simp add: mini_kv_get_def mini_kv_set_def kv_get_def kv_set_def mini_find_index)+

text \<open>So the two programs do the same, and what is shown of one holds of the other.\<close>

theorem mini_server_agrees: "mini_kv_server_main = kv_server_main"
proof -
  have "mini_kv_loop s es = kv_server_loop s es" for s es
    by (induction s es rule: mini_kv_loop.induct) (simp_all add: mini_store split: prod.split)
  then show ?thesis by (intro ext) (simp add: mini_kv_server_main_def kv_server_main_def mini_die_def)
qed

section \<open>The clients\<close>

text \<open>
  A connection is a function from its state and a message to the reply, or \<open>None\<close> once the peer
  has closed. An empty message is not transmitted, so neither side ever returns from \<open>read\<close>.
\<close>

datatype client_out = Server_reply string | Write_error | Server_closed | Read_blocks

fun kv_client :: "('c \<Rightarrow> string \<Rightarrow> ('c \<times> string) option) \<Rightarrow> 'c \<Rightarrow> string list \<Rightarrow> client_out list" where
  "kv_client conn c [] = []"
| "kv_client conn c (line # ls) =
     (let cmd = chop_newline line in
      if strcasecmp_eq cmd ''EXIT'' then []
      else if cmd = [] then [Read_blocks]
      else
        (case conn c cmd of
           None \<Rightarrow> [Write_error]
         | Some (c, r) \<Rightarrow>
             if r = [] then [Server_closed]
             else Server_reply (take (BUF_SIZE - 1) r) # kv_client conn c ls))"

text \<open>The client under \<^verbatim>\<open>src/mini-key-value\<close> is the same code.\<close>

definition mini_kv_client :: "('c \<Rightarrow> string \<Rightarrow> ('c \<times> string) option) \<Rightarrow> 'c \<Rightarrow> string list \<Rightarrow> client_out list" where
  "mini_kv_client conn c ls = kv_client conn c ls"

text \<open>The modular client adds a missing newline to what it prints.\<close>

fun modular_client :: "('c \<Rightarrow> string \<Rightarrow> ('c \<times> string) option) \<Rightarrow> 'c \<Rightarrow> string list \<Rightarrow> client_out list" where
  "modular_client conn c [] = []"
| "modular_client conn c (line # ls) =
     (let cmd = chop_newline line in
      if strcasecmp_eq cmd ''EXIT'' then []
      else if cmd = [] then [Read_blocks]
      else
        (case conn c cmd of
           None \<Rightarrow> [Write_error]
         | Some (c, r) \<Rightarrow>
             if r = [] then [Server_closed]
             else
               let buf = take (BUF_SIZE - 1) r in
               Server_reply (if last buf \<noteq> newline then buf @ [newline] else buf) # modular_client conn c ls))"

text \<open>A connection to each server: the first closes after one command, the second stays open.\<close>

definition oneshot_conn :: "kvstore option \<Rightarrow> string \<Rightarrow> (kvstore option \<times> string) option" where
  "oneshot_conn c cmd = map_option (\<lambda>s. (None, snd (kv_command kv_get kv_set None s cmd))) c"

definition modular_conn :: "kvstore \<Rightarrow> string \<Rightarrow> (kvstore \<times> string) option" where
  "modular_conn s cmd = Some (kv_command lib_kv_get lib_kv_set (Some 255) s cmd)"

section \<open>The specification\<close>

text \<open>The same commands over a finite map that drops new keys at its capacity.\<close>

definition spec_command :: "nat option \<Rightarrow> (string \<rightharpoonup> string) \<Rightarrow> char list \<Rightarrow> (string \<rightharpoonup> string) \<times> string" where
  "spec_command = kv_command (\<lambda>m k. m k) (bounded_put MAX_ENTRIES)"

lemma skip_ws_suffix: "\<exists>p. s = p @ skip_ws s"
  unfolding skip_ws_def by (metis takeWhile_dropWhile_id)

lemma scan_word_sub: "scan_word w s = Some (t, r) \<Longrightarrow> set t \<union> set r \<subseteq> set s \<and> length t + length r \<le> length s"
proof -
  assume a: "scan_word w s = Some (t, r)"
  obtain p where "s = p @ skip_ws s" using skip_ws_suffix by blast
  moreover have "skip_ws s = t @ r" using scan_span_Some a unfolding scan_word_def by blast
  ultimately have "s = p @ t @ r" by simp
  then show ?thesis by auto
qed

lemma sscanf_SET_fits:
  assumes "sscanf_SET w buf = Some (k, v)" and "NUL \<notin> set buf" and "length buf < BUF_SIZE"
  shows "fits k" and "fits v"
proof -
  from assms(1) obtain r1 r2 r3 where 1: "scan_lit ''SET'' buf = Some r1" and 2: "scan_word w r1 = Some (k, r2)"
    and 3: "scan_line w (skip_ws r2) = Some (v, r3)"
    by (auto simp: sscanf_SET_def bind_eq_Some_conv)
  have b: "buf = ''SET'' @ r1" using 1 by (simp only: scan_lit_Some)
  obtain p where p: "r2 = p @ skip_ws r2" using skip_ws_suffix by blast
  have l: "skip_ws r2 = v @ r3" using 3 scan_span_Some unfolding scan_line_def by blast
  note w = scan_word_sub [OF 2]
  have r2: "set v \<subseteq> set r2" "length v \<le> length r2" using p l by (metis Un_iff set_append subsetI, metis length_append le_add1 le_add2 le_trans)
  show "fits k" using assms(2,3) b w by (auto simp: fits_def)
  show "fits v" using assms(2,3) b w r2 by (auto simp: fits_def)
qed

text \<open>What a server promises to its clients follows from the interface alone.\<close>

fun spec_serve :: "nat option \<Rightarrow> (string \<rightharpoonup> string) \<Rightarrow> char list list \<Rightarrow> string list" where
  "spec_serve w m [] = []"
| "spec_serve w m (b # bs) = (let (m, r) = spec_command w m b in r # spec_serve w m bs)"

text \<open>The messages the accept loop handles.\<close>

fun accepted_reads :: "accept_event list \<Rightarrow> char list list" where
  "accepted_reads [] = []"
| "accepted_reads (Accept_EINTR # es) = accepted_reads es"
| "accepted_reads (Accept_error # es) = []"
| "accepted_reads (Accepted bytes # es) = (if bytes = [] then [] else [bytes]) @ accepted_reads es"

locale kv_provider = kv_bounded get put inv fits fits room MAX_ENTRIES
  for get :: "'s \<Rightarrow> string \<Rightarrow> string option" and put inv room
begin

lemma command_spec:
  assumes "inv s" and "length bytes < BUF_SIZE"
  shows "inv (fst (kv_command get put w s bytes)) \<and>
    spec_command w (get s) bytes =
      (get (fst (kv_command get put w s bytes)), snd (kv_command get put w s bytes))"
proof -
  have len: "length (c_str bytes) < BUF_SIZE"
    using assms(2) by (metis c_str_def le_less_trans length_takeWhile_le)
  show ?thesis
  proof (cases "sscanf_SET w (c_str bytes)")
    case None
    then show ?thesis using assms(1)
      by (auto simp: spec_command_def kv_command_def split: option.splits)
  next
    case (Some p)
    obtain k v where p: "p = (k, v)" by fastforce
    note f = sscanf_SET_fits [OF Some [unfolded p] c_str_no_NUL len]
    show ?thesis
      using Some p inv_put [OF assms(1) f] get_put_bounded [OF assms(1) f]
      by (simp add: spec_command_def kv_command_def)
  qed
qed

text \<open>A pair that is set is read back by the next command.\<close>

lemma set_then_get:
  assumes "inv s" and "room s \<or> get s k \<noteq> None" and "k \<noteq> []" and "\<forall>c\<in>set k. \<not> isspace c \<and> c \<noteq> NUL"
    and "v \<noteq> []" and "\<not> isspace (hd v)" and "\<forall>c\<in>set v. c \<noteq> newline \<and> c \<noteq> NUL"
    and "length k + length v < 250" and "w = None \<or> w = Some 255"
  shows "snd (kv_command get put w s (''SET '' @ k @ '' '' @ v)) = ''OK'' @ [newline] \<and>
    snd (kv_command get put w (fst (kv_command get put w s (''SET '' @ k @ '' '' @ v))) (''GET '' @ k)) = v @ [newline]"
proof -
  have fit: "fits k" "fits v" using assms(4,7,8) by (auto simp: fits_def BUF_SIZE_def)
  have bound: "\<forall>n. w = Some n \<longrightarrow> length k \<le> n" "\<forall>n. w = Some n \<longrightarrow> length v \<le> n" using assms(8,9) by auto
  have str: "c_str (''SET '' @ k @ '' '' @ v) = ''SET '' @ k @ '' '' @ v" "c_str (''GET '' @ k) = ''GET '' @ k"
    using fit by (auto intro!: c_str_id simp: fits_def NUL_def)
  have sp: "isspace CHR '' ''" by (simp add: isspace_def)
  have "scan_word w ('' '' @ k @ '' '' @ v) = Some (k, '' '' @ v)"
    using scan_word_exact [OF assms(3), of "'' '' @ v" w] assms(4) bound(1) sp by simp
  moreover have "skip_ws ('' '' @ v) = v" using assms(5,6) by (cases v) (auto simp: skip_ws_def sp)
  moreover have "scan_line w v = Some (v, [])"
    using scan_line_exact [OF assms(5) _ _ bound(2), of "[]"] assms(7) by auto
  ultimately have set: "sscanf_SET w (''SET '' @ k @ '' '' @ v) = Some (k, v)"
    by (simp add: sscanf_SET_def)
  have "scan_word w ('' '' @ k) = Some (k, [])"
    using scan_word_exact [OF assms(3), of "[]" w] assms(4) bound(1) by simp
  then have "sscanf_GET w (''GET '' @ k) = Some k" "sscanf_SET w (''GET '' @ k) = None"
    by (simp_all add: sscanf_GET_def sscanf_SET_def)
  then show ?thesis
    using set str get_put_same [OF assms(1) fit assms(2)] by (simp add: kv_command_def)
qed

end

interpretation arrp: kv_provider kv_get kv_set kv_inv kv_room
  by unfold_locales

interpretation libp: kv_provider lib_kv_get lib_kv_set kv_inv kv_room
  by unfold_locales

lemma kv_static_get: "kv_get kv_static = Map.empty" "lib_kv_get kv_static = Map.empty"
  by (auto simp: lib_kv_eq kv_get_def kv_index_def kv_static_def)

lemma kv_server_loop_spec:
  assumes "kv_inv s" and "\<forall>b. Accepted b \<in> set es \<longrightarrow> length b < BUF_SIZE"
  shows "List.map_filter id (snd (kv_server_loop s es)) = spec_serve None (kv_get s) (accepted_reads es)"
  using assms
proof (induction es arbitrary: s rule: accepted_reads.induct)
  case (4 b es)
  then have b: "length b < BUF_SIZE" and es: "\<forall>b. Accepted b \<in> set es \<longrightarrow> length b < BUF_SIZE" by simp_all
  show ?case
  proof (cases "b = []")
    case True
    then show ?thesis using "4.IH" [OF "4.prems"(1) es] by (simp add: case_prod_beta map_filter_simps)
  next
    case False
    obtain s' r where s': "kv_command kv_get kv_set None s b = (s', r)" by fastforce
    then have "kv_inv s'" and "spec_command None (kv_get s) b = (kv_get s', r)"
      using arrp.command_spec [OF "4.prems"(1) b, of None] by simp_all
    then show ?thesis using "4.IH" [OF _ es, of s'] False s' by (simp add: case_prod_beta map_filter_simps)
  qed
qed (simp_all add: map_filter_simps)

section \<open>Properties\<close>

text \<open>C24: The replies of the one-command-per-connection server are those of a finite map with room for
  \<open>MAX_ENTRIES\<close> keys, for any sequence of connections and any bytes they send; in particular no
  parsed key or value overflows its array although the format has no field width.\<close>

theorem kv_server_refines_map:
  assumes "\<forall>b. Accepted b \<in> set es \<longrightarrow> length b < BUF_SIZE"
  shows "map_sum id (\<lambda>(s, out). List.map_filter id out) (kv_server_main True True True es) =
    Inr (spec_serve None Map.empty (accepted_reads es))"
  using kv_server_loop_spec [OF kv_static_inv assms] by (simp add: kv_server_main_def kv_static_get case_prod_beta)

theorem kv_server_refines_map_witness:
  "map_sum id (\<lambda>(s, out). List.map_filter id out)
     (kv_server_main True True True [Accepted ''SET a 1'', Accept_EINTR, Accepted ''GET a'']) =
    Inr (spec_serve None Map.empty (accepted_reads [Accepted ''SET a 1'', Accept_EINTR, Accepted ''GET a'']))"
  by (rule kv_server_refines_map) (auto simp: BUF_SIZE_def)

text \<open>What is set is read back: after \<open>SET k v\<close> the command \<open>GET k\<close> is answered with \<open>v\<close>, for every key
  without white space and every value of one line.\<close>

theorem kv_set_get_roundtrip:
  assumes "kv_inv s" and "kv_room s \<or> kv_get s k \<noteq> None" and "k \<noteq> []" and "\<forall>c\<in>set k. \<not> isspace c \<and> c \<noteq> NUL"
    and "v \<noteq> []" and "\<not> isspace (hd v)" and "\<forall>c\<in>set v. c \<noteq> newline \<and> c \<noteq> NUL"
    and "length k + length v < 250"
  shows "snd (kv_command kv_get kv_set None s (''SET '' @ k @ '' '' @ v)) = ''OK'' @ [newline] \<and>
    snd (kv_command kv_get kv_set None (fst (kv_command kv_get kv_set None s (''SET '' @ k @ '' '' @ v))) (''GET '' @ k)) =
      v @ [newline]"
  using assms by (intro arrp.set_then_get) auto

theorem kv_set_get_roundtrip_witness:
  "snd (kv_command kv_get kv_set None kv_static (''SET '' @ ''k1'' @ '' '' @ ''some value'')) = ''OK'' @ [newline] \<and>
    snd (kv_command kv_get kv_set None (fst (kv_command kv_get kv_set None kv_static (''SET '' @ ''k1'' @ '' '' @ ''some value'')))
      (''GET '' @ ''k1'')) = ''some value'' @ [newline]"
  by (rule kv_set_get_roundtrip [OF kv_static_inv])
     (auto simp: kv_room_def kv_static_def MAX_ENTRIES_def isspace_def newline_def NUL_def)

text \<open>The client loops over commands on one connection, but the one-command server closes it: whatever
  further commands are entered, only the first is answered.\<close>

theorem oneshot_client_single_reply:
  assumes "chop_newline l1 \<noteq> []" and "\<not> strcasecmp_eq (chop_newline l1) ''EXIT''"
    and "chop_newline l2 \<noteq> []" and "\<not> strcasecmp_eq (chop_newline l2) ''EXIT''"
  shows "kv_client oneshot_conn (Some s) (l1 # l2 # ls) =
    [Server_reply (take 255 (snd (kv_command kv_get kv_set None s (chop_newline l1)))), Write_error]"
proof -
  have "snd (kv_command kv_get kv_set None s (chop_newline l1)) \<noteq> []"
    by (auto simp: kv_command_def Let_def split: option.splits)
  then show ?thesis using assms by (simp add: oneshot_conn_def BUF_SIZE_def)
qed

theorem oneshot_client_single_reply_witness:
  "kv_client oneshot_conn (Some kv_static) (''SET a 1'' # ''GET a'' # [''EXIT'']) =
    [Server_reply (take 255 (snd (kv_command kv_get kv_set None kv_static (chop_newline ''SET a 1'')))), Write_error]"
  by (rule oneshot_client_single_reply) (simp_all add: chop_newline_def newline_def strcasecmp_eq_def)

section \<open>Sessions\<close>

text \<open>The commands a user sends: the lines typed before the first \<open>EXIT\<close>.\<close>

fun commands_of :: "string list \<Rightarrow> string list" where
  "commands_of [] = []"
| "commands_of (line # ls) = (if strcasecmp_eq (chop_newline line) ''EXIT'' then [] else chop_newline line # commands_of ls)"

lemma sscanf_SET_length: "sscanf_SET w buf = Some (k, v) \<Longrightarrow> length v + 3 \<le> length buf"
proof -
  assume "sscanf_SET w buf = Some (k, v)"
  then obtain r1 r2 r3 where 1: "scan_lit ''SET'' buf = Some r1" and 2: "scan_word w r1 = Some (k, r2)"
    and 3: "scan_line w (skip_ws r2) = Some (v, r3)"
    by (auto simp: sscanf_SET_def bind_eq_Some_conv)
  have b: "buf = ''SET'' @ r1" using 1 by (simp only: scan_lit_Some)
  have "length (skip_ws r2) \<le> length r2" by (simp add: skip_ws_def length_dropWhile_le)
  moreover have "skip_ws r2 = v @ r3" using 3 scan_span_Some unfolding scan_line_def by blast
  ultimately show ?thesis using b scan_word_sub [OF 2] by simp
qed

text \<open>The replies to short commands fit the client's buffer, with their newline.\<close>

lemma spec_command_short:
  assumes "length bytes < BUF_SIZE" and "\<forall>v\<in>ran m. length v \<le> 252" and "spec_command w m bytes = (m', r)"
  shows "(\<forall>v\<in>ran m'. length v \<le> 252) \<and> (\<exists>q. r = q @ [newline] \<and> length q \<le> 252)"
proof -
  have len: "length (c_str bytes) \<le> 255" using assms(1) length_takeWhile_le [of "\<lambda>c. c \<noteq> NUL" bytes] by (simp add: c_str_def BUF_SIZE_def)
  show ?thesis
  proof (cases "sscanf_SET w (c_str bytes)")
    case None
    then show ?thesis using assms(2,3)
      by (auto simp: spec_command_def kv_command_def ran_def split: option.splits)
  next
    case (Some p)
    obtain k v where p: "p = (k, v)" by fastforce
    have "length v \<le> 252" using sscanf_SET_length [OF Some [unfolded p]] len by simp
    then show ?thesis using assms(2,3) Some p
      by (auto simp: spec_command_def kv_command_def bounded_put_def ran_def split: if_splits) blast+
  qed
qed

lemma modular_session_from:
  assumes "kv_inv s" and "\<forall>v\<in>ran (lib_kv_get s). length v \<le> 252" and "list_all (\<lambda>l. length l < BUF_SIZE \<and> chop_newline l \<noteq> []) ls"
  shows "modular_client modular_conn s ls = map Server_reply (spec_serve (Some 255) (lib_kv_get s) (commands_of ls))"
  using assms
proof (induction ls arbitrary: s)
  case (Cons line ls)
  let ?cmd = "chop_newline line"
  have len: "length ?cmd < BUF_SIZE" using Cons.prems(3) by (simp add: chop_newline_def le_less_trans [OF length_takeWhile_le])
  obtain s' r where s': "kv_command lib_kv_get lib_kv_set (Some 255) s ?cmd = (s', r)" by fastforce
  have sp: "kv_inv s'" "spec_command (Some 255) (lib_kv_get s) ?cmd = (lib_kv_get s', r)"
    using libp.command_spec [OF Cons.prems(1) len, of "Some 255"] s' by simp_all
  obtain q where q: "\<forall>v\<in>ran (lib_kv_get s'). length v \<le> 252" "r = q @ [newline]" "length q \<le> 252"
    using spec_command_short [OF len Cons.prems(2) sp(2)] by blast
  have "modular_client modular_conn s' ls = map Server_reply (spec_serve (Some 255) (lib_kv_get s') (commands_of ls))"
    using Cons.IH [OF sp(1) q(1)] Cons.prems(3) by simp
  moreover have "take (BUF_SIZE - 1) r = r" "r \<noteq> []" "last r = newline" using q(2,3) by (simp_all add: BUF_SIZE_def)
  moreover have "modular_conn s ?cmd = Some (s', r)" using s' by (simp add: modular_conn_def)
  ultimately show ?case using Cons.prems(3) sp(2) by simp
qed simp

end
