(* ===== verification/KV_Threads.thy ===== *)
theory KV_Threads
  imports KV_Server
begin

text \<open>
  The server of \<^verbatim>\<open>src/Modularize Key-Value\<close>, with a thread per connection and a library without a lock. Every call of a
  thread is a step of its own: the \<open>read\<close>, the call into the library, its return, and the \<open>write\<close> of the reply; a call of
  \<open>kv_set\<close> that adds a key fills the slot when it starts and increments the counter before it returns. A call of \<open>kv_get\<close> gives
  a pointer, and \<open>dprintf\<close> reads the value behind it when the reply is written. A run is a list of events, in any order;
  an event whose thread is not at that point is skipped. What an event does to the clients is a log.

  The specification is linearizability over the bounded map: the commands take effect one at a time, each between
  the read of the command and the write of its reply.
\<close>

section \<open>The threads\<close>

datatype kv_cmd = Cmd_set string string | Cmd_get string | Cmd_bad

definition parse_cmd :: "char list \<Rightarrow> kv_cmd" where
  "parse_cmd bytes =
     (let buf = c_str bytes in
      case sscanf_SET (Some 255) buf of
        Some (key, value) \<Rightarrow> Cmd_set key value
      | None \<Rightarrow> (case sscanf_GET (Some 255) buf of Some key \<Rightarrow> Cmd_get key | None \<Rightarrow> Cmd_bad))"

text \<open>
  Where the thread of a client is. \<open>In_kv_set\<close> says whether the counter is still to be incremented, \<open>In_kv_get\<close> and
  \<open>Formatting\<close> have the pointer \<open>val\<close>; \<open>Replying\<close> has the constant string to be written.
\<close>

datatype kv_phase = Not_connected | Reading | Parsed "char list" | In_kv_set bool | In_kv_get "nat option"
  | Replying string | Formatting nat | Closed

text \<open>
  \<open>Connects\<close> comes with whether the thread could be created, \<open>Reads\<close> with the bytes (none for \<open>n \<le> 0\<close>), \<open>Writes\<close> with
  whether the write succeeds. \<open>Main_dies\<close> ends the process: a failed \<open>malloc\<close> or \<open>accept\<close> in the accept loop.
\<close>

datatype kv_event = Connects nat bool | Accept_interrupted | Main_dies string
  | Reads nat "char list" | Calls nat | Returns nat | Writes nat bool

datatype kv_log = Got nat "char list" | Sent nat string | Unsent nat

record kv_threads =
  th_store :: kvstore
  th_phase :: "nat \<Rightarrow> kv_phase"

definition goto :: "kv_threads \<Rightarrow> nat \<Rightarrow> kv_phase \<Rightarrow> kv_threads" where
  "goto st c ph = st\<lparr>th_phase := (th_phase st)(c := ph)\<rparr>"

text \<open>
  A step of \<open>handle_client\<close>. The result of \<open>dprintf\<close> is not tested; after every other write that fails the thread ends.
\<close>

fun handle_client :: "kv_event \<Rightarrow> kv_threads \<Rightarrow> kv_threads \<times> kv_log list" where
  "handle_client (Reads c bytes) st =
     (case th_phase st c of
        Reading \<Rightarrow> if bytes = [] then (goto st c Closed, []) else (goto st c (Parsed bytes), [Got c bytes])
      | _ \<Rightarrow> (st, []))"
| "handle_client (Calls c) st =
     (case th_phase st c of
        Parsed bytes \<Rightarrow>
          (case parse_cmd bytes of
             Cmd_set key value \<Rightarrow>
               (case lib_kv_set_start (th_store st) key value of
                  (s, appended) \<Rightarrow> (goto (st\<lparr>th_store := s\<rparr>) c (In_kv_set appended), []))
           | Cmd_get key \<Rightarrow> (goto st c (In_kv_get (kv_index (th_store st) key)), [])
           | Cmd_bad \<Rightarrow> (goto st c (Replying (''ERROR'' @ [newline])), []))
      | _ \<Rightarrow> (st, []))"
| "handle_client (Returns c) st =
     (case th_phase st c of
        In_kv_set appended \<Rightarrow>
          (goto (if appended then st\<lparr>th_store := lib_kv_set_bump (th_store st)\<rparr> else st) c (Replying (''OK'' @ [newline])), [])
      | In_kv_get (Some i) \<Rightarrow> (goto st c (Formatting i), [])
      | In_kv_get None \<Rightarrow> (goto st c (Replying (''NOT_FOUND'' @ [newline])), [])
      | _ \<Rightarrow> (st, []))"
| "handle_client (Writes c ok) st =
     (case th_phase st c of
        Replying r \<Rightarrow> if ok then (goto st c Reading, [Sent c r]) else (goto st c Closed, [Unsent c])
      | Formatting i \<Rightarrow>
          (goto st c Reading, [if ok then Sent c (lib_value (th_store st) i @ [newline]) else Unsent c])
      | _ \<Rightarrow> (st, []))"
| "handle_client _ st = (st, [])"

text \<open>The accept loop with the threads it has created: the log, and the message \<open>main\<close> dies with, if it does.\<close>

fun modular_serve :: "kv_threads \<Rightarrow> kv_event list \<Rightarrow> kv_log list \<times> string option" where
  "modular_serve st [] = ([], None)"
| "modular_serve st (Main_dies msg # es) = ([], Some msg)"
| "modular_serve st (Accept_interrupted # es) = modular_serve st es"
| "modular_serve st (Connects c created # es) =
     modular_serve
       (case th_phase st c of Not_connected \<Rightarrow> goto st c (if created then Reading else Closed) | _ \<Rightarrow> st) es"
| "modular_serve st (e # es) =
     (case handle_client e st of (st, ls) \<Rightarrow> case modular_serve st es of (out, d) \<Rightarrow> (ls @ out, d))"

datatype modular_error = Lib_not_found | Symbol_not_found | Die string

definition threads_static :: kv_threads where
  "threads_static = \<lparr>th_store = kv_static, th_phase = (\<lambda>_. Not_connected)\<rparr>"

text \<open>\<open>main\<close>: \<open>lib\<close> is whether \<open>dlopen\<close> finds the library and \<open>dlsym\<close> the two functions.\<close>

definition modular_main :: "(bool \<times> bool) option \<Rightarrow> bool \<Rightarrow> bool \<Rightarrow> bool \<Rightarrow> kv_event list \<Rightarrow>
    modular_error + kv_log list \<times> string option" where
  "modular_main lib socket_ok bind_ok listen_ok es =
     (case lib of
        None \<Rightarrow> Inl Lib_not_found
      | Some (get_ok, set_ok) \<Rightarrow>
          if \<not> get_ok \<or> \<not> set_ok then Inl Symbol_not_found
          else if \<not> socket_ok then Inl (Die ''socket'')
          else if \<not> bind_ok then Inl (Die ''bind'')
          else if \<not> listen_ok then Inl (Die ''listen'')
          else Inr (modular_serve threads_static es))"

section \<open>The specification\<close>

text \<open>
  A client of the specification waits, has a command pending, or has its answer. A log with the points at which the commands take
  effect is explained by the map when every reply is the answer the command got at its point.
\<close>

datatype client_view = Idle | Pending "char list" | Answered string

datatype spec_event = Obs kv_log | Effect nat

fun linear :: "(string \<rightharpoonup> string) \<Rightarrow> (nat \<Rightarrow> client_view) \<Rightarrow> spec_event list \<Rightarrow> bool" where
  "linear m q [] \<longleftrightarrow> True"
| "linear m q (Obs (Got c b) # l) \<longleftrightarrow> q c = Idle \<and> linear m (q(c := Pending b)) l"
| "linear m q (Effect c # l) \<longleftrightarrow>
     (case q c of
        Pending b \<Rightarrow> linear (fst (spec_command (Some 255) m b)) (q(c := Answered (snd (spec_command (Some 255) m b)))) l
      | _ \<Rightarrow> False)"
| "linear m q (Obs (Sent c r) # l) \<longleftrightarrow> q c = Answered r \<and> linear m (q(c := Idle)) l"
| "linear m q (Obs (Unsent c) # l) \<longleftrightarrow> (\<exists>r. q c = Answered r) \<and> linear m (q(c := Idle)) l"

definition observed :: "spec_event list \<Rightarrow> kv_log list" where
  "observed l = List.map_filter (\<lambda>e. case e of Obs x \<Rightarrow> Some x | Effect c \<Rightarrow> None) l"

definition linearizable :: "kv_log list \<Rightarrow> bool" where
  "linearizable log \<longleftrightarrow> (\<exists>l. linear Map.empty (\<lambda>_. Idle) l \<and> observed l = log)"

lemma observed_simps [simp]:
  "observed [] = []" "observed (Obs x # l) = x # observed l" "observed (Effect c # l) = observed l"
  by (simp_all add: observed_def map_filter_simps)

text \<open>
  The schedules in which no two threads are in the library at once, and no reply is written while another thread is in it. \<open>p\<close> is the
  thread in the library.
\<close>

fun calls_apart :: "nat option \<Rightarrow> kv_event list \<Rightarrow> bool" where
  "calls_apart p [] \<longleftrightarrow> True"
| "calls_apart p (Calls c # es) \<longleftrightarrow> p = None \<and> calls_apart (Some c) es"
| "calls_apart p (Returns c # es) \<longleftrightarrow> calls_apart (if p = Some c then None else p) es"
| "calls_apart p (Writes c ok # es) \<longleftrightarrow> (p = None \<or> p = Some c) \<and> calls_apart p es"
| "calls_apart p (e # es) \<longleftrightarrow> calls_apart p es"

section \<open>The simulation\<close>

text \<open>What the specification shows for a thread in each phase.\<close>

fun phase_ok :: "kvstore \<Rightarrow> nat option \<Rightarrow> nat \<Rightarrow> kv_phase \<Rightarrow> client_view \<Rightarrow> bool" where
  "phase_ok s p c Not_connected v \<longleftrightarrow> v = Idle"
| "phase_ok s p c Reading v \<longleftrightarrow> v = Idle"
| "phase_ok s p c (Parsed b) v \<longleftrightarrow> v = Pending b \<and> length b < BUF_SIZE"
| "phase_ok s p c (In_kv_set appended) v \<longleftrightarrow> p = Some c \<and>
     (if appended then \<exists>b k x. v = Pending b \<and> parse_cmd b = Cmd_set k x \<and> kv_inv (lib_kv_set_bump s) \<and>
        lib_kv_get (lib_kv_set_bump s) = bounded_put MAX_ENTRIES (lib_kv_get s) k x \<and>
        (\<forall>k' i. kv_index s k' = Some i \<longrightarrow> kv_index (lib_kv_set_bump s) k' = Some i)
      else v = Answered (''OK'' @ [newline]))"
| "phase_ok s p c (In_kv_get None) v \<longleftrightarrow> p = Some c \<and> v = Answered (''NOT_FOUND'' @ [newline])"
| "phase_ok s p c (In_kv_get (Some i)) v \<longleftrightarrow> p = Some c \<and>
     (\<exists>b k. v = Pending b \<and> parse_cmd b = Cmd_get k \<and> kv_index s k = Some i)"
| "phase_ok s p c (Replying r) v \<longleftrightarrow> v = Answered r"
| "phase_ok s p c (Formatting i) v \<longleftrightarrow> (\<exists>b k. v = Pending b \<and> parse_cmd b = Cmd_get k \<and> kv_index s k = Some i)"
| "phase_ok s p c Closed v \<longleftrightarrow> True"

definition explains :: "kv_threads \<Rightarrow> nat option \<Rightarrow> (nat \<Rightarrow> client_view) \<Rightarrow> bool" where
  "explains st p q \<longleftrightarrow> kv_inv (th_store st) \<and> (\<forall>c. phase_ok (th_store st) p c (th_phase st c) (q c))"

text \<open>Only the phase of the thread that takes the step changes; the other phases survive a change of the store that keeps pointers.\<close>

lemma phase_ok_other:
  assumes "phase_ok s p c ph v" and "p \<noteq> Some c" and "\<And>k i. kv_index s k = Some i \<Longrightarrow> kv_index s' k = Some i"
  shows "phase_ok s' p' c ph v"
  using assms by (cases "(s, p, c, ph, v)" rule: phase_ok.cases) auto

lemma explains_goto:
  assumes "explains st p q" and "phase_ok (th_store st) p c ph v"
  shows "explains (goto st c ph) p (q(c := v))"
  using assms by (simp add: explains_def goto_def)

lemma explains_store:
  assumes "explains st p q" and "p \<in> {None, Some c}" and "p' \<in> {None, Some c}" and "kv_inv s"
    and "\<And>k i. kv_index (th_store st) k = Some i \<Longrightarrow> kv_index s k = Some i" and "phase_ok s p' c ph v"
  shows "explains (goto (st\<lparr>th_store := s\<rparr>) c ph) p' (q(c := v))"
proof -
  have "phase_ok s p' d (th_phase st d) (q d)" if "d \<noteq> c" for d
    by (rule phase_ok_other [of "th_store st" p]) (use assms(1,2,5) that in \<open>auto simp: explains_def\<close>)
  then show ?thesis using assms(4,6) by (simp add: explains_def goto_def)
qed

text \<open>The answers of the specification to a parsed command.\<close>

lemma spec_parsed:
  "spec_command (Some 255) m b =
     (case parse_cmd b of
        Cmd_set k v \<Rightarrow> (bounded_put MAX_ENTRIES m k v, ''OK'' @ [newline])
      | Cmd_get k \<Rightarrow> (m, case m k of Some v \<Rightarrow> v @ [newline] | None \<Rightarrow> ''NOT_FOUND'' @ [newline])
      | Cmd_bad \<Rightarrow> (m, ''ERROR'' @ [newline]))"
  by (auto simp: spec_command_def kv_command_def parse_cmd_def Let_def split: option.split)

lemma parsed_fits:
  assumes "parse_cmd b = Cmd_set k v" and "length b < BUF_SIZE"
  shows "fits k" and "fits v"
proof -
  have "sscanf_SET (Some 255) (c_str b) = Some (k, v)"
    using assms(1) by (auto simp: parse_cmd_def Let_def split: option.splits)
  moreover have "length (c_str b) < BUF_SIZE" using assms(2) by (metis c_str_def le_less_trans length_takeWhile_le)
  ultimately show "fits k" "fits v" using sscanf_SET_fits c_str_no_NUL by blast+
qed

text \<open>A step of the server is a sequence of steps of the specification.\<close>

definition step_explained :: "kv_threads \<Rightarrow> (nat \<Rightarrow> client_view) \<Rightarrow> kv_log list \<Rightarrow> kv_threads \<Rightarrow> nat option \<Rightarrow> bool" where
  "step_explained st q ls st' p' \<longleftrightarrow>
     (\<exists>pre q'. explains st' p' q' \<and> observed pre = ls \<and>
       (\<forall>l. linear (lib_kv_get (th_store st')) q' l \<longrightarrow> linear (lib_kv_get (th_store st)) q (pre @ l)))"

lemma observed_append: "observed (xs @ ys) = observed xs @ observed ys"
  by (simp add: observed_def List.map_filter_def)

lemma call_explained:
  assumes "explains st None q"
  shows "step_explained st q (snd (handle_client (Calls c) st)) (fst (handle_client (Calls c) st)) (Some c)"
proof (cases "\<exists>b. th_phase st c = Parsed b")
  case False
  have "phase_ok (th_store st) (Some c) d (th_phase st d) (q d)" for d
    by (rule phase_ok_other [of "th_store st" None]) (use assms in \<open>auto simp: explains_def\<close>)
  then have "explains st (Some c) q" using assms by (simp add: explains_def)
  moreover have "handle_client (Calls c) st = (st, [])" using False by (auto split: kv_phase.split)
  ultimately show ?thesis unfolding step_explained_def by (intro exI [of _ "[]"] exI [of _ q]) simp
next
  case True
  then obtain b where ph: "th_phase st c = Parsed b" by blast
  let ?s = "th_store st"
  have inv: "kv_inv ?s" and b: "q c = Pending b" "length b < BUF_SIZE"
    using assms ph by (auto simp: explains_def dest!: spec [of _ c])
  have keep: "explains (goto (st\<lparr>th_store := s\<rparr>) c ph') (Some c) (q(c := v))"
    if "kv_inv s" "\<And>k i. kv_index ?s k = Some i \<Longrightarrow> kv_index s k = Some i" "phase_ok s (Some c) c ph' v" for s ph' v
    by (rule explains_store [OF assms]) (use that in auto)
  have same: "st\<lparr>th_store := ?s\<rparr> = st" by simp
  show ?thesis
  proof (cases "parse_cmd b")
    case (Cmd_set k v)
    note f = parsed_fits [OF Cmd_set b(2)]
    have put: "kv_inv (lib_kv_set ?s k v)" "lib_kv_get (lib_kv_set ?s k v) = bounded_put MAX_ENTRIES (lib_kv_get ?s) k v"
      using lib.inv_put [OF inv f] lib.get_put_bounded [OF inv f] by simp_all
    note stays = kv_index_stays [OF inv, of _ _ k v]
    obtain s' appended where s': "lib_kv_set_start ?s k v = (s', appended)" by fastforce
    show ?thesis
    proof (cases appended)
      case True
      then have fill: "s' = lib_kv_set_fill ?s k v" and bump: "lib_kv_set ?s k v = lib_kv_set_bump s'"
        using s' lib_kv_set_steps [of ?s k v] by (auto simp: lib_kv_set_start_def split: option.splits if_splits)
      note inv' = fill_invisible [OF inv, of k v, folded fill]
      have "explains (goto (st\<lparr>th_store := s'\<rparr>) c (In_kv_set True)) (Some c) (q(c := Pending b))"
        by (rule keep) (use inv' put bump stays Cmd_set in auto)
      then have "explains (goto (st\<lparr>th_store := s'\<rparr>) c (In_kv_set True)) (Some c) q" using b(1) by (metis fun_upd_triv)
      then show ?thesis using ph Cmd_set s' True inv'(3) unfolding step_explained_def
        by (intro exI [of _ "[]"] exI [of _ q]) (simp add: goto_def)
    next
      case False
      then have s: "lib_kv_set ?s k v = s'" using s' lib_kv_set_steps [of ?s k v] by simp
      have "explains (goto (st\<lparr>th_store := s'\<rparr>) c (In_kv_set False)) (Some c) (q(c := Answered (''OK'' @ [newline])))"
        by (rule keep) (use put stays s in auto)
      then show ?thesis using ph Cmd_set s' False put(2) s b(1) unfolding step_explained_def
        by (intro exI [of _ "[Effect c]"] exI [of _ "q(c := Answered (''OK'' @ [newline]))"]) (simp add: goto_def spec_parsed)
    qed
  next
    case (Cmd_get k)
    show ?thesis
    proof (cases "kv_index ?s k")
      case None
      have "explains (goto (st\<lparr>th_store := ?s\<rparr>) c (In_kv_get None)) (Some c) (q(c := Answered (''NOT_FOUND'' @ [newline])))"
        by (rule keep) (use inv in auto)
      then show ?thesis using ph Cmd_get None b(1) unfolding step_explained_def same
        by (intro exI [of _ "[Effect c]"] exI [of _ "q(c := Answered (''NOT_FOUND'' @ [newline]))"])
          (simp add: goto_def spec_parsed lib_kv_get_value)
    next
      case (Some i)
      have "explains (goto (st\<lparr>th_store := ?s\<rparr>) c (In_kv_get (Some i))) (Some c) (q(c := Pending b))"
        by (rule keep) (use inv Some Cmd_get in auto)
      then have "explains (goto st c (In_kv_get (Some i))) (Some c) q" using b(1) unfolding same by (metis fun_upd_triv)
      then show ?thesis using ph Cmd_get Some unfolding step_explained_def
        by (intro exI [of _ "[]"] exI [of _ q]) (simp add: goto_def)
    qed
  next
    case Cmd_bad
    have "explains (goto (st\<lparr>th_store := ?s\<rparr>) c (Replying (''ERROR'' @ [newline]))) (Some c) (q(c := Answered (''ERROR'' @ [newline])))"
      by (rule keep) (use inv in auto)
    then show ?thesis using ph Cmd_bad b(1) unfolding step_explained_def same
      by (intro exI [of _ "[Effect c]"] exI [of _ "q(c := Answered (''ERROR'' @ [newline]))"]) (simp add: goto_def spec_parsed)
  qed
qed

text \<open>The other steps leave the store alone, except for the counter.\<close>

lemma same_store:
  assumes "explains st p q" and "phase_ok (th_store st) p c ph v"
    and "\<forall>l. linear (lib_kv_get (th_store st)) (q(c := v)) l \<longrightarrow> linear (lib_kv_get (th_store st)) q (pre @ l)"
  shows "step_explained st q (observed pre) (goto st c ph) p"
proof -
  have "th_store (goto st c ph) = th_store st" by (simp add: goto_def)
  then show ?thesis unfolding step_explained_def using explains_goto [OF assms(1,2)] assms(3) by metis
qed

lemma no_step: "explains st p q \<Longrightarrow> step_explained st q [] st p"
  unfolding step_explained_def by (intro exI [of _ "[]"] exI [of _ q]) simp

lemma return_explained:
  assumes "explains st p q"
  shows "step_explained st q (snd (handle_client (Returns c) st)) (fst (handle_client (Returns c) st)) (if p = Some c then None else p)"
proof -
  let ?s = "th_store st" and ?p = "if p = Some c then None else p"
  have inv: "kv_inv ?s" and c: "phase_ok ?s p c (th_phase st c) (q c)" using assms by (auto simp: explains_def)
  have leave: "explains (goto (st\<lparr>th_store := s\<rparr>) c ph') None (q(c := v))"
    if "p = Some c" "kv_inv s" "\<And>k i. kv_index ?s k = Some i \<Longrightarrow> kv_index s k = Some i" "phase_ok s None c ph' v" for s ph' v
    by (rule explains_store [OF assms]) (use that in auto)
  have same: "st\<lparr>th_store := ?s\<rparr> = st" by simp
  have quiet: "step_explained st q [] st ?p" if "\<And>a. th_phase st c \<noteq> In_kv_set a" "\<And>a. th_phase st c \<noteq> In_kv_get a"
  proof -
    have "phase_ok ?s ?p d (th_phase st d) (q d)" for d
    proof -
      have d: "phase_ok ?s p d (th_phase st d) (q d)" using assms by (simp add: explains_def)
      show ?thesis using d that by (cases "(?s, p, d, th_phase st d, q d)" rule: phase_ok.cases) auto
    qed
    then show ?thesis using inv by (intro no_step) (simp add: explains_def)
  qed
  show ?thesis
  proof (cases "th_phase st c")
    case (In_kv_set appended)
    then have p: "p = Some c" using c by simp
    show ?thesis
    proof (cases appended)
      case True
      then obtain b k x where b: "q c = Pending b" "parse_cmd b = Cmd_set k x" "kv_inv (lib_kv_set_bump ?s)"
        "lib_kv_get (lib_kv_set_bump ?s) = bounded_put MAX_ENTRIES (lib_kv_get ?s) k x"
        "\<And>k' i. kv_index ?s k' = Some i \<Longrightarrow> kv_index (lib_kv_set_bump ?s) k' = Some i"
        using c In_kv_set by auto
      have "explains (goto (st\<lparr>th_store := lib_kv_set_bump ?s\<rparr>) c (Replying (''OK'' @ [newline]))) None (q(c := Answered (''OK'' @ [newline])))"
        by (rule leave [OF p b(3)]) (use b(5) in auto)
      then show ?thesis using In_kv_set True p b(1,2,4) unfolding step_explained_def
        by (intro exI [of _ "[Effect c]"] exI [of _ "q(c := Answered (''OK'' @ [newline]))"]) (simp add: goto_def spec_parsed)
    next
      case False
      have "explains (goto (st\<lparr>th_store := ?s\<rparr>) c (Replying (''OK'' @ [newline]))) None (q(c := q c))"
        by (rule leave [OF p inv]) (use c In_kv_set False in auto)
      then show ?thesis using In_kv_set False p unfolding step_explained_def same
        by (intro exI [of _ "[]"] exI [of _ q]) (simp add: goto_def)
    qed
  next
    case (In_kv_get val)
    then have p: "p = Some c" using c by (cases val) auto
    define ph where "ph = (case val of None \<Rightarrow> Replying (''NOT_FOUND'' @ [newline]) | Some i \<Rightarrow> Formatting i)"
    have "explains (goto (st\<lparr>th_store := ?s\<rparr>) c ph) None (q(c := q c))"
      by (rule leave [OF p inv]) (use c In_kv_get in \<open>auto simp: ph_def split: option.split\<close>)
    then have ex: "explains (goto st c ph) None q" unfolding same by (metis fun_upd_triv)
    have hc: "handle_client (Returns c) st = (goto st c ph, [])" using In_kv_get by (simp add: ph_def split: option.split)
    have st: "th_store (goto st c ph) = ?s" by (simp add: goto_def)
    show ?thesis unfolding step_explained_def hc
      by (intro exI [of _ "[]"] exI [of _ q]) (use ex p st in simp)
  qed (use quiet in simp_all)
qed

lemma write_explained:
  assumes "explains st p q" and "p = None \<or> p = Some c"
  shows "step_explained st q (snd (handle_client (Writes c ok) st)) (fst (handle_client (Writes c ok) st)) p"
proof -
  have c: "phase_ok (th_store st) p c (th_phase st c) (q c)" using assms by (simp add: explains_def)
  show ?thesis
  proof (cases "th_phase st c")
    case (Replying r)
    then show ?thesis using c
        same_store [OF assms(1), of c Reading Idle "[Obs (Sent c r)]"] same_store [OF assms(1), of c Closed Idle "[Obs (Unsent c)]"]
      by simp
  next
    case (Formatting i)
    then obtain b k where b: "q c = Pending b" "parse_cmd b = Cmd_get k" "kv_index (th_store st) k = Some i" using c by auto
    then have "spec_command (Some 255) (lib_kv_get (th_store st)) b = (lib_kv_get (th_store st), lib_value (th_store st) i @ [newline])"
      by (simp add: spec_parsed lib_kv_get_value)
    then show ?thesis using Formatting b(1)
        same_store [OF assms(1), of c Reading Idle "[Effect c, Obs (if ok then Sent c (lib_value (th_store st) i @ [newline]) else Unsent c)]"]
      by (cases ok) simp_all
  qed (use no_step [OF assms(1)] in simp_all)
qed

lemma read_explained:
  assumes "explains st p q" and "length bytes < BUF_SIZE"
  shows "step_explained st q (snd (handle_client (Reads c bytes) st)) (fst (handle_client (Reads c bytes) st)) p"
proof -
  have c: "phase_ok (th_store st) p c (th_phase st c) (q c)" using assms by (simp add: explains_def)
  show ?thesis
  proof (cases "th_phase st c")
    case Reading
    then show ?thesis using c assms(2)
        same_store [OF assms(1), of c Closed Idle "[]"] same_store [OF assms(1), of c "Parsed bytes" "Pending bytes" "[Obs (Got c bytes)]"]
      by (auto simp: fun_upd_idem)
  qed (use no_step [OF assms(1)] in simp_all)
qed

text \<open>A whole run.\<close>

lemma serve_explained:
  assumes "explains st p q" and "calls_apart p es" and "\<forall>c b. Reads c b \<in> set es \<longrightarrow> length b < BUF_SIZE"
  shows "\<exists>l. linear (lib_kv_get (th_store st)) q l \<and> observed l = fst (modular_serve st es)"
  using assms
proof (induction es arbitrary: st p q)
  case Nil
  show ?case by (intro exI [of _ "[]"]) simp
next
  case (Cons e es)
  have short: "\<forall>c b. Reads c b \<in> set es \<longrightarrow> length b < BUF_SIZE" using Cons.prems(3) by simp
  have step: "\<exists>l. linear (lib_kv_get (th_store st)) q l \<and> observed l = ls @ fst (modular_serve st' es)"
    if se: "step_explained st q ls st' p'" and ca: "calls_apart p' es" for ls st' p'
  proof -
    obtain pre q' where pre: "explains st' p' q'" "observed pre = ls"
      "\<And>l. linear (lib_kv_get (th_store st')) q' l \<Longrightarrow> linear (lib_kv_get (th_store st)) q (pre @ l)"
      using se unfolding step_explained_def by blast
    obtain l where "linear (lib_kv_get (th_store st')) q' l" "observed l = fst (modular_serve st' es)"
      using Cons.IH [OF pre(1) ca short] by blast
    then show ?thesis using pre(2,3) by (intro exI [of _ "pre @ l"]) (simp add: observed_append)
  qed
  show ?case
  proof (cases e)
    case (Connects c created)
    have "explains (case th_phase st c of Not_connected \<Rightarrow> goto st c (if created then Reading else Closed) | _ \<Rightarrow> st) p q"
    proof (cases "th_phase st c")
      case Not_connected
      then have "q c = Idle" using Cons.prems(1) by (auto simp: explains_def dest!: spec [of _ c])
      then show ?thesis
        using Not_connected explains_goto [OF Cons.prems(1), of c "if created then Reading else Closed" Idle] by (simp add: fun_upd_idem)
    qed (use Cons.prems(1) in simp_all)
    from Cons.IH [OF this _ short] show ?thesis using Connects Cons.prems(2) by (auto simp: goto_def split: kv_phase.split_asm)
  next
    case Accept_interrupted
    then show ?thesis using Cons.IH [OF Cons.prems(1) _ short] Cons.prems(2) by simp
  next
    case (Main_dies msg)
    then show ?thesis by (intro exI [of _ "[]"]) simp
  next
    case (Reads c b)
    then show ?thesis using step [OF read_explained [OF Cons.prems(1), of b c]] Cons.prems(2,3)
      by (simp add: case_prod_beta del: handle_client.simps)
  next
    case (Calls c)
    then show ?thesis using step [OF call_explained, of c] Cons.prems(1,2)
      by (simp add: case_prod_beta del: handle_client.simps)
  next
    case (Returns c)
    then show ?thesis using step [OF return_explained [OF Cons.prems(1), of c]] Cons.prems(2)
      by (simp add: case_prod_beta del: handle_client.simps)
  next
    case (Writes c ok)
    then show ?thesis using step [OF write_explained [OF Cons.prems(1), of c ok]] Cons.prems(2)
      by (simp add: case_prod_beta del: handle_client.simps)
  qed
qed

section \<open>Properties\<close>

text \<open>C4: As long as no two threads are in the library at once, and no reply is written while another thread is in it, the multi-threaded
  server, once the library and the socket are set up and for reads that fit its buffer, is linearizable over the bounded map,
  in every interleaving of its clients' reads, calls, returns and writes:
  the commands take effect one at a time, each between the read of the command and the write of its reply, and every
  reply is the answer the map gives the command at that point, sent to the client that asked.\<close>

theorem modular_server_linearizable:
  assumes "calls_apart None es" and "\<forall>c b. Reads c b \<in> set es \<longrightarrow> length b < BUF_SIZE"
  shows "\<exists>log death. modular_main (Some (True, True)) True True True es = Inr (log, death) \<and> linearizable log"
proof -
  have "explains threads_static None (\<lambda>_. Idle)" by (simp add: explains_def threads_static_def kv_static_inv)
  from serve_explained [OF this assms] have "linearizable (fst (modular_serve threads_static es))"
    by (simp add: linearizable_def threads_static_def kv_static_get)
  then show ?thesis by (simp add: modular_main_def prod_eq_iff)
qed

text \<open>Two clients: while the first has a pointer to the value of its key, the second changes the value.\<close>

definition two_clients :: "kv_event list" where
  "two_clients = [Connects 0 True, Reads 0 ''SET a 1'', Connects 1 True, Reads 1 ''SET a 2'', Calls 0, Returns 0, Writes 0 True,
     Reads 0 ''GET a'', Calls 0, Returns 0, Calls 1, Returns 1, Writes 0 True, Writes 1 True]"

theorem modular_server_linearizable_witness:
  "\<exists>log death. modular_main (Some (True, True)) True True True two_clients = Inr (log, death) \<and> linearizable log"
  by (rule modular_server_linearizable) (auto simp: two_clients_def BUF_SIZE_def)

text \<open>The commands of the examples, and a search in the first entries of the array.\<close>

lemma parse_examples:
  "parse_cmd ''SET a 1'' = Cmd_set ''a'' ''1''" "parse_cmd ''SET a 2'' = Cmd_set ''a'' ''2''" "parse_cmd ''SET b 2'' = Cmd_set ''b'' ''2''"
  "parse_cmd ''GET a'' = Cmd_get ''a''"
  by code_simp+

lemma fits_examples: "fits ''a''" "fits ''b''" "fits ''1''" "fits ''2''"
  by (simp_all add: fits_def BUF_SIZE_def NUL_def)

lemmas run_examples = modular_main_def threads_static_def goto_def parse_examples lib_kv_set_start_def lib_kv_set_fill_def
  lib_kv_set_bump_def lib_value_def kv_index_def kv_static_def MAX_ENTRIES_def fits_examples c_str_field upt_rec

text \<open>The reply of the first client has the new value: its command takes effect when \<open>dprintf\<close> reads the value.\<close>

lemma two_clients_run:
  "modular_main (Some (True, True)) True True True two_clients = Inr ([Got 0 ''SET a 1'', Got 1 ''SET a 2'',
     Sent 0 (''OK'' @ [newline]), Got 0 ''GET a'', Sent 0 (''2'' @ [newline]), Sent 1 (''OK'' @ [newline])], None)"
  by (simp add: two_clients_def run_examples)

text \<open>The library has no lock. When two threads that add different keys are in it at once and both fill the slot before either
  increments the counter, the first pair is lost, although both clients are told \<open>OK\<close>.\<close>

theorem modular_server_race:
  "modular_main (Some (True, True)) True True True
     [Connects 0 True, Connects 1 True, Reads 0 ''SET a 1'', Reads 1 ''SET b 2'', Calls 0, Calls 1, Returns 0, Returns 1,
      Writes 0 True, Writes 1 True, Reads 0 ''GET a'', Calls 0, Returns 0, Writes 0 True] =
   Inr ([Got 0 ''SET a 1'', Got 1 ''SET b 2'', Sent 0 (''OK'' @ [newline]), Sent 1 (''OK'' @ [newline]), Got 0 ''GET a'',
      Sent 0 (''NOT_FOUND'' @ [newline])], None)"
  by (simp add: run_examples)

end
