(* ===== verification/Hash_Map.thy ===== *)
theory Hash_Map
  imports KV_Store "HOL-Library.Word"
begin

text \<open>
  The hash map of \<^verbatim>\<open>src/pthread-hash-map.c\<close> with one lock per bucket, and its workers. A chain is
  the list of its nodes, first node first. Each operation holds the lock of its bucket from the
  first to the last access, so it is one step; the workers interleave these steps.
\<close>

definition TABLE_SIZE :: nat where "TABLE_SIZE = 8"
definition NUM_THREADS :: nat where "NUM_THREADS = 4"

record node =
  n_key :: string
  n_value :: int

record hashmap =
  buckets :: "node list list"

definition hash_str :: "string \<Rightarrow> nat" where
  "hash_str s = unat (fold (\<lambda>c h. ((push_bit 5 h) + h) + of_int (char_int c)) s (5381 :: 64 word)
     mod of_nat TABLE_SIZE)"

definition hashmap_init :: hashmap where
  "hashmap_init = \<lparr>buckets = replicate TABLE_SIZE []\<rparr>"

text \<open>The loop over a chain that updates the first node with the key; \<open>None\<close> if there is none.\<close>

fun chain_update :: "node list \<Rightarrow> string \<Rightarrow> int \<Rightarrow> node list option" where
  "chain_update [] key v = None"
| "chain_update (n # ns) key v =
     (if n_key n = key then Some (n\<lparr>n_value := v\<rparr> # ns)
      else map_option ((#) n) (chain_update ns key v))"

definition hashmap_insert :: "hashmap \<Rightarrow> string \<Rightarrow> int \<Rightarrow> hashmap" where
  "hashmap_insert m key v =
     (let i = hash_str key; b = buckets m ! i in
      case chain_update b key v of
        Some b' \<Rightarrow> m\<lparr>buckets := (buckets m)[i := b']\<rparr>
      | None \<Rightarrow> m\<lparr>buckets := (buckets m)[i := \<lparr>n_key = key, n_value = v\<rparr> # b]\<rparr>)"

text \<open>The returned value with the flag \<open>*found\<close>.\<close>

definition hashmap_lookup :: "hashmap \<Rightarrow> string \<Rightarrow> int \<times> bool" where
  "hashmap_lookup m key =
     (case find (\<lambda>n. n_key n = key) (buckets m ! hash_str key) of
        Some n \<Rightarrow> (n_value n, True)
      | None \<Rightarrow> (-1, False))"

section \<open>The map the table implements\<close>

definition hm_get :: "hashmap \<Rightarrow> string \<Rightarrow> int option" where
  "hm_get m key = (let (v, found) = hashmap_lookup m key in if found then Some v else None)"

definition hm_inv :: "hashmap \<Rightarrow> bool" where
  "hm_inv m \<longleftrightarrow> length (buckets m) = TABLE_SIZE"

lemma hash_str_less: "hash_str s < TABLE_SIZE"
proof -
  have "unat (x mod of_nat TABLE_SIZE) < TABLE_SIZE" for x :: "64 word"
    using unat_mod [of x "of_nat TABLE_SIZE"] by (simp add: TABLE_SIZE_def)
  then show ?thesis by (simp add: hash_str_def)
qed

lemma hm_get_find: "hm_get m key = map_option n_value (find (\<lambda>n. n_key n = key) (buckets m ! hash_str key))"
  by (simp add: hm_get_def hashmap_lookup_def split: option.split)

lemma chain_update_None: "chain_update ns key v = None \<longleftrightarrow> find (\<lambda>n. n_key n = key) ns = None"
  by (induction ns) auto

lemma chain_update_Some:
  "chain_update ns key v = Some ns' \<Longrightarrow> map_option n_value (find (\<lambda>n. n_key n = k) ns') =
     (if k = key then Some v else map_option n_value (find (\<lambda>n. n_key n = k) ns))"
  by (induction ns arbitrary: ns') (auto split: if_splits)

lemma hm_get_insert:
  assumes "hm_inv m"
  shows "hm_get (hashmap_insert m key v) k = (if k = key then Some v else hm_get m k)"
proof (cases "hash_str k = hash_str key")
  case True
  have i: "hash_str key < length (buckets m)" using assms hash_str_less by (simp add: hm_inv_def)
  show ?thesis
  proof (cases "chain_update (buckets m ! hash_str key) key v")
    case None
    then show ?thesis using True i by (auto simp: hm_get_find hashmap_insert_def Let_def)
  next
    case (Some b')
    then show ?thesis using True i chain_update_Some [OF Some, of k] by (simp add: hm_get_find hashmap_insert_def Let_def)
  qed
next
  case False
  then show ?thesis by (auto simp: hm_get_find hashmap_insert_def Let_def split: option.split)
qed

interpretation hm: kv_map hm_get hashmap_insert hm_inv "\<lambda>_. True" "\<lambda>_. True" "\<lambda>_. True"
proof unfold_locales
  show "hm_inv (hashmap_insert m k v)" if "hm_inv m" for m k v
    using that by (simp add: hm_inv_def hashmap_insert_def Let_def split: option.split)
qed (auto simp: hm_get_insert)

section \<open>The workers\<close>

definition worker_key :: "nat \<Rightarrow> string" where
  "worker_key i = ''key_'' @ [char_of (48 + i)]"

text \<open>
  A worker's position: step \<open>i < 5\<close> inserts key \<open>i\<close> and reports it, step \<open>5 + i\<close> looks it up and reports what it
  found; after step 9 it has returned. A line of its output is the kind of the line, the key and the value; the thread's number,
  which the system chooses, is left out.
\<close>

datatype worker_line = Inserted string int | Looked_up string int

definition worker_step :: "nat \<Rightarrow> hashmap \<Rightarrow> hashmap \<times> worker_line list" where
  "worker_step pc m =
     (if pc < 5 then (hashmap_insert m (worker_key pc) (int pc * 100), [Inserted (worker_key pc) (int pc * 100)])
      else
        let i = pc - 5; (val, found) = hashmap_lookup m (worker_key i)
        in (m, if found then [Looked_up (worker_key i) val] else []))"

record workers =
  wk_map :: hashmap
  wk_pc :: "nat \<Rightarrow> nat"
  wk_log :: "nat \<Rightarrow> worker_line list"

inductive workers_reach :: "workers \<Rightarrow> bool" where
  wk_init: "workers_reach \<lparr>wk_map = hashmap_init, wk_pc = (\<lambda>_. 0), wk_log = (\<lambda>_. [])\<rparr>"
| wk_step: "workers_reach s \<Longrightarrow> t < NUM_THREADS \<Longrightarrow> wk_pc s t < 10 \<Longrightarrow>
    worker_step (wk_pc s t) (wk_map s) = (m, out) \<Longrightarrow>
    workers_reach \<lparr>wk_map = m, wk_pc = (wk_pc s)(t := wk_pc s t + 1), wk_log = (wk_log s)(t := wk_log s t @ out)\<rparr>"

text \<open>What a worker at position \<open>pc\<close> must have printed.\<close>

definition expected_log :: "nat \<Rightarrow> worker_line list" where
  "expected_log pc = map (\<lambda>i. Inserted (worker_key i) (int i * 100)) [0..<min pc 5] @
     map (\<lambda>i. Looked_up (worker_key i) (int i * 100)) [0..<pc - 5]"

definition workers_inv :: "workers \<Rightarrow> bool" where
  "workers_inv s \<longleftrightarrow> hm_inv (wk_map s) \<and> (\<forall>t. wk_log s t = expected_log (wk_pc s t)) \<and>
     (\<forall>t i. i < 5 \<longrightarrow> i < wk_pc s t \<longrightarrow> hm_get (wk_map s) (worker_key i) = Some (int i * 100))"

lemma worker_key_inj: "i < 5 \<Longrightarrow> j < 5 \<Longrightarrow> worker_key i = worker_key j \<Longrightarrow> i = j"
  by (auto simp: worker_key_def)

lemma workers_inv_reach: "workers_reach s \<Longrightarrow> workers_inv s"
proof (induction rule: workers_reach.induct)
  case wk_init
  then show ?case by (simp add: workers_inv_def hm_inv_def hashmap_init_def expected_log_def)
next
  case (wk_step s t m out)
  let ?pc = "wk_pc s t"
  show ?case
  proof (cases "?pc < 5")
    case True
    then have m: "m = hashmap_insert (wk_map s) (worker_key ?pc) (int ?pc * 100)" "out = [Inserted (worker_key ?pc) (int ?pc * 100)]"
      using wk_step.hyps(4) by (simp_all add: worker_step_def)
    have "hm_get m (worker_key i) = Some (int i * 100)"
      if "i < 5" "i = ?pc \<or> hm_get (wk_map s) (worker_key i) = Some (int i * 100)" for i
      using that wk_step.IH worker_key_inj [OF that(1) True] by (auto simp: m workers_inv_def hm_get_insert)
    moreover have "hm_inv m" using wk_step.IH m hm.inv_put by (simp add: workers_inv_def)
    moreover have "expected_log (?pc + 1) = expected_log ?pc @ [Inserted (worker_key ?pc) (int ?pc * 100)]"
      using True by (simp add: expected_log_def min_def)
    ultimately show ?thesis using wk_step.IH m(2) unfolding workers_inv_def by (auto simp: less_Suc_eq)
  next
    case False
    define i where "i = ?pc - 5"
    have i: "i < 5" "i < ?pc" "?pc = 5 + i" using False wk_step.hyps(3) by (auto simp: i_def)
    have "hm_get (wk_map s) (worker_key i) = Some (int i * 100)"
      using wk_step.IH i unfolding workers_inv_def by blast
    then have "m = wk_map s" "out = [Looked_up (worker_key i) (int i * 100)]"
      using wk_step.hyps(4) False i_def by (auto simp: worker_step_def hm_get_def case_prod_beta Let_def split: if_splits)
    moreover have "expected_log (?pc + 1) = expected_log ?pc @ [Looked_up (worker_key i) (int i * 100)]"
      using i by (simp add: expected_log_def min_def)
    moreover have "\<forall>j<5. hm_get (wk_map s) (worker_key j) = Some (int j * 100)"
      using wk_step.IH i(3) unfolding workers_inv_def by (metis trans_less_add1)
    ultimately show ?thesis
      using wk_step.IH i unfolding workers_inv_def by auto
  qed
qed

section \<open>Properties\<close>

text \<open>The table is a map: a lookup after an insertion finds the new value for the inserted key and what
  it found before for every other key, whatever the hash values.\<close>

theorem hashmap_insert_lookup:
  assumes "length (buckets m) = TABLE_SIZE"
  shows "hashmap_lookup (hashmap_insert m key v) k = (if k = key then (v, True) else hashmap_lookup m k)"
proof -
  have "hashmap_lookup m' k = (case hm_get m' k of None \<Rightarrow> (-1, False) | Some v \<Rightarrow> (v, True))" for m' k
    by (simp add: hm_get_def hashmap_lookup_def split: option.splits)
  then show ?thesis using hm_get_insert [of m key v k] assms by (simp add: hm_inv_def)
qed

theorem hashmap_insert_lookup_witness:
  "hashmap_lookup (hashmap_insert hashmap_init ''key_1'' 100) ''key_2'' =
    (if ''key_2'' = ''key_1'' then (100, True) else hashmap_lookup hashmap_init ''key_2'')"
  by (rule hashmap_insert_lookup) (simp add: hashmap_init_def)

text \<open>C25: However the four workers interleave, each prints exactly the lines it expects: the five keys it inserted and then
  the five it looked up; no lookup of a worker misses a key or sees another value.\<close>

theorem workers_print_expected:
  assumes "workers_reach s" and "wk_pc s t = 10"
  shows "wk_log s t = map (\<lambda>i. Inserted (worker_key i) (int i * 100)) [0..<5] @
    map (\<lambda>i. Looked_up (worker_key i) (int i * 100)) [0..<5]"
  using workers_inv_reach [OF assms(1)] assms(2) by (simp add: workers_inv_def expected_log_def)


text \<open>A schedule in which the first worker runs alone.\<close>

fun run_alone :: "nat \<Rightarrow> workers \<Rightarrow> workers" where
  "run_alone 0 s = s"
| "run_alone (Suc n) s =
     (let (m, out) = worker_step (wk_pc s 0) (wk_map s) in
      run_alone n \<lparr>wk_map = m, wk_pc = (wk_pc s)(0 := wk_pc s 0 + 1), wk_log = (wk_log s)(0 := wk_log s 0 @ out)\<rparr>)"

lemma run_alone_reach:
  "workers_reach s \<Longrightarrow> wk_pc s 0 + n \<le> 10 \<Longrightarrow> workers_reach (run_alone n s) \<and> wk_pc (run_alone n s) 0 = wk_pc s 0 + n"
proof (induction n arbitrary: s)
  case (Suc n)
  obtain m out where st: "worker_step (wk_pc s 0) (wk_map s) = (m, out)" by fastforce
  have "workers_reach \<lparr>wk_map = m, wk_pc = (wk_pc s)(0 := wk_pc s 0 + 1), wk_log = (wk_log s)(0 := wk_log s 0 @ out)\<rparr>"
    by (rule wk_step [OF Suc.prems(1) _ _ st]) (use Suc.prems(2) in \<open>simp_all add: NUM_THREADS_def\<close>)
  from Suc.IH [OF this] Suc.prems(2) st show ?case by simp
qed simp

theorem workers_print_expected_witness:
  "wk_log (run_alone 10 \<lparr>wk_map = hashmap_init, wk_pc = (\<lambda>_. 0), wk_log = (\<lambda>_. [])\<rparr>) 0 =
    map (\<lambda>i. Inserted (worker_key i) (int i * 100)) [0..<5] @
    map (\<lambda>i. Looked_up (worker_key i) (int i * 100)) [0..<5]"
  by (rule workers_print_expected) (use run_alone_reach [OF wk_init, of 10] in simp_all)

end
