(* ===== verification/FS_Cache.thy ===== *)
theory FS_Cache
  imports C_Strings "HOL-Library.Word"
begin

text \<open>
  The buffer pool and block cache of \<^verbatim>\<open>src/filesystem.c\<close>. Buffers are the elements of the pool's
  array, a \<open>buffer_t *\<close> is an index into it. Cache nodes live in an explicit heap, because one field
  \<open>next\<close> links both the hash chain and the LRU list; a function that follows a null or freed
  pointer gives \<open>None\<close>. The array \<open>data\<close> of a buffer is the string it holds. Whether
  \<open>malloc\<close> succeeds is an argument of the functions that call it.
\<close>

definition CACHE_SIZE :: nat where "CACHE_SIZE = 5"
definition KEY_SIZE :: nat where "KEY_SIZE = 32"
definition BUFFER_SIZE :: nat where "BUFFER_SIZE = 4096"
definition POOL_SIZE :: nat where "POOL_SIZE = 10"

record buffer =
  b_data :: string
  isfree :: bool
  bufferid :: nat
  b_next :: ptr

record buffer_pool =
  buffers :: "buffer list"
  freelist :: ptr
  totalbuffers :: nat
  freecount :: nat

record cache_node =
  c_key :: "char list"
  c_buffer :: ptr
  c_prev :: ptr
  c_next :: ptr

record lru_cache =
  c_heap :: "nat \<Rightarrow> cache_node option"
  c_fresh :: nat
  c_head :: ptr
  c_tail :: ptr
  c_nodes :: "ptr list"
  c_count :: nat
  c_capacity :: nat

text \<open>The string an array of size \<open>n\<close> holds after the copy; it is computed without the padding.\<close>

definition bounded_str :: "nat \<Rightarrow> string \<Rightarrow> string" where
  "bounded_str n s = c_str (strncpy_term n s)"

lemma bounded_str_take [code]: "bounded_str n s = take (n - 1) (c_str s)"
  by (simp add: bounded_str_def c_str_strncpy_term)

definition fs_hash :: "string \<Rightarrow> nat" where
  "fs_hash key = unat (fold (\<lambda>c h. h * 31 + of_int (char_int c)) key (0 :: 32 word) mod of_nat CACHE_SIZE)"

section \<open>The buffer pool\<close>

definition createbufferpool :: "bool \<Rightarrow> bool \<Rightarrow> nat \<Rightarrow> buffer_pool option" where
  "createbufferpool pool_ok buffers_ok poolsize =
     (if \<not> pool_ok then None
      else if \<not> buffers_ok then None
      else Some \<lparr>
        buffers = map (\<lambda>i. \<lparr>b_data = [], isfree = True, bufferid = i,
                            b_next = if i + 1 = poolsize then None else Some (i + 1)\<rparr>) [0..<poolsize],
        freelist = Some 0, totalbuffers = poolsize, freecount = poolsize\<rparr>)"

definition buf_ld :: "buffer_pool \<Rightarrow> ptr \<Rightarrow> buffer option" where
  "buf_ld p b = (case b of Some i \<Rightarrow> if i < length (buffers p) then Some (buffers p ! i) else None | None \<Rightarrow> None)"

definition buf_st :: "buffer_pool \<Rightarrow> nat \<Rightarrow> buffer \<Rightarrow> buffer_pool" where
  "buf_st p i b = p\<lparr>buffers := (buffers p)[i := b]\<rparr>"

definition acquire_buffer :: "buffer_pool \<Rightarrow> (buffer_pool \<times> ptr) option" where
  "acquire_buffer p =
     (if freecount p = 0 then Some (p, None)
      else do {
        b \<leftarrow> buf_ld p (freelist p);
        Some (buf_st (p\<lparr>freelist := b_next b, freecount := freecount p - 1\<rparr>) (the (freelist p))
                (b\<lparr>isfree := False, b_next := None\<rparr>), freelist p) })"

definition release_buffer :: "buffer_pool \<Rightarrow> ptr \<Rightarrow> buffer_pool option" where
  "release_buffer p buf =
     (case buf of
        None \<Rightarrow> Some p
      | Some i \<Rightarrow> do {
          b \<leftarrow> buf_ld p buf;
          if isfree b then Some p
          else Some (buf_st (p\<lparr>freelist := buf, freecount := freecount p + 1\<rparr>) i
                      (b\<lparr>b_data := [], isfree := True, b_next := freelist p\<rparr>)) })"

section \<open>The cache\<close>

definition create_lru_cache :: "bool \<Rightarrow> lru_cache option" where
  "create_lru_cache ok =
     (if \<not> ok then None
      else Some \<lparr>c_heap = (\<lambda>_. None), c_fresh = 0, c_head = None, c_tail = None,
                 c_nodes = replicate CACHE_SIZE None, c_count = 0, c_capacity = CACHE_SIZE\<rparr>)"

definition upd_node :: "lru_cache \<Rightarrow> ptr \<Rightarrow> (cache_node \<Rightarrow> cache_node) \<Rightarrow> lru_cache option" where
  "upd_node c p f = (case p of
     None \<Rightarrow> None
   | Some a \<Rightarrow> map_option (\<lambda>n. c\<lparr>c_heap := (c_heap c)(a := Some (f n))\<rparr>) (c_heap c a))"

definition ld_node :: "lru_cache \<Rightarrow> ptr \<Rightarrow> cache_node option" where
  "ld_node c p = Option.bind p (c_heap c)"

definition set_next :: "ptr \<Rightarrow> cache_node \<Rightarrow> cache_node" where "set_next q n = n\<lparr>c_next := q\<rparr>"
definition set_prev :: "ptr \<Rightarrow> cache_node \<Rightarrow> cache_node" where "set_prev q n = n\<lparr>c_prev := q\<rparr>"

definition upd_if :: "lru_cache \<Rightarrow> ptr \<Rightarrow> (cache_node \<Rightarrow> cache_node) \<Rightarrow> lru_cache option" where
  "upd_if c p f = (if p \<noteq> None then upd_node c p f else Some c)"

definition addtofront :: "lru_cache \<Rightarrow> ptr \<Rightarrow> lru_cache option" where
  "addtofront c node = do {
     c \<leftarrow> upd_node c node (set_prev None);
     c \<leftarrow> upd_node c node (set_next (c_head c));
     c \<leftarrow> upd_if c (c_head c) (set_prev node);
     let c = c\<lparr>c_head := node\<rparr>;
     Some (if c_tail c = None then c\<lparr>c_tail := node\<rparr> else c) }"

definition movetofront :: "lru_cache \<Rightarrow> ptr \<Rightarrow> lru_cache option" where
  "movetofront c node =
     (if c_head c = node then Some c
      else do {
        n \<leftarrow> ld_node c node;
        c \<leftarrow> upd_if c (c_prev n) (set_next (c_next n));
        n \<leftarrow> ld_node c node;
        c \<leftarrow> upd_if c (c_next n) (set_prev (c_prev n));
        n \<leftarrow> ld_node c node;
        let c = (if c_tail c = node then c\<lparr>c_tail := c_prev n\<rparr> else c);
        c \<leftarrow> upd_node c node (set_prev None);
        c \<leftarrow> upd_node c node (set_next (c_head c));
        c \<leftarrow> upd_if c (c_head c) (set_prev node);
        let c = c\<lparr>c_head := node\<rparr>;
        Some (if c_tail c = None then c\<lparr>c_tail := node\<rparr> else c) })"

definition removelru :: "lru_cache \<Rightarrow> (lru_cache \<times> ptr) option" where
  "removelru c =
     (if c_tail c = None then Some (c, None)
      else do {
        let lru = c_tail c;
        n \<leftarrow> ld_node c lru;
        c \<leftarrow> (if c_prev n \<noteq> None then upd_node c (c_prev n) (set_next None) else Some (c\<lparr>c_head := None\<rparr>));
        n \<leftarrow> ld_node c lru;
        Some (c\<lparr>c_tail := c_prev n\<rparr>, lru) })"

text \<open>
  The search loop of \<open>cache_get\<close> and \<open>cacheput\<close>, from a node along \<open>next\<close>. The inner result is the node
  found; \<open>None\<close> outside is a bad pointer or a walk without end.
\<close>

partial_function (option) chain_find :: "(nat \<Rightarrow> cache_node option) \<Rightarrow> ptr \<Rightarrow> string \<Rightarrow> ptr option" where
  "chain_find h cur key =
     (case cur of
        None \<Rightarrow> Some None
      | Some a \<Rightarrow> do {
          n \<leftarrow> h a;
          if c_str (c_key n) = key then Some (Some a) else chain_find h (c_next n) key })"

declare chain_find.simps [code]

definition cache_get :: "lru_cache \<Rightarrow> string \<Rightarrow> (lru_cache \<times> ptr) option" where
  "cache_get c key = do {
     cur \<leftarrow> chain_find (c_heap c) (c_nodes c ! fs_hash key) key;
     if cur \<noteq> None then do {
       c \<leftarrow> movetofront c cur;
       n \<leftarrow> ld_node c cur;
       Some (c, c_buffer n) }
     else Some (c, None) }"

text \<open>The eviction: the bucket of the victim is cut only when the victim is its first node.\<close>

definition evict :: "lru_cache \<Rightarrow> buffer_pool \<Rightarrow> (lru_cache \<times> buffer_pool) option" where
  "evict c p = do {
     (c, lru) \<leftarrow> removelru c;
     if lru \<noteq> None then do {
       n \<leftarrow> ld_node c lru;
       let i = fs_hash (c_str (c_key n));
       let c = (if c_nodes c ! i = lru then c\<lparr>c_nodes := (c_nodes c)[i := c_next n]\<rparr> else c);
       p \<leftarrow> (if c_buffer n \<noteq> None then release_buffer p (c_buffer n) else Some p);
       Some (c\<lparr>c_heap := (c_heap c)(the lru := None), c_count := c_count c - 1\<rparr>, p) }
     else Some (c, p) }"

definition cacheput :: "bool \<Rightarrow> lru_cache \<Rightarrow> buffer_pool \<Rightarrow> string \<Rightarrow> ptr \<Rightarrow> (lru_cache \<times> buffer_pool) option" where
  "cacheput alloc_ok c p key buf = do {
     let i = fs_hash key;
     cur \<leftarrow> chain_find (c_heap c) (c_nodes c ! i) key;
     if cur \<noteq> None then do { c \<leftarrow> movetofront c cur; Some (c, p) }
     else do {
       (c, p) \<leftarrow> (if c_count c \<ge> c_capacity c then evict c p else Some (c, p));
       if \<not> alloc_ok then Some (c, p)
       else do {
         let a = c_fresh c;
         let n = \<lparr>c_key = strncpy_term KEY_SIZE key, c_buffer = buf, c_prev = None, c_next = c_nodes c ! i\<rparr>;
         let c = c\<lparr>c_heap := (c_heap c)(a := Some n), c_fresh := a + 1, c_nodes := (c_nodes c)[i := Some a]\<rparr>;
         c \<leftarrow> addtofront c (Some a);
         Some (c\<lparr>c_count := c_count c + 1\<rparr>, p) } } }"

datatype fs_event = Read_from_cache string string | Pool_exhausted | Loaded string string

text \<open>
  \<open>files\<close> on a pool and a cache that are \<open>NULL\<close> when their allocation failed, as \<open>main\<close> does not test them. Its message that
  the block is loaded and cached is printed also when \<open>cacheput\<close> got no memory for the node.
\<close>

type_synonym fs_state = "buffer_pool option \<times> lru_cache option"

definition files :: "bool \<Rightarrow> fs_state \<Rightarrow> string \<Rightarrow> string \<Rightarrow> (fs_state \<times> fs_event) option" where
  "files alloc_ok = (\<lambda>(pool, cache) block_key data. do {
     c \<leftarrow> cache;
     (c, cached) \<leftarrow> cache_get c block_key;
     p \<leftarrow> pool;
     if cached \<noteq> None then do {
       b \<leftarrow> buf_ld p cached;
       Some ((Some p, Some c), Read_from_cache block_key (b_data b)) }
     else do {
       (p, buf) \<leftarrow> acquire_buffer p;
       if buf = None then Some ((Some p, Some c), Pool_exhausted)
       else do {
         b \<leftarrow> buf_ld p buf;
         let p = buf_st p (the buf) (b\<lparr>b_data := bounded_str BUFFER_SIZE data\<rparr>);
         (c, p) \<leftarrow> cacheput alloc_ok c p block_key buf;
         Some ((Some p, Some c), Loaded block_key data) } } })"

text \<open>
  \<open>main\<close>: the sequence of reads, each with whether \<open>malloc\<close> succeeds should it ask for a node, then the loop that releases every
  node's buffer and frees the node.
\<close>

fun files_all :: "fs_state \<Rightarrow> (bool \<times> string \<times> string) list \<Rightarrow> (fs_state \<times> fs_event list) option" where
  "files_all s [] = Some (s, [])"
| "files_all s ((alloc_ok, k, d) # rs) = do {
     (s, e) \<leftarrow> files alloc_ok s k d;
     (s, es) \<leftarrow> files_all s rs;
     Some (s, e # es) }"

partial_function (option) fs_cleanup :: "lru_cache \<Rightarrow> buffer_pool option \<Rightarrow> ptr \<Rightarrow> (lru_cache \<times> buffer_pool option) option" where
  "fs_cleanup c pool cur =
     (case cur of
        None \<Rightarrow> Some (c, pool)
      | Some a \<Rightarrow> do {
          n \<leftarrow> c_heap c a;
          pool \<leftarrow> (if c_buffer n \<noteq> None then do {
                 p \<leftarrow> pool;
                 b \<leftarrow> buf_ld p (c_buffer n);
                 if \<not> isfree b then map_option Some (release_buffer p (c_buffer n)) else Some (Some p) }
               else Some pool);
          fs_cleanup (c\<lparr>c_heap := (c_heap c)(a := None)\<rparr>) pool (c_next n) })"

declare fs_cleanup.simps [code]

definition fs_requests :: "(string \<times> string) list" where
  "fs_requests = [(''file1_block1'', ''a1''), (''file2_block1'', ''a2''), (''file3_block1'', ''a3''),
     (''file1_block1'', '' hit cache''), (''file4_block1'', ''a4''), (''file5_block1'', ''a5''),
     (''file6_block1'', ''Eviction..'')]"

definition fs_run :: "bool \<Rightarrow> bool \<Rightarrow> bool \<Rightarrow> (bool \<times> string \<times> string) list \<Rightarrow>
    (fs_event list \<times> lru_cache \<times> buffer_pool option) option" where
  "fs_run pool_ok buffers_ok cache_ok rs = do {
     let pool = createbufferpool pool_ok buffers_ok POOL_SIZE;
     let cache = create_lru_cache cache_ok;
     ((pool, cache), es) \<leftarrow> files_all (pool, cache) rs;
     c \<leftarrow> cache;
     (c, pool) \<leftarrow> fs_cleanup c pool (c_head c);
     Some (es, c, pool) }"

definition fs_main :: "bool \<Rightarrow> bool \<Rightarrow> bool \<Rightarrow> (nat \<Rightarrow> bool) \<Rightarrow> (fs_event list \<times> lru_cache \<times> buffer_pool option) option" where
  "fs_main pool_ok buffers_ok cache_ok node_ok =
     fs_run pool_ok buffers_ok cache_ok (map (\<lambda>(i, k, d). (node_ok i, k, d)) (enumerate 0 fs_requests))"

section \<open>The memory of the pool\<close>

text \<open>
  The two blocks of a pool: the structure and the array of its buffers. \<open>destroybufferpool\<close> reads the address of the array in the
  structure, so it frees the array first; a block that is not allocated cannot be freed. \<open>main\<close> does not call it.
\<close>

datatype pool_block = Pool_block | Buffers_block

definition pool_blocks :: "bool \<Rightarrow> bool \<Rightarrow> pool_block set" where
  "pool_blocks pool_ok buffers_ok = (if pool_ok \<and> buffers_ok then {Pool_block, Buffers_block} else {})"

definition destroybufferpool :: "buffer_pool option \<Rightarrow> pool_block set \<Rightarrow> pool_block set option" where
  "destroybufferpool pool blocks =
     (case pool of None \<Rightarrow> Some blocks
      | Some _ \<Rightarrow> if Pool_block \<in> blocks \<and> Buffers_block \<in> blocks then Some (blocks - {Buffers_block} - {Pool_block}) else None)"

theorem destroybufferpool_frees_all:
  "destroybufferpool (createbufferpool pool_ok buffers_ok n) (pool_blocks pool_ok buffers_ok) = Some {}"
  by (auto simp: destroybufferpool_def createbufferpool_def pool_blocks_def)

end
