(* ===== verification/FS_Cache_Inv.thy ===== *)
theory FS_Cache_Inv
  imports FS_Cache
begin

text \<open>
  Memory safety and resource accounting of \<^verbatim>\<open>src/filesystem.c\<close>: the LRU list stays a doubly linked
  list of exactly the allocated nodes, every bucket points into it, the free list holds exactly the
  free buffers, and every buffer is either free or owned by one cached node.
\<close>

section \<open>Doubly linked segments\<close>

definition hd_opt :: "'a list \<Rightarrow> 'a option" where "hd_opt xs = (if xs = [] then None else Some (hd xs))"
definition last_opt :: "'a list \<Rightarrow> 'a option" where "last_opt xs = (if xs = [] then None else Some (last xs))"

type_synonym node_heap = "nat \<Rightarrow> cache_node option"

fun dseg :: "node_heap \<Rightarrow> ptr \<Rightarrow> nat list \<Rightarrow> ptr \<Rightarrow> bool" where
  "dseg h p [] e \<longleftrightarrow> True"
| "dseg h p (a # as) e \<longleftrightarrow> (\<exists>n. h a = Some n \<and> c_prev n = p \<and>
     c_next n = (if as = [] then e else Some (hd as)) \<and> dseg h (Some a) as e)"

text \<open>What a node carries apart from its links.\<close>

definition cargo :: "node_heap \<Rightarrow> nat \<Rightarrow> (char list \<times> ptr) option" where
  "cargo h a = map_option (\<lambda>n. (c_key n, c_buffer n)) (h a)"

lemma dseg_append:
  "dseg h p (as @ bs) e \<longleftrightarrow> dseg h p as (if bs = [] then e else Some (hd bs)) \<and>
     dseg h (if as = [] then p else Some (last as)) bs e"
  by (induction as arbitrary: p) (auto simp: hd_append)

lemma dseg_cong: "(\<And>a. a \<in> set xs \<Longrightarrow> h a = h' a) \<Longrightarrow> dseg h p xs e \<longleftrightarrow> dseg h' p xs e"
  by (induction xs arbitrary: p) auto

lemma dseg_upd: "a \<notin> set xs \<Longrightarrow> dseg (h(a := v)) p xs e \<longleftrightarrow> dseg h p xs e"
  by (rule dseg_cong) auto

lemma dseg_set_prev:
  "dseg h p (a # as) e \<Longrightarrow> a \<notin> set as \<Longrightarrow> h a = Some n \<Longrightarrow> dseg (h(a \<mapsto> set_prev q n)) q (a # as) e"
  using dseg_upd [of a as h "Some (set_prev q n)"] by (auto simp: set_prev_def)

lemma dseg_set_next:
  "dseg h p (as @ [a]) e \<Longrightarrow> a \<notin> set as \<Longrightarrow> h a = Some n \<Longrightarrow> dseg (h(a \<mapsto> set_next q n)) p (as @ [a]) q"
  using dseg_upd [of a as h "Some (set_next q n)"] by (auto simp: set_next_def dseg_append)

lemma dseg_alloc: "dseg h p xs e \<Longrightarrow> a \<in> set xs \<Longrightarrow> \<exists>n. h a = Some n"
  by (induction xs arbitrary: p) auto

lemma dseg_prev: "dseg h p (as @ x # bs) e \<Longrightarrow> \<exists>n. h x = Some n \<and> c_prev n = (if as = [] then p else Some (last as)) \<and>
    c_next n = (if bs = [] then e else Some (hd bs))"
  by (auto simp: dseg_append)

lemma cargo_upd_links [simp]:
  "h a = Some n \<Longrightarrow> cargo (h(a \<mapsto> set_prev q n)) = cargo h"
  "h a = Some n \<Longrightarrow> cargo (h(a \<mapsto> set_next q n)) = cargo h"
  by (auto simp: cargo_def fun_eq_iff set_prev_def set_next_def)

lemma upd_node_Some: "c_heap c a = Some n \<Longrightarrow> upd_node c (Some a) f = Some (c\<lparr>c_heap := (c_heap c)(a \<mapsto> f n)\<rparr>)"
  by (simp add: upd_node_def)

section \<open>The list operations\<close>

text \<open>Putting an unlinked node in front of the list.\<close>

lemma addtofront_ok:
  assumes "dseg (c_heap c) None ys None" and "x \<notin> set ys" and "c_heap c x = Some n" and "distinct ys"
    and "c_head c = hd_opt ys" and "c_tail c = last_opt ys"
  shows "\<exists>h'. addtofront c (Some x) =
      Some (c\<lparr>c_heap := h', c_head := Some x, c_tail := last_opt (x # ys)\<rparr>) \<and>
    dseg h' None (x # ys) None \<and> dom h' = dom (c_heap c) \<and> cargo h' = cargo (c_heap c)"
proof -
  let ?n1 = "set_prev None n" and ?n2 = "set_next (hd_opt ys) (set_prev None n)"
  let ?h1 = "(c_heap c)(x \<mapsto> ?n1)"
  let ?h2 = "?h1(x \<mapsto> ?n2)"
  have d2: "dseg ?h2 None ys None" using assms(1,2) by (simp add: dseg_upd)
  have c2: "cargo ?h2 = cargo (c_heap c)" "dom ?h2 = dom (c_heap c)"
    using assms(3) by (auto simp: cargo_def fun_eq_iff set_prev_def set_next_def)
  show ?thesis
  proof (cases ys)
    case Nil
    have "addtofront c (Some x) = Some (c\<lparr>c_heap := ?h2, c_head := Some x, c_tail := Some x\<rparr>)"
      using assms Nil by (simp add: addtofront_def upd_node_def upd_if_def hd_opt_def last_opt_def Let_def)
    moreover have "dseg ?h2 None [x] None" using Nil by (simp add: set_next_def set_prev_def hd_opt_def)
    ultimately show ?thesis using Nil c2 by (intro exI [of _ ?h2]) (simp add: last_opt_def)
  next
    case (Cons y zs)
    then obtain m where m: "c_heap c y = Some m" using assms(1) by auto
    have y: "y \<noteq> x" "y \<notin> set zs" using assms(2,4) Cons by auto
    let ?h3 = "?h2(y \<mapsto> set_prev (Some x) m)"
    have "addtofront c (Some x) = Some (c\<lparr>c_heap := ?h3, c_head := Some x, c_tail := last_opt (x # ys)\<rparr>)"
      using assms(3,5,6) Cons m y by (simp add: addtofront_def upd_node_def upd_if_def hd_opt_def last_opt_def Let_def)
    moreover have m2: "?h2 y = Some m" using m y by simp
    moreover have "dseg ?h3 (Some x) ys None"
      using dseg_set_prev [of ?h2 None y zs None m "Some x"] d2 y(2) m2 Cons by simp
    then have "dseg ?h3 None (x # ys) None" using Cons y(1) by (simp add: set_next_def set_prev_def hd_opt_def)
    moreover have "cargo ?h3 = cargo (c_heap c)" using c2 cargo_upd_links(1) [of ?h2 y m "Some x"] m2 by simp
    moreover have "dom ?h3 = dom (c_heap c)" using c2 m by auto
    ultimately show ?thesis by (intro exI [of _ ?h3]) simp
  qed
qed

text \<open>The first half of \<open>movetofront\<close>.\<close>

definition unlink :: "lru_cache \<Rightarrow> ptr \<Rightarrow> lru_cache option" where
  "unlink c node = do {
     n \<leftarrow> ld_node c node;
     c \<leftarrow> upd_if c (c_prev n) (set_next (c_next n));
     n \<leftarrow> ld_node c node;
     c \<leftarrow> upd_if c (c_next n) (set_prev (c_prev n));
     n \<leftarrow> ld_node c node;
     Some (if c_tail c = node then c\<lparr>c_tail := c_prev n\<rparr> else c) }"

lemma movetofront_unlink:
  "movetofront c node = (if c_head c = node then Some c else Option.bind (unlink c node) (\<lambda>c. addtofront c node))"
  by (simp add: movetofront_def unlink_def addtofront_def Let_def bind_assoc)

lemma unlink_ok:
  assumes "dseg (c_heap c) None (as @ x # bs) None" and "distinct (as @ x # bs)" and "as \<noteq> []"
    and "c_tail c = last_opt (as @ x # bs)"
  shows "\<exists>h'. unlink c (Some x) = Some (c\<lparr>c_heap := h', c_tail := last_opt (as @ bs)\<rparr>) \<and>
    dseg h' None (as @ bs) None \<and> dom h' = dom (c_heap c) \<and> cargo h' = cargo (c_heap c)"
proof -
  let ?h = "c_heap c"
  obtain as' l where as: "as = as' @ [l]" using assms(3) by (metis append_butlast_last_id)
  obtain n where n: "?h x = Some n" "c_prev n = Some l" "c_next n = hd_opt bs"
    using dseg_prev [OF assms(1)] as by (auto simp: hd_opt_def)
  have dis: "l \<noteq> x" "l \<notin> set as'" "l \<notin> set bs" "x \<notin> set bs" "x \<notin> set as'" using assms(2) as by auto
  have da: "dseg ?h None (as' @ [l]) (Some x)" and db: "dseg ?h (Some x) bs None"
    using assms(1) as by (auto simp: dseg_append split: if_splits)
  obtain nl where nl: "?h l = Some nl" using dseg_alloc [OF da] by auto
  let ?h1 = "?h(l \<mapsto> set_next (hd_opt bs) nl)"
  have d1: "dseg ?h1 None as (hd_opt bs)" using dseg_set_next [OF da dis(2) nl] as by simp
  have b1: "dseg ?h1 (Some x) bs None" using db dis(3) by (simp add: dseg_upd)
  have x1: "?h1 x = Some n" using n dis by simp
  have k1: "cargo ?h1 = cargo ?h" "dom ?h1 = dom ?h" using nl by auto
  show ?thesis
  proof (cases bs)
    case Nil
    have "unlink c (Some x) = Some (c\<lparr>c_heap := ?h1, c_tail := Some l\<rparr>)"
      using n nl x1 Nil assms(4) as
      by (simp add: unlink_def ld_node_def upd_if_def upd_node_def hd_opt_def last_opt_def)
    then show ?thesis using d1 k1 Nil as by (intro exI [of _ ?h1]) (simp add: hd_opt_def last_opt_def)
  next
    case (Cons b bs')
    obtain nb where nb: "?h1 b = Some nb" using dseg_alloc [OF b1, of b] Cons by auto
    have b: "b \<noteq> x" "b \<notin> set as" "b \<notin> set bs'" "b \<noteq> l" using assms(2) Cons as by auto
    let ?h2 = "?h1(b \<mapsto> set_prev (Some l) nb)"
    have "dseg ?h2 (Some l) bs None" using dseg_set_prev [of ?h1 "Some x" b bs' None nb "Some l"] b1 b(3) nb Cons by simp
    moreover have "dseg ?h2 None as (hd_opt bs)" using d1 b(2) dseg_upd by blast
    ultimately have d2: "dseg ?h2 None (as @ bs) None" using as Cons by (simp add: dseg_append hd_opt_def)
    have nb': "?h b = Some nb" using nb b by simp
    have "unlink c (Some x) = Some (c\<lparr>c_heap := ?h2\<rparr>)"
      using n nl x1 nb' b Cons assms(4) dis
      by (auto simp: unlink_def ld_node_def upd_if_def upd_node_def hd_opt_def last_opt_def)
    moreover have "c\<lparr>c_heap := ?h2\<rparr> = c\<lparr>c_heap := ?h2, c_tail := last_opt (as @ bs)\<rparr>"
      using assms(4) Cons by (cases c) (simp add: last_opt_def)
    moreover have "cargo ?h2 = cargo ?h" using k1 nb by simp
    moreover have "dom ?h2 = dom ?h" using k1(2) nb by auto
    ultimately show ?thesis using d2 by (intro exI [of _ ?h2]) simp
  qed
qed


section \<open>The invariant of the cache\<close>

definition lru_inv :: "lru_cache \<Rightarrow> nat list \<Rightarrow> bool" where
  "lru_inv c xs \<longleftrightarrow> dseg (c_heap c) None xs None \<and> distinct xs \<and> dom (c_heap c) = set xs \<and>
     (\<forall>a\<in>set xs. a < c_fresh c) \<and> c_head c = hd_opt xs \<and> c_tail c = last_opt xs \<and>
     length (c_nodes c) = CACHE_SIZE \<and> (\<forall>q\<in>set (c_nodes c). q = None \<or> (\<exists>a\<in>set xs. q = Some a)) \<and>
     c_count c = length xs \<and> length xs \<le> CACHE_SIZE \<and> c_capacity c = CACHE_SIZE"

lemma movetofront_inv:
  assumes "lru_inv c xs" and "x \<in> set xs"
  shows "\<exists>c' xs'. movetofront c (Some x) = Some c' \<and> lru_inv c' xs' \<and> set xs' = set xs \<and> length xs' = length xs \<and>
    cargo (c_heap c') = cargo (c_heap c) \<and> c_nodes c' = c_nodes c"
proof (cases "c_head c = Some x")
  case True
  then show ?thesis using assms(1) by (auto simp: movetofront_unlink)
next
  case False
  obtain as bs where xs: "xs = as @ x # bs" using assms(2) by (auto simp: in_set_conv_decomp)
  with False assms(1) have "as \<noteq> []" by (auto simp: lru_inv_def hd_opt_def)
  from assms(1) xs have i: "dseg (c_heap c) None (as @ x # bs) None" "distinct (as @ x # bs)"
    "c_tail c = last_opt (as @ x # bs)" by (simp_all add: lru_inv_def)
  obtain h' where u: "unlink c (Some x) = Some (c\<lparr>c_heap := h', c_tail := last_opt (as @ bs)\<rparr>)"
    "dseg h' None (as @ bs) None" "dom h' = dom (c_heap c)" "cargo h' = cargo (c_heap c)"
    using unlink_ok [OF i(1,2) \<open>as \<noteq> []\<close> i(3)] by blast
  let ?c = "c\<lparr>c_heap := h', c_tail := last_opt (as @ bs)\<rparr>"
  have "x \<in> dom h'" using u(3) assms by (simp add: lru_inv_def)
  then obtain n where "c_heap ?c x = Some n" by auto
  moreover have "c_head ?c = hd_opt (as @ bs)" using assms(1) xs \<open>as \<noteq> []\<close> by (simp add: lru_inv_def hd_opt_def)
  ultimately obtain h'' where a: "addtofront ?c (Some x) =
      Some (?c\<lparr>c_heap := h'', c_head := Some x, c_tail := last_opt (x # as @ bs)\<rparr>)"
    "dseg h'' None (x # as @ bs) None" "dom h'' = dom h'" "cargo h'' = cargo h'"
    using addtofront_ok [of ?c "as @ bs" x n] u(2) i(2) by auto
  let ?c' = "?c\<lparr>c_heap := h'', c_head := Some x, c_tail := last_opt (x # as @ bs)\<rparr>"
  have "lru_inv ?c' (x # as @ bs)"
    using assms(1) a(2,3) u(3) xs by (auto simp: lru_inv_def hd_opt_def last_opt_def)
  moreover have "movetofront c (Some x) = Some ?c'" using False u(1) a(1) by (simp add: movetofront_unlink)
  ultimately show ?thesis using xs a(4) u(4)
    by (intro exI [of _ ?c'] exI [of _ "x # as @ bs"]) auto
qed

text \<open>Evicting the last node.\<close>

lemma removelru_ok:
  assumes "lru_inv c (as @ [x])"
  shows "\<exists>h'. removelru c = Some (c\<lparr>c_heap := h', c_head := hd_opt as, c_tail := last_opt as\<rparr>, Some x) \<and>
    dseg h' None as None \<and> dom h' = dom (c_heap c) \<and> cargo h' = cargo (c_heap c) \<and>
    (\<exists>n. h' x = Some n \<and> c_next n = None)"
proof -
  let ?h = "c_heap c"
  have i: "dseg ?h None (as @ [x]) None" "distinct (as @ [x])" "c_tail c = Some x" "c_head c = hd_opt (as @ [x])"
    using assms by (simp_all add: lru_inv_def last_opt_def)
  obtain n where n: "?h x = Some n" "c_prev n = last_opt as" "c_next n = None"
    using dseg_prev [OF i(1)] by (auto simp: last_opt_def)
  show ?thesis
  proof (cases "as = []")
    case True
    then have "removelru c = Some (c\<lparr>c_head := None, c_tail := None\<rparr>, Some x)"
      using i n by (simp add: removelru_def ld_node_def last_opt_def)
    moreover have "c\<lparr>c_head := None, c_tail := None\<rparr> = c\<lparr>c_heap := ?h, c_head := hd_opt as, c_tail := last_opt as\<rparr>"
      using True by (cases c) (simp add: hd_opt_def last_opt_def)
    ultimately show ?thesis using True n by (intro exI [of _ ?h]) simp
  next
    case False
    then obtain as' l where as: "as = as' @ [l]" by (metis append_butlast_last_id)
    have da: "dseg ?h None (as' @ [l]) (Some x)" using i(1) as by (auto simp: dseg_append split: if_splits)
    obtain nl where nl: "?h l = Some nl" using dseg_alloc [OF da] by auto
    let ?h1 = "?h(l \<mapsto> set_next None nl)"
    have d1: "dseg ?h1 None as None" using dseg_set_next [OF da _ nl] i(2) as by simp
    have x1: "?h1 x = Some n" using n i(2) as by auto
    have "removelru c = Some (c\<lparr>c_heap := ?h1, c_tail := last_opt as\<rparr>, Some x)"
      using i n x1 nl as by (simp add: removelru_def ld_node_def upd_node_def last_opt_def)
    moreover have "c\<lparr>c_heap := ?h1, c_tail := last_opt as\<rparr> = c\<lparr>c_heap := ?h1, c_head := hd_opt as, c_tail := last_opt as\<rparr>"
      using i(4) as by (cases c) (simp add: hd_opt_def hd_append)
    moreover have "dom ?h1 = dom ?h" "cargo ?h1 = cargo ?h" using nl by auto
    ultimately show ?thesis using d1 x1 n by (intro exI [of _ ?h1]) simp
  qed
qed

text \<open>The search from a node of the list looks at the nodes from there on.\<close>

lemma chain_find_list:
  "dseg h p xs None \<Longrightarrow> chain_find h (hd_opt xs) key = Some (find (\<lambda>a. c_str (c_key (the (h a))) = key) xs)"
proof (induction xs arbitrary: p)
  case Nil
  then show ?case by (subst chain_find.simps) (simp add: hd_opt_def)
next
  case (Cons a xs)
  then obtain n where n: "h a = Some n" "c_next n = hd_opt xs" "dseg h (Some a) xs None" by (auto simp: hd_opt_def)
  then show ?case using Cons.IH [OF n(3)]
    by (subst chain_find.simps) (simp add: hd_opt_def)
qed

lemma chain_find_inv:
  assumes "lru_inv c xs" and "q \<in> set (c_nodes c)"
  obtains "chain_find (c_heap c) q key = Some None"
  | a n where "chain_find (c_heap c) q key = Some (Some a)" "a \<in> set xs" "c_heap c a = Some n" "c_str (c_key n) = key"
proof (cases q)
  case None
  then have "chain_find (c_heap c) q key = Some None" by (subst chain_find.simps) simp
  then show thesis by (rule that(1))
next
  case (Some a)
  then have "a \<in> set xs" using assms by (auto simp: lru_inv_def)
  then obtain as bs where xs: "xs = as @ a # bs" by (auto simp: in_set_conv_decomp)
  have "dseg (c_heap c) (if as = [] then None else Some (last as)) (a # bs) None"
    using assms(1) xs by (simp only: lru_inv_def dseg_append)
  from chain_find_list [OF this, of key] Some
  have f: "chain_find (c_heap c) q key = Some (find (\<lambda>a. c_str (c_key (the (c_heap c a))) = key) (a # bs))"
    by (simp add: hd_opt_def)
  show thesis
  proof (cases "find (\<lambda>a. c_str (c_key (the (c_heap c a))) = key) (a # bs)")
    case None
    then show thesis using f that(1) by simp
  next
    case (Some b)
    then obtain i where "i < length (a # bs)" "c_str (c_key (the (c_heap c ((a # bs) ! i)))) = key" "b = (a # bs) ! i"
      unfolding find_Some_iff by blast
    then have b: "b \<in> set xs" "c_str (c_key (the (c_heap c b))) = key"
      using nth_mem [of i "a # bs"] xs by auto
    moreover obtain n where "c_heap c b = Some n" using b(1) assms(1) by (auto simp: lru_inv_def dest: dseg_alloc)
    ultimately show thesis using f Some that(2) [of b n] by simp
  qed
qed


section \<open>The invariant of the pool\<close>

fun flist :: "buffer list \<Rightarrow> ptr \<Rightarrow> nat list \<Rightarrow> bool" where
  "flist bs p [] \<longleftrightarrow> p = None"
| "flist bs p (i # js) \<longleftrightarrow> p = Some i \<and> flist bs (b_next (bs ! i)) js"

definition pool_inv :: "buffer_pool \<Rightarrow> nat list \<Rightarrow> bool" where
  "pool_inv p fs \<longleftrightarrow> length (buffers p) = POOL_SIZE \<and> distinct fs \<and>
     set fs = {i. i < POOL_SIZE \<and> isfree (buffers p ! i)} \<and> freecount p = length fs \<and>
     flist (buffers p) (freelist p) fs"

lemma flist_upd: "i \<notin> set js \<Longrightarrow> flist (bs[i := b]) p js \<longleftrightarrow> flist bs p js"
  by (induction js arbitrary: p) (auto simp: nth_list_update)

lemma flist_init:
  "n \<le> m \<Longrightarrow> flist (map (\<lambda>i. \<lparr>b_data = [], isfree = True, bufferid = i, b_next = if i + 1 = m then None else Some (i + 1)\<rparr>) [0..<m])
     (if n = m then None else Some n) [n..<m]"
proof (induction "m - n" arbitrary: n)
  case (Suc k)
  then have n: "n < m" by simp
  have "flist (map (\<lambda>i. \<lparr>b_data = [], isfree = True, bufferid = i, b_next = if i + 1 = m then None else Some (i + 1)\<rparr>) [0..<m])
     (if Suc n = m then None else Some (Suc n)) [Suc n..<m]"
    using Suc.hyps(1) [of "Suc n"] Suc.hyps(2) n by simp
  moreover have "[n..<m] = n # [Suc n..<m]" using n by (rule upt_conv_Cons)
  ultimately show ?case using n by (cases "Suc n = m") simp_all
qed simp

lemma POOL_SIZE_pos: "0 < POOL_SIZE"
  by (simp add: POOL_SIZE_def)

lemma createbufferpool_inv: "createbufferpool True True POOL_SIZE = Some p \<Longrightarrow> pool_inv p [0..<POOL_SIZE]"
  using flist_init [of 0 POOL_SIZE] POOL_SIZE_pos by (auto simp: createbufferpool_def pool_inv_def)

lemma pool_free: "pool_inv p fs \<Longrightarrow> i \<in> set fs \<longleftrightarrow> i < POOL_SIZE \<and> isfree (buffers p ! i)"
  by (simp add: pool_inv_def)

lemma acquire_inv:
  assumes "pool_inv p (i # fs)"
  shows "\<exists>p'. acquire_buffer p = Some (p', Some i) \<and> pool_inv p' fs \<and> i < POOL_SIZE \<and>
    (\<forall>j. b_data (buffers p' ! j) = b_data (buffers p ! j))"
proof -
  have i: "i < POOL_SIZE" "i \<notin> set fs" "freelist p = Some i" "flist (buffers p) (b_next (buffers p ! i)) fs"
    "length (buffers p) = POOL_SIZE" "freecount p = Suc (length fs)"
    using assms by (auto simp: pool_inv_def)
  let ?p = "buf_st (p\<lparr>freelist := b_next (buffers p ! i), freecount := freecount p - 1\<rparr>) i
    ((buffers p ! i)\<lparr>isfree := False, b_next := None\<rparr>)"
  have "acquire_buffer p = Some (?p, Some i)"
    using i by (simp add: acquire_buffer_def buf_ld_def)
  moreover have "set fs = {j. j < POOL_SIZE \<and> isfree (buffers ?p ! j)}"
  proof (rule set_eqI)
    fix j show "j \<in> set fs \<longleftrightarrow> j \<in> {j. j < POOL_SIZE \<and> isfree (buffers ?p ! j)}"
      using pool_free [OF assms, of j] i by (cases "j = i") (simp_all add: buf_st_def)
  qed
  then have "pool_inv ?p fs" using assms i unfolding pool_inv_def by (simp add: buf_st_def flist_upd)
  moreover have "b_data (buffers ?p ! j) = b_data (buffers p ! j)" for j
    using i by (cases "i = j") (simp_all add: buf_st_def)
  ultimately show ?thesis using i(1) by (intro exI [of _ ?p]) simp
qed

lemma release_inv_pool:
  assumes "pool_inv p fs" and "i < POOL_SIZE" and "i \<notin> set fs"
  shows "\<exists>p'. release_buffer p (Some i) = Some p' \<and> pool_inv p' (i # fs) \<and>
    (\<forall>j. j \<noteq> i \<longrightarrow> b_data (buffers p' ! j) = b_data (buffers p ! j))"
proof -
  have i: "\<not> isfree (buffers p ! i)" "length (buffers p) = POOL_SIZE" using assms by (auto simp: pool_inv_def)
  let ?p = "buf_st (p\<lparr>freelist := Some i, freecount := freecount p + 1\<rparr>) i
    ((buffers p ! i)\<lparr>b_data := [], isfree := True, b_next := freelist p\<rparr>)"
  have "release_buffer p (Some i) = Some ?p"
    using i assms(2) by (simp add: release_buffer_def buf_ld_def)
  moreover have "set (i # fs) = {j. j < POOL_SIZE \<and> isfree (buffers ?p ! j)}"
  proof (rule set_eqI)
    fix j show "j \<in> set (i # fs) \<longleftrightarrow> j \<in> {j. j < POOL_SIZE \<and> isfree (buffers ?p ! j)}"
      using pool_free [OF assms(1), of j] i assms(2) by (cases "j = i") (simp_all add: buf_st_def)
  qed
  then have "pool_inv ?p (i # fs)" using assms i unfolding pool_inv_def by (simp add: buf_st_def flist_upd)
  ultimately show ?thesis by (intro exI [of _ ?p]) (auto simp: buf_st_def)
qed

lemma list_update_nth: "xs[i := v] ! j = (if j = i \<and> i < length xs then v else xs ! j)"
  by (metis list_update_beyond not_le nth_list_update)

lemma pool_inv_data: "pool_inv p fs \<Longrightarrow> pool_inv (buf_st p i ((buffers p ! i)\<lparr>b_data := d\<rparr>)) fs"
proof -
  assume a: "pool_inv p fs"
  have eq: "isfree ((buffers p)[i := (buffers p ! i)\<lparr>b_data := d\<rparr>] ! j) = isfree (buffers p ! j)"
    "b_next ((buffers p)[i := (buffers p ! i)\<lparr>b_data := d\<rparr>] ! j) = b_next (buffers p ! j)" for j
    using list_update_nth [of "buffers p" i "(buffers p ! i)\<lparr>b_data := d\<rparr>" j] by simp_all
  have "flist ((buffers p)[i := (buffers p ! i)\<lparr>b_data := d\<rparr>]) q js = flist (buffers p) q js" for q js
    by (induction js arbitrary: q) (simp_all add: eq)
  with a show ?thesis by (simp add: pool_inv_def buf_st_def eq)
qed

section \<open>Ownership\<close>

definition buf_of :: "node_heap \<Rightarrow> nat \<Rightarrow> ptr" where
  "buf_of h a = Option.bind (cargo h a) snd"

text \<open>The nodes in \<open>X\<close> own the buffers in \<open>B\<close>, one each.\<close>

definition owns :: "node_heap \<Rightarrow> nat set \<Rightarrow> nat set \<Rightarrow> bool" where
  "owns h X B \<longleftrightarrow> inj_on (buf_of h) X \<and> buf_of h ` X = Some ` B"

text \<open>Each cached node was loaded: its key and its buffer's contents come from a pair in \<open>L\<close>.\<close>

definition loaded :: "node_heap \<Rightarrow> buffer_pool \<Rightarrow> nat set \<Rightarrow> (string \<times> string) set \<Rightarrow> bool" where
  "loaded h p X L \<longleftrightarrow> (\<forall>a\<in>X. \<forall>ck b. cargo h a = Some (ck, Some b) \<longrightarrow>
     (\<exists>(k, d)\<in>L. ck = strncpy_term KEY_SIZE k \<and> b_data (buffers p ! b) = bounded_str BUFFER_SIZE d))"

lemma owns_cargo: "cargo h = cargo h' \<Longrightarrow> owns h X B = owns h' X B"
  and loaded_cargo: "cargo h = cargo h' \<Longrightarrow> loaded h p X L = loaded h' p X L"
  by (simp_all add: owns_def buf_of_def [abs_def] loaded_def)

lemma owns_node: "owns h X B \<Longrightarrow> a \<in> X \<Longrightarrow> h a = Some n \<Longrightarrow> \<exists>b\<in>B. c_buffer n = Some b"
proof -
  assume a: "owns h X B" "a \<in> X" "h a = Some n"
  then have "buf_of h a \<in> Some ` B" by (auto simp: owns_def)
  then show ?thesis using a(3) by (auto simp: buf_of_def cargo_def)
qed

lemma owns_card: "owns h X B \<Longrightarrow> card X = card B"
  unfolding owns_def by (metis card_image inj_Some inj_on_subset subset_UNIV)

lemma owns_remove:
  "owns h X B \<Longrightarrow> a \<in> X \<Longrightarrow> h a = Some n \<Longrightarrow> c_buffer n = Some b \<Longrightarrow> owns h (X - {a}) (B - {b})"
proof -
  assume a: "owns h X B" "a \<in> X" "h a = Some n" "c_buffer n = Some b"
  then have "buf_of h a = Some b" by (simp add: buf_of_def cargo_def)
  have inj: "inj_on (buf_of h) X" using a(1) unfolding owns_def by (rule conjunct1)
  have "buf_of h ` (X - {a}) = buf_of h ` X - buf_of h ` {a}"
    by (rule inj_on_image_set_diff [OF inj, of X "{a}"]) (simp_all add: a(2) Diff_subset)
  also have "\<dots> = Some ` B - {Some b}"
    using a(1) \<open>buf_of h a = Some b\<close> by (simp add: owns_def)
  also have "\<dots> = Some ` (B - {b})" by auto
  finally have "buf_of h ` (X - {a}) = Some ` (B - {b})" .
  moreover have "inj_on (buf_of h) (X - {a})" by (rule inj_on_subset [OF inj]) (rule Diff_subset)
  ultimately show ?thesis by (simp add: owns_def)
qed

lemma owns_other: "(\<And>a. a \<in> X \<Longrightarrow> h a = h' a) \<Longrightarrow> owns h X B \<longleftrightarrow> owns h' X B"
proof -
  assume "\<And>a. a \<in> X \<Longrightarrow> h a = h' a"
  then have "\<And>a. a \<in> X \<Longrightarrow> buf_of h a = buf_of h' a" by (simp add: buf_of_def cargo_def)
  then show ?thesis unfolding owns_def by (metis (no_types, lifting) image_cong inj_on_cong)
qed

lemma owns_insert:
  assumes "owns h X B" and "a \<notin> X" and "h' a = Some n" and "c_buffer n = Some b" and "b \<notin> B"
    and "\<And>x. x \<in> X \<Longrightarrow> h' x = h x"
  shows "owns h' (insert a X) (insert b B)"
proof -
  have "owns h' X B" using owns_other [of X h' h B] assms(1,6) by simp
  moreover have "buf_of h' a = Some b" using assms(3,4) by (simp add: buf_of_def cargo_def)
  ultimately show ?thesis using assms(2,5) by (auto simp: owns_def image_iff)
qed


section \<open>The operations of the file layer\<close>

text \<open>A bucket points to a node whose stored key hashes to it.\<close>

definition buckets_ok :: "lru_cache \<Rightarrow> bool" where
  "buckets_ok c \<longleftrightarrow> (\<forall>j<CACHE_SIZE. \<forall>a ck b. c_nodes c ! j = Some a \<longrightarrow> cargo (c_heap c) a = Some (ck, b) \<longrightarrow>
     fs_hash (c_str ck) = j)"

definition fs_inv :: "buffer_pool \<times> lru_cache \<Rightarrow> nat list \<Rightarrow> nat list \<Rightarrow> nat set \<Rightarrow> (string \<times> string) set \<Rightarrow> bool" where
  "fs_inv = (\<lambda>(p, c) xs fs B L. lru_inv c xs \<and> buckets_ok c \<and> pool_inv p fs \<and> owns (c_heap c) (set xs) B \<and>
     B \<inter> set fs = {} \<and> B \<subseteq> {..<POOL_SIZE} \<and> loaded (c_heap c) p (set xs) L)"

lemma fs_invD:
  assumes "fs_inv (p, c) xs fs B L"
  shows "lru_inv c xs" "buckets_ok c" "pool_inv p fs" "owns (c_heap c) (set xs) B"
    "B \<inter> set fs = {}" "B \<subseteq> {..<POOL_SIZE}" "loaded (c_heap c) p (set xs) L"
  using assms by (simp_all add: fs_inv_def)

lemma node_data:
  assumes "fs_inv (p, c) xs fs B L" and "a \<in> set xs" and "c_heap c a = Some n"
  shows "\<exists>b k d. c_buffer n = Some b \<and> b \<in> B \<and> (k, d) \<in> L \<and> c_key n = strncpy_term KEY_SIZE k \<and>
    b_data (buffers p ! b) = bounded_str BUFFER_SIZE d"
proof -
  obtain b where b: "b \<in> B" "c_buffer n = Some b" using owns_node [OF fs_invD(4) [OF assms(1)] assms(2,3)] by blast
  then have "cargo (c_heap c) a = Some (c_key n, Some b)" using assms(3) by (simp add: cargo_def)
  then show ?thesis using fs_invD(7) [OF assms(1)] assms(2) b unfolding loaded_def by fastforce
qed

lemma fs_hash_less: "fs_hash key < CACHE_SIZE"
proof -
  have "unat (x mod of_nat CACHE_SIZE) < CACHE_SIZE" for x :: "32 word"
    using unat_mod [of x "of_nat CACHE_SIZE"] by (simp add: CACHE_SIZE_def)
  then show ?thesis by (simp add: fs_hash_def)
qed

lemma bucket_in: "lru_inv c xs \<Longrightarrow> c_nodes c ! fs_hash key \<in> set (c_nodes c)"
  using fs_hash_less [of key] by (simp add: lru_inv_def)

lemma cargo_del: "cargo (h(x := None)) a = (if a = x then None else cargo h a)"
  by (simp add: cargo_def)

text \<open>The bucket array after an eviction no longer mentions the victim.\<close>

lemma evict_nodes:
  assumes "lru_inv c (as @ [x])" and "buckets_ok c" and "cargo (c_heap c) x = Some (ck, b)"
    and "i = fs_hash (c_str ck)" and "ns = (if c_nodes c ! i = Some x then (c_nodes c)[i := None] else c_nodes c)"
    and "j < CACHE_SIZE"
  shows "ns ! j = None \<or> (\<exists>a\<in>set as. ns ! j = Some a) \<and> ns ! j = c_nodes c ! j"
proof (cases "c_nodes c ! j = Some x")
  case True
  then have "j = i" using assms(2,3,4,6) by (auto simp: buckets_ok_def)
  then show ?thesis using True assms(1,5,6) by (simp add: lru_inv_def)
next
  case False
  moreover have "c_nodes c ! j \<in> set (c_nodes c)" using assms(1,6) by (simp add: lru_inv_def)
  then have "c_nodes c ! j = None \<or> (\<exists>a\<in>set (as @ [x]). c_nodes c ! j = Some a)"
    using assms(1) unfolding lru_inv_def by blast
  ultimately show ?thesis using assms(5) by (auto simp: list_update_nth)
qed

lemma owned_lookup:
  assumes "owns h X B" and "a \<in> X" and "cargo h a = Some (ck, Some b)"
  shows "b \<in> B"
proof -
  have "buf_of h a \<in> Some ` B" using assms(1,2) by (auto simp: owns_def)
  then show ?thesis using assms(3) by (auto simp: buf_of_def)
qed

lemma evict_inv:
  assumes "fs_inv (p, c) (as @ [x]) fs B L"
  shows "\<exists>c' p' b. evict c p = Some (c', p') \<and> b \<in> B \<and> fs_inv (p', c') as (b # fs) (B - {b}) L \<and>
    (\<forall>j. j \<notin> B \<longrightarrow> b_data (buffers p' ! j) = b_data (buffers p ! j))"
proof -
  note i = fs_invD [OF assms]
  obtain h' n where r: "removelru c = Some (c\<lparr>c_heap := h', c_head := hd_opt as, c_tail := last_opt as\<rparr>, Some x)"
    "dseg h' None as None" "dom h' = dom (c_heap c)" "cargo h' = cargo (c_heap c)" "h' x = Some n" "c_next n = None"
    using removelru_ok [OF i(1)] by blast
  have ow: "owns h' (set (as @ [x])) B" using i(4) owns_cargo [OF r(4)] by simp
  obtain b where b: "b \<in> B" "c_buffer n = Some b" using owns_node [OF ow _ r(5)] by auto
  then have bp: "b < POOL_SIZE" "b \<notin> set fs" using i(5,6) by auto
  obtain p' where p': "release_buffer p (Some b) = Some p'" "pool_inv p' (b # fs)"
    "\<And>j. j \<noteq> b \<Longrightarrow> b_data (buffers p' ! j) = b_data (buffers p ! j)"
    using release_inv_pool [OF i(3) bp] by blast
  let ?i = "fs_hash (c_str (c_key n))"
  define ns where "ns = (if c_nodes c ! ?i = Some x then (c_nodes c)[?i := None] else c_nodes c)"
  define c' where "c' = c\<lparr>c_heap := h'(x := None), c_head := hd_opt as, c_tail := last_opt as, c_nodes := ns,
    c_count := c_count c - 1\<rparr>"
  have ev: "evict c p = Some (c', p')"
    using r(5,6) b(2) p'(1) by (simp add: evict_def r(1) ld_node_def c'_def ns_def)
  have cx: "cargo (c_heap c) x = Some (c_key n, Some b)" unfolding r(4) [symmetric] using r(5) b(2) by (simp add: cargo_def)
  note nodes = evict_nodes [OF i(1,2) cx refl ns_def]
  have xd: "x \<notin> set as" "distinct as" using i(1) by (auto simp: lru_inv_def)
  have lenns: "length ns = CACHE_SIZE" using i(1) by (simp add: ns_def lru_inv_def)
  have lru: "lru_inv c' as"
    unfolding lru_inv_def
  proof (intro conjI)
    show "dseg (c_heap c') None as None" using r(2) xd(1) by (simp add: c'_def dseg_upd)
    show "\<forall>q\<in>set (c_nodes c'). q = None \<or> (\<exists>a\<in>set as. q = Some a)"
      using nodes lenns by (fastforce simp: c'_def in_set_conv_nth)
    show "dom (c_heap c') = set as" using r(3) i(1) xd(1) by (auto simp: c'_def lru_inv_def)
  qed (use i(1) lenns xd in \<open>auto simp: c'_def lru_inv_def\<close>)
  have cg: "cargo (c_heap c') a = cargo (c_heap c) a" if "a \<in> set as" for a
    using that xd(1) r(4) by (auto simp: c'_def cargo_del)
  have bk: "buckets_ok c'"
    unfolding buckets_ok_def
  proof (intro allI impI)
    fix j a ck b' assume j: "j < CACHE_SIZE" "c_nodes c' ! j = Some a" "cargo (c_heap c') a = Some (ck, b')"
    then have "a \<in> set as" "c_nodes c ! j = Some a" using nodes [OF j(1)] by (auto simp: c'_def)
    with j(1,3) cg show "fs_hash (c_str ck) = j" using i(2) unfolding buckets_ok_def by metis
  qed
  have "owns h' (set as) (B - {b})" using owns_remove [OF ow _ r(5) b(2)] xd(1) by simp
  moreover have eq: "h' a = c_heap c' a" if "a \<in> set as" for a using that xd(1) by (auto simp: c'_def)
  ultimately have own: "owns (c_heap c') (set as) (B - {b})"
    using owns_other [of "set as" h' "c_heap c'", OF eq] by blast
  have "loaded (c_heap c') p' (set as) L"
    unfolding loaded_def
  proof (intro ballI allI impI)
    fix a ck b' assume a: "a \<in> set as" "cargo (c_heap c') a = Some (ck, Some b')"
    then have "b' \<noteq> b" using owned_lookup [OF own a] by simp
    then show "\<exists>(k, d)\<in>L. ck = strncpy_term KEY_SIZE k \<and> b_data (buffers p' ! b') = bounded_str BUFFER_SIZE d"
      using i(7) a cg [OF a(1)] p'(3) unfolding loaded_def by auto
  qed
  then have "fs_inv (p', c') as (b # fs) (B - {b}) L"
    using lru bk p'(2) own i(5,6) by (auto simp: fs_inv_def)
  moreover have "\<forall>j. j \<notin> B \<longrightarrow> b_data (buffers p' ! j) = b_data (buffers p ! j)" using p'(3) b(1) by metis
  ultimately show ?thesis using ev b(1) by blast
qed


text \<open>Adding a node for a buffer that nobody owns.\<close>

lemma add_node_inv:
  assumes "fs_inv (p, c) xs fs B L" and "length xs < CACHE_SIZE" and "b < POOL_SIZE" and "b \<notin> B" and "b \<notin> set fs"
    and "length key < KEY_SIZE" and "NUL \<notin> set key" and "(key, d) \<in> L" and "b_data (buffers p ! b) = bounded_str BUFFER_SIZE d"
  defines "a \<equiv> c_fresh c" and "i \<equiv> fs_hash key"
  shows "\<exists>c'. addtofront (c\<lparr>c_heap := (c_heap c)(a \<mapsto> \<lparr>c_key = strncpy_term KEY_SIZE key, c_buffer = Some b, c_prev = None,
        c_next = c_nodes c ! i\<rparr>), c_fresh := a + 1, c_nodes := (c_nodes c)[i := Some a]\<rparr>) (Some a) = Some c' \<and>
    fs_inv (p, c'\<lparr>c_count := c_count c' + 1\<rparr>) (a # xs) fs (insert b B) L"
proof -
  note inv = fs_invD [OF assms(1)]
  let ?n = "\<lparr>c_key = strncpy_term KEY_SIZE key, c_buffer = Some b, c_prev = None, c_next = c_nodes c ! i\<rparr>"
  let ?h = "(c_heap c)(a \<mapsto> ?n)"
  let ?c = "c\<lparr>c_heap := ?h, c_fresh := a + 1, c_nodes := (c_nodes c)[i := Some a]\<rparr>"
  have a: "a \<notin> set xs" using inv(1) by (auto simp: lru_inv_def a_def)
  have "dseg (c_heap ?c) None xs None" using inv(1) a by (simp add: lru_inv_def dseg_upd)
  then obtain h' where h': "addtofront ?c (Some a) = Some (?c\<lparr>c_heap := h', c_head := Some a, c_tail := last_opt (a # xs)\<rparr>)"
    "dseg h' None (a # xs) None" "dom h' = dom ?h" "cargo h' = cargo ?h"
    using addtofront_ok [of ?c xs a ?n] a inv(1) by (auto simp: lru_inv_def)
  define c' where "c' = ?c\<lparr>c_heap := h', c_head := Some a, c_tail := last_opt (a # xs)\<rparr>"
  have i: "i < CACHE_SIZE" by (simp add: i_def fs_hash_less)
  have old: "cargo h' x = cargo (c_heap c) x" if "x \<in> set xs" for x
    using that a h'(4) by (auto simp: cargo_def)
  have new: "cargo h' a = Some (strncpy_term KEY_SIZE key, Some b)" using h'(4) by (simp add: cargo_def)
  have key: "c_str (strncpy_term KEY_SIZE key) = key" using assms(6,7) by (simp add: c_str_strncpy_term c_str_id)
  have lru: "lru_inv (c'\<lparr>c_count := c_count c' + 1\<rparr>) (a # xs)"
    unfolding lru_inv_def
  proof (intro conjI)
    show "\<forall>q\<in>set (c_nodes (c'\<lparr>c_count := c_count c' + 1\<rparr>)). q = None \<or> (\<exists>x\<in>set (a # xs). q = Some x)"
      using inv(1) by (auto simp: c'_def lru_inv_def dest!: set_update_subset_insert [THEN subsetD])
    show "dom (c_heap (c'\<lparr>c_count := c_count c' + 1\<rparr>)) = set (a # xs)"
      using h'(3) inv(1) by (simp add: c'_def lru_inv_def)
    show "\<forall>x\<in>set (a # xs). x < c_fresh (c'\<lparr>c_count := c_count c' + 1\<rparr>)"
      using inv(1) by (auto simp: c'_def lru_inv_def a_def)
  qed (use inv(1) a assms(2) h'(2) in \<open>auto simp: c'_def lru_inv_def hd_opt_def\<close>)
  have bk: "buckets_ok (c'\<lparr>c_count := c_count c' + 1\<rparr>)"
    unfolding buckets_ok_def
  proof (intro allI impI)
    fix j x ck q assume j: "j < CACHE_SIZE" "c_nodes (c'\<lparr>c_count := c_count c' + 1\<rparr>) ! j = Some x"
      "cargo (c_heap (c'\<lparr>c_count := c_count c' + 1\<rparr>)) x = Some (ck, q)"
    show "fs_hash (c_str ck) = j"
    proof (cases "j = i")
      case True
      then have "x = a" using j(2) i inv(1) by (simp add: c'_def lru_inv_def)
      then show ?thesis using j(3) new key True by (simp add: c'_def i_def)
    next
      case False
      then have x: "c_nodes c ! j = Some x" using j(2) by (simp add: c'_def)
      moreover have "c_nodes c ! j \<in> set (c_nodes c)" using j(1) inv(1) by (simp add: lru_inv_def)
      ultimately have "x \<in> set xs" using inv(1) unfolding lru_inv_def by fastforce
      then show ?thesis using inv(2) j(1,3) x old by (auto simp: buckets_ok_def c'_def)
    qed
  qed
  have "owns h' (set (a # xs)) (insert b B)"
  proof -
    have "?h x = c_heap c x" if "x \<in> set xs" for x using that a by auto
    from owns_insert [OF inv(4) a _ _ assms(4) this, of ?n] show ?thesis
      by (simp add: owns_cargo [OF h'(4)] fun_upd_def)
  qed
  moreover have "loaded h' p (set (a # xs)) L"
    using inv(7) old new assms(8,9) by (auto simp: loaded_def)
  ultimately have "fs_inv (p, c'\<lparr>c_count := c_count c' + 1\<rparr>) (a # xs) fs (insert b B) L"
    using lru bk inv(3,5,6) assms(3,5) by (simp add: fs_inv_def) (simp add: c'_def)
  then show ?thesis using h'(1) by (auto simp: c'_def)
qed


definition key_fits :: "string \<Rightarrow> bool" where
  "key_fits k \<longleftrightarrow> length k < KEY_SIZE \<and> NUL \<notin> set k"

text \<open>The buffers are cached, free, or lost: those whose node could not be allocated.\<close>

definition fs_ok :: "fs_state \<Rightarrow> (string \<times> string) set \<Rightarrow> nat \<Rightarrow> bool" where
  "fs_ok s L lost \<longleftrightarrow> (\<forall>(k, d)\<in>L. key_fits k) \<and>
     (\<exists>p c xs fs B D. s = (Some p, Some c) \<and> fs_inv (p, c) xs fs B L \<and> B \<union> set fs \<union> D = {..<POOL_SIZE} \<and>
        D \<inter> (B \<union> set fs) = {} \<and> card D = lost)"

lemma fs_inv_mono: "fs_inv s xs fs B L \<Longrightarrow> L \<subseteq> L' \<Longrightarrow> fs_inv s xs fs B L'"
  unfolding fs_inv_def loaded_def by (cases s) (fastforce simp: subset_iff)

lemma cacheput_inv:
  assumes "fs_inv (p, c) xs fs B L" and "chain_find (c_heap c) (c_nodes c ! fs_hash key) key = Some None"
    and "b < POOL_SIZE" and "b \<notin> B" and "b \<notin> set fs" and "key_fits key" and "ok \<Longrightarrow> (key, d) \<in> L"
    and "b_data (buffers p ! b) = bounded_str BUFFER_SIZE d"
  shows "\<exists>c' p' xs' fs' B'. cacheput ok c p key (Some b) = Some (c', p') \<and> fs_inv (p', c') xs' fs' B' L \<and>
    B' \<union> set fs' = (if ok then insert b (B \<union> set fs) else B \<union> set fs)"
proof -
  note inv = fs_invD [OF assms(1)]
  have cap: "c_capacity c = CACHE_SIZE" "c_count c = length xs" "length xs \<le> CACHE_SIZE"
    using inv(1) by (simp_all add: lru_inv_def)
  obtain c1 p1 xs1 fs1 B1 where ev: "(if c_count c \<ge> c_capacity c then evict c p else Some (c, p)) = Some (c1, p1)"
    and i1: "fs_inv (p1, c1) xs1 fs1 B1 L" and len: "length xs1 < CACHE_SIZE"
    and tot: "B1 \<union> set fs1 = B \<union> set fs" and data: "b_data (buffers p1 ! b) = b_data (buffers p ! b)"
  proof (cases "c_count c \<ge> c_capacity c")
    case False
    then show thesis using that [of c p xs fs B] assms(1) cap by simp
  next
    case True
    then obtain as x where xs: "xs = as @ [x]"
      using cap by (metis CACHE_SIZE_def append_butlast_last_id list.size(3) not_numeral_le_zero)
    from evict_inv [OF assms(1) [unfolded xs]] obtain c' p' b' where
      "evict c p = Some (c', p')" "b' \<in> B" "fs_inv (p', c') as (b' # fs) (B - {b'}) L"
      "\<forall>j. j \<notin> B \<longrightarrow> b_data (buffers p' ! j) = b_data (buffers p ! j)" by blast
    then show thesis using that [of c' p' as "b' # fs" "B - {b'}"] True xs cap assms(4) by auto
  qed
  show ?thesis
  proof (cases ok)
    case False
    then have "cacheput ok c p key (Some b) = Some (c1, p1)" using ev assms(2) by (simp add: cacheput_def Let_def)
    then show ?thesis using i1 tot False
      by (intro exI [of _ c1] exI [of _ p1] exI [of _ xs1] exI [of _ fs1] exI [of _ B1]) simp
  next
    case True
    have "b \<notin> B1" "b \<notin> set fs1" using tot assms(4,5) by auto
    from add_node_inv [OF i1 len assms(3) this _ _ assms(7) [OF True] data [unfolded assms(8)]] assms(6)
    obtain c' where "addtofront (c1\<lparr>c_heap := (c_heap c1)(c_fresh c1 \<mapsto> \<lparr>c_key = strncpy_term KEY_SIZE key, c_buffer = Some b,
          c_prev = None, c_next = c_nodes c1 ! fs_hash key\<rparr>), c_fresh := c_fresh c1 + 1,
          c_nodes := (c_nodes c1)[fs_hash key := Some (c_fresh c1)]\<rparr>) (Some (c_fresh c1)) = Some c'"
      "fs_inv (p1, c'\<lparr>c_count := c_count c' + 1\<rparr>) (c_fresh c1 # xs1) fs1 (insert b B1) L"
      unfolding key_fits_def by blast
    moreover from this(1) have "cacheput ok c p key (Some b) = Some (c'\<lparr>c_count := c_count c' + 1\<rparr>, p1)"
      using ev assms(2) True by (simp add: cacheput_def Let_def)
    ultimately show ?thesis using tot True
      by (intro exI [of _ "c'\<lparr>c_count := c_count c' + 1\<rparr>"] exI [of _ p1] exI [of _ "c_fresh c1 # xs1"] exI [of _ fs1] exI [of _ "insert b B1"]) simp
  qed
qed

text \<open>A request that finds its block.\<close>

lemma files_hit:
  assumes i: "fs_inv (p, c) xs fs B L" and "chain_find (c_heap c) (c_nodes c ! fs_hash k) k = Some (Some a)"
    and "a \<in> set xs" "c_heap c a = Some n" "c_str (c_key n) = k" and keys: "\<forall>(k, d)\<in>L. key_fits k"
  shows "\<exists>c' xs' d'. files ok (Some p, Some c) k d = Some ((Some p, Some c'), Read_from_cache k (bounded_str BUFFER_SIZE d')) \<and>
    (k, d') \<in> L \<and> fs_inv (p, c') xs' fs B L"
proof -
  note inv = fs_invD [OF i]
  obtain b k' d' where b: "c_buffer n = Some b" "b \<in> B" "(k', d') \<in> L" "c_key n = strncpy_term KEY_SIZE k'"
    "b_data (buffers p ! b) = bounded_str BUFFER_SIZE d'"
    using node_data [OF i assms(3,4)] by blast
  have "key_fits k'" using keys b(3) by auto
  then have "c_str (strncpy_term KEY_SIZE k') = k'" by (auto simp: key_fits_def c_str_strncpy_term c_str_id)
  then have k': "k' = k" using assms(5) b(4) by simp
  obtain c' xs' where m: "movetofront c (Some a) = Some c'" "lru_inv c' xs'" "set xs' = set xs"
    "cargo (c_heap c') = cargo (c_heap c)" "c_nodes c' = c_nodes c"
    using movetofront_inv [OF inv(1) assms(3)] by blast
  have "map_option (\<lambda>n. (c_key n, c_buffer n)) (c_heap c' a) = Some (c_key n, Some b)"
    using m(4) assms(4) b(1) by (simp add: cargo_def fun_eq_iff)
  then obtain n' where n': "c_heap c' a = Some n'" "c_buffer n' = Some b" by auto
  have "b < length (buffers p)" using b(2) inv(3,6) by (auto simp: pool_inv_def)
  then have "files ok (Some p, Some c) k d = Some ((Some p, Some c'), Read_from_cache k (b_data (buffers p ! b)))"
    using assms(2) m(1) n' by (simp add: files_def cache_get_def ld_node_def buf_ld_def)
  moreover have "fs_inv (p, c') xs' fs B L"
    using inv m owns_cargo [OF m(4)] loaded_cargo [OF m(4)] by (simp add: fs_inv_def buckets_ok_def)
  ultimately show ?thesis using b(3,5) k' by auto
qed

text \<open>A request that misses takes the first free buffer; it is cached, or lost when its node is not allocated.\<close>

lemma files_miss:
  assumes i: "fs_inv (p, c) xs (b # fs) B L" and "chain_find (c_heap c) (c_nodes c ! fs_hash k) k = Some None" and "key_fits k"
  shows "\<exists>p' c' xs' fs' B'. files ok (Some p, Some c) k d = Some ((Some p', Some c'), Loaded k d) \<and>
    fs_inv (p', c') xs' fs' B' (if ok then insert (k, d) L else L) \<and>
    B' \<union> set fs' = (if ok then B \<union> set (b # fs) else B \<union> set (b # fs) - {b})"
proof -
  note inv = fs_invD [OF i]
  obtain p' where a: "acquire_buffer p = Some (p', Some b)" "pool_inv p' fs" "b < POOL_SIZE"
    "\<forall>j. b_data (buffers p' ! j) = b_data (buffers p ! j)"
    using acquire_inv inv(3) by blast
  have bb: "b \<notin> B" "b \<notin> set fs" using inv(3,5) by (auto simp: pool_inv_def)
  let ?p = "buf_st p' b ((buffers p' ! b)\<lparr>b_data := bounded_str BUFFER_SIZE d\<rparr>)"
  have len: "b < length (buffers p')" using a(2,3) by (simp add: pool_inv_def)
  have same: "b_data (buffers ?p ! j) = b_data (buffers p ! j)" if "j \<noteq> b" for j
    using that a(4) by (simp add: buf_st_def)
  have "loaded (c_heap c) ?p (set xs) L"
    unfolding loaded_def
  proof (intro ballI allI impI)
    fix x ck q assume x: "x \<in> set xs" "cargo (c_heap c) x = Some (ck, Some q)"
    then have "q \<noteq> b" using owned_lookup [OF inv(4) x] bb by auto
    then show "\<exists>(k, d)\<in>L. ck = strncpy_term KEY_SIZE k \<and> b_data (buffers ?p ! q) = bounded_str BUFFER_SIZE d"
      using inv(7) x same unfolding loaded_def by auto
  qed
  then have "fs_inv (?p, c) xs fs B L"
    using inv pool_inv_data [OF a(2)] by (simp add: fs_inv_def)
  then have i': "fs_inv (?p, c) xs fs B (if ok then insert (k, d) L else L)" by (rule fs_inv_mono) auto
  have dt: "b_data (buffers ?p ! b) = bounded_str BUFFER_SIZE d" using len by (simp add: buf_st_def)
  obtain c2 p2 xs2 fs2 B2 where r: "cacheput ok c ?p k (Some b) = Some (c2, p2)"
    "fs_inv (p2, c2) xs2 fs2 B2 (if ok then insert (k, d) L else L)"
    "B2 \<union> set fs2 = (if ok then insert b (B \<union> set fs) else B \<union> set fs)"
    using cacheput_inv [OF i' assms(2) a(3) bb assms(3) _ dt, of ok] by auto
  have "files ok (Some p, Some c) k d = Some ((Some p2, Some c2), Loaded k d)"
    using assms(2) a(1) r(1) len by (simp add: files_def cache_get_def buf_ld_def Let_def)
  moreover have "B2 \<union> set fs2 = (if ok then B \<union> set (b # fs) else B \<union> set (b # fs) - {b})" using r(3) bb by (cases ok) auto
  ultimately show ?thesis using r(2) by blast
qed

lemma files_full:
  assumes "fs_inv (p, c) xs [] B L" and "chain_find (c_heap c) (c_nodes c ! fs_hash k) k = Some None"
  shows "files ok (Some p, Some c) k d = Some ((Some p, Some c), Pool_exhausted)"
  using assms(2) fs_invD(3) [OF assms(1)] by (simp add: files_def cache_get_def acquire_buffer_def pool_inv_def)

lemma files_ok:
  assumes "fs_ok s L lost" and "key_fits k"
  shows "\<exists>s' e. files ok s k d = Some (s', e) \<and>
    (e = Loaded k d \<and> fs_ok s' (if ok then insert (k, d) L else L) (if ok then lost else lost + 1) \<or>
     (\<exists>d'. (k, d') \<in> L \<and> e = Read_from_cache k (bounded_str BUFFER_SIZE d') \<and> fs_ok s' L lost) \<or>
     e = Pool_exhausted \<and> POOL_SIZE - CACHE_SIZE \<le> lost \<and> fs_ok s' L lost)"
proof -
  from assms(1) obtain p c xs fs B D where s: "s = (Some p, Some c)" and i: "fs_inv (p, c) xs fs B L"
    and tot: "B \<union> set fs \<union> D = {..<POOL_SIZE}" "D \<inter> (B \<union> set fs) = {}" "card D = lost"
    and keys: "\<forall>(k, d)\<in>L. key_fits k" by (auto simp: fs_ok_def)
  note inv = fs_invD [OF i]
  have fin: "finite D" using tot(1) by (metis finite_Un finite_lessThan)
  from chain_find_inv [OF inv(1) bucket_in [OF inv(1), of k], of k] show ?thesis
  proof cases
    case 1
    show ?thesis
    proof (cases fs)
      case Nil
      have "card B = length xs" using owns_card [OF inv(4)] inv(1) by (simp add: lru_inv_def distinct_card)
      moreover have "length xs \<le> CACHE_SIZE" using inv(1) by (simp add: lru_inv_def)
      moreover have "POOL_SIZE \<le> card B + card D"
        using card_Un_le [of B D] tot(1) Nil by simp
      ultimately have "POOL_SIZE - CACHE_SIZE \<le> lost" using tot(3) by linarith
      then show ?thesis using files_full [OF i [unfolded Nil] 1, of ok d] assms(1) s by blast
    next
      case (Cons b fs')
      obtain p' c' xs' fs2 B' where r: "files ok s k d = Some ((Some p', Some c'), Loaded k d)"
        "fs_inv (p', c') xs' fs2 B' (if ok then insert (k, d) L else L)"
        "B' \<union> set fs2 = (if ok then B \<union> set fs else B \<union> set fs - {b})"
        using files_miss [OF i [unfolded Cons] 1 assms(2), of ok d] s Cons by auto
      have b: "b \<in> set fs" "b \<notin> D" using tot(2) Cons by auto
      have keys': "\<forall>(k, d)\<in>(if ok then insert (k, d) L else L). key_fits k" using keys assms(2) by simp
      obtain D' where "B' \<union> set fs2 \<union> D' = {..<POOL_SIZE}" "D' \<inter> (B' \<union> set fs2) = {}" "card D' = (if ok then lost else lost + 1)"
      proof (cases ok)
        case True
        then show thesis using that [of D] r(3) tot by simp
      next
        case False
        have "B' \<union> set fs2 \<union> insert b D = {..<POOL_SIZE}" "insert b D \<inter> (B' \<union> set fs2) = {}"
          using False r(3) tot(1,2) b(1) by auto
        moreover have "card (insert b D) = lost + 1" using tot(3) b(2) fin by simp
        ultimately show thesis using that [of "insert b D"] False by simp
      qed
      then have "fs_ok (Some p', Some c') (if ok then insert (k, d) L else L) (if ok then lost else lost + 1)"
        unfolding fs_ok_def using r(2) keys' by blast
      then show ?thesis using r(1) by blast
    qed
  next
    case (2 a n)
    from files_hit [OF i 2 keys, of ok d] obtain c' xs' d' where
      "files ok s k d = Some ((Some p, Some c'), Read_from_cache k (bounded_str BUFFER_SIZE d'))" "(k, d') \<in> L" "fs_inv (p, c') xs' fs B L"
      using s by blast
    moreover from this(3) have "fs_ok (Some p, Some c') L lost" using tot keys unfolding fs_ok_def by blast
    ultimately show ?thesis by blast
  qed
qed


section \<open>Whole runs\<close>

text \<open>
  The specification of a run: a request is either loaded, or answered with data loaded for the same
  key before, or turned down because the pool is exhausted. \<open>L\<close> holds the pairs cached so far, \<open>lost\<close> counts the buffers that were
  acquired for a node that could not be allocated; only when these leave no more than \<open>CACHE_SIZE\<close> buffers can the pool be exhausted.
\<close>

fun served :: "(string \<times> string) set \<Rightarrow> nat \<Rightarrow> (bool \<times> string \<times> string) list \<Rightarrow> fs_event list \<Rightarrow> bool" where
  "served L lost [] [] = True"
| "served L lost ((ok, k, d) # rs) (e # es) \<longleftrightarrow>
     e = Loaded k d \<and> served (if ok then insert (k, d) L else L) (if ok then lost else lost + 1) rs es \<or>
     (\<exists>d'. (k, d') \<in> L \<and> e = Read_from_cache k (bounded_str BUFFER_SIZE d') \<and> served L lost rs es) \<or>
     e = Pool_exhausted \<and> POOL_SIZE - CACHE_SIZE \<le> lost \<and> served L lost rs es"
| "served L lost _ _ = False"

text \<open>The buffers a run loses: one for every block loaded without a node.\<close>

definition lost_buffers :: "(bool \<times> string \<times> string) list \<Rightarrow> fs_event list \<Rightarrow> nat" where
  "lost_buffers rs es = length (filter (\<lambda>((ok, k, d), e). \<not> ok \<and> e = Loaded k d) (zip rs es))"

lemma lost_buffers_Cons:
  "lost_buffers ((ok, k, d) # rs) (e # es) = (if \<not> ok \<and> e = Loaded k d then 1 else 0) + lost_buffers rs es"
  by (simp add: lost_buffers_def)

lemma files_all_ok:
  "fs_ok s L lost \<Longrightarrow> \<forall>(ok, k, d)\<in>set rs. key_fits k \<Longrightarrow>
   \<exists>s' es L'. files_all s rs = Some (s', es) \<and> fs_ok s' L' (lost + lost_buffers rs es) \<and> served L lost rs es"
proof (induction rs arbitrary: s L lost)
  case (Cons r rs)
  obtain ok k d where r: "r = (ok, k, d)" by (cases r)
  with Cons.prems(2) have k: "key_fits k" and rs: "\<forall>(ok, k, d)\<in>set rs. key_fits k" by auto
  obtain s1 e where f: "files ok s k d = Some (s1, e)" and
    ok: "(e = Loaded k d \<and> fs_ok s1 (if ok then insert (k, d) L else L) (if ok then lost else lost + 1)) \<or>
     (\<exists>d'. (k, d') \<in> L \<and> e = Read_from_cache k (bounded_str BUFFER_SIZE d') \<and> fs_ok s1 L lost) \<or>
     (e = Pool_exhausted \<and> POOL_SIZE - CACHE_SIZE \<le> lost \<and> fs_ok s1 L lost)"
    using files_ok [OF Cons.prems(1) k, of ok d] by blast
  note step = lost_buffers_Cons [of ok k d rs e]
  have run: "\<exists>s' es L'. files_all s (r # rs) = Some (s', e # es) \<and> fs_ok s' L' (n + lost_buffers rs es) \<and> served M n rs es"
    if "fs_ok s1 M n" for M n
    using Cons.IH [OF that rs] f r by auto
  from ok consider (loaded) "e = Loaded k d" "fs_ok s1 (if ok then insert (k, d) L else L) (if ok then lost else lost + 1)"
    | (hit) d' where "(k, d') \<in> L" "e = Read_from_cache k (bounded_str BUFFER_SIZE d')" "fs_ok s1 L lost"
    | (full) "e = Pool_exhausted" "POOL_SIZE - CACHE_SIZE \<le> lost" "fs_ok s1 L lost" by blast
  then show ?case
  proof cases
    case loaded
    from run [OF loaded(2)] obtain s' es L' where
      "files_all s (r # rs) = Some (s', e # es)" "fs_ok s' L' ((if ok then lost else lost + 1) + lost_buffers rs es)"
      "served (if ok then insert (k, d) L else L) (if ok then lost else lost + 1) rs es" by blast
    moreover have "(if ok then lost else lost + 1) + lost_buffers rs es = lost + lost_buffers (r # rs) (e # es)"
      using step loaded(1) r by simp
    ultimately show ?thesis using loaded(1) unfolding r by (intro exI [of _ s'] exI [of _ "e # es"] exI [of _ L']) simp
  next
    case hit
    from run [OF hit(3)] show ?thesis using step hit(1,2) r by fastforce
  next
    case full
    from run [OF full(3)] show ?thesis using step full(1,2) r by fastforce
  qed
qed (auto simp: lost_buffers_def)

lemma fs_cleanup_ok:
  assumes "dseg (c_heap c) pv xs None" and "distinct xs" and "owns (c_heap c) (set xs) B" and "pool_inv p fs"
    and "B \<inter> set fs = {}" and "B \<subseteq> {..<POOL_SIZE}"
  shows "\<exists>c' p' fs'. fs_cleanup c (Some p) (hd_opt xs) = Some (c', Some p') \<and> pool_inv p' fs' \<and> set fs' = B \<union> set fs \<and>
    c_heap c' = c_heap c |` (- set xs)"
  using assms
proof (induction xs arbitrary: c pv p fs B)
  case Nil
  then have "B = {}" by (simp add: owns_def)
  then show ?case using Nil by (subst fs_cleanup.simps) (auto simp: hd_opt_def restrict_map_def)
next
  case (Cons a xs)
  then obtain n where n: "c_heap c a = Some n" "c_next n = hd_opt xs" "dseg (c_heap c) (Some a) xs None"
    by (auto simp: hd_opt_def)
  obtain b where b: "b \<in> B" "c_buffer n = Some b" using owns_node [OF Cons.prems(3) _ n(1)] by auto
  have bp: "b < POOL_SIZE" "b \<notin> set fs" using b Cons.prems(5,6) by auto
  obtain p1 where p1: "release_buffer p (Some b) = Some p1" "pool_inv p1 (b # fs)"
    using release_inv_pool [OF Cons.prems(4) bp] by blast
  have nf: "buf_ld p (Some b) = Some (buffers p ! b)" "\<not> isfree (buffers p ! b)"
    using bp pool_free [OF Cons.prems(4), of b] Cons.prems(4) by (auto simp: buf_ld_def pool_inv_def)
  let ?c = "c\<lparr>c_heap := (c_heap c)(a := None)\<rparr>"
  have a: "a \<notin> set xs" "distinct xs" using Cons.prems(2) by auto
  have d: "dseg (c_heap ?c) (Some a) xs None" using n(3) a(1) by (simp add: dseg_upd)
  have "owns (c_heap c) (set xs) (B - {b})" using owns_remove [OF Cons.prems(3) _ n(1) b(2)] a(1) by simp
  moreover have "c_heap c x = c_heap ?c x" if "x \<in> set xs" for x using that a(1) by auto
  ultimately have o: "owns (c_heap ?c) (set xs) (B - {b})"
    using owns_other [of "set xs" "c_heap c" "c_heap ?c"] by blast
  obtain c' p' fs' where r: "fs_cleanup ?c (Some p1) (hd_opt xs) = Some (c', Some p')" "pool_inv p' fs'"
    "set fs' = (B - {b}) \<union> set (b # fs)" "c_heap c' = c_heap ?c |` (- set xs)"
  proof -
    have "(B - {b}) \<inter> set (b # fs) = {}" "B - {b} \<subseteq> {..<POOL_SIZE}" using Cons.prems(5,6) by auto
    from Cons.IH [OF d a(2) o p1(2) this] show thesis using that by blast
  qed
  have "fs_cleanup c (Some p) (hd_opt (a # xs)) = Some (c', Some p')"
    using n(1,2) b(2) nf p1(1) r(1) by (subst fs_cleanup.simps) (simp add: hd_opt_def [of "a # xs"])
  moreover have "set fs' = B \<union> set fs" using r(3) b(1) by auto
  moreover have "c_heap c' = c_heap c |` (- set (a # xs))" using r(4) by (auto simp: restrict_map_def)
  ultimately show ?case using r(2) by blast
qed

lemma fs_init_ok:
  "fs_ok (createbufferpool True True POOL_SIZE, create_lru_cache True) {} 0"
proof -
  obtain p c where 0: "createbufferpool True True POOL_SIZE = Some p" "create_lru_cache True = Some c"
    by (simp add: createbufferpool_def create_lru_cache_def)
  have "fs_inv (p, c) [] [0..<POOL_SIZE] {} {}"
    using createbufferpool_inv [OF 0(1)] 0(2)
    by (auto simp: fs_inv_def lru_inv_def buckets_ok_def owns_def loaded_def create_lru_cache_def hd_opt_def last_opt_def cargo_def)
  then show ?thesis unfolding fs_ok_def 0 by fastforce
qed

lemma fs_end:
  assumes "fs_ok s L lost"
  shows "\<exists>p c c' p'. s = (Some p, Some c) \<and> fs_cleanup c (Some p) (c_head c) = Some (c', Some p') \<and>
    c_heap c' = Map.empty \<and> freecount p' + lost = POOL_SIZE"
proof -
  obtain p c xs fs B D where s: "s = (Some p, Some c)" and i: "fs_inv (p, c) xs fs B L"
    and tot: "B \<union> set fs \<union> D = {..<POOL_SIZE}" "D \<inter> (B \<union> set fs) = {}" "card D = lost"
    using assms by (auto simp: fs_ok_def)
  note inv = fs_invD [OF i]
  have l: "dseg (c_heap c) None xs None" "distinct xs" "c_head c = hd_opt xs" "dom (c_heap c) = set xs"
    using inv(1) by (simp_all add: lru_inv_def)
  obtain c2 p2 fs2 where e: "fs_cleanup c (Some p) (hd_opt xs) = Some (c2, Some p2)" "pool_inv p2 fs2"
    "set fs2 = B \<union> set fs" "c_heap c2 = c_heap c |` (- set xs)"
    using fs_cleanup_ok [OF l(1,2) inv(4,3,5,6)] by blast
  have "c_heap c2 = Map.empty" using e(4) l(4) by (auto simp: restrict_map_def fun_eq_iff domIff)
  moreover have "freecount p2 = card (set fs2)" using e(2) distinct_card unfolding pool_inv_def by metis
  moreover have "finite (B \<union> set fs)" "finite D" using tot(1) by (metis finite_Un finite_lessThan)+
  then have "card (B \<union> set fs) + card D = POOL_SIZE"
    using card_Un_disjoint [of "B \<union> set fs" D] tot(1,2) by (simp add: Int_commute)
  ultimately show ?thesis using s e(1,3) l(3) tot(3) by auto
qed

text \<open>Without a pool or without a cache the first request follows a null pointer.\<close>

lemma fs_null:
  assumes "\<not> (pool_ok \<and> buffers_ok \<and> cache_ok)"
  shows "files ok (createbufferpool pool_ok buffers_ok POOL_SIZE, create_lru_cache cache_ok) k d = None"
proof -
  have "chain_find h None k = Some None" for h by (subst chain_find.simps) simp
  then have "cache_get c k = Some (c, None)" if "create_lru_cache cache_ok = Some c" for c
    using that fs_hash_less [of k] by (auto simp: create_lru_cache_def cache_get_def split: if_splits)
  then show ?thesis using assms
    by (cases "create_lru_cache cache_ok") (auto simp: files_def createbufferpool_def create_lru_cache_def)
qed

section \<open>Properties\<close>

text \<open>C3: With block keys shorter than \<open>KEY_SIZE\<close>, a run over any sequence of requests, in which any of the allocations of nodes may
  fail, follows no null or freed pointer and ends, provided that the pool and the cache themselves were allocated; every request
  is either loaded or answered with data loaded for that block before, unless so many nodes could not be allocated that the pool
  is exhausted; at the end every node has been freed, and every buffer is back in the pool except those that
  \<open>cacheput\<close> lost, one for each block whose node was not allocated. When the pool or the cache is not allocated, \<open>main\<close>
  does not notice, and the first request follows a null pointer.\<close>

theorem fs_run_safe:
  assumes "\<forall>(ok, k, d)\<in>set rs. length k < KEY_SIZE \<and> NUL \<notin> set k"
  shows "if pool_ok \<and> buffers_ok \<and> cache_ok
    then \<exists>es c p. fs_run pool_ok buffers_ok cache_ok rs = Some (es, c, Some p) \<and> served {} 0 rs es \<and>
      c_heap c = Map.empty \<and> freecount p + lost_buffers rs es = POOL_SIZE
    else rs \<noteq> [] \<longrightarrow> fs_run pool_ok buffers_ok cache_ok rs = None"
proof (cases "pool_ok \<and> buffers_ok \<and> cache_ok")
  case True
  have "\<forall>(ok, k, d)\<in>set rs. key_fits k" using assms by (auto simp: key_fits_def)
  from files_all_ok [OF fs_init_ok this] obtain s es L where
    run: "files_all (createbufferpool True True POOL_SIZE, create_lru_cache True) rs = Some (s, es)"
      "fs_ok s L (lost_buffers rs es)" "served {} 0 rs es" by auto
  from fs_end [OF run(2)] run(1,3) True show ?thesis by (auto simp: fs_run_def Let_def)
next
  case False
  then show ?thesis using fs_null [OF False] by (cases rs) (auto simp: fs_run_def Let_def)
qed

text \<open>The requests of \<open>main\<close>, with the third node not allocated.\<close>

theorem fs_run_safe_witness:
  "\<exists>es c p. fs_main True True True (\<lambda>i. i \<noteq> 2) = Some (es, c, Some p) \<and> c_heap c = Map.empty \<and> freecount p + 1 = POOL_SIZE"
proof -
  let ?rs = "map (\<lambda>(i, k, d). (i \<noteq> 2, k, d)) (enumerate 0 fs_requests)"
  have "\<forall>(ok, k, d)\<in>set ?rs. length k < KEY_SIZE \<and> NUL \<notin> set k" by (auto simp: fs_requests_def KEY_SIZE_def NUL_def)
  from fs_run_safe [OF this, of True True True] obtain es c p where
    r: "fs_run True True True ?rs = Some (es, c, Some p)" "c_heap c = Map.empty" "freecount p + lost_buffers ?rs es = POOL_SIZE" by auto
  moreover have "map_option (\<lambda>(es, c, p). lost_buffers ?rs es) (fs_run True True True ?rs) = Some 1" by code_simp
  ultimately show ?thesis by (auto simp: fs_main_def)
qed

text \<open>One field links the hash chain and the LRU list: after a hit has moved a block to the front, the
  search of its bucket no longer reaches it, so the next read of the cached block misses and loads
  a second copy.\<close>

theorem fs_false_miss:
  "map_option fst (fs_run True True True [(True, ''a'', ''1''), (True, ''f'', ''2''), (True, ''a'', ''3''), (True, ''a'', ''4'')]) =
    Some [Loaded ''a'' ''1'', Loaded ''f'' ''2'', Read_from_cache ''a'' ''1'', Loaded ''a'' ''4'']"
  by code_simp

text \<open>A block key of \<open>KEY_SIZE\<close> or more characters is stored truncated but hashed in full: its eviction
  looks at the wrong bucket, which keeps pointing to the freed node, and the next search of that
  bucket reads freed memory.\<close>

theorem fs_long_key_use_after_free:
  "fs_run True True True
     ((True, replicate 32 CHR ''a'', ''x'') # map (\<lambda>k. (True, k, ''y'')) [''a'', ''f'', ''k'', ''p'', ''u'', ''e'']) = None"
  by code_simp

text \<open>When six nodes cannot be allocated, their buffers and the four that are cached use up the pool, and a further block is turned down.\<close>

theorem fs_lost_buffers_exhaust:
  "map_option fst (fs_run True True True (map (\<lambda>c. (c \<in> set ''wxyz'', [c], [])) ''abcdefwxyzg'')) =
    Some (map (\<lambda>c. Loaded [c] []) ''abcdefwxyz'' @ [Pool_exhausted])"
  by code_simp

end
