(* ===== verification/WAL_Demo.thy ===== *)
theory WAL_Demo
  imports C_Scan
begin

text \<open>
  The write-ahead log of \<^verbatim>\<open>src/WAL-demo.c\<close>. The two files are strings, \<open>None\<close> for a file that does not
  exist; whether \<open>fopen\<close> succeeds is an argument. Each command of \<open>main\<close> is one run of the
  program, so \<open>transaction_id\<close> is 1 in every record. \<open>sscanf\<close> is modelled with its return
  value: the code compares it with 0.
\<close>

definition MAX_LINE_LEN :: nat where "MAX_LINE_LEN = 512"

record wal_fs =
  wal_log :: "string option"
  db_txt :: "string option"

definition append_file :: "string option \<Rightarrow> string \<Rightarrow> string option" where
  "append_file f s = Some (case f of None \<Rightarrow> s | Some t \<Rightarrow> t @ s)"

text \<open>The three lines of a record with \<open>transaction_id = 1\<close>.\<close>

definition wal_record :: "string \<Rightarrow> string \<Rightarrow> string" where
  "wal_record key value =
     ''TRANSACTION 1 BEGIN'' @ [newline] @ ''SET '' @ key @ '' '' @ value @ [newline] @
     ''TRANSACTION 1 COMMIT'' @ [newline]"

definition apply_transaction_to_db :: "bool \<Rightarrow> wal_fs \<Rightarrow> string \<Rightarrow> string \<Rightarrow> wal_fs" where
  "apply_transaction_to_db db_ok s key value =
     (if \<not> db_ok then s
      else s\<lparr>db_txt := append_file (db_txt s) (key @ '' '' @ value @ [newline])\<rparr>)"

definition write_wal_with_fsync :: "bool \<Rightarrow> bool \<Rightarrow> wal_fs \<Rightarrow> string \<Rightarrow> string \<Rightarrow> wal_fs" where
  "write_wal_with_fsync wal_ok db_ok s key value =
     (if \<not> wal_ok then s
      else apply_transaction_to_db db_ok (s\<lparr>wal_log := append_file (wal_log s) (wal_record key value)\<rparr>) key value)"

text \<open>The same without \<open>fsync\<close>: what a later run reads is the same unless the system crashes.\<close>

definition write_wal_without_fsync :: "bool \<Rightarrow> bool \<Rightarrow> wal_fs \<Rightarrow> string \<Rightarrow> string \<Rightarrow> wal_fs" where
  "write_wal_without_fsync wal_ok db_ok s key value =
     (if \<not> wal_ok then s
      else apply_transaction_to_db db_ok (s\<lparr>wal_log := append_file (wal_log s) (wal_record key value)\<rparr>) key value)"

definition crash_after_wal :: "bool \<Rightarrow> wal_fs \<Rightarrow> string \<Rightarrow> string \<Rightarrow> wal_fs" where
  "crash_after_wal wal_ok s key value =
     (if \<not> wal_ok then s else s\<lparr>wal_log := append_file (wal_log s) (wal_record key value)\<rparr>)"

text \<open>
  A literal of the format: \<open>Inr\<close> the rest of the input, or \<open>Inl\<close> the value \<open>sscanf\<close> returns with nothing
  assigned: 0 on a mismatch, \<open>EOF\<close> at the end of the input.
\<close>

fun match_lit :: "string \<Rightarrow> string \<Rightarrow> int + string" where
  "match_lit [] s = Inr s"
| "match_lit (c # cs) [] = Inl (-1)"
| "match_lit (c # cs) (d # s) = (if c = d then match_lit cs s else Inl 0)"

text \<open>\<^verbatim>\<open>%*d\<close>: white space, an optional sign, digits.\<close>

definition match_int :: "string \<Rightarrow> int + string" where
  "match_int s =
     (let s = skip_ws s;
          s' = (if s \<noteq> [] \<and> hd s \<in> {CHR ''-'', CHR ''+''} then tl s else s);
          d = takeWhile isdigit s'
      in if s' = [] then Inl (-1) else if d = [] then Inl 0 else Inr (drop (length d) s'))"

text \<open>\<^verbatim>\<open>sscanf(line, "TRANSACTION %*d <word>")\<close>.\<close>

definition sscanf_transaction :: "string \<Rightarrow> string \<Rightarrow> int" where
  "sscanf_transaction word line =
     (case match_lit ''TRANSACTION'' line of
        Inl r \<Rightarrow> r
      | Inr s \<Rightarrow>
          (case match_int s of
             Inl r \<Rightarrow> r
           | Inr s \<Rightarrow> (case match_lit word (skip_ws s) of Inl r \<Rightarrow> r | Inr _ \<Rightarrow> 0)))"

text \<open>\<^verbatim>\<open>sscanf(line, "SET %s %s", ...) == 2\<close> with the two words.\<close>

definition sscanf_set2 :: "string \<Rightarrow> (string \<times> string) option" where
  "sscanf_set2 line = do {
     s \<leftarrow> scan_lit ''SET'' line;
     (k, s) \<leftarrow> scan_word None s;
     (v, _) \<leftarrow> scan_word None s;
     Some (k, v) }"

text \<open>
  One round of the recovery loop over \<open>in_transaction\<close>, the current pair and what has been written
  to \<^verbatim>\<open>db.txt\<close>. Printing the pair before it was ever set is undefined: \<open>None\<close>.
\<close>

record recovery =
  in_transaction :: bool
  current :: "(string \<times> string) option"
  rec_out :: string

definition recover_line :: "recovery \<Rightarrow> string \<Rightarrow> recovery option" where
  "recover_line r line =
     (if sscanf_transaction ''BEGIN'' line = 0 then Some (r\<lparr>in_transaction := True\<rparr>)
      else
        (case sscanf_set2 line of
           Some kv \<Rightarrow> Some (r\<lparr>current := Some kv\<rparr>)
         | None \<Rightarrow>
             if sscanf_transaction ''COMMIT'' line = 0 then
               if in_transaction r then
                 (case current r of
                    None \<Rightarrow> None
                  | Some (k, v) \<Rightarrow> Some (r\<lparr>rec_out := rec_out r @ k @ '' '' @ v @ [newline], in_transaction := False\<rparr>))
               else Some r
             else Some r))"

fun recover_lines :: "recovery \<Rightarrow> string list \<Rightarrow> recovery option" where
  "recover_lines r [] = Some r"
| "recover_lines r (l # ls) = do { r \<leftarrow> recover_line r l; recover_lines r ls }"

definition recover_from_wal :: "bool \<Rightarrow> wal_fs \<Rightarrow> wal_fs option" where
  "recover_from_wal db_ok s =
     (case wal_log s of
        None \<Rightarrow> Some s
      | Some w \<Rightarrow>
          if \<not> db_ok then Some s
          else do {
            r \<leftarrow> recover_lines \<lparr>in_transaction = False, current = None, rec_out = []\<rparr> (fgets_lines MAX_LINE_LEN w);
            Some (s\<lparr>db_txt := Some (rec_out r)\<rparr>) })"

definition display_wal_and_db :: "wal_fs \<Rightarrow> string" where
  "display_wal_and_db s =
     ''===== WAL LOG ====='' @ [newline] @
     (case wal_log s of None \<Rightarrow> [] | Some w \<Rightarrow> concat (fgets_lines MAX_LINE_LEN w)) @
     [newline] @ ''===== DB CONTENTS ====='' @ [newline] @
     (case db_txt s of None \<Rightarrow> [] | Some d \<Rightarrow> concat (fgets_lines MAX_LINE_LEN d))"

datatype wal_cmd = W_write string string | W_write_nosync string string | W_crash string string
  | W_recover | W_display | W_invalid

definition wal_parse :: "string list \<Rightarrow> wal_cmd option" where
  "wal_parse argv =
     (case argv of
        (_ # command # args) \<Rightarrow> Some
          (case args of
             [k, v] \<Rightarrow>
               if command = ''write'' then W_write k v
               else if command = ''write-nosync'' then W_write_nosync k v
               else if command = ''crash-after-wal'' then W_crash k v
               else if command = ''recover'' then W_recover
               else if command = ''display'' then W_display
               else W_invalid
           | _ \<Rightarrow>
               if command = ''recover'' then W_recover
               else if command = ''display'' then W_display
               else W_invalid)
      | _ \<Rightarrow> None)"

text \<open>\<open>main\<close>: the exit status and the files after the run, when every \<open>fopen\<close> for writing succeeds.\<close>

definition wal_main :: "string list \<Rightarrow> wal_fs \<Rightarrow> (int \<times> wal_fs) option" where
  "wal_main argv s =
     (case wal_parse argv of
        None \<Rightarrow> Some (1, s)
      | Some (W_write k v) \<Rightarrow> Some (0, write_wal_with_fsync True True s k v)
      | Some (W_write_nosync k v) \<Rightarrow> Some (0, write_wal_without_fsync True True s k v)
      | Some (W_crash k v) \<Rightarrow> Some (1, crash_after_wal True s k v)
      | Some W_recover \<Rightarrow> map_option (Pair 0) (recover_from_wal True s)
      | Some W_display \<Rightarrow> Some (0, s)
      | Some W_invalid \<Rightarrow> Some (0, s))"

section \<open>Reading the log back\<close>

lemma fgets_lines_newline:
  assumes "newline \<notin> set l" and "length l + 1 < n"
  shows "fgets_lines n (l @ newline # r) = (l @ [newline]) # fgets_lines n r"
proof -
  have t: "takeWhile (\<lambda>c. c \<noteq> newline) (l @ newline # r) = l"
    using assms(1) by (subst takeWhile_append2) auto
  have "fgets_line n (l @ newline # r) = l @ [newline]"
    using assms(2) by (simp add: fgets_line_def t)
  then show ?thesis using assms(2) by (subst fgets_lines.simps) (simp add: Let_def)
qed

lemma fgets_lines_Nil [simp]: "fgets_lines n [] = []"
  by (simp add: fgets_lines.simps)

lemma fgets_line_prefix: "\<exists>r. s = fgets_line n s @ r"
proof -
  let ?t = "takeWhile (\<lambda>c. c \<noteq> newline) s" and ?d = "dropWhile (\<lambda>c. c \<noteq> newline) s"
  let ?u = "if length ?t < length s then ?t @ [newline] else ?t"
  have s: "s = ?t @ ?d" by simp
  have "\<exists>r. s = ?u @ r"
  proof (cases ?d)
    case Nil
    then have "?t = s" using s by (metis append_Nil2)
    then have "?u = s" by (simp only: less_irrefl if_False)
    then show ?thesis by (intro exI [of _ "[]"]) (simp only: append_Nil2)
  next
    case (Cons c r)
    then have "c = newline" using hd_dropWhile [of "\<lambda>c. c \<noteq> newline" s] by simp
    then have "s = ?t @ [newline] @ r" using s Cons by simp
    moreover from this have "length ?t < length s" by (metis length_append length_Cons less_add_same_cancel1 append_Cons zero_less_Suc)
    ultimately show ?thesis by auto
  qed
  then obtain r where "s = ?u @ r" ..
  then have "s = take (n - 1) ?u @ drop (n - 1) ?u @ r" by (metis append_assoc append_take_drop_id)
  then show ?thesis unfolding fgets_line_def Let_def by blast
qed

lemma concat_fgets_lines: "1 < n \<Longrightarrow> concat (fgets_lines n s) = s"
proof (induction n s rule: fgets_lines.induct)
  case (1 n s)
  show ?case
  proof (cases "s = []")
    case False
    obtain r where r: "s = fgets_line n s @ r" using fgets_line_prefix by blast
    then have d: "drop (length (fgets_line n s)) s = r" by (metis append_eq_conv_conj)
    have "concat (fgets_lines n r) = r" using "1.IH" [OF _ refl "1.prems"] False "1.prems" d by simp
    then have "concat (fgets_lines n s) = fgets_line n s @ r"
      using False "1.prems" d by (subst fgets_lines.simps) (simp add: Let_def)
    then show ?thesis using r by simp
  qed simp
qed

definition plain :: "string \<Rightarrow> string \<Rightarrow> bool" where
  "plain k v \<longleftrightarrow> newline \<notin> set k \<and> newline \<notin> set v \<and> length k + length v < 500"

lemma wal_record_lines:
  assumes "plain k v"
  shows "fgets_lines MAX_LINE_LEN (wal_record k v @ r) =
    [''TRANSACTION 1 BEGIN'' @ [newline], ''SET '' @ k @ '' '' @ v @ [newline], ''TRANSACTION 1 COMMIT'' @ [newline]] @
    fgets_lines MAX_LINE_LEN r"
proof -
  let ?s = "''SET '' @ k @ '' '' @ v"
  have b: "newline \<notin> set ''TRANSACTION 1 BEGIN''" "newline \<notin> set ''TRANSACTION 1 COMMIT''" "newline \<notin> set ?s"
    "length ?s + 1 < MAX_LINE_LEN"
    using assms by (auto simp: plain_def newline_def MAX_LINE_LEN_def)
  have "wal_record k v @ r = ''TRANSACTION 1 BEGIN'' @ newline # ?s @ newline # ''TRANSACTION 1 COMMIT'' @ newline # r"
    by (simp add: wal_record_def)
  then show ?thesis
    using fgets_lines_newline [OF b(1)] fgets_lines_newline [OF b(3,4)] fgets_lines_newline [OF b(2)]
    by (simp add: MAX_LINE_LEN_def)
qed

text \<open>Every line of a record makes the first \<open>sscanf\<close> return 0.\<close>

lemma recover_record:
  "recover_lines r ([''TRANSACTION 1 BEGIN'' @ [newline], ''SET '' @ k @ '' '' @ v @ [newline], ''TRANSACTION 1 COMMIT'' @ [newline]] @ ls)
   = recover_lines (r\<lparr>in_transaction := True\<rparr>) ls"
proof -
  have "sscanf_transaction ''BEGIN'' (''TRANSACTION 1 BEGIN'' @ [newline]) = 0"
    "sscanf_transaction ''BEGIN'' (''TRANSACTION 1 COMMIT'' @ [newline]) = 0"
    by code_simp+
  moreover have "sscanf_transaction ''BEGIN'' (''SET '' @ k @ '' '' @ v @ [newline]) = 0"
    by (simp add: sscanf_transaction_def)
  ultimately show ?thesis by (simp add: recover_line_def)
qed

lemma recover_records:
  "\<forall>(k, v)\<in>set kvs. plain k v \<Longrightarrow> r\<lparr>in_transaction := True\<rparr> = r \<or> kvs \<noteq> [] \<Longrightarrow>
   recover_lines r (fgets_lines MAX_LINE_LEN (concat (map (\<lambda>(k, v). wal_record k v) kvs))) =
   Some (r\<lparr>in_transaction := True\<rparr>)"
proof (induction kvs arbitrary: r)
  case (Cons kv kvs)
  obtain k v where kv: "kv = (k, v)" by fastforce
  then have p: "plain k v" using Cons.prems by auto
  have "recover_lines (r\<lparr>in_transaction := True\<rparr>) (fgets_lines MAX_LINE_LEN (concat (map (\<lambda>(k, v). wal_record k v) kvs))) =
      Some (r\<lparr>in_transaction := True\<rparr>)"
    using Cons.IH [of "r\<lparr>in_transaction := True\<rparr>"] Cons.prems(1) by simp
  then show ?case using recover_record [of r k v] wal_record_lines [OF p] by (simp add: kv)
qed simp


lemma writes_files:
  "fold (\<lambda>(k, v) s. write_wal_with_fsync True True s k v) kvs \<lparr>wal_log = Some w, db_txt = Some d\<rparr> =
   \<lparr>wal_log = Some (w @ concat (map (\<lambda>(k, v). wal_record k v) kvs)),
    db_txt = Some (d @ concat (map (\<lambda>(k, v). k @ '' '' @ v @ [newline]) kvs))\<rparr>"
  by (induction kvs arbitrary: w d)
     (auto simp: write_wal_with_fsync_def apply_transaction_to_db_def append_file_def)

lemma recover_log:
  assumes "wal_log s = Some (concat (map (\<lambda>(k, v). wal_record k v) kvs))" and "\<forall>(k, v)\<in>set kvs. plain k v" and "kvs \<noteq> []"
  shows "recover_from_wal True s = Some (s\<lparr>db_txt := Some []\<rparr>)"
  using recover_records [OF assms(2), of "\<lparr>in_transaction = False, current = None, rec_out = []\<rparr>"] assms(1,3)
  by (simp add: recover_from_wal_def)

section \<open>Properties\<close>

text \<open>C32: A sequence of writes logs every pair as a committed transaction and appends it to the database; but
  recovery from that log then empties the database. The test \<open>sscanf(...) == 0\<close> of the first branch
  holds for every line of a record, so no pair is ever restored.\<close>

theorem wal_recovery_empties_db:
  assumes "\<forall>(k, v)\<in>set kvs. newline \<notin> set k \<and> newline \<notin> set v \<and> length k + length v < 500" and "kvs \<noteq> []"
  defines "s \<equiv> fold (\<lambda>(k, v) s. write_wal_with_fsync True True s k v) kvs \<lparr>wal_log = Some [], db_txt = Some []\<rparr>"
  shows "wal_log s = Some (concat (map (\<lambda>(k, v). wal_record k v) kvs)) \<and>
    db_txt s = Some (concat (map (\<lambda>(k, v). k @ '' '' @ v @ [newline]) kvs)) \<and>
    recover_from_wal True s = Some (s\<lparr>db_txt := Some []\<rparr>)"
proof -
  have w: "wal_log s = Some (concat (map (\<lambda>(k, v). wal_record k v) kvs))"
    "db_txt s = Some (concat (map (\<lambda>(k, v). k @ '' '' @ v @ [newline]) kvs))"
    unfolding s_def writes_files by simp_all
  moreover have "\<forall>(k, v)\<in>set kvs. plain k v" using assms(1) by (auto simp: plain_def)
  ultimately show ?thesis using recover_log [OF w(1) _ assms(2)] by blast
qed

theorem wal_recovery_empties_db_witness:
  "let s = fold (\<lambda>(k, v) s. write_wal_with_fsync True True s k v) [(''x'', ''1''), (''y'', ''2'')]
     \<lparr>wal_log = Some [], db_txt = Some []\<rparr>
   in wal_log s = Some (concat (map (\<lambda>(k, v). wal_record k v) [(''x'', ''1''), (''y'', ''2'')])) \<and>
    db_txt s = Some (concat (map (\<lambda>(k, v). k @ '' '' @ v @ [newline]) [(''x'', ''1''), (''y'', ''2'')])) \<and>
    recover_from_wal True s = Some (s\<lparr>db_txt := Some []\<rparr>)"
  unfolding Let_def by (rule wal_recovery_empties_db) (auto simp: newline_def)

end
