(* ===== verification/Futex_Queue.thy ===== *)
theory Futex_Queue
  imports GT_Prelude
begin

text \<open>
  The bounded queue of \<^verbatim>\<open>src/bounded-producer-consumer-queue.c\<close>: a ring buffer under a mutex, with
  two futex words as wait flags. A step is what one thread does between two points where another
  can run: a critical section, or the call of \<open>futex_wait\<close> between two of them. Threads 0 and
  1 are the producers, 2 and 3 the consumers. \<open>futex_wait\<close> blocks only if the word is still 1;
  \<open>futex_wake\<close> wakes one blocked thread, which one is an argument of the step.
\<close>

definition BUFFER_SIZE :: nat where "BUFFER_SIZE = 5"
definition NUM_PRODUCERS :: nat where "NUM_PRODUCERS = 2"
definition NUM_CONSUMERS :: nat where "NUM_CONSUMERS = 2"
definition ITEMS_TO_PRODUCE :: nat where "ITEMS_TO_PRODUCE = 5"

text \<open>\<open>At i\<close>: before the critical section of item \<open>i\<close>; \<open>Wants i\<close>: about to call \<open>futex_wait\<close>.\<close>

datatype pc = At nat | Wants nat | Blocked nat

record queue =
  q_buffer :: "int list"
  q_in :: nat
  q_out :: nat
  q_count :: nat
  not_full :: bool
  not_empty :: bool
  q_pc :: "pc list"
  q_produced :: "(nat \<times> int) list"
  q_consumed :: "(nat \<times> int) list"

definition queue_init :: queue where
  "queue_init = \<lparr>q_buffer = replicate BUFFER_SIZE 0, q_in = 0, q_out = 0, q_count = 0, not_full = False,
     not_empty = False, q_pc = replicate (NUM_PRODUCERS + NUM_CONSUMERS) (At 0), q_produced = [], q_consumed = []\<rparr>"

definition is_producer :: "nat \<Rightarrow> bool" where
  "is_producer t \<longleftrightarrow> t < NUM_PRODUCERS"

definition is_blocked :: "pc \<Rightarrow> bool" where
  "is_blocked p \<longleftrightarrow> (case p of Blocked _ \<Rightarrow> True | _ \<Rightarrow> False)"

definition waiters :: "queue \<Rightarrow> bool \<Rightarrow> nat list" where
  "waiters s producers =
     filter (\<lambda>t. is_producer t = producers \<and> is_blocked (q_pc s ! t)) [0..<NUM_PRODUCERS + NUM_CONSUMERS]"

text \<open>\<open>futex_wake(addr, 1)\<close> on the producers' or the consumers' word; \<open>w\<close> must be a waiter if there is one.\<close>

definition futex_wake :: "queue \<Rightarrow> bool \<Rightarrow> nat \<Rightarrow> queue option" where
  "futex_wake s producers w =
     (if waiters s producers = [] then Some s
      else if w \<in> set (waiters s producers) then
        (case q_pc s ! w of Blocked i \<Rightarrow> Some (s\<lparr>q_pc := (q_pc s)[w := At i]\<rparr>) | _ \<Rightarrow> None)
      else None)"

definition futex_wait :: "queue \<Rightarrow> bool \<Rightarrow> nat \<Rightarrow> nat \<Rightarrow> queue" where
  "futex_wait s producers t i =
     (if (if producers then not_full s else not_empty s) then s\<lparr>q_pc := (q_pc s)[t := Blocked i]\<rparr>
      else s\<lparr>q_pc := (q_pc s)[t := At i]\<rparr>)"

definition producer_section :: "queue \<Rightarrow> nat \<Rightarrow> nat \<Rightarrow> nat \<Rightarrow> queue option" where
  "producer_section s t i w =
     (if q_count s = BUFFER_SIZE then Some (s\<lparr>not_full := True, q_pc := (q_pc s)[t := Wants i]\<rparr>)
      else
        let item = int i + 1;
            s = s\<lparr>q_buffer := (q_buffer s)[q_in s := item], q_in := (q_in s + 1) mod BUFFER_SIZE,
                  q_count := q_count s + 1, q_produced := q_produced s @ [(t, item)],
                  q_pc := (q_pc s)[t := At (i + 1)]\<rparr>
        in if not_empty s then futex_wake (s\<lparr>not_empty := False\<rparr>) False w else Some s)"

definition consumer_section :: "queue \<Rightarrow> nat \<Rightarrow> nat \<Rightarrow> nat \<Rightarrow> queue option" where
  "consumer_section s t i w =
     (if q_count s = 0 then Some (s\<lparr>not_empty := True, q_pc := (q_pc s)[t := Wants i]\<rparr>)
      else
        let item = q_buffer s ! q_out s;
            s = s\<lparr>q_out := (q_out s + 1) mod BUFFER_SIZE, q_count := q_count s - 1,
                  q_consumed := q_consumed s @ [(t, item)], q_pc := (q_pc s)[t := At (i + 1)]\<rparr>
        in if not_full s then futex_wake (s\<lparr>not_full := False\<rparr>) True w else Some s)"

definition queue_step :: "nat \<Rightarrow> nat \<Rightarrow> queue \<Rightarrow> queue option" where
  "queue_step t w s =
     (if t \<ge> NUM_PRODUCERS + NUM_CONSUMERS then None
      else
        (case q_pc s ! t of
           At i \<Rightarrow>
             if i \<ge> ITEMS_TO_PRODUCE then None
             else if is_producer t then producer_section s t i w
             else consumer_section s t i w
         | Wants i \<Rightarrow> Some (futex_wait s (is_producer t) t i)
         | Blocked i \<Rightarrow> None))"

inductive queue_reach :: "queue \<Rightarrow> bool" where
  queue_start: "queue_reach queue_init"
| queue_next: "queue_reach s \<Longrightarrow> queue_step t w s = Some s' \<Longrightarrow> queue_reach s'"

fun queue_run :: "(nat \<times> nat) list \<Rightarrow> queue \<Rightarrow> queue option" where
  "queue_run [] s = Some s"
| "queue_run ((t, w) # ts) s = Option.bind (queue_step t w s) (queue_run ts)"

text \<open>\<open>main\<close> returns when the four joined threads have finished.\<close>

definition all_done :: "queue \<Rightarrow> bool" where
  "all_done s \<longleftrightarrow> (\<forall>p\<in>set (q_pc s). p = At ITEMS_TO_PRODUCE)"

section \<open>The queue is a FIFO\<close>

definition contents :: "queue \<Rightarrow> int list" where
  "contents s = map (\<lambda>j. q_buffer s ! ((q_out s + j) mod BUFFER_SIZE)) [0..<q_count s]"

definition ring_ok :: "queue \<Rightarrow> bool" where
  "ring_ok s \<longleftrightarrow> length (q_buffer s) = BUFFER_SIZE \<and> q_out s < BUFFER_SIZE \<and> q_count s \<le> BUFFER_SIZE \<and>
     q_in s = (q_out s + q_count s) mod BUFFER_SIZE"

definition pc_item :: "pc \<Rightarrow> nat" where
  "pc_item p = (case p of At i \<Rightarrow> i | Wants i \<Rightarrow> i | Blocked i \<Rightarrow> i)"

lemma pc_item_simps [simp]: "pc_item (At i) = i" "pc_item (Wants i) = i" "pc_item (Blocked i) = i"
  by (simp_all add: pc_item_def)

text \<open>What each producer has produced so far, in order.\<close>

definition produced_by :: "queue \<Rightarrow> nat \<Rightarrow> int list" where
  "produced_by s t = map snd (filter (\<lambda>(u, _). u = t) (q_produced s))"

definition queue_inv :: "queue \<Rightarrow> bool" where
  "queue_inv s \<longleftrightarrow> ring_ok s \<and> length (q_pc s) = NUM_PRODUCERS + NUM_CONSUMERS \<and>
     map snd (q_produced s) = map snd (q_consumed s) @ contents s \<and>
     (\<forall>t<NUM_PRODUCERS. produced_by s t = map (\<lambda>i. int i + 1) [0..<pc_item (q_pc s ! t)])"

lemma futex_wake_pc:
  "futex_wake s b w = Some s' \<Longrightarrow> \<exists>pcs. s' = s\<lparr>q_pc := pcs\<rparr> \<and> length pcs = length (q_pc s) \<and>
     (\<forall>t. pc_item (pcs ! t) = pc_item (q_pc s ! t))"
proof -
  assume a: "futex_wake s b w = Some s'"
  show ?thesis
  proof (cases "waiters s b = []")
    case True
    then show ?thesis using a by (intro exI [of _ "q_pc s"]) (simp add: futex_wake_def)
  next
    case False
    then obtain i where i: "q_pc s ! w = Blocked i" "s' = s\<lparr>q_pc := (q_pc s)[w := At i]\<rparr>"
      using a by (auto simp: futex_wake_def split: if_splits pc.splits)
    moreover have "pc_item ((q_pc s)[w := At i] ! t) = pc_item (q_pc s ! t)" for t
      using i(1) by (cases "w < length (q_pc s)"; cases "t = w") (simp_all add: pc_item_def list_update_beyond)
    ultimately show ?thesis by (intro exI [of _ "(q_pc s)[w := At i]"]) simp
  qed
qed

lemma ring_slot_inj:
  "j < BUFFER_SIZE \<Longrightarrow> n < BUFFER_SIZE \<Longrightarrow> j \<noteq> n \<Longrightarrow> o1 < BUFFER_SIZE \<Longrightarrow> (o1 + j) mod BUFFER_SIZE \<noteq> (o1 + n) mod BUFFER_SIZE"
proof -
  have m: "x mod BUFFER_SIZE = (if x < 5 then x else x - 5)" if "x < 10" for x
    using that unfolding BUFFER_SIZE_def by presburger
  assume "j < BUFFER_SIZE" "n < BUFFER_SIZE" "j \<noteq> n" "o1 < BUFFER_SIZE"
  then show ?thesis using m [of "o1 + j"] m [of "o1 + n"] by (auto simp: BUFFER_SIZE_def split: if_splits)
qed

lemma contents_put:
  assumes "ring_ok s" and "q_count s < BUFFER_SIZE"
    and "q_buffer s' = (q_buffer s)[q_in s := x]" and "q_out s' = q_out s" and "q_count s' = q_count s + 1"
  shows "contents s' = contents s @ [x]"
proof -
  have i: "q_in s = (q_out s + q_count s) mod BUFFER_SIZE" "q_in s < length (q_buffer s)"
    using assms(1) by (simp_all add: ring_ok_def BUFFER_SIZE_def)
  have "map (\<lambda>j. q_buffer s' ! ((q_out s + j) mod BUFFER_SIZE)) [0..<q_count s] = contents s"
    unfolding contents_def
  proof (rule map_cong [OF refl])
    fix j assume "j \<in> set [0..<q_count s]"
    then have "(q_out s + j) mod BUFFER_SIZE \<noteq> q_in s"
      using ring_slot_inj [of j "q_count s" "q_out s"] assms(1,2) i(1) by (auto simp: ring_ok_def)
    then show "q_buffer s' ! ((q_out s + j) mod BUFFER_SIZE) = q_buffer s ! ((q_out s + j) mod BUFFER_SIZE)"
      using assms(3) by simp
  qed
  then show ?thesis using assms(3-5) i by (simp add: contents_def)
qed

lemma contents_get:
  assumes "ring_ok s" and "0 < q_count s" and "q_buffer s' = q_buffer s"
    and "q_out s' = (q_out s + 1) mod BUFFER_SIZE" and "q_count s' = q_count s - 1"
  shows "contents s = q_buffer s ! q_out s # contents s'"
proof -
  obtain n where n: "q_count s = Suc n" using assms(2) gr0_implies_Suc by blast
  have shift: "(Suc (q_out s) mod BUFFER_SIZE + j) mod BUFFER_SIZE = (q_out s + Suc j) mod BUFFER_SIZE" for j
    by (simp add: mod_add_left_eq [of "Suc (q_out s)" BUFFER_SIZE j])
  have "[0..<Suc n] = 0 # map Suc [0..<n]" by (simp only: upt_conv_Cons map_Suc_upt zero_less_Suc)
  then show ?thesis using assms n
    by (simp add: contents_def ring_ok_def shift o_def del: upt_Suc)
qed


text \<open>The fields the invariant depends on, apart from the control points.\<close>

lemma queue_inv_pc:
  "queue_inv s \<Longrightarrow> length pcs = length (q_pc s) \<Longrightarrow> (\<And>t. t < NUM_PRODUCERS \<Longrightarrow> pc_item (pcs ! t) = pc_item (q_pc s ! t)) \<Longrightarrow>
   queue_inv (s\<lparr>q_pc := pcs\<rparr>)"
  by (simp add: queue_inv_def ring_ok_def contents_def produced_by_def)

lemma queue_inv_flags [simp]:
  "queue_inv (s\<lparr>not_full := b\<rparr>) = queue_inv s" "queue_inv (s\<lparr>not_empty := b\<rparr>) = queue_inv s"
  by (simp_all add: queue_inv_def ring_ok_def contents_def produced_by_def)

lemma pc_item_same:
  "q_pc s ! t = p \<Longrightarrow> pc_item p = pc_item p' \<Longrightarrow> pc_item ((q_pc s)[t := p'] ! u) = pc_item (q_pc s ! u)"
  by (cases "t < length (q_pc s)"; cases "u = t") (simp_all add: list_update_beyond)

lemma futex_wake_inv:
  assumes "futex_wake s b w = Some s'" and "queue_inv s"
  shows "queue_inv s'"
proof -
  obtain pcs where "s' = s\<lparr>q_pc := pcs\<rparr>" "length pcs = length (q_pc s)" "\<forall>t. pc_item (pcs ! t) = pc_item (q_pc s ! t)"
    using futex_wake_pc [OF assms(1)] by blast
  then show ?thesis using queue_inv_pc [OF assms(2)] by simp
qed

lemma producer_section_inv:
  assumes "queue_inv s" and "q_pc s ! t = At i" and "t < NUM_PRODUCERS" and "producer_section s t i w = Some s'"
  shows "queue_inv s'"
proof (cases "q_count s = BUFFER_SIZE")
  case True
  have "queue_inv (s\<lparr>q_pc := (q_pc s)[t := Wants i]\<rparr>)"
    by (rule queue_inv_pc [OF assms(1)]) (simp_all add: pc_item_same [OF assms(2)])
  then have "queue_inv (s\<lparr>q_pc := (q_pc s)[t := Wants i], not_full := True\<rparr>)" by simp
  moreover have "s' = s\<lparr>q_pc := (q_pc s)[t := Wants i], not_full := True\<rparr>"
    using assms(4) True by (auto simp: producer_section_def)
  ultimately show ?thesis by simp
next
  case False
  define s1 where "s1 = s\<lparr>q_buffer := (q_buffer s)[q_in s := int i + 1], q_in := (q_in s + 1) mod BUFFER_SIZE,
    q_count := q_count s + 1, q_produced := q_produced s @ [(t, int i + 1)], q_pc := (q_pc s)[t := At (i + 1)]\<rparr>"
  have r: "ring_ok s" "length (q_pc s) = NUM_PRODUCERS + NUM_CONSUMERS" using assms(1) by (simp_all add: queue_inv_def)
  then have c: "q_count s < BUFFER_SIZE" using False by (simp add: ring_ok_def)
  have "contents s1 = contents s @ [int i + 1]"
    by (rule contents_put [OF r(1) c]) (simp_all add: s1_def)
  moreover have "ring_ok s1" using r c by (simp add: ring_ok_def s1_def mod_Suc_eq)
  moreover have "produced_by s1 u = map (\<lambda>i. int i + 1) [0..<pc_item (q_pc s1 ! u)]" if "u < NUM_PRODUCERS" for u
    using assms(1-3) r(2) that by (auto simp: queue_inv_def produced_by_def s1_def pc_item_def)
  ultimately have "queue_inv s1" using assms(1) by (simp add: queue_inv_def) (simp add: s1_def)
  moreover have "s' = s1 \<or> futex_wake (s1\<lparr>not_empty := False\<rparr>) False w = Some s'"
    using assms(4) False unfolding producer_section_def Let_def s1_def [symmetric] by (auto split: if_splits)
  ultimately show ?thesis using futex_wake_inv by auto
qed

lemma consumer_section_inv:
  assumes "queue_inv s" and "q_pc s ! t = At i" and "\<not> t < NUM_PRODUCERS" and "consumer_section s t i w = Some s'"
  shows "queue_inv s'"
proof (cases "q_count s = 0")
  case True
  have "queue_inv (s\<lparr>q_pc := (q_pc s)[t := Wants i]\<rparr>)"
    by (rule queue_inv_pc [OF assms(1)]) (simp_all add: pc_item_same [OF assms(2)])
  then have "queue_inv (s\<lparr>q_pc := (q_pc s)[t := Wants i], not_empty := True\<rparr>)" by simp
  moreover have "s' = s\<lparr>q_pc := (q_pc s)[t := Wants i], not_empty := True\<rparr>"
    using assms(4) True by (auto simp: consumer_section_def)
  ultimately show ?thesis by simp
next
  case False
  define s1 where "s1 = s\<lparr>q_out := (q_out s + 1) mod BUFFER_SIZE, q_count := q_count s - 1,
    q_consumed := q_consumed s @ [(t, q_buffer s ! q_out s)], q_pc := (q_pc s)[t := At (i + 1)]\<rparr>"
  have r: "ring_ok s" using assms(1) by (simp add: queue_inv_def)
  have "contents s = q_buffer s ! q_out s # contents s1"
    by (rule contents_get [OF r]) (use False in \<open>simp_all add: s1_def\<close>)
  moreover have "ring_ok s1"
  proof -
    obtain n where n: "q_count s = Suc n" using False not0_implies_Suc by blast
    have "(Suc (q_out s) mod BUFFER_SIZE + n) mod BUFFER_SIZE = (q_out s + Suc n) mod BUFFER_SIZE"
      by (simp add: mod_add_left_eq [of "Suc (q_out s)" BUFFER_SIZE n])
    then show ?thesis using r n by (simp add: ring_ok_def s1_def BUFFER_SIZE_def)
  qed
  moreover have "produced_by s1 u = map (\<lambda>i. int i + 1) [0..<pc_item (q_pc s1 ! u)]" if "u < NUM_PRODUCERS" for u
    using assms(1,3) that by (auto simp: queue_inv_def produced_by_def s1_def)
  ultimately have "queue_inv s1" using assms(1) by (simp add: queue_inv_def) (simp add: s1_def)
  moreover have "s' = s1 \<or> futex_wake (s1\<lparr>not_full := False\<rparr>) True w = Some s'"
    using assms(4) False unfolding consumer_section_def Let_def s1_def [symmetric] by (auto split: if_splits)
  ultimately show ?thesis using futex_wake_inv by auto
qed

lemma futex_wait_inv:
  assumes "queue_inv s" and "q_pc s ! t = Wants i"
  shows "queue_inv (futex_wait s b t i)"
  unfolding futex_wait_def using assms
  by (auto intro!: queue_inv_pc simp: pc_item_same [OF assms(2)])

lemma queue_step_inv: "queue_step t w s = Some s' \<Longrightarrow> queue_inv s \<Longrightarrow> queue_inv s'"
  using producer_section_inv [of s t _ w s'] consumer_section_inv [of s t _ w s'] futex_wait_inv [of s t]
  by (auto simp: queue_step_def is_producer_def split: if_splits pc.splits)

lemma queue_reach_inv: "queue_reach s \<Longrightarrow> queue_inv s"
proof (induction rule: queue_reach.induct)
  case queue_start
  show ?case
    by (auto simp: queue_inv_def ring_ok_def queue_init_def contents_def produced_by_def pc_item_def BUFFER_SIZE_def)
qed (rule queue_step_inv)

lemma queue_run_reach: "queue_reach s \<Longrightarrow> queue_run ts s = Some s' \<Longrightarrow> queue_reach s'"
proof (induction ts arbitrary: s)
  case (Cons p ts)
  obtain t w where p: "p = (t, w)" by fastforce
  with Cons.prems(2) obtain s1 where "queue_step t w s = Some s1" "queue_run ts s1 = Some s'"
    by (auto simp: bind_eq_Some_conv)
  then show ?case using Cons.IH queue_next [OF Cons.prems(1)] by blast
qed simp

section \<open>Properties\<close>

text \<open>C15: In every interleaving the ring buffer is a FIFO queue: the items consumed so far followed by the
  items in the buffer are the items produced so far in order; at most \<open>BUFFER_SIZE\<close> are buffered; and
  each producer's items are 1, 2, 3, \<dots>\<close>

theorem queue_fifo:
  assumes "queue_reach s"
  shows "map snd (q_produced s) = map snd (q_consumed s) @ contents s \<and> length (contents s) \<le> BUFFER_SIZE \<and>
    (\<forall>t<NUM_PRODUCERS. produced_by s t = map (\<lambda>i. int i + 1) [0..<pc_item (q_pc s ! t)])"
  using queue_reach_inv [OF assms] by (simp add: queue_inv_def ring_ok_def contents_def)

theorem queue_fifo_witness:
  "\<exists>s. queue_run [(2, 0), (2, 0), (0, 2), (2, 0), (2, 0), (1, 0), (0, 0)] queue_init = Some s \<and>
    map snd (q_produced s) = map snd (q_consumed s) @ contents s \<and> length (contents s) \<le> BUFFER_SIZE \<and>
    produced_by s 0 = map (\<lambda>i. int i + 1) [0..<pc_item (q_pc s ! 0)]"
proof -
  define s where "s = the (queue_run [(2, 0), (2, 0), (0, 2), (2, 0), (2, 0), (1, 0), (0, 0)] queue_init)"
  have run: "queue_run [(2, 0), (2, 0), (0, 2), (2, 0), (2, 0), (1, 0), (0, 0)] queue_init = Some s"
    unfolding s_def by code_simp
  have "0 < NUM_PRODUCERS" by (simp add: NUM_PRODUCERS_def)
  then show ?thesis using queue_fifo [OF queue_run_reach [OF queue_start run]] run by blast
qed

text \<open>
  A schedule: both consumers find the queue empty and block; the first item produced clears the flag
  and wakes one of them, so no later item wakes the other.
\<close>

definition lost_wakeup_schedule :: "(nat \<times> nat) list" where
  "lost_wakeup_schedule = [(2, 0), (2, 0), (3, 0), (3, 0), (0, 2), (1, 0), (2, 0), (2, 0), (0, 0), (1, 0), (2, 0), (2, 0),
     (0, 0), (2, 0), (1, 0), (0, 0), (1, 0), (0, 0), (1, 0)]"

text \<open>The wait flags lose wake-ups: there is an interleaving after which no thread can take a step although
  one consumer has not finished, with a full buffer in front of it; \<open>main\<close> then never returns.\<close>

theorem queue_lost_wakeup:
  "\<exists>s. queue_reach s \<and> (\<forall>t w. queue_step t w s = None) \<and> \<not> all_done s \<and> q_count s = BUFFER_SIZE"
proof -
  define s where "s = the (queue_run lost_wakeup_schedule queue_init)"
  have run: "queue_run lost_wakeup_schedule queue_init = Some s" and
    pcs: "q_pc s = [At 5, At 5, At 5, Blocked 0]" and cnt: "q_count s = BUFFER_SIZE"
    unfolding s_def by code_simp+
  have "queue_step t w s = None" for t w
    unfolding queue_step_def pcs
    by (auto simp: NUM_PRODUCERS_def NUM_CONSUMERS_def ITEMS_TO_PRODUCE_def nth_Cons' numeral_eq_Suc less_Suc_eq)
  moreover have "\<not> all_done s" by (simp add: all_done_def pcs)
  ultimately show ?thesis using queue_run_reach [OF queue_start run] cnt by blast
qed

end
