(* ===== verification/Thread_Runs.thy ===== *)
theory Thread_Runs
  imports GT_Prelude
begin

text \<open>
  The contract of programs whose threads all run to their end: an invariant that every step keeps, a
  step whenever some thread has not finished, and a bound on the work left that every step lowers. What
  follows from it, that every run is finite and every run that cannot go on has finished, is proved
  once and used by the thread programs.
\<close>

locale thread_runs =
  fixes step :: "'s \<Rightarrow> 's \<Rightarrow> bool"
    and inv :: "'s \<Rightarrow> bool"
    and finished :: "'s \<Rightarrow> bool"
    and work :: "'s \<Rightarrow> nat"
  assumes inv_step: "inv s \<Longrightarrow> step s s' \<Longrightarrow> inv s'"
    and progress: "inv s \<Longrightarrow> \<not> finished s \<Longrightarrow> \<exists>s'. step s s'"
    and work_less: "inv s \<Longrightarrow> step s s' \<Longrightarrow> work s' < work s"
begin

lemma run_bound: "(step ^^ n) s s' \<Longrightarrow> inv s \<Longrightarrow> inv s' \<and> n + work s' \<le> work s"
proof (induction n arbitrary: s')
  case (Suc n)
  then obtain u where "inv u" "n + work u \<le> work s" "step u s'" by auto
  then show ?case using inv_step [of u s'] work_less [of u s'] by auto
qed simp

lemma run_length: "(step ^^ n) s s' \<Longrightarrow> inv s \<Longrightarrow> n \<le> work s"
  using run_bound [of n s s'] by simp

lemma run_inv: "(step ^^ n) s s' \<Longrightarrow> inv s \<Longrightarrow> inv s'"
  using run_bound [of n s s'] by simp

text \<open>Some run finishes, so that the bound is not an empty promise.\<close>

lemma run_finishes: "inv s \<Longrightarrow> \<exists>n s'. (step ^^ n) s s' \<and> finished s'"
proof (induction "work s" arbitrary: s rule: less_induct)
  case less
  show ?case
  proof (cases "finished s")
    case True
    then have "(step ^^ 0) s s \<and> finished s" by simp
    then show ?thesis by blast
  next
    case False
    then obtain u where u: "step s u" using progress less.prems by blast
    then obtain n s' where "(step ^^ n) u s'" "finished s'"
      using less.hyps [OF work_less [OF less.prems u]] inv_step [OF less.prems u] by blast
    then show ?thesis using relpowp_Suc_I2 [of step s u n s'] u by blast
  qed
qed

end

text \<open>The work of a list of threads goes down when one of them does a step.\<close>

lemma sum_list_update_less:
  fixes f :: "'a \<Rightarrow> nat"
  assumes "i < length xs" and "f x < f (xs ! i)"
  shows "sum_list (map f (xs[i := x])) < sum_list (map f xs)"
proof -
  have "xs = take i xs @ xs ! i # drop (Suc i) xs" using assms(1) by (simp add: id_take_nth_drop)
  then have "sum_list (map f xs) = sum_list (map f (take i xs)) + f (xs ! i) + sum_list (map f (drop (Suc i) xs))"
    by (metis (no_types, lifting) add.assoc list.simps(9) map_append sum_list.Cons sum_list.append)
  then show ?thesis using assms by (simp add: upd_conv_take_nth_drop)
qed

end
