(* ===== verification/Cond_Buffer.thy ===== *)
theory Cond_Buffer
  imports Thread_Runs
begin

text \<open>
  The producer and the consumer of \<^verbatim>\<open>src/threads-buffer-w-p&c.c\<close>, which share a stack of five
  numbers under a mutex and two condition variables. A step is one critical section; a thread in
  \<open>pthread_cond_wait\<close> goes back to the test of its loop when it is signalled or wakes up
  spuriously.
\<close>

definition CB_SIZE :: nat where "CB_SIZE = 5"

text \<open>The loop variable \<open>i\<close> of a thread, with the information whether it waits on its condition.\<close>

datatype cb_pc = Running nat | Waiting nat

record cbuf =
  cb_buffer :: "int list"
  cb_count :: nat
  cb_prod :: cb_pc
  cb_cons :: cb_pc
  cb_out :: "int list"

definition cb_init :: cbuf where
  "cb_init = \<lparr>cb_buffer = replicate CB_SIZE 0, cb_count = 0, cb_prod = Running 1, cb_cons = Running 0, cb_out = []\<rparr>"

definition signal :: "cb_pc \<Rightarrow> cb_pc" where
  "signal p = (case p of Waiting i \<Rightarrow> Running i | Running i \<Rightarrow> Running i)"

definition producer_step :: "cbuf \<Rightarrow> cbuf option" where
  "producer_step s =
     (case cb_prod s of
        Waiting i \<Rightarrow> None
      | Running i \<Rightarrow>
          if i > 10 then None
          else if cb_count s = CB_SIZE then Some (s\<lparr>cb_prod := Waiting i\<rparr>)
          else Some (s\<lparr>cb_buffer := (cb_buffer s)[cb_count s := int i], cb_count := cb_count s + 1,
                       cb_cons := signal (cb_cons s), cb_prod := Running (i + 1)\<rparr>))"

definition consumer_step :: "cbuf \<Rightarrow> cbuf option" where
  "consumer_step s =
     (case cb_cons s of
        Waiting i \<Rightarrow> None
      | Running i \<Rightarrow>
          if i \<ge> 10 then None
          else if cb_count s = 0 then Some (s\<lparr>cb_cons := Waiting i\<rparr>)
          else Some (s\<lparr>cb_out := cb_out s @ [cb_buffer s ! (cb_count s - 1)], cb_count := cb_count s - 1,
                       cb_prod := signal (cb_prod s), cb_cons := Running (i + 1)\<rparr>))"

inductive cb_reach :: "cbuf \<Rightarrow> bool" where
  cb_start: "cb_reach cb_init"
| cb_produce: "cb_reach s \<Longrightarrow> producer_step s = Some s' \<Longrightarrow> cb_reach s'"
| cb_consume: "cb_reach s \<Longrightarrow> consumer_step s = Some s' \<Longrightarrow> cb_reach s'"
| cb_spurious: "cb_reach s \<Longrightarrow> cb_reach (s\<lparr>cb_prod := signal (cb_prod s), cb_cons := signal (cb_cons s)\<rparr>)"

definition cb_finished :: "cbuf \<Rightarrow> bool" where
  "cb_finished s \<longleftrightarrow> cb_prod s = Running 11 \<and> cb_cons s = Running 10"

section \<open>The invariant\<close>

definition cb_i :: "cb_pc \<Rightarrow> nat" where
  "cb_i p = (case p of Running i \<Rightarrow> i | Waiting i \<Rightarrow> i)"

text \<open>The numbers produced before \<open>n\<close>.\<close>

definition made :: "nat \<Rightarrow> int multiset" where
  "made n = mset (map int [1..<n])"

lemma made_Suc: "1 \<le> n \<Longrightarrow> made (Suc n) = add_mset (int n) (made n)"
  by (simp add: made_def)

lemma made_1: "made (Suc 0) = {#}"
  by (simp add: made_def)

definition cb_inv :: "cbuf \<Rightarrow> bool" where
  "cb_inv s \<longleftrightarrow> length (cb_buffer s) = CB_SIZE \<and> cb_count s \<le> CB_SIZE \<and>
     1 \<le> cb_i (cb_prod s) \<and> cb_i (cb_prod s) \<le> 11 \<and> cb_i (cb_cons s) \<le> 10 \<and>
     cb_i (cb_prod s) = 1 + cb_i (cb_cons s) + cb_count s \<and>
     (\<forall>i. cb_prod s = Waiting i \<longrightarrow> cb_count s = CB_SIZE \<and> i < 11) \<and>
     (\<forall>i. cb_cons s = Waiting i \<longrightarrow> cb_count s = 0 \<and> i < 10) \<and>
     mset (cb_out s) + mset (take (cb_count s) (cb_buffer s)) = made (cb_i (cb_prod s))"

lemma cb_i_simps [simp]: "cb_i (Running i) = i" "cb_i (Waiting i) = i" "cb_i (signal p) = cb_i p"
  by (simp_all add: cb_i_def signal_def split: cb_pc.split)

lemma signal_simps [simp]: "signal p \<noteq> Waiting i" "signal (Running i) = Running i" "signal (Waiting i) = Running i"
  by (simp_all add: signal_def split: cb_pc.split)

lemma producer_step_inv: "producer_step s = Some s' \<Longrightarrow> cb_inv s \<Longrightarrow> cb_inv s'"
  by (cases "cb_prod s")
     (auto simp: producer_step_def cb_inv_def take_Suc_conv_app_nth made_Suc split: if_splits)

lemma consumer_step_inv:
  assumes "consumer_step s = Some s'" and "cb_inv s"
  shows "cb_inv s'"
proof -
  obtain i where i: "cb_cons s = Running i" "\<not> i \<ge> 10"
    using assms(1) by (auto simp: consumer_step_def split: cb_pc.splits if_splits)
  show ?thesis
  proof (cases "cb_count s")
    case 0
    then show ?thesis using assms i by (auto simp: consumer_step_def cb_inv_def)
  next
    case (Suc n)
    then have t: "take (cb_count s) (cb_buffer s) = take n (cb_buffer s) @ [cb_buffer s ! n]"
      using assms(2) by (simp add: cb_inv_def take_Suc_conv_app_nth)
    show ?thesis using assms i Suc t by (auto simp: consumer_step_def cb_inv_def)
  qed
qed

lemma cb_reach_inv: "cb_reach s \<Longrightarrow> cb_inv s"
proof (induction rule: cb_reach.induct)
  case (cb_spurious s)
  then show ?case by (auto simp: cb_inv_def)
next
  case cb_start
  show ?case by (simp add: cb_inv_def cb_init_def made_1)
qed (auto simp: producer_step_inv consumer_step_inv)

section \<open>Every run ends\<close>

text \<open>A step of either thread, and a bound on the number of steps left: an item moved counts three, a thread
  that can run counts one.\<close>

definition cb_step :: "cbuf \<Rightarrow> cbuf \<Rightarrow> bool" where
  "cb_step s s' \<longleftrightarrow> producer_step s = Some s' \<or> consumer_step s = Some s'"

definition cb_awake :: "cb_pc \<Rightarrow> nat" where
  "cb_awake p = (case p of Running i \<Rightarrow> 1 | Waiting i \<Rightarrow> 0)"

definition cb_work :: "cbuf \<Rightarrow> nat" where
  "cb_work s = 3 * (11 - cb_i (cb_prod s)) + 3 * (10 - cb_i (cb_cons s)) + cb_awake (cb_prod s) + cb_awake (cb_cons s)"

lemma cb_awake_simps [simp]: "cb_awake (Running i) = 1" "cb_awake (Waiting i) = 0" "cb_awake (signal p) = 1"
  by (simp_all add: cb_awake_def signal_def split: cb_pc.split)

lemma cb_awake_le: "cb_awake p \<le> 1"
  by (simp add: cb_awake_def split: cb_pc.split)

lemma cb_step_work: "cb_step s s' \<Longrightarrow> cb_work s' < cb_work s"
  by (auto simp: cb_step_def producer_step_def consumer_step_def cb_work_def split: cb_pc.splits if_splits)

lemma cb_step_inv: "cb_inv s \<Longrightarrow> cb_step s s' \<Longrightarrow> cb_inv s'"
  by (auto simp: cb_step_def intro: producer_step_inv consumer_step_inv)

lemma cb_work_le: "cb_work s \<le> 65"
  using cb_awake_le [of "cb_prod s"] cb_awake_le [of "cb_cons s"] by (simp add: cb_work_def)

lemma cb_progress:
  assumes inv: "cb_inv s" and "\<not> cb_finished s"
  shows "\<exists>s'. cb_step s s'"
proof -
  have "producer_step s \<noteq> None \<or> consumer_step s \<noteq> None"
    using assms
    by (cases "cb_prod s"; cases "cb_cons s")
       (auto simp: producer_step_def consumer_step_def cb_inv_def cb_finished_def CB_SIZE_def split: if_splits)
  then show ?thesis by (auto simp: cb_step_def)
qed

interpretation cb: thread_runs cb_step cb_inv cb_finished cb_work
  by unfold_locales (auto intro: cb_step_inv cb_progress cb_step_work)

lemma cb_finished_out: "cb_inv s \<Longrightarrow> cb_finished s \<Longrightarrow> mset (cb_out s) = mset (map int [1..<11])"
  unfolding made_def [symmetric] by (auto simp: cb_inv_def cb_finished_def)

section \<open>Properties\<close>

text \<open>C16: From every reachable state, whatever spurious wake-ups led to it, the threads take at most 65 more
  steps of their own in any order, and a run that cannot go on has both threads finished and has printed
  each of the numbers 1 to 10 exactly once: neither a deadlock nor a lost signal is possible.\<close>

theorem cond_buffer_completes:
  assumes "cb_reach s" and "(cb_step ^^ n) s s'"
  shows "n \<le> 65 \<and> (if cb_finished s' then mset (cb_out s') = mset (map int [1..<11]) else (\<exists>s''. cb_step s' s''))"
proof -
  have "cb_inv s" by (rule cb_reach_inv [OF assms(1)])
  from cb.run_length [OF assms(2) this] cb.run_inv [OF assms(2) this] show ?thesis
    using cb_work_le [of s] cb_finished_out cb_progress by auto
qed

theorem cond_buffer_completes_witness:
  "\<exists>s'. (cb_step ^^ 1) cb_init s' \<and> \<not> cb_finished s' \<and> (\<exists>s''. cb_step s' s'')"
proof -
  define s' where "s' = the (consumer_step cb_init)"
  have step: "(cb_step ^^ 1) cb_init s'"
    by (auto simp: relpowp_1 [unfolded One_nat_def] s'_def cb_step_def consumer_step_def cb_init_def OO_def)
  have nf: "\<not> cb_finished s'" by (simp add: s'_def cb_finished_def consumer_step_def cb_init_def)
  show ?thesis using cond_buffer_completes [OF cb_start step] step nf by auto
qed

end
