(* ===== verification/File_Copy.thy ===== *)
theory File_Copy
  imports C_Strings
begin

text \<open>
  The copy program \<^verbatim>\<open>src/file-copy.c\<close>. A file is the list of its bytes. Every call of \<open>read\<close> or \<open>write\<close>
  takes its outcome from a list: interrupted, failed, or at most so many bytes transferred; when
  the list has ended every call transfers all it can. A call never transfers 0 bytes unless the end
  of the file is reached.
\<close>

datatype io = IO_EINTR | IO_ERR | IO_SOME nat

text \<open>How many bytes a call transfers when \<open>avail\<close> are possible.\<close>

definition io_amount :: "io list \<Rightarrow> nat \<Rightarrow> nat" where
  "io_amount outs avail = (case outs of IO_SOME k # _ \<Rightarrow> min avail (max 1 k) | _ \<Rightarrow> avail)"

lemma io_amount_le: "io_amount outs avail \<le> avail"
  and io_amount_pos: "0 < avail \<Longrightarrow> 0 < io_amount outs avail"
  by (auto simp: io_amount_def max_def split: list.split io.split)

text \<open>
  \<open>read_all\<close>: the bytes read (\<open>None\<close> for -1), the unread rest of the file and the remaining
  outcomes.
\<close>

function read_all :: "io list \<Rightarrow> char list \<Rightarrow> nat \<Rightarrow> char list \<Rightarrow> char list option \<times> char list \<times> io list" where
  "read_all outs rest left acc =
     (if left = 0 then (Some acc, rest, outs)
      else if outs \<noteq> [] \<and> hd outs = IO_EINTR then read_all (tl outs) rest left acc
      else if outs \<noteq> [] \<and> hd outs = IO_ERR then (None, rest, tl outs)
      else
        let n = io_amount outs (min left (length rest)) in
        if n = 0 then (Some acc, rest, tl outs)
        else read_all (tl outs) (drop n rest) (left - n) (acc @ take n rest))"
  by pat_completeness auto

termination
  by (relation "measure (\<lambda>(outs, rest, left, acc). length outs + left)") auto

text \<open>\<open>write_all\<close>: the file after it and whether it returned the full count.\<close>

function write_all :: "io list \<Rightarrow> char list \<Rightarrow> char list \<Rightarrow> bool \<times> char list \<times> io list" where
  "write_all outs dst buf =
     (if buf = [] then (True, dst, outs)
      else if outs \<noteq> [] \<and> hd outs = IO_EINTR then write_all (tl outs) dst buf
      else if outs \<noteq> [] \<and> hd outs = IO_ERR then (False, dst, tl outs)
      else
        let n = io_amount outs (length buf)
        in write_all (tl outs) (dst @ take n buf) (drop n buf))"
  by pat_completeness auto

termination
proof (relation "measure (\<lambda>(outs, dst, buf). length outs + length buf)")
  fix outs :: "io list" and dst buf :: "char list" and n
  assume "buf \<noteq> []" and "n = io_amount outs (length buf)"
  then have "0 < n" "0 < length buf" using io_amount_pos [of "length buf" outs] by auto
  then show "((tl outs, dst @ take n buf, drop n buf), outs, dst, buf) \<in> measure (\<lambda>(outs, dst, buf). length outs + length buf)"
    by (simp del: length_greater_0_conv)
qed auto

declare read_all.simps [simp del] write_all.simps [simp del]

datatype copy_end = Copy_ok | Write_failed | Read_failed

text \<open>The copy loop in chunks of \<open>n\<close> bytes; \<open>None\<close> is not returning.\<close>

partial_function (option) copy_loop :: "nat \<Rightarrow> io list \<Rightarrow> char list \<Rightarrow> char list \<Rightarrow> (copy_end \<times> char list \<times> io list) option" where
  "copy_loop n outs rest dst =
     (let (r, rest, outs) = read_all outs rest n [] in
      case r of
        None \<Rightarrow> Some (Read_failed, dst, outs)
      | Some buf \<Rightarrow>
          if buf = [] then Some (Copy_ok, dst, outs)
          else
            let (ok, dst, outs) = write_all outs dst buf in
            if \<not> ok then Some (Write_failed, dst, outs)
            else copy_loop n outs rest dst)"

declare copy_loop.simps [code]

datatype copy_msg = Usage | Open_src | Open_dst | Perror_write | Perror_read | Size_mismatch nat nat
  | Mismatch nat | Verified

text \<open>
  The comparison loop. \<open>readable\<close> says whether \<open>read\<close> on the destination's descriptor is allowed; a
  \<open>read\<close> that fails ends the loop like the end of the file.
\<close>

fun compare_loop :: "bool \<Rightarrow> char list \<Rightarrow> char list \<Rightarrow> nat \<Rightarrow> nat option" where
  "compare_loop readable (c1 # src) (c2 # dst) pos =
     (if \<not> readable then None
      else if c1 \<noteq> c2 then Some pos
      else compare_loop readable src dst (pos + 1))"
| "compare_loop readable _ _ pos = None"

definition verify_phase :: "bool \<Rightarrow> char list \<Rightarrow> char list \<Rightarrow> copy_msg" where
  "verify_phase readable src dst =
     (if length src \<noteq> length dst then Size_mismatch (length src) (length dst)
      else
        (case compare_loop readable src dst 0 of
           Some pos \<Rightarrow> Mismatch pos
         | None \<Rightarrow> Verified))"

text \<open>\<open>O_WRONLY\<close>: the destination cannot be read through its descriptor.\<close>

definition dst_readable :: bool where
  "dst_readable = False"

text \<open>\<open>main\<close>: exit status, message and destination file, if it was opened.\<close>

definition copy_main :: "nat \<Rightarrow> bool \<Rightarrow> bool \<Rightarrow> io list \<Rightarrow> char list \<Rightarrow> (int \<times> copy_msg \<times> char list option) option" where
  "copy_main argc src_ok dst_ok outs src =
     (if argc \<noteq> 3 then Some (1, Usage, None)
      else if \<not> src_ok then Some (1, Open_src, None)
      else if \<not> dst_ok then Some (1, Open_dst, None)
      else do {
        (e, dst, _) \<leftarrow> copy_loop 4096 outs src [];
        Some (case e of
            Write_failed \<Rightarrow> (1, Perror_write, Some dst)
          | Read_failed \<Rightarrow> (1, Perror_read, Some dst)
          | Copy_ok \<Rightarrow> (0, verify_phase dst_readable src dst, Some dst)) })"

section \<open>Short and interrupted transfers\<close>

lemma read_all_ok:
  "read_all outs rest left acc = (r, rest', outs') \<Longrightarrow>
   (case r of
      None \<Rightarrow> IO_ERR \<in> set outs
    | Some b \<Rightarrow> \<exists>got. b = acc @ got \<and> rest = got @ rest' \<and> length got = min left (length rest) \<and> set outs' \<subseteq> set outs)"
proof (induction outs rest left acc arbitrary: r rest' outs' rule: read_all.induct)
  case (1 outs rest left acc)
  show ?case
  proof (cases "left = 0 \<or> (outs \<noteq> [] \<and> (hd outs = IO_EINTR \<or> hd outs = IO_ERR))")
    case True
    then consider "left = 0" | "left \<noteq> 0" "outs \<noteq> []" "hd outs = IO_EINTR" | "left \<noteq> 0" "outs \<noteq> []" "hd outs = IO_ERR"
      by blast
    then show ?thesis
    proof cases
      case 1
      then have "(r, rest', outs') = (Some acc, rest, outs)"
        using "1.prems" read_all.simps [of outs rest left acc] by simp
      then show ?thesis using 1 by simp
    next
      case 3
      then have "(r, rest', outs') = (None, rest, tl outs)"
        using "1.prems" read_all.simps [of outs rest left acc] by simp
      then show ?thesis using hd_in_set [OF 3(2)] 3(3) by simp
    next
      case 2
      then have "read_all (tl outs) rest left acc = (r, rest', outs')"
        using "1.prems" by (subst (asm) read_all.simps) simp
      from "1.IH"(1) [OF 2(1) _ this] 2 show ?thesis
        by (cases outs) (auto split: option.splits)
    qed
  next
    case False
    define n where "n = io_amount outs (min left (length rest))"
    have n: "n \<le> left" "n \<le> length rest" using io_amount_le [of outs "min left (length rest)"] by (simp_all add: n_def)
    show ?thesis
    proof (cases "n = 0")
      case True
      then have "min left (length rest) = 0" using io_amount_pos [of "min left (length rest)" outs] unfolding n_def
        by (metis gr0I less_irrefl)
      moreover have "(r, rest', outs') = (Some acc, rest, tl outs)"
        using "1.prems" False True by (subst (asm) read_all.simps) (auto simp: n_def Let_def)
      moreover have "set (tl outs) \<subseteq> set outs" by (cases outs) auto
      ultimately show ?thesis by simp
    next
      case nz: False
      then have "read_all (tl outs) (drop n rest) (left - n) (acc @ take n rest) = (r, rest', outs')"
        using "1.prems" False by (subst (asm) read_all.simps) (auto simp: n_def Let_def)
      moreover have "left \<noteq> 0" "\<not> (outs \<noteq> [] \<and> hd outs = IO_EINTR)" "\<not> (outs \<noteq> [] \<and> hd outs = IO_ERR)"
        using False by auto
      ultimately have IH: "case r of None \<Rightarrow> IO_ERR \<in> set (tl outs)
        | Some b \<Rightarrow> \<exists>got. b = (acc @ take n rest) @ got \<and> drop n rest = got @ rest' \<and>
            length got = min (left - n) (length (drop n rest)) \<and> set outs' \<subseteq> set (tl outs)"
        using "1.IH"(2) [OF _ _ _ n_def nz] by blast
      have sub: "set (tl outs) \<subseteq> set outs" by (cases outs) auto
      show ?thesis
      proof (cases r)
        case None
        then show ?thesis using IH sub by auto
      next
        case (Some b)
        then obtain got where g: "b = acc @ take n rest @ got" "drop n rest = got @ rest'"
          "length got = min (left - n) (length rest - n)" "set outs' \<subseteq> set (tl outs)" using IH by auto
        then have "rest = (take n rest @ got) @ rest'" by (metis append_assoc append_take_drop_id)
        moreover have "length (take n rest @ got) = min left (length rest)" using g(3) n by auto
        ultimately show ?thesis using Some g(1,4) sub by auto
      qed
    qed
  qed
qed


lemma write_all_ok:
  "write_all outs dst buf = (ok, dst', outs') \<Longrightarrow>
   (ok \<longrightarrow> dst' = dst @ buf) \<and> (\<not> ok \<longrightarrow> IO_ERR \<in> set outs) \<and> set outs' \<subseteq> set outs \<and>
   (\<exists>k. dst' = dst @ take k buf)"
proof (induction outs dst buf arbitrary: ok dst' outs' rule: write_all.induct)
  case (1 outs dst buf)
  have sub: "set (tl outs) \<subseteq> set outs" by (cases outs) auto
  consider "buf = []" | "buf \<noteq> []" "outs \<noteq> [] \<and> hd outs = IO_EINTR" | "buf \<noteq> []" "outs \<noteq> [] \<and> hd outs = IO_ERR"
    | "buf \<noteq> []" "\<not> (outs \<noteq> [] \<and> hd outs = IO_EINTR)" "\<not> (outs \<noteq> [] \<and> hd outs = IO_ERR)" by blast
  then show ?case
  proof cases
    case 1
    then show ?thesis using "1.prems" write_all.simps [of outs dst buf] by simp
  next
    case 2
    then have "write_all (tl outs) dst buf = (ok, dst', outs')"
      using "1.prems" write_all.simps [of outs dst buf] by simp
    from "1.IH"(1) [OF 2 this] show ?thesis using sub by blast
  next
    case 3
    then have "\<not> ok" "dst' = dst @ take 0 buf" "outs' = tl outs" "IO_ERR \<in> set outs"
      using "1.prems" write_all.simps [of outs dst buf] hd_in_set [of outs] by simp_all
    then show ?thesis using sub by blast
  next
    case 4
    define n where "n = io_amount outs (length buf)"
    have "write_all (tl outs) (dst @ take n buf) (drop n buf) = (ok, dst', outs')"
      using "1.prems" write_all.simps [of outs dst buf] 4 by (auto simp: n_def Let_def)
    note IH = "1.IH"(2) [OF 4 n_def this]
    then obtain k where "dst' = dst @ take n buf @ take k (drop n buf)" by auto
    then have "dst' = dst @ take (n + k) buf" by (simp add: take_add)
    then show ?thesis using IH sub by auto
  qed
qed

text \<open>The loop always returns; what it has written is a prefix of the source, and all of it unless a call failed.\<close>

lemma copy_loop_outcome:
  assumes "0 < n"
  shows "\<exists>e dst' outs'. copy_loop n outs rest dst = Some (e, dst', outs') \<and>
    (if e = Copy_ok then dst' = dst @ rest else IO_ERR \<in> set outs) \<and> (\<exists>k. dst' = dst @ take k rest)"
proof (induction "length rest" arbitrary: outs rest dst rule: less_induct)
  case less
  obtain r rest1 outs1 where rd: "read_all outs rest n [] = (r, rest1, outs1)" using prod_cases3 by blast
  show ?case
  proof (cases r)
    case None
    then have "copy_loop n outs rest dst = Some (Read_failed, dst @ take 0 rest, outs1)" "IO_ERR \<in> set outs"
      using rd read_all_ok [OF rd] by (simp_all add: copy_loop.simps [of n outs rest dst])
    then show ?thesis by (metis copy_end.distinct(3))
  next
    case (Some b)
    then have "\<exists>got. b = [] @ got \<and> rest = got @ rest1 \<and> length got = min n (length rest) \<and> set outs1 \<subseteq> set outs"
      using read_all_ok [OF rd] by (simp only: option.case)
    then have r: "rest = b @ rest1" "length b = min n (length rest)" "set outs1 \<subseteq> set outs"
      unfolding append_Nil by blast+
    show ?thesis
    proof (cases "b = []")
      case True
      then have "rest = []" using r(2) assms by (auto simp: min_def split: if_splits)
      then show ?thesis using rd Some True by (subst copy_loop.simps) simp
    next
      case False
      obtain ok dst1 outs2 where wr: "write_all outs1 dst b = (ok, dst1, outs2)" using prod_cases3 by blast
      note w = write_all_ok [OF wr]
      show ?thesis
      proof (cases ok)
        case True
        then have d: "dst1 = dst @ b" using w by blast
        have l: "length rest1 < length rest" using r(1) False by simp
        have step: "copy_loop n outs rest dst = copy_loop n outs2 rest1 dst1"
          using rd Some False wr True by (subst copy_loop.simps) simp
        from less.hyps [OF l, of outs2 dst1] obtain e dst' outs' k where
          "copy_loop n outs2 rest1 dst1 = Some (e, dst', outs')"
          "if e = Copy_ok then dst' = dst1 @ rest1 else IO_ERR \<in> set outs2" "dst' = dst1 @ take k rest1" by blast
        moreover have "dst @ take (length b + k) rest = dst1 @ take k rest1" by (simp add: r(1) d)
        moreover have "dst1 @ rest1 = dst @ rest" by (simp add: r(1) d)
        moreover have "set outs2 \<subseteq> set outs" using w r(3) by blast
        ultimately show ?thesis using step by (metis subsetD)
      next
        case nok: False
        then obtain k where k: "dst1 = dst @ take k b" using w by blast
        have "copy_loop n outs rest dst = Some (Write_failed, dst1, outs2)"
          using rd Some False wr nok by (subst copy_loop.simps) simp
        moreover have "IO_ERR \<in> set outs" using w nok r(3) by blast
        moreover have "dst1 = dst @ take (min k (length b)) rest" by (simp add: k r(1) min_def)
        ultimately show ?thesis by (metis copy_end.distinct(1))
      qed
    qed
  qed
qed

lemma compare_same: "compare_loop b xs xs i = None"
  by (induction xs arbitrary: i) auto

section \<open>Properties\<close>

text \<open>C20: However the transfers are split, interrupted or fail, the program ends: with status 0 and a
  report of success, and then the destination holds the source; or with status 1, which happens only when the
  arguments are wrong, a file cannot be opened or a call failed, and then a destination that was opened holds
  a prefix of the source.\<close>

theorem copy_main_outcomes:
  "\<exists>status msg dst. copy_main argc src_ok dst_ok outs src = Some (status, msg, dst) \<and>
    (if status = 0 then argc = 3 \<and> src_ok \<and> dst_ok \<and> msg = Verified \<and> dst = Some src
     else status = 1 \<and> (argc \<noteq> 3 \<or> \<not> src_ok \<or> \<not> dst_ok \<or> IO_ERR \<in> set outs) \<and>
       (dst = None \<or> (\<exists>k. dst = Some (take k src))))"
proof (cases "argc = 3 \<and> src_ok \<and> dst_ok")
  case True
  from copy_loop_outcome [of 4096 outs src "[]"] obtain e dst outs' k where
    e: "copy_loop 4096 outs src [] = Some (e, dst, outs')" "dst = take k src" "e = Copy_ok \<Longrightarrow> dst = src"
    "e \<noteq> Copy_ok \<Longrightarrow> IO_ERR \<in> set outs" by (simp only: append_Nil) (metis zero_less_numeral)
  show ?thesis
  proof (cases e)
    case Copy_ok
    then show ?thesis using True e(1,3) by (simp add: copy_main_def verify_phase_def compare_same)
  next
    case Write_failed
    then show ?thesis using True e(1,2,4) by (simp add: copy_main_def) blast
  next
    case Read_failed
    then show ?thesis using True e(1,2,4) by (simp add: copy_main_def) blast
  qed
qed (simp add: copy_main_def)

theorem copy_main_outcomes_witness:
  "\<exists>status msg dst. copy_main 3 True True [IO_SOME 2, IO_EINTR, IO_SOME 4096, IO_SOME 3, IO_ERR] ''abcdef'' = Some (status, msg, dst) \<and>
    (status = 0 \<or> (\<exists>k. dst = Some (take k ''abcdef'')) \<or> dst = None)"
  using copy_main_outcomes [of 3 True True "[IO_SOME 2, IO_EINTR, IO_SOME 4096, IO_SOME 3, IO_ERR]" "''abcdef''"]
  by (metis (full_types))

text \<open>The verification compares nothing: the destination is opened write-only, so any destination of the
  same length is reported as identical.\<close>

theorem verify_phase_vacuous:
  assumes "length src = length dst"
  shows "verify_phase dst_readable src dst = Verified"
proof -
  have "compare_loop False src dst 0 = None" by (cases src; cases dst) simp_all
  then show ?thesis using assms by (simp add: verify_phase_def dst_readable_def)
qed

theorem verify_phase_vacuous_witness: "verify_phase dst_readable ''abc'' ''xyz'' = Verified"
  by (rule verify_phase_vacuous) simp

end
