(* ===== verification/C_Input.thy ===== *)
theory C_Input
  imports C_Scan
begin

text \<open>
  Reading numbers from standard input: \<^verbatim>\<open>scanf("%d", ...)\<close>, the loop \<^verbatim>\<open>while (getchar() != '\n');\<close> that
  throws away the rest of a line, and the question that is repeated until the answer is accepted.
  The input is the string of the characters not read yet. At the end of the input \<open>getchar\<close> gives \<open>EOF\<close>
  for ever, so that the loop does not end: \<open>None\<close>.
\<close>

text \<open>The value stored in an \<open>int\<close>: the number is limited to 64 bits and cut to 32.\<close>

definition to_int32 :: "int \<Rightarrow> int" where
  "to_int32 n = signed_take_bit 31 (max (- (2 ^ 63)) (min (2 ^ 63 - 1) n))"

definition digits_val :: "string \<Rightarrow> int" where
  "digits_val ds = fold (\<lambda>c v. v * 10 + (of_char c - 48)) ds 0"

text \<open>The number read, if any, and the rest: a sign that no digit follows has been read, too.\<close>

definition scanf_d :: "string \<Rightarrow> int option \<times> string" where
  "scanf_d s =
     (let s = skip_ws s;
          sign = (s \<noteq> [] \<and> hd s \<in> {CHR ''-'', CHR ''+''});
          s' = (if sign then tl s else s);
          ds = takeWhile isdigit s'
      in if ds = [] then (None, s')
         else (Some (to_int32 (if sign \<and> hd s = CHR ''-'' then - digits_val ds else digits_val ds)),
               drop (length ds) s'))"

fun drop_line :: "string \<Rightarrow> string option" where
  "drop_line [] = None"
| "drop_line (c # s) = (if c = newline then Some s else drop_line s)"

lemma drop_line_length: "drop_line s = Some r \<Longrightarrow> length r < length s"
  by (induction s) (auto split: if_splits)

lemma scanf_d_length: "length (snd (scanf_d s)) \<le> length s"
  and scanf_d_consumes: "fst (scanf_d s) = Some v \<Longrightarrow> length (snd (scanf_d s)) < length s"
proof -
  define t where "t = skip_ws s"
  define u where "u = (if t \<noteq> [] \<and> hd t \<in> {CHR ''-'', CHR ''+''} then tl t else t)"
  have t: "length t \<le> length s" by (simp add: t_def skip_ws_def length_dropWhile_le)
  have u: "length u \<le> length t" by (simp add: u_def)
  have r: "snd (scanf_d s) = drop (length (takeWhile isdigit u)) u"
    by (simp add: scanf_d_def Let_def t_def u_def)
  show "length (snd (scanf_d s)) \<le> length s" using t u by (simp add: r)
  assume "fst (scanf_d s) = Some v"
  then have "takeWhile isdigit u \<noteq> []" unfolding scanf_d_def Let_def t_def [symmetric] u_def [symmetric]
    by (auto split: if_splits)
  then have "0 < length (takeWhile isdigit u)" "0 < length u" by (cases u; auto)+
  then show "length (snd (scanf_d s)) < length s" using t u unfolding r by (simp del: length_greater_0_conv)
qed

text \<open>The question: \<open>P\<close> is the test that accepts a number.\<close>

function ask :: "(int \<Rightarrow> bool) \<Rightarrow> string \<Rightarrow> (int \<times> string) option" where
  "ask P s =
     (let (v, r) = scanf_d s in
      if v \<noteq> None \<and> P (the v) then Some (the v, r)
      else (case drop_line r of None \<Rightarrow> None | Some r' \<Rightarrow> ask P r'))"
  by pat_completeness auto
termination
proof (relation "measure (\<lambda>(P, s). length s)")
  fix P :: "int \<Rightarrow> bool" and s r r' :: string and x v
  assume "x = scanf_d s" "(v, r) = x" "drop_line r = Some r'"
  then show "((P, r'), P, s) \<in> measure (\<lambda>(P, s). length s)"
    using drop_line_length [of r r'] scanf_d_length [of s] by (metis in_measure case_prod_conv less_le_trans snd_conv)
qed simp

declare ask.simps [simp del]

lemma ask_Some:
  "ask P s = Some (v, r) \<Longrightarrow> P v \<and> length r < length s"
proof (induction P s rule: ask.induct)
  case (1 P s)
  obtain w t where s: "scanf_d s = (w, t)" by fastforce
  have t: "length t \<le> length s" using scanf_d_length [of s] s by simp
  show ?case
  proof (cases "w \<noteq> None \<and> P (the w)")
    case True
    then show ?thesis using "1.prems" s scanf_d_consumes [of s] by (auto simp: ask.simps [of P s])
  next
    case False
    then obtain t' where t': "drop_line t = Some t'" "ask P t' = Some (v, r)"
      using "1.prems" s by (auto simp: ask.simps [of P s] split: option.splits)
    from "1.IH" [OF s [symmetric] refl False t'] show ?thesis using t drop_line_length [OF t'(1)] by simp
  qed
qed

section \<open>Numbers printed and read back\<close>

lemma digit_char:
  assumes "d < 10"
  shows "isdigit (char_of (48 + d :: nat))" and "of_char (char_of (48 + d :: nat)) = 48 + int d"
proof -
  have "list_all (\<lambda>d. isdigit (char_of (48 + d :: nat)) \<and> of_char (char_of (48 + d :: nat)) = 48 + int d) [0..<10]"
    by code_simp
  then show "isdigit (char_of (48 + d :: nat))" "of_char (char_of (48 + d :: nat)) = 48 + int d"
    using assms by (simp_all only: list_all_iff set_upt atLeastLessThan_iff) auto
qed

lemma digits_val_snoc: "digits_val (ds @ [c]) = digits_val ds * 10 + (of_char c - 48)"
  by (simp add: digits_val_def)

lemma dec_str_digits: "(\<forall>c\<in>set (dec_str n). isdigit c) \<and> dec_str n \<noteq> [] \<and> digits_val (dec_str n) = int n"
proof (induction n rule: dec_str.induct)
  case (1 n)
  show ?case
  proof (cases "n < 10")
    case True
    then show ?thesis using digit_char [of n] by (simp add: dec_str.simps [of n] digits_val_def)
  next
    case False
    then have "(\<forall>c\<in>set (dec_str (n div 10)). isdigit c) \<and> digits_val (dec_str (n div 10)) = int (n div 10)"
      using 1 by simp
    moreover have "int (n div 10) * 10 + int (n mod 10) = int n" by (metis div_mult_mod_eq of_nat_add of_nat_mult of_nat_numeral)
    ultimately show ?thesis using False digit_char [of "n mod 10"] by (simp add: dec_str.simps [of n] digits_val_snoc)
  qed
qed

end
