(* ===== verification/Memory_Log.thy ===== *)
theory Memory_Log
  imports C_Input "HOL-Library.Word"
begin

text \<open>
  The allocation tracker \<^verbatim>\<open>src/memorylog.c\<close>. The heap is the map from the address of every live block to its
  size in bytes; the blocks are those handed to the user and the nodes of the log. The linked list
  from \<open>head\<close> is the list of its nodes, each with its own address. \<open>malloc\<close> and \<open>calloc\<close> belong to
  the C library: what address a call gets (0 for \<open>NULL\<close>) is an argument of the model, a function of
  the number of the call, the heap and the size asked for. There are two kinds of undefined behaviour, told apart as
  values of \<open>undef\<close>: the write through \<open>NULL\<close> after a failed \<open>malloc\<close> of a node, and freeing a block that is
  not live, because it was freed before or never handed out. Prompts are left out.
\<close>

record m =
  memoryid :: int
  address :: nat
  m_size :: "32 word"
  m_type :: string

type_synonym heap = "nat \<Rightarrow> nat option"
type_synonym allocator = "nat \<Rightarrow> heap \<Rightarrow> nat \<Rightarrow> nat"

record memlog =
  next_id :: int
  nodes :: "(nat \<times> m) list"
  heap :: heap
  calls :: nat
  memoryfile :: "m list option"
  unclosed :: nat

definition memlog_init :: memlog where
  "memlog_init = \<lparr>next_id = 1, nodes = [], heap = (\<lambda>_. None), calls = 0, memoryfile = None, unclosed = 0\<rparr>"

definition SIZEOF_M :: nat where "SIZEOF_M = 48"

definition alloc :: "allocator \<Rightarrow> memlog \<Rightarrow> nat \<Rightarrow> memlog \<times> nat" where
  "alloc al s n =
     (let a = al (calls s) (heap s) n;
          s = s\<lparr>calls := calls s + 1\<rparr>
      in (if a = 0 then s else s\<lparr>heap := (heap s)(a := Some n)\<rparr>, a))"

datatype undef = Null_node | Bad_free

type_synonym mem_result = "undef + memlog"

fun andthen :: "mem_result \<Rightarrow> (memlog \<Rightarrow> mem_result) \<Rightarrow> mem_result" where
  "andthen (Inl e) f = Inl e"
| "andthen (Inr s) f = f s"

definition mfree :: "memlog \<Rightarrow> nat \<Rightarrow> mem_result" where
  "mfree s a = (if heap s a = None then Inl Bad_free else Inr (s\<lparr>heap := (heap s)(a := None)\<rparr>))"

section \<open>The log\<close>

definition add :: "allocator \<Rightarrow> memlog \<Rightarrow> nat \<Rightarrow> 32 word \<Rightarrow> string \<Rightarrow> mem_result" where
  "add al s adr sz ty =
     (let (s, newnode) = alloc al s SIZEOF_M
      in if newnode = 0 then Inl Null_node
         else Inr (s\<lparr>next_id := next_id s + 1,
                      nodes := (newnode, \<lparr>memoryid = next_id s, address = adr, m_size = sz, m_type = ty\<rparr>) # nodes s\<rparr>))"

definition mallocAllocation :: "allocator \<Rightarrow> memlog \<Rightarrow> 32 word \<Rightarrow> mem_result" where
  "mallocAllocation al s sz =
     (let (s, p) = alloc al s (unat sz)
      in if p \<noteq> 0 then add al s p sz ''malloc'' else Inr s)"

definition callocAllocation :: "allocator \<Rightarrow> memlog \<Rightarrow> 32 word \<Rightarrow> 32 word \<Rightarrow> mem_result" where
  "callocAllocation al s num sz =
     (let (s, p) = alloc al s (unat num * unat sz)
      in if p \<noteq> 0 then add al s p (num * sz) ''calloc'' else Inr s)"

text \<open>The lines printed or written to the file, and the value returned.\<close>

definition printmemory :: "memlog \<Rightarrow> m list \<times> int" where
  "printmemory s = (if nodes s = [] then ([], -1) else (map snd (nodes s), 1))"

fun unlink_node :: "nat \<Rightarrow> (nat \<times> m) list \<Rightarrow> (nat \<times> (nat \<times> m) list) option" where
  "unlink_node p [] = None"
| "unlink_node p ((n, e) # ns) =
     (if address e = p then Some (n, ns)
      else map_option (\<lambda>(n', ns'). (n', (n, e) # ns')) (unlink_node p ns))"

definition removememory :: "memlog \<Rightarrow> nat \<Rightarrow> mem_result" where
  "removememory s p =
     (case unlink_node p (nodes s) of
        None \<Rightarrow> Inr s
      | Some (n, ns) \<Rightarrow> mfree (s\<lparr>nodes := ns\<rparr>) n)"

definition freememory :: "memlog \<Rightarrow> nat \<Rightarrow> mem_result" where
  "freememory s p = (if p \<noteq> 0 then andthen (removememory s p) (\<lambda>s. mfree s p) else Inr s)"

fun detailsofmemoryid :: "(nat \<times> m) list \<Rightarrow> int \<Rightarrow> nat" where
  "detailsofmemoryid [] i = 0"
| "detailsofmemoryid ((n, e) # ns) i = (if memoryid e = i then address e else detailsofmemoryid ns i)"

definition exportmemory :: "bool \<Rightarrow> memlog \<Rightarrow> memlog" where
  "exportmemory fopen_ok s =
     (if \<not> fopen_ok then s
      else if nodes s = [] then s\<lparr>memoryfile := Some [], unclosed := unclosed s + 1\<rparr>
      else s\<lparr>memoryfile := Some (map snd (nodes s))\<rparr>)"

section \<open>The menu\<close>

definition sizeof_datatype :: "int \<Rightarrow> nat option" where
  "sizeof_datatype datatype =
     (if datatype = 1 then Some 4 else if datatype = 2 then Some 1 else if datatype = 3 then Some 4
      else if datatype = 4 then Some 8 else None)"

text \<open>The allocation of case 1; a method or a data type that is accepted but unknown allocates nothing.\<close>

definition allocate :: "allocator \<Rightarrow> memlog \<Rightarrow> int \<Rightarrow> int \<Rightarrow> int \<Rightarrow> mem_result" where
  "allocate al s moc datatype n =
     (case sizeof_datatype datatype of
        None \<Rightarrow> Inr s
      | Some k \<Rightarrow>
          if moc = 1 then mallocAllocation al s (word_of_int (n * int k))
          else if moc = 2 then callocAllocation al s (word_of_int n) (of_nat k)
          else Inr s)"

text \<open>
  What one round of the menu leads to: the next round with the rest of the input; \<open>Waits\<close>, a loop
  over the end of the input that never ends; \<open>Exits\<close>; or undefined behaviour. The lines of the log
  that the round prints come with it.
\<close>

datatype mem_round = Next memlog string "m list" | Waits memlog | Exits memlog | Undefined undef

fun mem_exit :: "memlog \<Rightarrow> (nat \<times> m) list \<Rightarrow> mem_result" where
  "mem_exit s [] = Inr s"
| "mem_exit s ((n, e) # ns) = andthen (freememory s (address e)) (\<lambda>s. andthen (mfree s n) (\<lambda>s. mem_exit s ns))"

definition round_of :: "mem_result \<Rightarrow> string \<Rightarrow> (memlog \<Rightarrow> m list) \<Rightarrow> mem_round" where
  "round_of r inp f = (case r of Inl u \<Rightarrow> Undefined u | Inr s \<Rightarrow> Next s inp (f s))"

definition mem_alloc_case :: "allocator \<Rightarrow> memlog \<Rightarrow> string \<Rightarrow> mem_round" where
  "mem_alloc_case al s inp =
     (case ask (\<lambda>moc. \<not> (moc \<le> 0 \<or> moc > 3)) inp of None \<Rightarrow> Waits s
      | Some (moc, inp) \<Rightarrow>
          (case ask (\<lambda>d. \<not> (d \<le> 0 \<or> d > 5)) inp of None \<Rightarrow> Waits s
           | Some (d, inp) \<Rightarrow>
               (case ask (\<lambda>_. True) inp of None \<Rightarrow> Waits s
                | Some (n, inp) \<Rightarrow> round_of (allocate al s moc d n) inp (fst \<circ> printmemory))))"

definition mem_free_case :: "memlog \<Rightarrow> string \<Rightarrow> mem_round" where
  "mem_free_case s inp =
     (if snd (printmemory s) = 1 then
        let (v, r) = scanf_d inp in
        case v of
          None \<Rightarrow> (case drop_line r of None \<Rightarrow> Waits s | Some r \<Rightarrow> Next s r (fst (printmemory s)))
        | Some i \<Rightarrow>
            let p = detailsofmemoryid (nodes s) i
            in round_of (if p \<noteq> 0 then freememory s p else Inr s) r (\<lambda>_. fst (printmemory s))
      else Next s inp [])"

definition mem_step :: "allocator \<Rightarrow> (nat \<Rightarrow> bool) \<Rightarrow> memlog \<Rightarrow> string \<Rightarrow> mem_round" where
  "mem_step al fopen_ok s inp =
     (case ask (\<lambda>v. \<not> (v \<le> 0 \<or> v > 4)) inp of None \<Rightarrow> Waits s
      | Some (options, inp) \<Rightarrow>
          if options = 1 then mem_alloc_case al s inp
          else if options = 2 then Next s inp (fst (printmemory s))
          else if options = 3 then mem_free_case s inp
          else if options = 4 then Next (exportmemory (fopen_ok (unclosed s)) s) inp []
          else if options = 5 then
            (case mem_exit s (nodes s) of Inl u \<Rightarrow> Undefined u | Inr s \<Rightarrow> Exits (s\<lparr>nodes := []\<rparr>))
          else Next s inp [])"

text \<open>\<open>main\<close> from a state: the lines printed and how it ends.\<close>

lemma round_of_Next: "round_of x inp f = Next s' r out \<longleftrightarrow> x = Inr s' \<and> r = inp \<and> out = f s'"
  by (auto simp: round_of_def split: sum.split)

lemma mem_alloc_case_consumes: "mem_alloc_case al s inp = Next s' r out \<Longrightarrow> length r < length inp"
  by (auto simp: mem_alloc_case_def round_of_Next split: option.splits dest!: ask_Some)

lemma mem_free_case_consumes: "mem_free_case s inp = Next s' r out \<Longrightarrow> length r \<le> length inp"
  using scanf_d_length [of inp]
  by (auto simp: mem_free_case_def round_of_Next Let_def split: option.splits if_splits prod.splits
      dest!: drop_line_length)

lemma mem_step_consumes: "mem_step al fopen_ok s inp = Next s' r out \<Longrightarrow> length r < length inp"
  by (auto simp: mem_step_def split: option.splits sum.splits if_splits
      dest!: ask_Some mem_alloc_case_consumes mem_free_case_consumes)

function mem_run :: "allocator \<Rightarrow> (nat \<Rightarrow> bool) \<Rightarrow> memlog \<Rightarrow> string \<Rightarrow> m list list \<times> mem_round" where
  "mem_run al fopen_ok s inp =
     (case mem_step al fopen_ok s inp of
        Next s' r out \<Rightarrow> (let (outs, e) = mem_run al fopen_ok s' r in (out # outs, e))
      | e \<Rightarrow> ([], e))"
  by pat_completeness auto
termination
  by (relation "measure (\<lambda>(al, fopen_ok, s, inp). length inp)") (auto dest: mem_step_consumes)

declare mem_run.simps [simp del]

definition mem_main :: "allocator \<Rightarrow> (nat \<Rightarrow> bool) \<Rightarrow> string \<Rightarrow> m list list \<times> mem_round" where
  "mem_main al fopen_ok inp = mem_run al fopen_ok memlog_init inp"

section \<open>The log describes the heap\<close>

text \<open>
  Every live block is a node of the log or a block the log records, the two kinds are apart, a record
  has the size of its block (up to the width of the field), and the ids are distinct.
\<close>

definition entry_ok :: "memlog \<Rightarrow> nat \<times> m \<Rightarrow> bool" where
  "entry_ok s = (\<lambda>(n, e). 1 \<le> memoryid e \<and> memoryid e < next_id s \<and> heap s n = Some SIZEOF_M \<and>
     n \<noteq> 0 \<and> address e \<noteq> 0 \<and> (\<exists>k. heap s (address e) = Some k \<and> m_size e = of_nat k))"

definition owned :: "(nat \<times> m) list \<Rightarrow> nat list" where
  "owned ns = map fst ns @ map (address \<circ> snd) ns"

definition mem_inv :: "memlog \<Rightarrow> bool" where
  "mem_inv s \<longleftrightarrow> distinct (owned (nodes s)) \<and> distinct (map (memoryid \<circ> snd) (nodes s)) \<and> 1 \<le> next_id s \<and>
     dom (heap s) = set (owned (nodes s)) \<and> (\<forall>x\<in>set (nodes s). entry_ok s x)"

text \<open>What the model relies on of the C library: a block that is handed out was not live.\<close>

definition fresh_alloc :: "allocator \<Rightarrow> bool" where
  "fresh_alloc al \<longleftrightarrow> (\<forall>i h n. al i h n \<noteq> 0 \<longrightarrow> h (al i h n) = None)"

lemma mem_inv_cong:
  "next_id s' = next_id s \<Longrightarrow> nodes s' = nodes s \<Longrightarrow> heap s' = heap s \<Longrightarrow> mem_inv s' = mem_inv s"
  by (simp add: mem_inv_def entry_ok_def)

lemma memlog_init_inv: "mem_inv memlog_init"
  by (simp add: mem_inv_def memlog_init_def owned_def)

lemma track_inv:
  assumes inv: "mem_inv s" and fresh: "fresh_alloc al"
    and blk: "alloc al s k = (s1, p)" "p \<noteq> 0" and add: "add al s1 p (of_nat k) ty = Inr s2"
  shows "mem_inv s2"
proof -
  obtain s' n where nd: "alloc al s1 SIZEOF_M = (s', n)" by fastforce
  have n: "n \<noteq> 0" and s2: "s2 = s'\<lparr>next_id := next_id s' + 1,
      nodes := (n, \<lparr>memoryid = next_id s', address = p, m_size = of_nat k, m_type = ty\<rparr>) # nodes s'\<rparr>"
    using add nd by (auto simp: add_def split: if_splits)
  have s1: "s1 = s\<lparr>calls := calls s + 1, heap := (heap s)(p := Some k)\<rparr>" and p: "heap s p = None"
    using blk fresh by (auto simp: alloc_def Let_def fresh_alloc_def split: if_splits)
  have s': "s' = s1\<lparr>calls := calls s1 + 1, heap := (heap s1)(n := Some SIZEOF_M)\<rparr>" and n1: "heap s1 n = None"
    using nd n fresh by (auto simp: alloc_def Let_def fresh_alloc_def split: if_splits)
  have pn: "p \<noteq> n" "heap s n = None" using n1 by (auto simp: s1 split: if_splits)
  have out: "p \<notin> set (owned (nodes s))" "n \<notin> set (owned (nodes s))"
    using inv p pn(2) by (auto simp: mem_inv_def domIff)
  have ids: "next_id s \<notin> set (map (memoryid \<circ> snd) (nodes s))"
    using inv by (force simp: mem_inv_def entry_ok_def)
  have old: "entry_ok s2 x" if "x \<in> set (nodes s)" for x
  proof -
    have "entry_ok s x" using inv that by (simp add: mem_inv_def)
    moreover have "fst x \<noteq> p" "fst x \<noteq> n" "address (snd x) \<noteq> p" "address (snd x) \<noteq> n"
      using out that by (auto simp: owned_def)
    ultimately show ?thesis by (auto simp: entry_ok_def s2 s' s1 split: prod.splits)
  qed
  show ?thesis
    using inv out ids old pn(1) n blk(2)
    by (auto simp: mem_inv_def owned_def s2 s' s1 entry_ok_def split: prod.splits)
qed

lemma alloc_NULL: "mem_inv s \<Longrightarrow> alloc al s k = (s1, 0) \<Longrightarrow> mem_inv s1"
  using mem_inv_cong [of s1 s] by (auto simp: alloc_def Let_def split: if_splits)

text \<open>A \<open>malloc\<close> of a node that fails although only finitely many blocks are live.\<close>

definition node_fails :: "allocator \<Rightarrow> bool" where
  "node_fails al \<longleftrightarrow> (\<exists>i h. finite (dom h) \<and> al i h SIZEOF_M = 0)"

lemma add_Inl:
  assumes "add al s p w ty = Inl u" and "finite (dom (heap s))"
  shows "u = Null_node \<and> node_fails al"
proof -
  have "al (calls s) (heap s) SIZEOF_M = 0 \<and> u = Null_node" using assms(1) by (auto simp: add_def alloc_def Let_def split: if_splits)
  then show ?thesis using assms(2) unfolding node_fails_def by blast
qed

text \<open>The outcome of an operation: the invariant, or undefined behaviour after a failed \<open>malloc\<close> of a node; never a bad \<open>free\<close>.\<close>

fun outcome_ok :: "allocator \<Rightarrow> mem_result \<Rightarrow> bool" where
  "outcome_ok al (Inl Null_node) \<longleftrightarrow> node_fails al"
| "outcome_ok al (Inl Bad_free) \<longleftrightarrow> False"
| "outcome_ok al (Inr s) \<longleftrightarrow> mem_inv s"

lemma alloc_add_outcome:
  assumes "mem_inv s" and "fresh_alloc al" and "w = of_nat k"
  shows "outcome_ok al (let (s, p) = alloc al s k in if p \<noteq> 0 then add al s p w ty else Inr s)"
proof -
  obtain s1 p where a: "alloc al s k = (s1, p)" by fastforce
  show ?thesis
  proof (cases "p = 0")
    case True
    then show ?thesis using a alloc_NULL [OF assms(1)] by simp
  next
    case False
    have "finite (dom (heap s1))" using a assms(1) by (auto simp: alloc_def Let_def mem_inv_def split: if_splits)
    then show ?thesis
      using False a assms(3) track_inv [OF assms(1,2) a] add_Inl [of al s1 p w ty]
      by (cases "add al s1 p w ty") auto
  qed
qed

lemma allocate_inv:
  assumes "mem_inv s" and "fresh_alloc al"
  shows "outcome_ok al (allocate al s moc d n)"
proof -
  have "outcome_ok al (mallocAllocation al s w)" for w
    unfolding mallocAllocation_def by (rule alloc_add_outcome [OF assms]) simp
  moreover have "outcome_ok al (callocAllocation al s u w)" for u w
    unfolding callocAllocation_def by (rule alloc_add_outcome [OF assms]) simp
  ultimately show ?thesis using assms(1)
    by (auto simp: allocate_def split: option.split)
qed

lemma unlink_node_at:
  "unlink_node (address e) (xs @ (n, e) # ys) = Some (n, xs @ ys)" if "address e \<notin> set (map (address \<circ> snd) xs)"
  using that by (induction xs) auto

lemma freememory_split:
  assumes inv: "mem_inv s" and ns: "nodes s = xs @ (n, e) # ys"
  shows "freememory s (address e) =
    Inr (s\<lparr>nodes := xs @ ys, heap := (heap s)(n := None, address e := None)\<rparr>)"
proof -
  have "entry_ok s (n, e)" "address e \<notin> set (map (address \<circ> snd) xs)" "n \<noteq> address e"
    using inv by (auto simp: mem_inv_def ns owned_def)
  then show ?thesis
    by (auto simp: freememory_def removememory_def ns unlink_node_at mfree_def entry_ok_def)
qed

lemma freememory_inv:
  assumes inv: "mem_inv s" and ns: "nodes s = xs @ (n, e) # ys"
  shows "mem_inv (s\<lparr>nodes := xs @ ys, heap := (heap s)(n := None, address e := None)\<rparr>)" (is "mem_inv ?t")
proof -
  have out: "n \<notin> set (owned (xs @ ys))" "address e \<notin> set (owned (xs @ ys))"
    using inv unfolding mem_inv_def ns owned_def by simp_all
  have keep: "entry_ok ?t x" if "x \<in> set (xs @ ys)" for x
  proof -
    have "entry_ok s x" using inv that by (auto simp: mem_inv_def ns)
    moreover have "fst x \<in> set (owned (xs @ ys))" "address (snd x) \<in> set (owned (xs @ ys))"
      using that by (auto simp: owned_def)
    with out have "fst x \<noteq> n" "fst x \<noteq> address e" "address (snd x) \<noteq> n" "address (snd x) \<noteq> address e"
      by metis+
    ultimately show ?thesis by (auto simp: entry_ok_def split: prod.splits)
  qed
  have "dom (heap ?t) = set (owned (xs @ ys))"
    using inv by (auto simp: mem_inv_def ns owned_def)
  moreover have "distinct (owned (xs @ ys))" "distinct (map (memoryid \<circ> snd) (xs @ ys))"
    using inv by (auto simp: mem_inv_def ns owned_def)
  ultimately show ?thesis using inv keep by (simp add: mem_inv_def)
qed

lemma detailsofmemoryid_nodes:
  "detailsofmemoryid ns i \<noteq> 0 \<Longrightarrow> \<exists>xs n e ys. ns = xs @ (n, e) # ys \<and> memoryid e = i \<and> detailsofmemoryid ns i = address e"
proof (induction ns i rule: detailsofmemoryid.induct)
  case (2 n e ns i)
  show ?case
  proof (cases "memoryid e = i")
    case True
    then have "(n, e) # ns = [] @ (n, e) # ns \<and> memoryid e = i \<and> detailsofmemoryid ((n, e) # ns) i = address e" by simp
    then show ?thesis by blast
  next
    case False
    then obtain xs n' e' ys where "ns = xs @ (n', e') # ys" "memoryid e' = i" "detailsofmemoryid ns i = address e'"
      using 2 by auto
    then have "(n, e) # ns = ((n, e) # xs) @ (n', e') # ys \<and> memoryid e' = i \<and> detailsofmemoryid ((n, e) # ns) i = address e'"
      using False by simp
    then show ?thesis by blast
  qed
qed simp

section \<open>Every session\<close>

definition round_ok :: "allocator \<Rightarrow> mem_round \<Rightarrow> bool" where
  "round_ok al r \<longleftrightarrow> (case r of Next s _ _ \<Rightarrow> mem_inv s | Waits s \<Rightarrow> mem_inv s | Exits s \<Rightarrow> False
     | Undefined u \<Rightarrow> outcome_ok al (Inl u))"

lemma round_of_ok: "outcome_ok al x \<Longrightarrow> round_ok al (round_of x inp f)"
  by (cases x) (simp_all add: round_ok_def round_of_def)

lemma mem_free_case_ok:
  assumes "mem_inv s"
  shows "round_ok al (mem_free_case s inp)"
proof -
  have fr: "outcome_ok al (freememory s p)" if "p = detailsofmemoryid (nodes s) i" "0 < p" for p i
    using that detailsofmemoryid_nodes [of "nodes s" i] freememory_split [OF assms] freememory_inv [OF assms]
    by auto
  have "outcome_ok al (Inr s)" "round_ok al (Waits s)" "round_ok al (Next s r out)" for r out
    using assms by (simp_all add: round_ok_def)
  then show ?thesis
    by (auto simp: mem_free_case_def Let_def intro!: round_of_ok fr split: option.split prod.split)
qed

lemma mem_step_ok:
  assumes "mem_inv s" and "fresh_alloc al"
  shows "round_ok al (mem_step al fopen_ok s inp)"
proof -
  have w: "round_ok al (Waits s)" "round_ok al (Next s r out)" for r out using assms(1) by (simp_all add: round_ok_def)
  have "round_ok al (mem_alloc_case al s r)" for r
    using w assms by (auto simp: mem_alloc_case_def intro!: round_of_ok allocate_inv split: option.split)
  moreover have "mem_inv (exportmemory b s)" for b
    using assms(1) mem_inv_cong [of "exportmemory b s" s] by (simp add: exportmemory_def)
  ultimately show ?thesis using w mem_free_case_ok [OF assms(1), of al]
    by (auto simp: mem_step_def round_ok_def [of _ "Next _ _ _"] split: option.split dest!: ask_Some)
qed

lemma mem_run_ok:
  assumes "fresh_alloc al"
  shows "mem_inv s \<Longrightarrow> round_ok al (snd (mem_run al fopen_ok s inp)) \<and> (\<forall>s' r out. snd (mem_run al fopen_ok s inp) \<noteq> Next s' r out)"
proof (induction "length inp" arbitrary: s inp rule: less_induct)
  case less
  note ok = mem_step_ok [OF less.prems assms, of fopen_ok inp]
  show ?case
  proof (cases "mem_step al fopen_ok s inp")
    case (Next s' r out)
    then have "mem_inv s'" using ok by (simp add: round_ok_def)
    from less.hyps [OF mem_step_consumes [OF Next] this] show ?thesis
      using Next by (simp add: mem_run.simps [of al fopen_ok s inp] split_def Let_def)
  qed (use ok in \<open>simp_all add: mem_run.simps [of al fopen_ok s inp]\<close>)
qed

text \<open>The loop of the menu's last entry frees every node twice.\<close>

lemma mem_exit_double_free:
  assumes "mem_inv s" and "nodes s \<noteq> []"
  shows "mem_exit s (nodes s) = Inl Bad_free"
proof -
  obtain n e ns where ns: "nodes s = (n, e) # ns" using assms(2) by (cases "nodes s") auto
  show ?thesis using freememory_split [OF assms(1), of "[]" n e ns] ns by (simp add: mfree_def)
qed

section \<open>Properties\<close>

text \<open>C7: For every input and every behaviour of the allocator, a session only ends by waiting for ever at the end of
  the input: the Exit entry is never taken, no block is freed twice or after it was freed, and at the end the live
  blocks are exactly the nodes of the log and the blocks it lists, each with the size it lists (modulo the width of
  the field) and an id of its own. The one undefined behaviour is the write through the result of a failed \<open>malloc\<close> of a node of
  the log, which is not tested; it takes an allocator that fails although only finitely many blocks are live. A bad
  \<open>free\<close>, the other undefined behaviour of the model, never happens.\<close>

theorem mem_main_tracks_heap:
  assumes "fresh_alloc al"
  shows "(\<exists>s. snd (mem_main al fopen_ok inp) = Waits s \<and> mem_inv s) \<or>
    (snd (mem_main al fopen_ok inp) = Undefined Null_node \<and> node_fails al)"
proof -
  have ok: "round_ok al (snd (mem_main al fopen_ok inp))" "\<nexists>s r out. snd (mem_main al fopen_ok inp) = Next s r out"
    using mem_run_ok [OF assms memlog_init_inv, of fopen_ok inp] unfolding mem_main_def by simp_all
  show ?thesis
  proof (cases "snd (mem_main al fopen_ok inp)")
    case (Undefined u)
    then show ?thesis using ok by (cases u) (simp_all add: round_ok_def)
  qed (use ok in \<open>auto simp: round_ok_def\<close>)
qed

definition bump_alloc :: allocator where
  "bump_alloc = (\<lambda>i h n. if h (i + 1) = None then i + 1 else 0)"

definition mem_session :: string where
  "mem_session = ''1 2 1 3 1 1 4 2 3 1 9'' @ [newline] @ ''2''"

theorem mem_main_tracks_heap_witness:
  "\<exists>s. snd (mem_main bump_alloc (\<lambda>_. True) mem_session) = Waits s \<and> mem_inv s"
proof -
  have "case snd (mem_main bump_alloc (\<lambda>_. True) mem_session) of Undefined _ \<Rightarrow> False | _ \<Rightarrow> True" by code_simp
  moreover have "fresh_alloc bump_alloc" by (simp add: fresh_alloc_def bump_alloc_def)
  ultimately show ?thesis using mem_main_tracks_heap [of bump_alloc "\<lambda>_. True" mem_session] by auto
qed

end
