(* ===== verification/Select_Servers.thy ===== *)
theory Select_Servers
  imports C_Scan
begin

text \<open>
  The two servers that multiplex their clients with \<open>select\<close>: the chat room of
  \<^verbatim>\<open>src/multi-client-chat-server/server.c\<close> and the echo server of \<^verbatim>\<open>src/multi-client-echo/server.c\<close>. Both keep the
  clients' descriptors in an array with -1 for a free slot. The results of the system calls of one
  round of the main loop are an argument: what \<open>select\<close> reports, what \<open>accept\<close> returns, what a \<open>read\<close> of
  each descriptor gives and how much of a \<open>write\<close> is taken. Log messages are left out, and so is
  \<open>SIGPIPE\<close>.
\<close>

section \<open>System calls and the table of clients\<close>

text \<open>\<open>select\<close> fails, is interrupted (the sets then stay as they were filled), or leaves the ready descriptors.\<close>

datatype sel = Sel_fail | Sel_intr | Sel_ready "int list"

datatype read_result = Read_error | Read_again | Read_bytes string

record net =
  n_select :: sel
  n_accept :: "int option"
  n_read :: "int \<Rightarrow> read_result"
  n_write :: "int \<Rightarrow> nat"

definition watched :: "int \<Rightarrow> int list \<Rightarrow> int list" where
  "watched listen_fd slots = listen_fd # filter (\<lambda>fd. fd > 0) slots"

definition ready_fds :: "sel \<Rightarrow> int list \<Rightarrow> int list" where
  "ready_fds s w = (case s of Sel_ready fs \<Rightarrow> filter (\<lambda>fd. fd \<in> set fs) w | _ \<Rightarrow> w)"

text \<open>The loop that stores a new descriptor in the first free slot; without one the descriptor is stored nowhere.\<close>

fun assign_slot :: "int \<Rightarrow> int list \<Rightarrow> int list" where
  "assign_slot new_fd [] = []"
| "assign_slot new_fd (fd # fds) = (if fd = -1 then new_fd # fds else fd # assign_slot new_fd fds)"

text \<open>The calls before the main loop, and the call the server exits after.\<close>

datatype server_setup = Setup_ok | Fail_socket | Fail_setsockopt | Fail_bind | Fail_listen

section \<open>The chat server\<close>

definition MAX_USERS :: nat where "MAX_USERS = 10"
definition MSG_BUF_SIZE :: nat where "MSG_BUF_SIZE = 1024"

text \<open>\<open>open_fds\<close> are the open connections, \<open>sent\<close> is what was sent to which descriptor.\<close>

record chat =
  client_fd :: "int list"
  open_fds :: "int list"
  sent :: "(int \<times> string) list"

definition chat_init :: chat where
  "chat_init = \<lparr>client_fd = replicate MAX_USERS (-1), open_fds = [], sent = []\<rparr>"

definition greet :: string where
  "greet = ''Hello! Welcome to the chat room.'' @ [newline]"

definition chat_accept :: "chat \<Rightarrow> int \<Rightarrow> chat" where
  "chat_accept s new_fd =
     s\<lparr>open_fds := new_fd # open_fds s, sent := sent s @ [(new_fd, greet)], client_fd := assign_slot new_fd (client_fd s)\<rparr>"

definition broadcast :: "int list \<Rightarrow> int \<Rightarrow> string \<Rightarrow> (int \<times> string) list" where
  "broadcast slots fd msg = map (\<lambda>f. (f, msg)) (filter (\<lambda>f. f \<noteq> -1 \<and> f \<noteq> fd) slots)"

text \<open>The bytes of a message: what one \<open>read\<close> gives of them, up to the first NUL.\<close>

definition message :: "read_result \<Rightarrow> string option" where
  "message r = (case r of Read_bytes b \<Rightarrow> if b = [] then None else Some (c_str (take (MSG_BUF_SIZE - 1) b)) | _ \<Rightarrow> None)"

definition chat_client :: "net \<Rightarrow> int list \<Rightarrow> nat \<Rightarrow> chat \<Rightarrow> chat" where
  "chat_client e ready i s =
     (let fd = client_fd s ! i in
      if fd > 0 \<and> fd \<in> set ready then
        (case message (n_read e fd) of
           None \<Rightarrow> s\<lparr>client_fd := (client_fd s)[i := -1], open_fds := removeAll fd (open_fds s)\<rparr>
         | Some msg \<Rightarrow> s\<lparr>sent := sent s @ broadcast (client_fd s) fd msg\<rparr>)
      else s)"

definition chat_clients :: "net \<Rightarrow> int list \<Rightarrow> chat \<Rightarrow> chat" where
  "chat_clients e ready s = fold (chat_client e ready) [0..<MAX_USERS] s"

text \<open>One round; \<open>None\<close> leaves the loop.\<close>

definition chat_round :: "int \<Rightarrow> chat \<Rightarrow> net \<Rightarrow> chat option" where
  "chat_round listen_fd s e =
     (if n_select e = Sel_fail then None
      else
        let ready = ready_fds (n_select e) (watched listen_fd (client_fd s)) in
        if listen_fd \<in> set ready then
          (case n_accept e of
             None \<Rightarrow> Some s
           | Some new_fd \<Rightarrow> Some (chat_clients e ready (chat_accept s new_fd)))
        else Some (chat_clients e ready s))"

fun chat_loop :: "int \<Rightarrow> chat \<Rightarrow> net list \<Rightarrow> chat" where
  "chat_loop listen_fd s [] = s"
| "chat_loop listen_fd s (e # es) =
     (case chat_round listen_fd s e of None \<Rightarrow> s | Some s' \<Rightarrow> chat_loop listen_fd s' es)"

definition chat_setup :: "bool \<Rightarrow> bool \<Rightarrow> bool \<Rightarrow> bool \<Rightarrow> server_setup" where
  "chat_setup socket_ok opt_ok bind_ok listen_ok =
     (if \<not> socket_ok then Fail_socket else if \<not> opt_ok then Fail_setsockopt
      else if \<not> bind_ok then Fail_bind else if \<not> listen_ok then Fail_listen else Setup_ok)"

text \<open>\<open>main\<close>: the call it fails after, or the state of the loop after the given rounds.\<close>

definition chat_main :: "bool \<Rightarrow> bool \<Rightarrow> bool \<Rightarrow> bool \<Rightarrow> int \<Rightarrow> net list \<Rightarrow> server_setup + chat" where
  "chat_main socket_ok opt_ok bind_ok listen_ok listen_fd es =
     (let r = chat_setup socket_ok opt_ok bind_ok listen_ok
      in if r \<noteq> Setup_ok then Inl r else Inr (chat_loop listen_fd chat_init es))"

section \<open>The echo server\<close>

definition MAX_CLIENTS :: nat where "MAX_CLIENTS = 1024"
definition ECHO_BUF_SIZE :: nat where "ECHO_BUF_SIZE = 1024"

text \<open>\<open>got\<close> and \<open>echoed\<close> are the bytes read from and written to each descriptor.\<close>

record echo =
  clients :: "int list"
  e_open :: "int list"
  got :: "int \<Rightarrow> string"
  echoed :: "int \<Rightarrow> string"

definition echo_init :: "nat \<Rightarrow> echo" where
  "echo_init n = \<lparr>clients = replicate n (-1), e_open = [], got = (\<lambda>_. []), echoed = (\<lambda>_. [])\<rparr>"

definition echo_accept :: "echo \<Rightarrow> int option \<Rightarrow> echo" where
  "echo_accept s conn =
     (case conn of
        None \<Rightarrow> s
      | Some conn_fd \<Rightarrow> s\<lparr>e_open := conn_fd # e_open s, clients := assign_slot conn_fd (clients s)\<rparr>)"

definition echo_drop :: "echo \<Rightarrow> nat \<Rightarrow> int \<Rightarrow> echo" where
  "echo_drop s i fd = s\<lparr>clients := (clients s)[i := -1], e_open := removeAll fd (e_open s)\<rparr>"

definition echo_client :: "net \<Rightarrow> int list \<Rightarrow> nat \<Rightarrow> echo \<Rightarrow> echo" where
  "echo_client e ready i s =
     (let fd = clients s ! i in
      if fd < 0 then s
      else if fd \<in> set ready then
        (case n_read e fd of
           Read_bytes bs \<Rightarrow>
             if bs = [] then echo_drop s i fd
             else
               let b = take (ECHO_BUF_SIZE - 1) bs
               in s\<lparr>got := (got s)(fd := got s fd @ b),
                    echoed := (echoed s)(fd := echoed s fd @ take (n_write e fd) b)\<rparr>
         | Read_error \<Rightarrow> echo_drop s i fd
         | Read_again \<Rightarrow> s)
      else s)"

definition echo_round :: "int \<Rightarrow> echo \<Rightarrow> net \<Rightarrow> echo option" where
  "echo_round listen_fd s e =
     (if n_select e = Sel_fail then None
      else
        let ready = ready_fds (n_select e) (watched listen_fd (clients s));
            s = (if listen_fd \<in> set ready then echo_accept s (n_accept e) else s)
        in Some (fold (echo_client e ready) [0..<length (clients s)] s))"

fun echo_loop :: "int \<Rightarrow> echo \<Rightarrow> net list \<Rightarrow> echo" where
  "echo_loop listen_fd s [] = s"
| "echo_loop listen_fd s (e # es) =
     (case echo_round listen_fd s e of None \<Rightarrow> s | Some s' \<Rightarrow> echo_loop listen_fd s' es)"

definition echo_setup :: "bool \<Rightarrow> bool \<Rightarrow> bool \<Rightarrow> server_setup" where
  "echo_setup socket_ok bind_ok listen_ok =
     (if \<not> socket_ok then Fail_socket else if \<not> bind_ok then Fail_bind
      else if \<not> listen_ok then Fail_listen else Setup_ok)"

definition echo_main :: "bool \<Rightarrow> bool \<Rightarrow> bool \<Rightarrow> int \<Rightarrow> net list \<Rightarrow> server_setup + echo" where
  "echo_main socket_ok bind_ok listen_ok listen_fd es =
     (let r = echo_setup socket_ok bind_ok listen_ok
      in if r \<noteq> Setup_ok then Inl r else Inr (echo_loop listen_fd (echo_init MAX_CLIENTS) es))"

section \<open>The chat server implements a room\<close>

text \<open>
  The abstract room: its members and what each descriptor has been sent. A message goes to all other members;
  a room of \<open>MAX_USERS\<close> members takes no more, but greets the visitor.
\<close>

record room =
  members :: "int set"
  inbox :: "int \<Rightarrow> string"

datatype room_event = Join int | Say int string | Leave int

fun room_step :: "room_event \<Rightarrow> room \<Rightarrow> room" where
  "room_step (Join fd) r =
     \<lparr>members = (if card (members r) < MAX_USERS then insert fd (members r) else members r),
      inbox = (inbox r)(fd := inbox r fd @ greet)\<rparr>"
| "room_step (Say fd msg) r = r\<lparr>inbox := (\<lambda>x. if x \<in> members r \<and> x \<noteq> fd then inbox r x @ msg else inbox r x)\<rparr>"
| "room_step (Leave fd) r = r\<lparr>members := members r - {fd}\<rparr>"

text \<open>The events of a round: a visitor first, then each ready client in the order of the slots.\<close>

definition slot_events :: "net \<Rightarrow> int list \<Rightarrow> int \<Rightarrow> room_event list" where
  "slot_events e ready fd =
     (if fd > 0 \<and> fd \<in> set ready
      then [case message (n_read e fd) of None \<Rightarrow> Leave fd | Some msg \<Rightarrow> Say fd msg] else [])"

definition chat_events :: "int \<Rightarrow> chat \<Rightarrow> net \<Rightarrow> room_event list" where
  "chat_events listen_fd s e =
     (let ready = ready_fds (n_select e) (watched listen_fd (client_fd s));
          talk = (\<lambda>slots. concat (map (slot_events e ready) slots))
      in if listen_fd \<in> set ready then
           (case n_accept e of
              None \<Rightarrow> []
            | Some new_fd \<Rightarrow> Join new_fd # talk (assign_slot new_fd (client_fd s)))
         else talk (client_fd s))"

definition inbox_of :: "(int \<times> string) list \<Rightarrow> int \<Rightarrow> string" where
  "inbox_of log x = concat (map snd (filter (\<lambda>(f, _). f = x) log))"

definition room_of :: "chat \<Rightarrow> room" where
  "room_of s = \<lparr>members = set (client_fd s) - {-1}, inbox = inbox_of (sent s)\<rparr>"

definition slots_ok :: "int list \<Rightarrow> int list \<Rightarrow> bool" where
  "slots_ok slots opened \<longleftrightarrow> distinct (filter (\<lambda>fd. fd \<noteq> -1) slots) \<and> (\<forall>fd\<in>set slots. fd = -1 \<or> fd > 0) \<and>
     set slots - {-1} \<subseteq> set opened"

definition chat_inv :: "chat \<Rightarrow> bool" where
  "chat_inv s \<longleftrightarrow> length (client_fd s) = MAX_USERS \<and> slots_ok (client_fd s) (open_fds s)"

text \<open>What is documented of \<open>accept\<close>: the descriptor it returns is positive here and was not open.\<close>

definition accept_ok :: "int \<Rightarrow> int list \<Rightarrow> net \<Rightarrow> bool" where
  "accept_ok listen_fd opened e \<longleftrightarrow>
     (case n_accept e of None \<Rightarrow> True | Some fd \<Rightarrow> fd > 0 \<and> fd \<noteq> listen_fd \<and> fd \<notin> set opened)"

fun accepts_ok :: "int \<Rightarrow> chat \<Rightarrow> net list \<Rightarrow> bool" where
  "accepts_ok listen_fd s [] = True"
| "accepts_ok listen_fd s (e # es) =
     (accept_ok listen_fd (open_fds s) e \<and>
      (case chat_round listen_fd s e of None \<Rightarrow> True | Some s' \<Rightarrow> accepts_ok listen_fd s' es))"

fun chat_trace :: "int \<Rightarrow> chat \<Rightarrow> net list \<Rightarrow> room_event list" where
  "chat_trace listen_fd s [] = []"
| "chat_trace listen_fd s (e # es) =
     (case chat_round listen_fd s e of None \<Rightarrow> []
      | Some s' \<Rightarrow> chat_events listen_fd s e @ chat_trace listen_fd s' es)"

lemma length_assign_slot [simp]: "length (assign_slot fd xs) = length xs"
  by (induction xs) auto

lemma assign_slot_full: "-1 \<notin> set xs \<Longrightarrow> assign_slot fd xs = xs"
  by (induction xs) auto

lemma assign_slot_split:
  "-1 \<in> set xs \<Longrightarrow> \<exists>ys zs. xs = ys @ (-1) # zs \<and> assign_slot fd xs = ys @ fd # zs"
proof (induction xs)
  case (Cons x xs)
  show ?case
  proof (cases "x = -1")
    case True
    then have "x # xs = [] @ (-1) # xs \<and> assign_slot fd (x # xs) = [] @ fd # xs" by simp
    then show ?thesis by blast
  next
    case False
    then obtain ys zs where "xs = ys @ (-1) # zs" "assign_slot fd xs = ys @ fd # zs" using Cons by auto
    then have "x # xs = (x # ys) @ (-1) # zs \<and> assign_slot fd (x # xs) = (x # ys) @ fd # zs" using False by simp
    then show ?thesis by blast
  qed
qed simp

lemma set_assign_slot:
  assumes "fd > 0"
  shows "set (assign_slot fd xs) - {-1} = (set xs - {-1}) \<union> (if -1 \<in> set xs then {fd} else {})"
proof (cases "-1 \<in> set xs")
  case True
  then obtain ys zs where "xs = ys @ (-1) # zs" "assign_slot fd xs = ys @ fd # zs" using assign_slot_split by blast
  then show ?thesis using assms by auto
qed (simp add: assign_slot_full)

lemma slots_ok_assign:
  assumes ok: "slots_ok xs opened" and fd: "fd > 0" "fd \<notin> set opened"
  shows "slots_ok (assign_slot fd xs) (fd # opened)"
proof (cases "-1 \<in> set xs")
  case True
  then obtain ys zs where x: "xs = ys @ (-1) # zs" "assign_slot fd xs = ys @ fd # zs" using assign_slot_split by blast
  have "fd \<notin> set ys" "fd \<notin> set zs" using ok fd unfolding slots_ok_def x(1) by auto
  moreover have "slots_ok (ys @ (-1) # zs) opened" using ok x(1) by simp
  ultimately show ?thesis using fd unfolding x(2) slots_ok_def by auto
next
  case False
  then show ?thesis using ok unfolding slots_ok_def assign_slot_full [OF False] by auto
qed

lemma slots_ok_drop:
  assumes "slots_ok xs opened" and "i < length xs" and "xs ! i \<noteq> -1"
  shows "slots_ok (xs[i := -1]) (removeAll (xs ! i) opened)"
    and "set (xs[i := -1]) - {-1} = set xs - {-1} - {xs ! i}"
proof -
  define ys zs where "ys = take i xs" and "zs = drop (Suc i) xs"
  have xs: "xs = ys @ xs ! i # zs" "xs[i := -1] = ys @ (-1) # zs"
    using assms(2) by (simp_all add: ys_def zs_def id_take_nth_drop upd_conv_take_nth_drop)
  have d: "distinct (filter (\<lambda>fd. fd \<noteq> -1) (ys @ xs ! i # zs))"
    using assms(1) xs(1) unfolding slots_ok_def by metis
  have notin: "xs ! i \<notin> set ys" "xs ! i \<notin> set zs" using d assms(3) by auto
  have s: "set xs = set ys \<union> {xs ! i} \<union> set zs" by (subst xs(1)) auto
  show set: "set (xs[i := -1]) - {-1} = set xs - {-1} - {xs ! i}" unfolding xs(2) s using notin by auto
  show "slots_ok (xs[i := -1]) (removeAll (xs ! i) opened)"
    using assms(1) d set by (auto simp: slots_ok_def xs(2) s)
qed

lemma free_slot_card:
  assumes "slots_ok xs opened"
  shows "card (set xs - {-1}) < length xs \<longleftrightarrow> -1 \<in> set xs"
proof -
  have "set xs - {-1} = set (filter (\<lambda>fd. fd \<noteq> -1) xs)" by auto
  then have c: "card (set xs - {-1}) = length (filter (\<lambda>fd. fd \<noteq> -1) xs)"
    using assms by (simp only: slots_ok_def distinct_card)
  show ?thesis unfolding c
    using length_filter_less [of "-1" xs "\<lambda>fd. fd \<noteq> -1"] by (metis (mono_tags, lifting) filter_True nat_neq_iff)
qed

lemma inbox_of_append: "inbox_of (xs @ ys) x = inbox_of xs x @ inbox_of ys x"
  by (simp add: inbox_of_def)

lemma inbox_of_broadcast:
  assumes "distinct (filter (\<lambda>f. f \<noteq> -1) xs)"
  shows "inbox_of (broadcast xs fd msg) x = (if x \<in> set xs - {-1} \<and> x \<noteq> fd then msg else [])"
  using assms
proof (induction xs)
  case (Cons a xs)
  have "broadcast (a # xs) fd msg = (if a \<noteq> -1 \<and> a \<noteq> fd then [(a, msg)] else []) @ broadcast xs fd msg"
    by (simp add: broadcast_def)
  then show ?case using Cons by (auto simp: inbox_of_append inbox_of_def [of "[(_, _)]"] inbox_of_def [of "[]"] split: if_splits)
qed (simp add: broadcast_def inbox_of_def)

lemma chat_client_room:
  assumes inv: "chat_inv s" and i: "i < MAX_USERS"
  shows "chat_inv (chat_client e ready i s)"
    and "room_of (chat_client e ready i s) = fold room_step (slot_events e ready (client_fd s ! i)) (room_of s)"
    and "j \<noteq> i \<Longrightarrow> client_fd (chat_client e ready i s) ! j = client_fd s ! j"
proof -
  let ?fd = "client_fd s ! i"
  have len: "i < length (client_fd s)" and ok: "slots_ok (client_fd s) (open_fds s)"
    using inv i by (simp_all add: chat_inv_def)
  have d: "distinct (filter (\<lambda>f. f \<noteq> -1) (client_fd s))" using ok by (simp add: slots_ok_def)
  have drop: "slots_ok ((client_fd s)[i := -1]) (removeAll ?fd (open_fds s))"
    "set ((client_fd s)[i := -1]) - {-1} = set (client_fd s) - {-1} - {?fd}" if "?fd > 0"
    using slots_ok_drop [OF ok len] that by auto
  show "chat_inv (chat_client e ready i s)"
    using inv drop(1) by (auto simp: chat_client_def chat_inv_def Let_def split: option.split)
  show "room_of (chat_client e ready i s) = fold room_step (slot_events e ready ?fd) (room_of s)"
    using drop(2)
    by (auto simp: chat_client_def room_of_def slot_events_def Let_def inbox_of_append inbox_of_broadcast [OF d]
        fun_eq_iff split: option.split)
  show "j \<noteq> i \<Longrightarrow> client_fd (chat_client e ready i s) ! j = client_fd s ! j"
    by (simp add: chat_client_def Let_def split: option.split)
qed

lemma chat_clients_upto:
  assumes "chat_inv s"
  shows "k \<le> MAX_USERS \<Longrightarrow>
    chat_inv (fold (chat_client e ready) [0..<k] s) \<and>
    room_of (fold (chat_client e ready) [0..<k] s) =
      fold room_step (concat (map (slot_events e ready) (take k (client_fd s)))) (room_of s) \<and>
    (\<forall>j\<ge>k. client_fd (fold (chat_client e ready) [0..<k] s) ! j = client_fd s ! j)"
proof (induction k)
  case 0
  then show ?case using assms by simp
next
  case (Suc k)
  let ?t = "fold (chat_client e ready) [0..<k] s"
  have k: "k < MAX_USERS" using Suc.prems by simp
  have IH: "chat_inv ?t"
    "room_of ?t = fold room_step (concat (map (slot_events e ready) (take k (client_fd s)))) (room_of s)"
    "\<forall>j\<ge>k. client_fd ?t ! j = client_fd s ! j"
    using Suc by auto
  have tk: "take (Suc k) (client_fd s) = take k (client_fd s) @ [client_fd s ! k]"
    using assms k by (simp add: chat_inv_def take_Suc_conv_app_nth)
  note c = chat_client_room [OF IH(1) k, where e = e and ready = ready]
  show ?case using c IH(2,3) by (simp add: tk)
qed

lemma chat_clients_room:
  assumes "chat_inv s"
  shows "chat_inv (chat_clients e ready s)"
    and "room_of (chat_clients e ready s) = fold room_step (concat (map (slot_events e ready) (client_fd s))) (room_of s)"
  using chat_clients_upto [OF assms, of MAX_USERS e ready] assms by (auto simp: chat_clients_def chat_inv_def)

lemma chat_accept_room:
  assumes inv: "chat_inv s" and fd: "fd > 0" "fd \<notin> set (open_fds s)"
  shows "chat_inv (chat_accept s fd)" and "room_of (chat_accept s fd) = room_step (Join fd) (room_of s)"
proof -
  have ok: "slots_ok (client_fd s) (open_fds s)" "length (client_fd s) = MAX_USERS"
    using inv by (simp_all add: chat_inv_def)
  show "chat_inv (chat_accept s fd)" using slots_ok_assign [OF ok(1) fd] ok(2) by (simp add: chat_accept_def chat_inv_def)
  show "room_of (chat_accept s fd) = room_step (Join fd) (room_of s)"
    using free_slot_card [OF ok(1)] ok(2)
    by (auto simp: room_of_def chat_accept_def set_assign_slot [OF fd(1)] inbox_of_append fun_eq_iff)
       (simp_all add: inbox_of_def)
qed

lemma chat_round_room:
  assumes inv: "chat_inv s" and acc: "accept_ok listen_fd (open_fds s) e" and r: "chat_round listen_fd s e = Some s'"
  shows "chat_inv s' \<and> room_of s' = fold room_step (chat_events listen_fd s e) (room_of s)"
proof -
  define ready where "ready = ready_fds (n_select e) (watched listen_fd (client_fd s))"
  show ?thesis
  proof (cases "listen_fd \<in> set ready")
    case False
    then have "s' = chat_clients e ready s" using r by (auto simp: chat_round_def ready_def Let_def split: if_splits)
    moreover have "chat_events listen_fd s e = concat (map (slot_events e ready) (client_fd s))"
      using False by (simp add: chat_events_def ready_def [symmetric] Let_def)
    ultimately show ?thesis using chat_clients_room [OF inv] by simp
  next
    case True
    show ?thesis
    proof (cases "n_accept e")
      case None
      then have "s' = s" "chat_events listen_fd s e = []"
        using r True by (auto simp: chat_round_def chat_events_def ready_def Let_def split: if_splits)
      then show ?thesis using inv by simp
    next
      case (Some fd)
      then have "s' = chat_clients e ready (chat_accept s fd)"
        using r True by (auto simp: chat_round_def ready_def Let_def split: if_splits)
      moreover have "chat_events listen_fd s e = Join fd # concat (map (slot_events e ready) (client_fd (chat_accept s fd)))"
        using Some True by (simp add: chat_events_def ready_def [symmetric] Let_def chat_accept_def)
      moreover have "fd > 0" "fd \<notin> set (open_fds s)" using acc Some by (simp_all add: accept_ok_def)
      ultimately show ?thesis using chat_accept_room [OF inv] chat_clients_room by simp
    qed
  qed
qed

lemma chat_loop_room:
  "chat_inv s \<Longrightarrow> accepts_ok listen_fd s es \<Longrightarrow>
   chat_inv (chat_loop listen_fd s es) \<and>
   room_of (chat_loop listen_fd s es) = fold room_step (chat_trace listen_fd s es) (room_of s)"
proof (induction es arbitrary: s)
  case (Cons e es)
  show ?case
  proof (cases "chat_round listen_fd s e")
    case (Some s')
    then show ?thesis using Cons.IH [of s'] chat_round_room [OF Cons.prems(1) _ Some] Cons.prems(2) by auto
  qed (use Cons.prems in simp)
qed simp

lemma chat_init_inv: "chat_inv chat_init"
  by (simp add: chat_inv_def chat_init_def slots_ok_def set_replicate_conv_if)

lemma room_of_init: "room_of chat_init = \<lparr>members = {}, inbox = (\<lambda>_. [])\<rparr>"
  by (auto simp: room_of_def chat_init_def inbox_of_def)

text \<open>With all slots taken a new connection is greeted and stays open, but is stored nowhere.\<close>

lemma chat_full_leak:
  assumes "chat_inv s" and "card (members (room_of s)) = MAX_USERS"
  shows "client_fd (chat_accept s fd) = client_fd s \<and> fd \<in> set (open_fds (chat_accept s fd)) \<and>
    (fd, greet) \<in> set (sent (chat_accept s fd))"
proof -
  have "-1 \<notin> set (client_fd s)"
    using assms free_slot_card [of "client_fd s" "open_fds s"] by (simp add: chat_inv_def room_of_def)
  then show ?thesis by (simp add: chat_accept_def assign_slot_full)
qed

section \<open>Properties of the chat server\<close>

text \<open>C5: The chat server implements the room: whatever its clients do in whatever order, after any number of rounds the clients
  in its slots are the members of the room, and every descriptor has been sent exactly the greeting and the messages
  the room sends it: each message once to every other member and to nobody else.\<close>

theorem chat_main_refines_room:
  assumes "accepts_ok listen_fd chat_init es"
  shows "\<exists>s. chat_main True True True True listen_fd es = Inr s \<and>
    room_of s = fold room_step (chat_trace listen_fd chat_init es) \<lparr>members = {}, inbox = (\<lambda>_. [])\<rparr> \<and>
    card (members (room_of s)) \<le> MAX_USERS"
proof -
  let ?s = "chat_loop listen_fd chat_init es"
  have r: "chat_inv ?s" "room_of ?s = fold room_step (chat_trace listen_fd chat_init es) \<lparr>members = {}, inbox = (\<lambda>_. [])\<rparr>"
    using chat_loop_room [OF chat_init_inv assms] by (simp_all add: room_of_init)
  have "card (set (client_fd ?s) - {-1}) \<le> card (set (client_fd ?s))" by (rule card_mono) auto
  also have "\<dots> \<le> MAX_USERS" using r(1) card_length [of "client_fd ?s"] by (simp add: chat_inv_def)
  finally show ?thesis using r(2) by (simp add: chat_main_def chat_setup_def room_of_def)
qed

definition chat_demo :: "net list" where
  "chat_demo =
     [\<lparr>n_select = Sel_ready [3], n_accept = Some 4, n_read = (\<lambda>_. Read_error), n_write = (\<lambda>_. 0)\<rparr>,
      \<lparr>n_select = Sel_ready [3], n_accept = Some 5, n_read = (\<lambda>_. Read_error), n_write = (\<lambda>_. 0)\<rparr>,
      \<lparr>n_select = Sel_ready [4], n_accept = None, n_read = (\<lambda>_. Read_bytes ''hi''), n_write = (\<lambda>_. 0)\<rparr>,
      \<lparr>n_select = Sel_ready [4, 5], n_accept = None,
       n_read = (\<lambda>fd. if fd = 4 then Read_bytes [] else Read_bytes ''bye''), n_write = (\<lambda>_. 0)\<rparr>]"

theorem chat_main_refines_room_witness:
  "\<exists>s. chat_main True True True True 3 chat_demo = Inr s \<and>
    room_of s = fold room_step (chat_trace 3 chat_init chat_demo) \<lparr>members = {}, inbox = (\<lambda>_. [])\<rparr> \<and>
    card (members (room_of s)) \<le> MAX_USERS"
proof -
  have "accepts_ok 3 chat_init chat_demo" by code_simp
  then show ?thesis by (rule chat_main_refines_room)
qed

section \<open>What the echo server sends back\<close>

text \<open>The part of a round that concerns descriptor \<open>fd\<close>: the bytes read from it.\<close>

definition round_bytes :: "net \<Rightarrow> int list \<Rightarrow> int \<Rightarrow> string" where
  "round_bytes e ready fd =
     (if fd \<in> set ready then (case n_read e fd of Read_bytes bs \<Rightarrow> take (ECHO_BUF_SIZE - 1) bs | _ \<Rightarrow> []) else [])"

lemma echo_client_frame:
  assumes "i < length (clients s)"
  shows "length (clients (echo_client e ready i s)) = length (clients s)"
    and "j \<noteq> i \<Longrightarrow> clients (echo_client e ready i s) ! j = clients s ! j"
    and "got (echo_client e ready i s) fd =
      got s fd @ (if clients s ! i = fd \<and> fd \<ge> 0 then round_bytes e ready fd else [])"
    and "echoed (echo_client e ready i s) fd =
      echoed s fd @ (if clients s ! i = fd \<and> fd \<ge> 0 then take (n_write e fd) (round_bytes e ready fd) else [])"
  by (auto simp: echo_client_def echo_drop_def round_bytes_def Let_def split: read_result.split)

lemma echo_client_slots:
  assumes "slots_ok (clients s) (e_open s)" and "i < length (clients s)"
  shows "slots_ok (clients (echo_client e ready i s)) (e_open (echo_client e ready i s))"
  using assms slots_ok_drop(1) [OF assms]
  by (auto simp: echo_client_def echo_drop_def Let_def split: read_result.split)

lemma echo_clients_upto:
  fixes s :: echo and e :: net and ready :: "int list"
  assumes ok: "slots_ok (clients s) (e_open s)"
  defines "T k \<equiv> fold (echo_client e ready) [0..<k] s"
  shows "k \<le> length (clients s) \<Longrightarrow> slots_ok (clients (T k)) (e_open (T k)) \<and> length (clients (T k)) = length (clients s) \<and>
    (\<forall>j\<ge>k. clients (T k) ! j = clients s ! j) \<and>
    (\<forall>fd>0. got (T k) fd = got s fd @ (if fd \<in> set (take k (clients s)) then round_bytes e ready fd else []) \<and>
       echoed (T k) fd = echoed s fd @
         (if fd \<in> set (take k (clients s)) then take (n_write e fd) (round_bytes e ready fd) else []))"
proof (induction k)
  case 0
  then show ?case using ok by (simp add: T_def)
next
  case (Suc k)
  have T: "T (Suc k) = echo_client e ready k (T k)" by (simp add: T_def)
  have k: "k < length (clients s)" using Suc.prems by simp
  have IH: "slots_ok (clients (T k)) (e_open (T k))" "length (clients (T k)) = length (clients s)"
    "\<forall>j\<ge>k. clients (T k) ! j = clients s ! j" using Suc by auto
  have g: "got (T k) fd = got s fd @ (if fd \<in> set (take k (clients s)) then round_bytes e ready fd else [])"
    "echoed (T k) fd = echoed s fd @ (if fd \<in> set (take k (clients s)) then take (n_write e fd) (round_bytes e ready fd) else [])"
    if "fd > 0" for fd using Suc that by auto
  have kk: "k < length (clients (T k))" "clients (T k) ! k = clients s ! k" using IH k by auto
  note f = echo_client_frame [OF kk(1), where e = e and ready = ready]
  have tk: "take (Suc k) (clients s) = take k (clients s) @ [clients s ! k]" using k by (simp add: take_Suc_conv_app_nth)
  have new: "clients s ! k \<notin> set (take k (clients s))" if "clients s ! k > 0"
  proof -
    have "filter (\<lambda>fd. fd \<noteq> -1) (take (Suc k) (clients s)) = filter (\<lambda>fd. fd \<noteq> -1) (take k (clients s)) @ [clients s ! k]"
      using that unfolding tk by simp
    moreover have "distinct (filter (\<lambda>fd. fd \<noteq> -1) (take (Suc k) (clients s)))"
      using ok distinct_append [of "filter (\<lambda>fd. fd \<noteq> -1) (take (Suc k) (clients s))" "filter (\<lambda>fd. fd \<noteq> -1) (drop (Suc k) (clients s))"]
      by (metis append_take_drop_id filter_append slots_ok_def)
    ultimately show ?thesis using that by auto
  qed
  have "got (T (Suc k)) fd = got s fd @ (if fd \<in> set (take (Suc k) (clients s)) then round_bytes e ready fd else [])"
    "echoed (T (Suc k)) fd = echoed s fd @ (if fd \<in> set (take (Suc k) (clients s)) then take (n_write e fd) (round_bytes e ready fd) else [])"
    if "fd > 0" for fd
    using g [OF that] new that unfolding T f(3,4) kk(2) tk by auto
  moreover have "slots_ok (clients (T (Suc k))) (e_open (T (Suc k)))" unfolding T by (rule echo_client_slots [OF IH(1) kk(1)])
  ultimately show ?case using f(1,2) IH(2,3) unfolding T by auto
qed

lemma echo_accept_slots:
  assumes "slots_ok (clients s) (e_open s)" and "accept_ok listen_fd (e_open s) e"
  shows "slots_ok (clients (echo_accept s (n_accept e))) (e_open (echo_accept s (n_accept e)))"
  using assms slots_ok_assign by (auto simp: echo_accept_def accept_ok_def split: option.splits)

lemma echo_init_ok: "slots_ok (clients (echo_init n)) (e_open (echo_init n))"
  by (simp add: echo_init_def slots_ok_def set_replicate_conv_if)

text \<open>The states after any number of rounds of the echo server with \<open>n\<close> slots.\<close>

inductive echo_reach :: "nat \<Rightarrow> int \<Rightarrow> echo \<Rightarrow> bool" for n listen_fd where
  echo_start: "echo_reach n listen_fd (echo_init n)"
| echo_next: "echo_reach n listen_fd s \<Longrightarrow> accept_ok listen_fd (e_open s) e \<Longrightarrow> echo_round listen_fd s e = Some s' \<Longrightarrow>
    echo_reach n listen_fd s'"

lemma echo_round_ok:
  assumes ok: "slots_ok (clients s) (e_open s)" and acc: "accept_ok listen_fd (e_open s) e"
    and r: "echo_round listen_fd s e = Some s'" and fd: "fd > 0" "fd \<noteq> listen_fd"
  defines "ready \<equiv> ready_fds (n_select e) (watched listen_fd (clients s))"
  shows "slots_ok (clients s') (e_open s') \<and> length (clients s') = length (clients s) \<and>
    got s' fd = got s fd @ round_bytes e ready fd \<and>
    echoed s' fd = echoed s fd @ take (n_write e fd) (round_bytes e ready fd)"
proof -
  define t where "t = (if listen_fd \<in> set ready then echo_accept s (n_accept e) else s)"
  have t: "slots_ok (clients t) (e_open t)" "length (clients t) = length (clients s)" "got t = got s" "echoed t = echoed s"
    using ok echo_accept_slots [OF ok acc] by (auto simp: t_def echo_accept_def split: option.split)
  have s': "s' = fold (echo_client e ready) [0..<length (clients t)] t"
    using r by (auto simp: echo_round_def ready_def [symmetric] t_def [symmetric] Let_def split: if_splits)
  have "fd \<in> set (clients t)" if "fd \<in> set ready"
  proof -
    have in_s: "fd \<in> set (clients s)" using that fd by (auto simp: ready_def ready_fds_def watched_def split: sel.splits if_splits)
    show ?thesis
    proof (cases "n_accept e")
      case None
      then show ?thesis using in_s by (simp add: t_def echo_accept_def)
    next
      case (Some c)
      then have "c > 0" using acc by (simp add: accept_ok_def)
      then have "fd \<in> set (assign_slot c (clients s)) - {-1}" using in_s fd set_assign_slot [of c "clients s"] by auto
      then show ?thesis using in_s Some by (simp add: t_def echo_accept_def)
    qed
  qed
  then have "fd \<notin> set (clients t) \<Longrightarrow> round_bytes e ready fd = []" by (auto simp: round_bytes_def)
  then show ?thesis using echo_clients_upto [OF t(1), of "length (clients t)" e ready] t fd(1)
    unfolding s' [symmetric] by auto
qed

lemma echo_reach_ok: "echo_reach n listen_fd s \<Longrightarrow> slots_ok (clients s) (e_open s)"
proof (induction rule: echo_reach.induct)
  case (echo_next s e s')
  then show ?case using echo_round_ok [of s listen_fd e s' "\<bar>listen_fd\<bar> + 1"] by simp
qed (rule echo_init_ok)

text \<open>In every round of the echo server the bytes read from each client, and only they, are written back to that
  client, as far as the one \<open>write\<close> takes them; no two slots hold the same descriptor.\<close>

theorem echo_round_echoes:
  assumes "echo_reach n listen_fd s" and "accept_ok listen_fd (e_open s) e" and "echo_round listen_fd s e = Some s'"
    and "fd > 0" and "fd \<noteq> listen_fd"
  shows "slots_ok (clients s') (e_open s') \<and>
    (\<exists>b. b = round_bytes e (ready_fds (n_select e) (watched listen_fd (clients s))) fd \<and>
       got s' fd = got s fd @ b \<and> echoed s' fd = echoed s fd @ take (n_write e fd) b)"
  using echo_round_ok [OF echo_reach_ok [OF assms(1)] assms(2-5)] by simp

definition echo_demo :: "net list" where
  "echo_demo =
     [\<lparr>n_select = Sel_ready [3], n_accept = Some 4, n_read = (\<lambda>_. Read_again), n_write = (\<lambda>_. 0)\<rparr>,
      \<lparr>n_select = Sel_ready [4], n_accept = None, n_read = (\<lambda>_. Read_bytes ''hello''), n_write = (\<lambda>_. 3)\<rparr>]"

definition echo_demo1 :: echo where "echo_demo1 = the (echo_round 3 (echo_init 2) (echo_demo ! 0))"
definition echo_demo2 :: echo where "echo_demo2 = the (echo_round 3 echo_demo1 (echo_demo ! 1))"

theorem echo_round_echoes_witness: "got echo_demo2 4 = ''hello'' \<and> echoed echo_demo2 4 = ''hel''"
proof -
  have r1: "echo_round 3 (echo_init 2) (echo_demo ! 0) = Some echo_demo1"
    by (simp add: echo_demo1_def echo_round_def echo_demo_def Let_def)
  have a1: "accept_ok 3 (e_open (echo_init 2)) (echo_demo ! 0)" by code_simp
  have r2: "echo_round 3 echo_demo1 (echo_demo ! 1) = Some echo_demo2"
    by (simp add: echo_demo2_def echo_round_def echo_demo_def Let_def)
  have a2: "accept_ok 3 (e_open echo_demo1) (echo_demo ! 1)" by code_simp
  have b: "round_bytes (echo_demo ! 1) (ready_fds (n_select (echo_demo ! 1)) (watched 3 (clients echo_demo1))) 4 = ''hello''"
    "got echo_demo1 4 = []" "echoed echo_demo1 4 = []" "n_write (echo_demo ! 1) 4 = 3" by code_simp+
  show ?thesis using echo_round_echoes [OF echo_next [OF echo_start a1 r1] a2 r2, of 4] unfolding b by auto
qed

end
