(* ===== verification/Record_Query.thy ===== *)
theory Record_Query
  imports C_Strings
begin

text \<open>
  Two programs that select records: \<^verbatim>\<open>src/filtering.c\<close>, which compares a linear scan with a binary search
  over the sorted array, and \<^verbatim>\<open>src/qee.c\<close>, a pipeline of scan, filter and projection iterators. The values of
  \<open>rand\<close> are an argument, \<open>qsort\<close> is a parameter.
\<close>

section \<open>Linear and binary search\<close>

definition num_records :: nat where "num_records = 1000"

record frec =
  f_id :: int
  f_name :: string
  f_age :: int

definition generaterecords :: "(nat \<Rightarrow> int) \<Rightarrow> nat \<Rightarrow> frec list" where
  "generaterecords rnd n =
     map (\<lambda>i. \<lparr>f_id = int i + 1, f_name = ''name'' @ dec_str (i + 1), f_age = rnd i mod 100\<rparr>) [0..<n]"

text \<open>The records printed.\<close>

fun linearsearch :: "frec list \<Rightarrow> int \<Rightarrow> frec list" where
  "linearsearch [] minage = []"
| "linearsearch (r # rs) minage = (if f_age r \<ge> minage then r # linearsearch rs minage else linearsearch rs minage)"

definition comparebyage :: "frec \<Rightarrow> frec \<Rightarrow> int" where
  "comparebyage a b = f_age a - f_age b"

function bs_loop :: "frec list \<Rightarrow> int \<Rightarrow> int \<Rightarrow> int \<Rightarrow> int \<Rightarrow> int" where
  "bs_loop rs minage left right result =
     (if left \<le> right then
        let mid = left + (right - left) div 2 in
        if f_age (rs ! nat mid) \<ge> minage then bs_loop rs minage left (mid - 1) mid
        else bs_loop rs minage (mid + 1) right result
      else result)"
  by pat_completeness auto
termination
  by (relation "measure (\<lambda>(rs, minage, left, right, result). nat (right - left + 1))") auto

declare bs_loop.simps [simp del]

definition binarysearch :: "frec list \<Rightarrow> nat \<Rightarrow> int \<Rightarrow> int" where
  "binarysearch rs n minage = bs_loop rs minage 0 (int n - 1) (-1)"

text \<open>\<open>main\<close>: the records of the linear search, and the record found in the sorted array.\<close>

definition filter_main ::
  "((frec \<Rightarrow> frec \<Rightarrow> int) \<Rightarrow> frec list \<Rightarrow> frec list) \<Rightarrow> (nat \<Rightarrow> int) \<Rightarrow> frec list \<times> frec option" where
  "filter_main qsort rnd =
     (let filterage = 50;
          rs = generaterecords rnd num_records;
          printed = linearsearch rs filterage;
          rs = qsort comparebyage rs;
          index = binarysearch rs num_records filterage
      in (printed, if index \<noteq> -1 then Some (rs ! nat index) else None))"

subsection \<open>The search finds the first match\<close>

text \<open>What C promises of \<open>qsort\<close>: a permutation in which no element is greater than a later one.\<close>

definition qsort_ok :: "((frec \<Rightarrow> frec \<Rightarrow> int) \<Rightarrow> frec list \<Rightarrow> frec list) \<Rightarrow> bool" where
  "qsort_ok qsort \<longleftrightarrow>
     (\<forall>rs. mset (qsort comparebyage rs) = mset rs \<and> sorted_wrt (\<lambda>a b. comparebyage a b \<le> 0) (qsort comparebyage rs))"

lemma linearsearch_filter: "linearsearch rs minage = filter (\<lambda>r. f_age r \<ge> minage) rs"
  by (induction rs) auto

text \<open>Outside the window of the loop everything is decided: smaller ages below it, matches above it.\<close>

definition bs_inv :: "frec list \<Rightarrow> int \<Rightarrow> int \<Rightarrow> int \<Rightarrow> int \<Rightarrow> bool" where
  "bs_inv rs minage left right result \<longleftrightarrow> 0 \<le> left \<and> left \<le> right + 1 \<and> right < int (length rs) \<and>
     (\<forall>i. int i < left \<longrightarrow> f_age (rs ! i) < minage) \<and>
     (if right + 1 = int (length rs) then result = -1
      else result = right + 1 \<and> f_age (rs ! nat result) \<ge> minage)"

lemma bs_loop_first:
  "sorted_wrt (\<lambda>a b. f_age a \<le> f_age b) rs \<Longrightarrow> bs_inv rs minage left right result \<Longrightarrow>
    (\<exists>l. bs_inv rs minage l (l - 1) (bs_loop rs minage left right result))"
proof (induction rs minage left right result rule: bs_loop.induct)
  case (1 rs minage left right result)
  show ?case
  proof (cases "left \<le> right")
    case False
    then have "right = left - 1" "bs_loop rs minage left right result = result"
      using "1.prems" by (auto simp: bs_inv_def bs_loop.simps [of rs minage left])
    then show ?thesis using "1.prems"(2) by (intro exI [of _ left]) simp
  next
    case True
    define mid where "mid = left + (right - left) div 2"
    have m: "left \<le> mid" "mid \<le> right" "0 \<le> mid" "mid < int (length rs)"
      using True "1.prems" by (auto simp: mid_def bs_inv_def)
    show ?thesis
    proof (cases "f_age (rs ! nat mid) \<ge> minage")
      case ge: True
      have "bs_inv rs minage left (mid - 1) mid" using ge m "1.prems"(2) by (auto simp: bs_inv_def)
      from "1.IH"(1) [OF True mid_def ge "1.prems"(1) this] show ?thesis
        using True ge by (simp add: bs_loop.simps [of rs minage left] mid_def Let_def)
    next
      case lt: False
      have "f_age (rs ! i) < minage" if "int i < mid + 1" for i
      proof -
        have "f_age (rs ! i) \<le> f_age (rs ! nat mid)"
          using that m sorted_wrt_nth_less [OF "1.prems"(1), of i "nat mid"] by (cases "i = nat mid") auto
        then show ?thesis using lt by simp
      qed
      then have "bs_inv rs minage (mid + 1) right result" using m "1.prems"(2) by (auto simp: bs_inv_def)
      from "1.IH"(2) [OF True mid_def lt "1.prems"(1) this] show ?thesis
        using True lt by (simp add: bs_loop.simps [of rs minage left] mid_def Let_def)
    qed
  qed
qed

lemma binarysearch_cases:
  assumes "sorted_wrt (\<lambda>a b. f_age a \<le> f_age b) rs"
  shows "(binarysearch rs (length rs) minage = -1 \<and> (\<forall>r\<in>set rs. f_age r < minage)) \<or>
    (\<exists>i<length rs. binarysearch rs (length rs) minage = int i \<and> f_age (rs ! i) \<ge> minage \<and> (\<forall>j<i. f_age (rs ! j) < minage))"
proof -
  have "bs_inv rs minage 0 (int (length rs) - 1) (-1)" by (simp add: bs_inv_def)
  from bs_loop_first [OF assms this] obtain l where
    l: "bs_inv rs minage l (l - 1) (binarysearch rs (length rs) minage)" unfolding binarysearch_def by blast
  show ?thesis
  proof (cases "l = int (length rs)")
    case True
    then show ?thesis using l by (auto simp: bs_inv_def in_set_conv_nth)
  next
    case False
    then have "nat l < length rs" "binarysearch rs (length rs) minage = int (nat l)" "f_age (rs ! nat l) \<ge> minage"
      "\<forall>j<nat l. f_age (rs ! j) < minage" using l by (auto simp: bs_inv_def)
    then show ?thesis by blast
  qed
qed

section \<open>The query pipeline\<close>

record qrec =
  q_id :: int
  studentname :: string
  subject :: string
  score :: int

definition records :: "qrec list" where
  "records = [
     \<lparr>q_id = 101, studentname = ''abc'', subject = ''math'', score = 90\<rparr>,
     \<lparr>q_id = 102, studentname = ''def'', subject = ''math'', score = 70\<rparr>,
     \<lparr>q_id = 103, studentname = ''ghi'', subject = ''math'', score = 65\<rparr>,
     \<lparr>q_id = 104, studentname = ''jkl'', subject = ''math'', score = 84\<rparr>,
     \<lparr>q_id = 105, studentname = ''mno'', subject = ''math'', score = 20\<rparr>,
     \<lparr>q_id = 106, studentname = ''xyz'', subject = ''math'', score = 100\<rparr>]"

text \<open>The state of the iterators is \<open>rowindex\<close>; the lines printed are collected. The table is an
  argument and its length is the number of rows, \<open>maxrows\<close> in the program.\<close>

datatype qline = Scan_opened | Filter_opened | Projection_opened | Row string int
  | Scan_closed | Filter_closed | Projection_closed

definition scanopen :: "nat \<times> qline list" where
  "scanopen = (0, [Scan_opened])"

definition scannext :: "qrec list \<Rightarrow> nat \<Rightarrow> qrec option \<times> nat" where
  "scannext tab rowindex = (if rowindex \<ge> length tab then (None, rowindex) else (Some (tab ! rowindex), rowindex + 1))"

definition scanclose :: "nat \<times> qline list" where
  "scanclose = (0, [Scan_closed])"

definition filtopen :: "nat \<times> qline list" where
  "filtopen = (let (i, out) = scanopen in (i, out @ [Filter_opened]))"

function filtnext :: "qrec list \<Rightarrow> nat \<Rightarrow> qrec option \<times> nat" where
  "filtnext tab rowindex =
     (let (rec, i) = scannext tab rowindex in
      case rec of
        None \<Rightarrow> (None, i)
      | Some r \<Rightarrow> if score r > 70 \<and> subject r = ''math'' then (Some r, i) else filtnext tab i)"
  by pat_completeness auto
termination
  by (relation "measure (\<lambda>(tab, i). length tab - i)") (auto simp: scannext_def split: if_splits)

declare filtnext.simps [simp del]

definition filtclose :: "nat \<times> qline list" where
  "filtclose = (let (i, out) = scanclose in (i, out @ [Filter_closed]))"

definition projopen :: "nat \<times> qline list" where
  "projopen = (let (i, out) = filtopen in (i, out @ [Projection_opened]))"

definition wanted :: "qrec \<Rightarrow> bool" where
  "wanted r \<longleftrightarrow> score r > 70 \<and> subject r = ''math''"

lemma filtnext_filter:
  "case filtnext tab i of
     (None, j) \<Rightarrow> filter wanted (drop i tab) = []
   | (Some r, j) \<Rightarrow> i < j \<and> filter wanted (drop i tab) = r # filter wanted (drop j tab)"
proof (induction tab i rule: filtnext.induct)
  case (1 tab i)
  show ?case
  proof (cases "i < length tab")
    case False
    then show ?thesis by (simp add: filtnext.simps [of tab i] scannext_def)
  next
    case True
    then have d: "drop i tab = tab ! i # drop (Suc i) tab" by (simp add: Cons_nth_drop_Suc)
    have s: "scannext tab i = (Some (tab ! i), Suc i)" using True by (simp add: scannext_def)
    show ?thesis
    proof (cases "wanted (tab ! i)")
      case w: True
      then have "filtnext tab i = (Some (tab ! i), Suc i)" by (simp add: filtnext.simps [of tab i] s wanted_def)
      then show ?thesis using w by (simp add: d)
    next
      case w: False
      then have n: "filtnext tab i = filtnext tab (Suc i)" by (auto simp: filtnext.simps [of tab i] s wanted_def)
      have "case filtnext tab (Suc i) of (None, j) \<Rightarrow> filter wanted (drop (Suc i) tab) = []
        | (Some r, j) \<Rightarrow> Suc i < j \<and> filter wanted (drop (Suc i) tab) = r # filter wanted (drop j tab)"
        using "1.IH" [OF s [symmetric] refl refl] w by (simp add: wanted_def)
      then show ?thesis unfolding n d using w by (auto split: prod.splits option.splits)
    qed
  qed
qed

lemma filtnext_advances: "filtnext tab i = (Some r, j) \<Longrightarrow> i < j \<and> i < length tab"
  using filtnext_filter [where tab = tab and i = i] by (cases "i < length tab") auto

text \<open>The loop of \<open>projnext\<close>: the rows printed and \<open>rowindex\<close> after it.\<close>

function projnext :: "qrec list \<Rightarrow> nat \<Rightarrow> nat \<times> qline list" where
  "projnext tab rowindex =
     (case filtnext tab rowindex of
        (None, i) \<Rightarrow> (i, [])
      | (Some r, i) \<Rightarrow> (let (i, out) = projnext tab i in (i, Row (studentname r) (score r) # out)))"
  by pat_completeness auto
termination
  by (relation "measure (\<lambda>(tab, i). length tab - i)") (auto dest: filtnext_advances [OF sym])

declare projnext.simps [simp del]

definition projclose :: "nat \<times> qline list" where
  "projclose = (let (i, out) = filtclose in (i, out @ [Projection_closed]))"

definition qee_run :: "qrec list \<Rightarrow> nat \<times> qline list" where
  "qee_run tab =
     (let (i, out1) = projopen;
          (i, out2) = projnext tab i;
          (i, out3) = projclose
      in (i, out1 @ out2 @ out3))"

definition qee_main :: "nat \<times> qline list" where
  "qee_main = qee_run records"

lemma projnext_rows:
  "snd (projnext tab i) = map (\<lambda>r. Row (studentname r) (score r)) (filter wanted (drop i tab))"
proof (induction tab i rule: projnext.induct)
  case (1 tab i)
  obtain ro j where f: "filtnext tab i = (ro, j)" by fastforce
  show ?case
  proof (cases ro)
    case None
    then show ?thesis using f filtnext_filter [where tab = tab and i = i] by (simp add: projnext.simps [of tab i])
  next
    case (Some r)
    then have "snd (projnext tab j) = map (\<lambda>r. Row (studentname r) (score r)) (filter wanted (drop j tab))"
      using "1.IH" [OF f [symmetric]] by blast
    then show ?thesis using f Some filtnext_filter [where tab = tab and i = i]
      by (simp add: projnext.simps [of tab i] split_def)
  qed
qed

section \<open>Properties\<close>

text \<open>C18: The linear scan and the binary search agree: the binary search over the array that \<open>qsort\<close> sorted finds a record
  exactly when the scan printed one, and then a youngest of the records printed.\<close>

theorem filter_main_agrees:
  assumes "qsort_ok qsort"
  shows "case filter_main qsort rnd of
    (printed, None) \<Rightarrow> printed = []
  | (printed, Some r) \<Rightarrow> r \<in> set printed \<and> f_age r = Min (f_age ` set printed)"
proof -
  define rs where "rs = generaterecords rnd num_records"
  define ss where "ss = qsort comparebyage rs"
  have m: "mset ss = mset rs" and "sorted_wrt (\<lambda>a b. comparebyage a b \<le> 0) ss"
    using assms by (simp_all add: qsort_ok_def ss_def)
  then have srt: "sorted_wrt (\<lambda>a b. f_age a \<le> f_age b) ss" by (simp add: comparebyage_def)
  have len: "num_records = length ss" using mset_eq_length [OF m] by (simp add: rs_def generaterecords_def)
  have set: "set (linearsearch rs 50) = {r \<in> set ss. f_age r \<ge> 50}"
    using mset_eq_setD [OF m] by (simp add: linearsearch_filter)
  have res: "filter_main qsort rnd = (linearsearch rs 50,
      if binarysearch ss (length ss) 50 \<noteq> -1 then Some (ss ! nat (binarysearch ss (length ss) 50)) else None)"
    unfolding filter_main_def Let_def len [symmetric] rs_def [symmetric] ss_def [symmetric] ..
  from binarysearch_cases [OF srt, of 50] show ?thesis
  proof
    assume none: "binarysearch ss (length ss) 50 = -1 \<and> (\<forall>r\<in>set ss. f_age r < 50)"
    then have "set (linearsearch rs 50) = {}" unfolding set by auto
    then show ?thesis using none unfolding res by simp
  next
    assume "\<exists>i<length ss. binarysearch ss (length ss) 50 = int i \<and> f_age (ss ! i) \<ge> 50 \<and> (\<forall>j<i. f_age (ss ! j) < 50)"
    then obtain i where i: "i < length ss" "binarysearch ss (length ss) 50 = int i" "f_age (ss ! i) \<ge> 50"
      "\<forall>j<i. f_age (ss ! j) < 50" by blast
    have "f_age (ss ! i) \<le> f_age r" if r: "r \<in> set ss" "f_age r \<ge> 50" for r
    proof -
      obtain j where j: "j < length ss" "r = ss ! j" using r(1) by (auto simp: in_set_conv_nth)
      then have "i \<le> j" using i(4) r(2) by (metis not_less)
      then show ?thesis using j sorted_wrt_nth_less [OF srt, of i j] by (cases "i = j") auto
    qed
    then have "f_age (ss ! i) = Min (f_age ` set (linearsearch rs 50))"
      using i(1,3) unfolding set by (intro Min_eqI [symmetric]) auto
    moreover have "ss ! i \<in> set (linearsearch rs 50)" using i(1,3) unfolding set by simp
    ultimately show ?thesis unfolding res using i(2) by simp
  qed
qed

theorem filter_main_agrees_witness:
  "case filter_main (\<lambda>_. sort_key f_age) (\<lambda>i. 7 * int i) of
    (printed, None) \<Rightarrow> printed = []
  | (printed, Some r) \<Rightarrow> r \<in> set printed \<and> f_age r = Min (f_age ` set printed)"
proof (rule filter_main_agrees)
  have "sorted_wrt (\<lambda>a b. f_age a \<le> f_age b) (sort_key f_age rs)" for rs :: "frec list"
    using sorted_sort_key [of f_age rs] by (simp add: sorted_map)
  then show "qsort_ok (\<lambda>_. sort_key f_age)" unfolding qsort_ok_def comparebyage_def by simp
qed

text \<open>C33: The pipeline of iterators computes the query: it prints the names and scores of exactly the rows with a score
  over 70 in math, in the order of the table, between the messages of opening and closing, and leaves the
  scan rewound.\<close>

theorem qee_run_selects:
  "qee_run tab = (0, [Scan_opened, Filter_opened, Projection_opened] @
     map (\<lambda>r. Row (studentname r) (score r)) (filter (\<lambda>r. score r > 70 \<and> subject r = ''math'') tab) @
     [Scan_closed, Filter_closed, Projection_closed])"
  using projnext_rows [where tab = tab and i = 0]
  by (simp add: qee_run_def projopen_def projclose_def filtopen_def filtclose_def scanopen_def scanclose_def
      wanted_def [abs_def] split_def)

end
