(* ===== verification/Text_Scan.thy ===== *)
theory Text_Scan
  imports C_Scan
begin

text \<open>
  Two programs that read a whole file: the threaded word counter \<^verbatim>\<open>src/task-word-count-pthread.c\<close> and the keyword
  search over a mapped file \<^verbatim>\<open>src/Mmap-file-search.c\<close>. The contents of the file and the success of the
  system calls are arguments.
\<close>

section \<open>Counting words with four threads\<close>

definition WORKER_COUNT :: nat where "WORKER_COUNT = 4"

text \<open>The loop of a worker over its bytes: \<open>local_count\<close> after it, the word at the end included.\<close>

fun count_loop :: "string \<Rightarrow> bool \<Rightarrow> nat \<Rightarrow> nat" where
  "count_loop [] in_word local_count = (if in_word then local_count + 1 else local_count)"
| "count_loop (c # cs) in_word local_count =
     (if isspace c then
        (if in_word then count_loop cs False (local_count + 1) else count_loop cs in_word local_count)
      else count_loop cs True local_count)"

definition slice :: "'a list \<Rightarrow> nat \<Rightarrow> nat \<Rightarrow> 'a list" where
  "slice xs a b = take (b - a) (drop a xs)"

text \<open>The section from \<open>start\<close> to \<open>end\<close> of worker \<open>i\<close>.\<close>

definition worker_arg :: "nat \<Rightarrow> nat \<Rightarrow> nat \<times> nat" where
  "worker_arg filesize i =
     (let chunk_size = filesize div WORKER_COUNT
      in (i * chunk_size, if i = WORKER_COUNT - 1 then filesize else (i + 1) * chunk_size))"

definition worker_thread :: "string \<Rightarrow> nat \<times> nat \<Rightarrow> nat \<Rightarrow> nat" where
  "worker_thread data = (\<lambda>(start, end) global_word_count. global_word_count + count_loop (slice data start end) False 0)"

datatype wc_error = Wc_usage | Wc_fopen | Wc_stat | Wc_malloc | Wc_fread

text \<open>\<open>main\<close>; \<open>order\<close> is the order in which the workers take the mutex.\<close>

definition wc_main :: "nat \<Rightarrow> bool \<Rightarrow> bool \<Rightarrow> bool \<Rightarrow> bool \<Rightarrow> nat list \<Rightarrow> string \<Rightarrow> wc_error + nat" where
  "wc_main argc fopen_ok stat_ok malloc_ok fread_ok order data =
     (if argc < 2 then Inl Wc_usage
      else if \<not> fopen_ok then Inl Wc_fopen
      else if \<not> stat_ok then Inl Wc_stat
      else if \<not> malloc_ok then Inl Wc_malloc
      else if \<not> fread_ok then Inl Wc_fread
      else Inr (fold (\<lambda>i. worker_thread data (worker_arg (length data) i)) order 0))"

section \<open>Searching a mapped file\<close>

text \<open>\<open>int file_size = st_size\<close>.\<close>

definition file_size_int :: "nat \<Rightarrow> int" where
  "file_size_int n = signed_take_bit 31 (int n)"

text \<open>The search loop from offset \<open>i\<close>: the offsets printed. The mapping holds \<open>data\<close>; a keyword is not empty.\<close>

function search_loop :: "string \<Rightarrow> string \<Rightarrow> nat \<Rightarrow> nat \<Rightarrow> nat list" where
  "search_loop data keyword file_size i =
     (if i + length keyword \<le> file_size then
        (if take (length keyword) (drop i data) = keyword then i # search_loop data keyword file_size (i + 1)
         else search_loop data keyword file_size (i + 1))
      else [])"
  by pat_completeness auto
termination
  by (relation "measure (\<lambda>(data, keyword, file_size, i). Suc file_size - i)") auto

declare search_loop.simps [simp del]

datatype mm_result = Mm_usage | Mm_empty_keyword | Mm_fatal string | Mm_empty_file | Mm_found "nat list" nat

text \<open>
  \<open>main\<close>. A negative \<open>file_size\<close> becomes a length of nearly $2^{64}$ bytes; should \<open>mmap\<close> accept it, the
  loop leaves the file: \<open>None\<close>.
\<close>

definition mm_main ::
  "nat \<Rightarrow> string \<Rightarrow> bool \<Rightarrow> bool \<Rightarrow> (nat \<Rightarrow> bool) \<Rightarrow> bool \<Rightarrow> bool \<Rightarrow> string \<Rightarrow> mm_result option" where
  "mm_main argc keyword open_ok fstat_ok mmap_ok munmap_ok close_ok data =
     (if argc < 3 then Some Mm_usage
      else if length keyword = 0 then Some Mm_empty_keyword
      else if \<not> open_ok then Some (Mm_fatal ''open'')
      else if \<not> fstat_ok then Some (Mm_fatal ''fstat'')
      else
        let file_size = file_size_int (length data) in
        if file_size = 0 then Some Mm_empty_file
        else if \<not> mmap_ok (nat (file_size mod 2 ^ 64)) then Some (Mm_fatal ''mmap(MAP_SHARED)'')
        else if file_size < 0 then None
        else
          let found = search_loop data keyword (nat file_size) 0 in
          if \<not> munmap_ok then Some (Mm_fatal ''munmap(shared)'')
          else if \<not> close_ok then Some (Mm_fatal ''close'')
          else Some (Mm_found found (length found)))"

section \<open>Words\<close>

text \<open>The number of words: the places where a character that is no white space follows white space or the start.\<close>

definition word_count :: "string \<Rightarrow> nat" where
  "word_count s = length (filter (\<lambda>(p, c). isspace p \<and> \<not> isspace c) (zip (CHR '' '' # s) s))"

definition starts_after :: "char \<Rightarrow> string \<Rightarrow> nat" where
  "starts_after p s = length (filter (\<lambda>(p, c). isspace p \<and> \<not> isspace c) (zip (p # s) s))"

lemma starts_after_simps [simp]:
  "starts_after p [] = 0"
  "starts_after p (c # s) = (if isspace p \<and> \<not> isspace c then 1 else 0) + starts_after c s"
  by (simp_all add: starts_after_def)

lemma isspace_blank [simp]: "isspace CHR '' ''"
  by (simp add: isspace_def)

lemma word_count_starts: "isspace p \<Longrightarrow> word_count s = starts_after p s"
  by (cases s) (simp_all add: word_count_def starts_after_def)

lemma starts_after_append: "starts_after p (xs @ ys) = starts_after p xs + starts_after (last (p # xs)) ys"
  by (induction xs arbitrary: p) auto

lemma starts_after_hd:
  "starts_after p s + (if \<not> isspace p \<and> s \<noteq> [] \<and> \<not> isspace (hd s) then 1 else 0) = word_count s"
  by (cases s) (auto simp: word_count_starts [OF isspace_blank])

lemma count_loop_starts:
  "count_loop s in_word n = n + (if in_word then 1 else 0) + starts_after (if in_word then CHR ''x'' else CHR '' '') s"
proof (induction s in_word n rule: count_loop.induct)
  case (2 c cs in_word n)
  have x: "\<not> isspace CHR ''x''" by (simp add: isspace_def)
  have s: "isspace c \<Longrightarrow> starts_after c cs = starts_after CHR '' '' cs"
    using word_count_starts [of c cs] word_count_starts [OF isspace_blank, of cs] by simp
  have ns: "\<not> isspace c \<Longrightarrow> starts_after c cs = starts_after CHR ''x'' cs"
    using starts_after_hd [of c cs] starts_after_hd [of "CHR ''x''" cs] x by (auto split: if_splits)
  show ?case using 2 s ns x by (cases "isspace c"; cases in_word) auto
qed simp

lemma count_loop_words: "count_loop s False 0 = word_count s"
  by (simp add: count_loop_starts word_count_starts [OF isspace_blank])

text \<open>A word that goes on across position \<open>b\<close>.\<close>

definition word_across :: "string \<Rightarrow> nat \<Rightarrow> bool" where
  "word_across s b \<longleftrightarrow> 0 < b \<and> b < length s \<and> \<not> isspace (s ! (b - 1)) \<and> \<not> isspace (s ! b)"

lemma word_count_split:
  assumes "a \<le> b" and "b \<le> length s"
  shows "word_count (slice s a b) + word_count (slice s b (length s)) =
    word_count (slice s a (length s)) + (if a < b \<and> word_across s b then 1 else 0)"
proof -
  have app: "slice s a (length s) = slice s a b @ slice s b (length s)"
    using assms by (simp add: slice_def) (metis drop_drop le_add_diff_inverse2 append_take_drop_id add.commute)
  have last: "a < b \<Longrightarrow> slice s a b \<noteq> [] \<and> last (slice s a b) = s ! (b - 1)"
    using assms by (auto simp: slice_def last_conv_nth)
  have hd: "b < length s \<Longrightarrow> slice s b (length s) \<noteq> [] \<and> hd (slice s b (length s)) = s ! b"
    by (auto simp: slice_def hd_drop_conv_nth)
  have e: "b = length s \<Longrightarrow> slice s b (length s) = []" "a = b \<Longrightarrow> slice s a b = []" by (simp_all add: slice_def)
  let ?p = "last (CHR '' '' # slice s a b)"
  have "word_count (slice s a (length s)) = word_count (slice s a b) + starts_after ?p (slice s b (length s))"
    unfolding app word_count_starts [OF isspace_blank] starts_after_append ..
  moreover have "starts_after ?p (slice s b (length s)) + (if a < b \<and> word_across s b then 1 else 0) =
      word_count (slice s b (length s))"
    using starts_after_hd [of ?p "slice s b (length s)"] last hd e assms
    by (cases "a < b"; cases "b < length s") (auto simp: word_across_def)
  ultimately show ?thesis by simp
qed

lemma fold_workers:
  "fold (\<lambda>i. worker_thread data (worker_arg n i)) order g =
   g + sum_list (map (\<lambda>i. word_count (slice data (fst (worker_arg n i)) (snd (worker_arg n i)))) order)"
  by (induction order arbitrary: g) (simp_all add: worker_thread_def count_loop_words split_def)

lemma sum_list_mset_cong: "mset xs = mset ys \<Longrightarrow> sum_list (map f xs) = (sum_list (map f ys) :: nat)"
  by (metis mset_map sum_mset_sum_list)

lemma chunk_counts:
  fixes data :: string
  defines "n \<equiv> length data" and "k \<equiv> length data div 4"
  shows "word_count (slice data 0 k) + word_count (slice data k (2 * k)) + word_count (slice data (2 * k) (3 * k)) +
      word_count (slice data (3 * k) n) =
    word_count data + ((if word_across data k then 1 else 0) + (if word_across data (2 * k) then 1 else 0) +
      (if word_across data (3 * k) then 1 else 0))"
proof -
  have k: "3 * k \<le> n" by (simp add: k_def n_def)
  have pos: "word_across data (i * k) \<Longrightarrow> 0 < k" for i by (auto simp: word_across_def)
  have s: "slice data 0 n = data" by (simp add: slice_def n_def)
  show ?thesis
    using word_count_split [of 0 k data] word_count_split [of k "2 * k" data] word_count_split [of "2 * k" "3 * k" data]
      k pos [of 1] pos [of 2] pos [of 3] s
    by (auto simp: n_def [symmetric])
qed

lemma worker_list: "[0..<WORKER_COUNT] = [0, 1, 2, 3]" "[1..<WORKER_COUNT] = [1, 2, 3]"
  by code_simp+

lemma search_loop_filter:
  "search_loop data keyword n i = filter (\<lambda>j. take (length keyword) (drop j data) = keyword) [i..<Suc n - length keyword]"
proof (induction data keyword n i rule: search_loop.induct)
  case (1 data keyword n i)
  show ?case
  proof (cases "i + length keyword \<le> n")
    case True
    then have "[i..<Suc n - length keyword] = i # [Suc i..<Suc n - length keyword]" by (intro upt_conv_Cons) simp
    then show ?thesis using 1 True by (simp add: search_loop.simps [of data keyword n i])
  next
    case False
    then show ?thesis by (simp add: search_loop.simps [of data keyword n i])
  qed
qed

lemma occurrence_iff:
  assumes "keyword \<noteq> []"
  shows "i < Suc (length data) - length keyword \<and> take (length keyword) (drop i data) = keyword \<longleftrightarrow>
    (\<exists>u v. data = u @ keyword @ v \<and> length u = i)"
proof
  assume i: "i < Suc (length data) - length keyword \<and> take (length keyword) (drop i data) = keyword"
  then have "data = take i data @ keyword @ drop (length keyword) (drop i data)"
    by (metis append_take_drop_id)
  moreover have "length (take i data) = i" using i assms by auto
  ultimately show "\<exists>u v. data = u @ keyword @ v \<and> length u = i" by blast
next
  assume "\<exists>u v. data = u @ keyword @ v \<and> length u = i"
  then show "i < Suc (length data) - length keyword \<and> take (length keyword) (drop i data) = keyword"
    by auto
qed

lemma file_size_small: "n < 2 ^ 31 \<Longrightarrow> file_size_int n = int n"
  by (simp add: file_size_int_def signed_take_bit_int_eq_self)

section \<open>Properties\<close>

text \<open>C28: In whatever order the workers add their counts, the total is the number of words of the file plus one for every
  boundary between two sections that falls inside a word.\<close>

theorem wc_main_total:
  assumes "2 \<le> argc" and "mset order = mset [0..<WORKER_COUNT]"
  shows "wc_main argc True True True True order data =
    Inr (word_count data +
      length (filter (\<lambda>i. word_across data (i * (length data div WORKER_COUNT))) [1..<WORKER_COUNT]))"
proof -
  let ?f = "\<lambda>i. word_count (slice data (fst (worker_arg (length data) i)) (snd (worker_arg (length data) i)))"
  have "sum_list (map ?f order) = sum_list (map ?f [0..<WORKER_COUNT])" by (rule sum_list_mset_cong [OF assms(2)])
  also have "\<dots> = word_count data +
      length (filter (\<lambda>i. word_across data (i * (length data div WORKER_COUNT))) [1..<WORKER_COUNT])"
    unfolding worker_list using chunk_counts [of data]
    by (auto simp: WORKER_COUNT_def worker_arg_def Let_def mult_2 [symmetric] split: if_splits)
  finally show ?thesis using assms(1) by (simp add: wc_main_def fold_workers)
qed

theorem wc_main_total_witness:
  "wc_main 2 True True True True [2, 0, 3, 1] ''one two'' = Inr 4 \<and> word_count ''one two'' = 2"
proof -
  have m: "mset [2, 0, 3, 1] = mset [0..<WORKER_COUNT]" unfolding worker_list by simp
  have c: "word_count ''one two'' = 2"
    "length (filter (\<lambda>i. word_across ''one two'' (i * (length ''one two'' div WORKER_COUNT))) [1..<WORKER_COUNT]) = 2"
    by code_simp+
  show ?thesis using wc_main_total [OF _ m, of 2 "''one two''"] unfolding c by simp
qed

text \<open>For a file below 2 GiB the search prints, in ascending order, exactly the offsets at which the keyword
  occurs, overlapping occurrences included, and their number.\<close>

theorem mm_main_finds_all:
  assumes "3 \<le> argc" and "keyword \<noteq> []" and "data \<noteq> []" and "length data < 2 ^ 31" and "mmap_ok (length data)"
  shows "\<exists>found. mm_main argc keyword True True mmap_ok True True data = Some (Mm_found found (length found)) \<and>
    sorted_wrt (<) found \<and> set found = {i. \<exists>u v. data = u @ keyword @ v \<and> length u = i}"
proof -
  let ?found = "search_loop data keyword (length data) 0"
  have "int (length data) mod 2 ^ 64 = int (length data)" using assms(4) by simp
  then have m: "mm_main argc keyword True True mmap_ok True True data = Some (Mm_found ?found (length ?found))"
    using assms file_size_small [OF assms(4)] by (simp add: mm_main_def Let_def)
  have "sorted_wrt (<) ?found" unfolding search_loop_filter by (rule sorted_wrt_filter) simp
  moreover have "set ?found = {i. \<exists>u v. data = u @ keyword @ v \<and> length u = i}"
    unfolding search_loop_filter using occurrence_iff [OF assms(2), of _ data] by (simp only: set_filter set_upt) auto
  ultimately show ?thesis using m by blast
qed

theorem mm_main_finds_all_witness:
  "\<exists>found. mm_main 3 ''aa'' True True (\<lambda>_. True) True True ''aaab'' = Some (Mm_found found (length found)) \<and>
    sorted_wrt (<) found \<and> set found = {i. \<exists>u v. ''aaab'' = u @ ''aa'' @ v \<and> length u = i}"
  by (rule mm_main_finds_all) simp_all

text \<open>The 32-bit size: of a file of 4 GiB and more only the remainder is searched, and 4 GiB exactly count as empty.\<close>

lemma file_size_int_wraps: "file_size_int (2 ^ 32 + n) = file_size_int n"
  by (simp add: file_size_int_def signed_take_bit_eq_iff_take_bit_eq take_bit_eq_mod)

end
