(* ===== verification/Expr_Eval.thy ===== *)
theory Expr_Eval
  imports C_Input "HOL-Library.Signed_Division"
begin

text \<open>
  The expression trees of \<^verbatim>\<open>src/expression_evaluator.c\<close>. A tree is a datatype with \<open>Null\<close> for \<open>NULL\<close>; a node holds the
  string in \<open>data\<close>. Copying a longer string into \<open>data\<close>, an arithmetic overflow and a division by zero are
  undefined: \<open>None\<close>. \<open>malloc\<close> is taken to succeed.
\<close>

datatype etree = Null | Node (e_data: string) etree etree

definition DATA_SIZE :: nat where "DATA_SIZE = 10"

definition createNode :: "string \<Rightarrow> etree option" where
  "createNode d = (if length d < DATA_SIZE then Some (Node d Null Null) else None)"

text \<open>The text printed.\<close>

fun expr_inorder :: "etree \<Rightarrow> string" where
  "expr_inorder Null = []"
| "expr_inorder (Node d l r) =
     (if l \<noteq> Null then ''('' else []) @ expr_inorder l @ '' '' @ d @ '' '' @ expr_inorder r @ (if r \<noteq> Null then '')'' else [])"

definition INT_MIN :: int where "INT_MIN = - (2 ^ 31)"
definition INT_MAX :: int where "INT_MAX = 2 ^ 31 - 1"

definition int_result :: "int \<Rightarrow> int option" where
  "int_result n = (if INT_MIN \<le> n \<and> n \<le> INT_MAX then Some n else None)"

text \<open>\<open>atoi\<close> of a string that starts with a digit; nine digits always fit.\<close>

definition atoi :: "string \<Rightarrow> int" where
  "atoi d = digits_val (takeWhile isdigit d)"

definition of_cond :: "bool \<Rightarrow> int" where
  "of_cond b = (if b then 1 else 0)"

fun evaluate :: "etree \<Rightarrow> int option" where
  "evaluate Null = Some 0"
| "evaluate (Node d l r) =
     (if d \<noteq> [] \<and> isdigit (hd d) then Some (atoi d)
      else do {
        left \<leftarrow> evaluate l;
        right \<leftarrow> evaluate r;
        if d = ''+'' then int_result (left + right)
        else if d = ''-'' then int_result (left - right)
        else if d = ''*'' then int_result (left * right)
        else if d = ''/'' then (if right = 0 then None else int_result (left sdiv right))
        else if d = ''>'' then Some (of_cond (left > right))
        else if d = ''<'' then Some (of_cond (left < right))
        else if d = ''='' then Some (of_cond (left = right))
        else if d = ''&'' then Some (of_cond (left \<noteq> 0 \<and> right \<noteq> 0))
        else if d = ''|'' then Some (of_cond (left \<noteq> 0 \<or> right \<noteq> 0))
        else Some 0 })"

text \<open>\<open>main\<close> builds the tree of \<^verbatim>\<open>(10 + 5) > 12 & (8 < 15)\<close>, prints it and the result.\<close>

definition link :: "etree \<Rightarrow> etree \<Rightarrow> etree \<Rightarrow> etree" where
  "link n l r = Node (e_data n) l r"

definition expr_main :: "(string \<times> int \<times> bool) option" where
  "expr_main = do {
     root \<leftarrow> createNode ''&'';
     gt \<leftarrow> createNode ''>'';
     lt \<leftarrow> createNode ''<'';
     plus \<leftarrow> createNode ''+'';
     n12 \<leftarrow> createNode ''12'';
     n10 \<leftarrow> createNode ''10'';
     n5 \<leftarrow> createNode ''5'';
     n8 \<leftarrow> createNode ''8'';
     n15 \<leftarrow> createNode ''15'';
     let root = link root (link gt (link plus n10 n5) n12) (link lt n8 n15);
     result \<leftarrow> evaluate root;
     Some (expr_inorder root, result, result \<noteq> 0) }"

section \<open>The value of an expression\<close>

datatype binop = Add | Sub | Mul | Div | Gt | Lt | Eq | And | Or

datatype expr = Num nat | Bin binop expr expr

definition op_str :: "binop \<Rightarrow> string" where
  "op_str f = (case f of Add \<Rightarrow> ''+'' | Sub \<Rightarrow> ''-'' | Mul \<Rightarrow> ''*'' | Div \<Rightarrow> ''/'' | Gt \<Rightarrow> ''>'' | Lt \<Rightarrow> ''<''
     | Eq \<Rightarrow> ''='' | And \<Rightarrow> ''&'' | Or \<Rightarrow> ''|'')"

text \<open>Building the tree the way \<open>main\<close> does; a number of ten digits or more does not fit into a node.\<close>

fun build :: "expr \<Rightarrow> etree option" where
  "build (Num n) = createNode (dec_str n)"
| "build (Bin f a b) = do { n \<leftarrow> createNode (op_str f); l \<leftarrow> build a; r \<leftarrow> build b; Some (link n l r) }"

text \<open>The value in the integers, and when the program can compute it: operators stay in the range of \<open>int\<close> and no
  divisor is 0.\<close>

fun apply_op :: "binop \<Rightarrow> int \<Rightarrow> int \<Rightarrow> int" where
  "apply_op Add a b = a + b"
| "apply_op Sub a b = a - b"
| "apply_op Mul a b = a * b"
| "apply_op Div a b = a sdiv b"
| "apply_op Gt a b = of_cond (a > b)"
| "apply_op Lt a b = of_cond (a < b)"
| "apply_op Eq a b = of_cond (a = b)"
| "apply_op And a b = of_cond (a \<noteq> 0 \<and> b \<noteq> 0)"
| "apply_op Or a b = of_cond (a \<noteq> 0 \<or> b \<noteq> 0)"

fun exact :: "expr \<Rightarrow> int" where
  "exact (Num n) = int n"
| "exact (Bin f a b) = apply_op f (exact a) (exact b)"

fun computable :: "expr \<Rightarrow> bool" where
  "computable (Num n) \<longleftrightarrow> True"
| "computable (Bin f a b) \<longleftrightarrow> computable a \<and> computable b \<and> (f = Div \<longrightarrow> exact b \<noteq> 0) \<and>
     INT_MIN \<le> apply_op f (exact a) (exact b) \<and> apply_op f (exact a) (exact b) \<le> INT_MAX"

lemma atoi_dec_str: "atoi (dec_str n) = int n" "isdigit (hd (dec_str n))" "dec_str n \<noteq> []"
  using dec_str_digits [of n] by (simp_all add: atoi_def takeWhile_eq_all_conv [THEN iffD2])

lemma of_cond_range: "INT_MIN \<le> of_cond b" "of_cond b \<le> INT_MAX"
  by (simp_all add: of_cond_def INT_MIN_def INT_MAX_def)

section \<open>Properties\<close>

text \<open>C29: The evaluator computes the value of every expression over non-negative numbers whose tree can be built: exactly
  the mathematical value, with division rounding towards zero and conditions as 0 and 1, when no operation
  overflows and no divisor is 0; otherwise its behaviour is undefined.\<close>

theorem evaluate_exact:
  assumes "build e = Some t"
  shows "evaluate t = (if computable e then Some (exact e) else None)"
  using assms
proof (induction e arbitrary: t)
  case (Num n)
  then have "t = Node (dec_str n) Null Null" by (simp add: createNode_def split: if_splits)
  then show ?case by (simp add: atoi_dec_str)
next
  case (Bin f a b)
  then obtain l r where lr: "build a = Some l" "build b = Some r" and t: "t = Node (op_str f) l r"
    by (auto simp: createNode_def link_def bind_eq_Some_conv split: if_splits)
  show ?case unfolding t using Bin.IH(1) [OF lr(1)] Bin.IH(2) [OF lr(2)]
    by (cases f) (simp_all add: op_str_def isdigit_def int_result_def of_cond_range)
qed

definition main_expr :: expr where
  "main_expr = Bin And (Bin Gt (Bin Add (Num 10) (Num 5)) (Num 12)) (Bin Lt (Num 8) (Num 15))"

theorem evaluate_exact_witness: "evaluate (the (build main_expr)) = Some 1"
proof -
  have b: "build main_expr = Some (the (build main_expr))" by code_simp
  have "computable main_expr" "exact main_expr = 1"
    by (simp_all add: main_expr_def of_cond_def INT_MIN_def INT_MAX_def)
  then show ?thesis using evaluate_exact [OF b] by simp
qed

end
