(* ===== verification/Shared_Counters.thy ===== *)
theory Shared_Counters
  imports Thread_Runs
begin

text \<open>
  Programs that count with several workers: \<^verbatim>\<open>src/shm-counter.c\<close>, where every process increments its own slot
  of a shared array, and \<^verbatim>\<open>src/atomic-vs-mutex.c\<close>, where threads increment one counter, first atomically and
  then under a mutex. Reading and writing a variable are two steps, so that workers interleave
  between them; an atomic operation is one.
\<close>

section \<open>One slot per process\<close>

definition WORKERS :: nat where "WORKERS = 6"
definition ITERATIONS :: nat where "ITERATIONS = 5"

text \<open>At the top of the loop with \<open>j\<close>, or with the value read in iteration \<open>j\<close>.\<close>

datatype shm_pc = S_top nat | S_read nat int

record shm =
  counters :: "int list"
  shm_pcs :: "shm_pc list"

definition shm_start :: shm where
  "shm_start = \<lparr>counters = replicate WORKERS 0, shm_pcs = replicate WORKERS (S_top 0)\<rparr>"

definition shm_worker :: "nat \<Rightarrow> shm \<Rightarrow> shm option" where
  "shm_worker i s =
     (case shm_pcs s ! i of
        S_top j \<Rightarrow>
          if j < ITERATIONS then Some (s\<lparr>shm_pcs := (shm_pcs s)[i := S_read j (counters s ! i)]\<rparr>) else None
      | S_read j v \<Rightarrow>
          Some (s\<lparr>counters := (counters s)[i := v + 1], shm_pcs := (shm_pcs s)[i := S_top (j + 1)]\<rparr>))"

definition shm_step :: "shm \<Rightarrow> shm \<Rightarrow> bool" where
  "shm_step s s' \<longleftrightarrow> (\<exists>i<WORKERS. shm_worker i s = Some s')"

definition shm_finished :: "shm \<Rightarrow> bool" where
  "shm_finished s \<longleftrightarrow> shm_pcs s = replicate WORKERS (S_top ITERATIONS)"

text \<open>What the parent prints when all children have been waited for: the counters and their sum.\<close>

definition shm_report :: "shm \<Rightarrow> int list \<times> int" where
  "shm_report s = (counters s, fold (\<lambda>c total. total + c) (counters s) 0)"

datatype shm_error = Shmget_failed | Shmat_failed | Fork_failed nat

text \<open>The part of \<open>main\<close> before the children are waited for; \<open>forks\<close> says which calls of \<open>fork\<close> succeed.\<close>

fun shm_forks :: "nat \<Rightarrow> bool list \<Rightarrow> shm_error option" where
  "shm_forks i [] = None"
| "shm_forks i (ok # oks) = (if \<not> ok then Some (Fork_failed i) else shm_forks (i + 1) oks)"

definition shm_setup :: "bool \<Rightarrow> bool \<Rightarrow> bool list \<Rightarrow> shm_error + shm" where
  "shm_setup shmget_ok shmat_ok forks =
     (if \<not> shmget_ok then Inl Shmget_failed
      else if \<not> shmat_ok then Inl Shmat_failed
      else case shm_forks 0 (take WORKERS forks) of Some e \<Rightarrow> Inl e | None \<Rightarrow> Inr shm_start)"

definition slot_ok :: "int \<Rightarrow> shm_pc \<Rightarrow> bool" where
  "slot_ok c p = (case p of S_top j \<Rightarrow> j \<le> ITERATIONS \<and> c = int j | S_read j v \<Rightarrow> j < ITERATIONS \<and> c = int j \<and> v = int j)"

definition shm_inv :: "shm \<Rightarrow> bool" where
  "shm_inv s \<longleftrightarrow> length (counters s) = WORKERS \<and> list_all2 slot_ok (counters s) (shm_pcs s)"

definition slot_work :: "shm_pc \<Rightarrow> nat" where
  "slot_work p = (case p of S_top j \<Rightarrow> 2 * (ITERATIONS - j) | S_read j v \<Rightarrow> 2 * (ITERATIONS - j) - 1)"

definition shm_work :: "shm \<Rightarrow> nat" where
  "shm_work s = sum_list (map slot_work (shm_pcs s))"

lemma shm_worker_ok:
  assumes inv: "shm_inv s" and i: "i < WORKERS" and w: "shm_worker i s = Some s'"
  shows "shm_inv s' \<and> shm_work s' < shm_work s"
proof -
  have len: "i < length (counters s)" "i < length (shm_pcs s)" and ok: "slot_ok (counters s ! i) (shm_pcs s ! i)"
    using inv i by (auto simp: shm_inv_def list_all2_conv_all_nth)
  show ?thesis
  proof (cases "shm_pcs s ! i")
    case (S_top j)
    then have s': "s' = s\<lparr>shm_pcs := (shm_pcs s)[i := S_read j (counters s ! i)]\<rparr>" "j < ITERATIONS"
      using w by (auto simp: shm_worker_def split: if_splits)
    have "list_all2 slot_ok (counters s) ((shm_pcs s)[i := S_read j (counters s ! i)])"
      using list_all2_update_cong [of slot_ok "counters s" "shm_pcs s" "counters s ! i" _ i] inv ok S_top s'(2)
      by (simp add: shm_inv_def slot_ok_def)
    moreover have "slot_work (S_read j (counters s ! i)) < slot_work (shm_pcs s ! i)"
      using S_top s'(2) by (simp add: slot_work_def)
    ultimately show ?thesis using inv s' sum_list_update_less [OF len(2)] by (simp add: shm_inv_def shm_work_def)
  next
    case (S_read j v)
    then have s': "s' = s\<lparr>counters := (counters s)[i := v + 1], shm_pcs := (shm_pcs s)[i := S_top (j + 1)]\<rparr>"
      and j: "j < ITERATIONS" "v = int j" using w ok by (auto simp: shm_worker_def slot_ok_def)
    have "list_all2 slot_ok ((counters s)[i := v + 1]) ((shm_pcs s)[i := S_top (j + 1)])"
      using inv j by (intro list_all2_update_cong) (simp_all add: shm_inv_def slot_ok_def)
    moreover have "slot_work (S_top (j + 1)) < slot_work (shm_pcs s ! i)"
      using S_read j by (simp add: slot_work_def)
    ultimately show ?thesis using inv s' sum_list_update_less [OF len(2)] by (simp add: shm_inv_def shm_work_def)
  qed
qed

lemma shm_progress:
  assumes inv: "shm_inv s" and nf: "\<not> shm_finished s"
  shows "\<exists>s'. shm_step s s'"
proof -
  have len: "length (shm_pcs s) = WORKERS" using inv list_all2_lengthD [of slot_ok "counters s" "shm_pcs s"]
    by (simp add: shm_inv_def)
  then obtain i where i: "i < WORKERS" "shm_pcs s ! i \<noteq> S_top ITERATIONS"
    using nf unfolding shm_finished_def by (metis length_replicate nth_equalityI nth_replicate)
  have "slot_ok (counters s ! i) (shm_pcs s ! i)" using inv i(1) by (auto simp: shm_inv_def list_all2_conv_all_nth)
  then have "shm_worker i s \<noteq> None" using i(2)
    by (cases "shm_pcs s ! i") (auto simp: shm_worker_def slot_ok_def)
  then show ?thesis using i(1) by (auto simp: shm_step_def)
qed

interpretation shm: thread_runs shm_step shm_inv shm_finished shm_work
  by unfold_locales (use shm_worker_ok shm_progress in \<open>auto simp: shm_step_def\<close>)

lemma shm_start_inv: "shm_inv shm_start"
  by (simp add: shm_inv_def shm_start_def list_all2_conv_all_nth slot_ok_def)

lemma shm_finished_report:
  assumes "shm_inv s" and "shm_finished s"
  shows "shm_report s = (replicate WORKERS (int ITERATIONS), int (WORKERS * ITERATIONS))"
proof -
  have "counters s = replicate WORKERS (int ITERATIONS)"
    using assms by (intro nth_equalityI) (auto simp: shm_inv_def shm_finished_def list_all2_conv_all_nth slot_ok_def)
  moreover have "fold (\<lambda>c total. total + c) (replicate n (int k)) x = x + int (n * k)" for n k x
    by (induction n arbitrary: x) (simp_all add: algebra_simps)
  ultimately show ?thesis by (simp add: shm_report_def)
qed

section \<open>One counter, updated atomically or under a mutex\<close>

definition NUM_COUNT_THREADS :: nat where "NUM_COUNT_THREADS = 4"
definition NUM_ITERATIONS :: nat where "NUM_ITERATIONS = 1000000"

text \<open>The atomic counter and each thread's \<open>i\<close>.\<close>

record acount =
  atomic_counter :: int
  a_iter :: "nat list"

definition atomic_start :: acount where
  "atomic_start = \<lparr>atomic_counter = 0, a_iter = replicate NUM_COUNT_THREADS 0\<rparr>"

definition atomic_worker :: "nat \<Rightarrow> acount \<Rightarrow> acount option" where
  "atomic_worker t s =
     (if a_iter s ! t < NUM_ITERATIONS
      then Some (s\<lparr>atomic_counter := atomic_counter s + 1, a_iter := (a_iter s)[t := a_iter s ! t + 1]\<rparr>) else None)"

definition atomic_step :: "acount \<Rightarrow> acount \<Rightarrow> bool" where
  "atomic_step s s' \<longleftrightarrow> (\<exists>t<NUM_COUNT_THREADS. atomic_worker t s = Some s')"

definition atomic_finished :: "acount \<Rightarrow> bool" where
  "atomic_finished s \<longleftrightarrow> a_iter s = replicate NUM_COUNT_THREADS NUM_ITERATIONS"

text \<open>
  The mutex counter: a thread is at the top of its loop, has the mutex, has read the counter, or has written
  it and still has the mutex. \<open>lock\<close> is the thread that has the mutex.
\<close>

datatype mpc = M_top nat | M_locked nat | M_read nat int | M_written nat

record mcount =
  mutex_counter :: int
  lock :: "nat option"
  m_pcs :: "mpc list"

definition mutex_start :: mcount where
  "mutex_start = \<lparr>mutex_counter = 0, lock = None, m_pcs = replicate NUM_COUNT_THREADS (M_top 0)\<rparr>"

definition mutex_worker :: "nat \<Rightarrow> mcount \<Rightarrow> mcount option" where
  "mutex_worker t s =
     (case m_pcs s ! t of
        M_top j \<Rightarrow>
          if j < NUM_ITERATIONS \<and> lock s = None
          then Some (s\<lparr>lock := Some t, m_pcs := (m_pcs s)[t := M_locked j]\<rparr>) else None
      | M_locked j \<Rightarrow> Some (s\<lparr>m_pcs := (m_pcs s)[t := M_read j (mutex_counter s)]\<rparr>)
      | M_read j v \<Rightarrow> Some (s\<lparr>mutex_counter := v + 1, m_pcs := (m_pcs s)[t := M_written j]\<rparr>)
      | M_written j \<Rightarrow> Some (s\<lparr>lock := None, m_pcs := (m_pcs s)[t := M_top (j + 1)]\<rparr>))"

definition mutex_step :: "mcount \<Rightarrow> mcount \<Rightarrow> bool" where
  "mutex_step s s' \<longleftrightarrow> (\<exists>t<NUM_COUNT_THREADS. mutex_worker t s = Some s')"

definition mutex_finished :: "mcount \<Rightarrow> bool" where
  "mutex_finished s \<longleftrightarrow> m_pcs s = replicate NUM_COUNT_THREADS (M_top NUM_ITERATIONS)"

subsection \<open>The atomic counter\<close>

lemma sum_list_update_eq:
  fixes f :: "'a \<Rightarrow> nat"
  assumes "i < length xs"
  shows "sum_list (map f (xs[i := x])) + f (xs ! i) = sum_list (map f xs) + f x"
proof -
  have "xs = take i xs @ xs ! i # drop (Suc i) xs" using assms by (simp add: id_take_nth_drop)
  then have "sum_list (map f xs) = sum_list (map f (take i xs)) + f (xs ! i) + sum_list (map f (drop (Suc i) xs))"
    by (metis (no_types, lifting) add.assoc list.simps(9) map_append sum_list.Cons sum_list.append)
  then show ?thesis using assms by (simp add: upd_conv_take_nth_drop)
qed

definition atomic_inv :: "acount \<Rightarrow> bool" where
  "atomic_inv s \<longleftrightarrow> length (a_iter s) = NUM_COUNT_THREADS \<and> (\<forall>n\<in>set (a_iter s). n \<le> NUM_ITERATIONS) \<and>
     atomic_counter s = int (sum_list (a_iter s))"

definition atomic_work :: "acount \<Rightarrow> nat" where
  "atomic_work s = sum_list (map (\<lambda>n. NUM_ITERATIONS - n) (a_iter s))"

lemma atomic_worker_ok:
  assumes inv: "atomic_inv s" and t: "t < NUM_COUNT_THREADS" and w: "atomic_worker t s = Some s'"
  shows "atomic_inv s' \<and> atomic_work s' < atomic_work s"
proof -
  have s': "s' = s\<lparr>atomic_counter := atomic_counter s + 1, a_iter := (a_iter s)[t := a_iter s ! t + 1]\<rparr>"
    "a_iter s ! t < NUM_ITERATIONS" using w by (auto simp: atomic_worker_def split: if_splits)
  have len: "t < length (a_iter s)" using inv t by (simp add: atomic_inv_def)
  have "sum_list (a_iter s') = sum_list (a_iter s) + 1"
    using sum_list_update_eq [OF len, of "\<lambda>n. n" "a_iter s ! t + 1"] by (simp add: s')
  moreover have "\<forall>n\<in>set (a_iter s'). n \<le> NUM_ITERATIONS"
    using inv s' set_update_subset_insert [of "a_iter s" t "a_iter s ! t + 1"] by (auto simp: atomic_inv_def)
  ultimately show ?thesis using inv s' sum_list_update_less [OF len, of "\<lambda>n. NUM_ITERATIONS - n" "a_iter s ! t + 1"]
    by (simp add: atomic_inv_def atomic_work_def)
qed

lemma atomic_progress:
  assumes inv: "atomic_inv s" and nf: "\<not> atomic_finished s"
  shows "\<exists>s'. atomic_step s s'"
proof -
  obtain t where t: "t < NUM_COUNT_THREADS" "a_iter s ! t \<noteq> NUM_ITERATIONS"
    using nf inv unfolding atomic_finished_def atomic_inv_def by (metis length_replicate nth_equalityI nth_replicate)
  then have "a_iter s ! t < NUM_ITERATIONS" using inv by (metis atomic_inv_def nat_less_le nth_mem)
  then have "atomic_worker t s \<noteq> None" by (simp add: atomic_worker_def)
  then show ?thesis using t(1) by (auto simp: atomic_step_def)
qed

interpretation ac: thread_runs atomic_step atomic_inv atomic_finished atomic_work
  by unfold_locales (use atomic_worker_ok atomic_progress in \<open>auto simp: atomic_step_def\<close>)

lemma atomic_start_inv: "atomic_inv atomic_start"
  by (simp add: atomic_inv_def atomic_start_def)

lemma atomic_finished_value:
  "atomic_inv s \<Longrightarrow> atomic_finished s \<Longrightarrow> atomic_counter s = int (NUM_COUNT_THREADS * NUM_ITERATIONS)"
  by (simp add: atomic_inv_def atomic_finished_def sum_list_replicate)

subsection \<open>The mutex counter\<close>

definition critical :: "mpc \<Rightarrow> bool" where
  "critical p = (case p of M_top j \<Rightarrow> False | _ \<Rightarrow> True)"

definition completed :: "mpc \<Rightarrow> nat" where
  "completed p = (case p of M_top j \<Rightarrow> j | M_locked j \<Rightarrow> j | M_read j v \<Rightarrow> j | M_written j \<Rightarrow> j + 1)"

definition mpc_ok :: "int \<Rightarrow> mpc \<Rightarrow> bool" where
  "mpc_ok c p = (case p of M_top j \<Rightarrow> j \<le> NUM_ITERATIONS | M_locked j \<Rightarrow> j < NUM_ITERATIONS
     | M_read j v \<Rightarrow> j < NUM_ITERATIONS \<and> v = c | M_written j \<Rightarrow> j < NUM_ITERATIONS)"

text \<open>A thread is between lock and unlock exactly when it has the mutex, and the counter is the number of increments completed.\<close>

definition mutex_inv :: "mcount \<Rightarrow> bool" where
  "mutex_inv s \<longleftrightarrow> length (m_pcs s) = NUM_COUNT_THREADS \<and>
     (\<forall>t<NUM_COUNT_THREADS. mpc_ok (mutex_counter s) (m_pcs s ! t) \<and> (critical (m_pcs s ! t) \<longleftrightarrow> lock s = Some t)) \<and>
     (\<forall>t. lock s = Some t \<longrightarrow> t < NUM_COUNT_THREADS) \<and>
     mutex_counter s = int (sum_list (map completed (m_pcs s)))"

definition mpc_work :: "mpc \<Rightarrow> nat" where
  "mpc_work p = (case p of M_top j \<Rightarrow> 4 * (NUM_ITERATIONS - j) | M_locked j \<Rightarrow> 4 * (NUM_ITERATIONS - j) - 1
     | M_read j v \<Rightarrow> 4 * (NUM_ITERATIONS - j) - 2 | M_written j \<Rightarrow> 4 * (NUM_ITERATIONS - j) - 3)"

definition mutex_work :: "mcount \<Rightarrow> nat" where
  "mutex_work s = sum_list (map mpc_work (m_pcs s))"

lemmas mpc_defs = critical_def completed_def mpc_ok_def mpc_work_def

text \<open>A thread that moves on from its position \<open>p\<close> to \<open>q\<close>.\<close>

lemma mutex_move:
  assumes inv: "mutex_inv s" and t: "t < NUM_COUNT_THREADS" and p: "m_pcs s ! t = p"
    and q: "mpc_ok c q" "critical q \<longleftrightarrow> l = Some t" "l = None \<or> l = Some t" "lock s = None \<or> lock s = Some t"
    and c: "c = mutex_counter s + int (completed q) - int (completed p)"
    and keep: "critical p \<or> c = mutex_counter s" and work: "mpc_work q < mpc_work p"
  shows "mutex_inv (s\<lparr>mutex_counter := c, lock := l, m_pcs := (m_pcs s)[t := q]\<rparr>) \<and>
    mutex_work (s\<lparr>mutex_counter := c, lock := l, m_pcs := (m_pcs s)[t := q]\<rparr>) < mutex_work s"
proof -
  have len: "t < length (m_pcs s)" using inv t by (simp add: mutex_inv_def)
  have others: "mpc_ok c (m_pcs s ! u) \<and> \<not> critical (m_pcs s ! u)" if "u < NUM_COUNT_THREADS" "u \<noteq> t" for u
  proof -
    have "mpc_ok (mutex_counter s) (m_pcs s ! u)" "critical (m_pcs s ! u) \<longleftrightarrow> lock s = Some u"
      using inv that by (auto simp: mutex_inv_def)
    then show ?thesis using q(4) that(2) by (cases "m_pcs s ! u") (auto simp: mpc_defs)
  qed
  have "sum_list (map completed ((m_pcs s)[t := q])) + completed p = sum_list (map completed (m_pcs s)) + completed q"
    using sum_list_update_eq [OF len, of completed q] p by simp
  then have "c = int (sum_list (map completed ((m_pcs s)[t := q])))" using inv c by (simp add: mutex_inv_def)
  moreover have "mpc_ok c ((m_pcs s)[t := q] ! u) \<and> (critical ((m_pcs s)[t := q] ! u) \<longleftrightarrow> l = Some u)"
    if "u < NUM_COUNT_THREADS" for u
    using others [OF that] q(1,2,3) len by (cases "u = t") auto
  ultimately show ?thesis
    using inv q(3) t sum_list_update_less [OF len, of mpc_work q] p work by (auto simp: mutex_inv_def mutex_work_def)
qed

lemma mutex_worker_ok:
  assumes inv: "mutex_inv s" and t: "t < NUM_COUNT_THREADS" and w: "mutex_worker t s = Some s'"
  shows "mutex_inv s' \<and> mutex_work s' < mutex_work s"
proof -
  have ok: "mpc_ok (mutex_counter s) (m_pcs s ! t)" and cr: "critical (m_pcs s ! t) \<longleftrightarrow> lock s = Some t"
    using inv t by (auto simp: mutex_inv_def)
  note mv = mutex_move [OF inv t]
  show ?thesis
  proof (cases "m_pcs s ! t")
    case (M_top j)
    then have s': "s' = s\<lparr>mutex_counter := mutex_counter s, lock := Some t, m_pcs := (m_pcs s)[t := M_locked j]\<rparr>"
      and l: "lock s = None" "j < NUM_ITERATIONS" using w by (auto simp: mutex_worker_def split: if_splits)
    show ?thesis unfolding s' by (rule mv [OF M_top]) (use l in \<open>simp_all add: mpc_defs\<close>)
  next
    case (M_locked j)
    then have s': "s' = s\<lparr>mutex_counter := mutex_counter s, lock := Some t, m_pcs := (m_pcs s)[t := M_read j (mutex_counter s)]\<rparr>"
      and l: "lock s = Some t" "j < NUM_ITERATIONS" using w ok cr by (auto simp: mutex_worker_def mpc_defs)
    show ?thesis unfolding s' by (rule mv [OF M_locked]) (use l in \<open>simp_all add: mpc_defs\<close>)
  next
    case (M_read j v)
    then have s': "s' = s\<lparr>mutex_counter := mutex_counter s + 1, lock := Some t, m_pcs := (m_pcs s)[t := M_written j]\<rparr>"
      and l: "lock s = Some t" "j < NUM_ITERATIONS" using w ok cr by (auto simp: mutex_worker_def mpc_defs)
    show ?thesis unfolding s' by (rule mv [OF M_read]) (use l in \<open>simp_all add: mpc_defs\<close>)
  next
    case (M_written j)
    then have s': "s' = s\<lparr>mutex_counter := mutex_counter s, lock := None, m_pcs := (m_pcs s)[t := M_top (j + 1)]\<rparr>"
      and l: "lock s = Some t" "j < NUM_ITERATIONS" using w ok cr by (auto simp: mutex_worker_def mpc_defs)
    show ?thesis unfolding s' by (rule mv [OF M_written]) (use l in \<open>simp_all add: mpc_defs\<close>)
  qed
qed

lemma mutex_progress:
  assumes inv: "mutex_inv s" and nf: "\<not> mutex_finished s"
  shows "\<exists>s'. mutex_step s s'"
proof (cases "lock s")
  case (Some t)
  then have t: "t < NUM_COUNT_THREADS" "critical (m_pcs s ! t)" using inv by (auto simp: mutex_inv_def)
  then have "mutex_worker t s \<noteq> None" by (cases "m_pcs s ! t") (auto simp: mutex_worker_def critical_def)
  then show ?thesis using t(1) by (auto simp: mutex_step_def)
next
  case None
  obtain t where t: "t < NUM_COUNT_THREADS" "m_pcs s ! t \<noteq> M_top NUM_ITERATIONS"
    using nf inv unfolding mutex_finished_def mutex_inv_def by (metis length_replicate nth_equalityI nth_replicate)
  then have "mpc_ok (mutex_counter s) (m_pcs s ! t)" "\<not> critical (m_pcs s ! t)" using inv None by (auto simp: mutex_inv_def)
  then have "mutex_worker t s \<noteq> None" using t(2) None
    by (cases "m_pcs s ! t") (auto simp: mutex_worker_def mpc_defs)
  then show ?thesis using t(1) by (auto simp: mutex_step_def)
qed

interpretation mc: thread_runs mutex_step mutex_inv mutex_finished mutex_work
  by unfold_locales (use mutex_worker_ok mutex_progress in \<open>auto simp: mutex_step_def\<close>)

lemma mutex_start_inv: "mutex_inv mutex_start"
  by (simp add: mutex_inv_def mutex_start_def mpc_defs map_replicate sum_list_replicate)

lemma mutex_finished_value:
  "mutex_inv s \<Longrightarrow> mutex_finished s \<Longrightarrow> mutex_counter s = int (NUM_COUNT_THREADS * NUM_ITERATIONS)"
  by (simp add: mutex_inv_def mutex_finished_def map_replicate sum_list_replicate completed_def)

section \<open>Properties\<close>

text \<open>C17: However the four threads interleave, even between the read and the write of the counter, the mutex loses no
  increment and no run gets stuck: every run is finite, some thread can go on until all have finished, and then
  the counter is 4000000, as with the atomic counter.\<close>

theorem mutex_counter_total:
  assumes "(mutex_step ^^ n) mutex_start s"
  shows "n \<le> 16000000 \<and>
    (if mutex_finished s then mutex_counter s = 4000000 else (\<exists>s'. mutex_step s s'))"
proof -
  have inv: "mutex_inv s" by (rule mc.run_inv [OF assms mutex_start_inv])
  have "mutex_work mutex_start = 16000000"
    by (simp add: mutex_work_def mutex_start_def map_replicate sum_list_replicate mpc_work_def NUM_COUNT_THREADS_def
        NUM_ITERATIONS_def)
  then have "n \<le> 16000000" using mc.run_length [OF assms mutex_start_inv] by simp
  then show ?thesis using mutex_finished_value [OF inv] mutex_progress [OF inv]
    by (simp add: NUM_COUNT_THREADS_def NUM_ITERATIONS_def)
qed

theorem mutex_counter_total_witness:
  "\<exists>s'. mutex_step (the (mutex_worker 1 mutex_start)) s'"
proof -
  define s where "s = the (mutex_worker 1 mutex_start)"
  have "mutex_worker 1 mutex_start = Some s"
    by (simp add: s_def mutex_worker_def mutex_start_def NUM_COUNT_THREADS_def NUM_ITERATIONS_def)
  then have step: "(mutex_step ^^ 1) mutex_start s" unfolding relpowp_1 mutex_step_def
    by (intro exI [of _ 1]) (simp add: NUM_COUNT_THREADS_def)
  have "m_pcs s ! 1 = M_locked 0"
    by (simp add: s_def mutex_worker_def mutex_start_def NUM_COUNT_THREADS_def NUM_ITERATIONS_def)
  then have "\<not> mutex_finished s" by (auto simp: mutex_finished_def NUM_COUNT_THREADS_def)
  then show ?thesis using mutex_counter_total [OF step] unfolding s_def by simp
qed

text \<open>Every process of the shared-memory program increments its slot five times, whatever the order, and the parent
  reports 5 for each and 30 in total.\<close>

lemma shm_counter_total:
  assumes "(shm_step ^^ n) shm_start s"
  shows "n \<le> 60 \<and> (if shm_finished s then shm_report s = (replicate 6 5, 30) else (\<exists>s'. shm_step s s'))"
proof -
  have inv: "shm_inv s" by (rule shm.run_inv [OF assms shm_start_inv])
  have "shm_work shm_start = 60"
    by (simp add: shm_work_def shm_start_def map_replicate sum_list_replicate slot_work_def WORKERS_def ITERATIONS_def)
  then show ?thesis using shm.run_length [OF assms shm_start_inv] shm_finished_report [OF inv] shm_progress [OF inv]
    by (simp add: WORKERS_def ITERATIONS_def)
qed

lemma atomic_counter_total:
  assumes "(atomic_step ^^ n) atomic_start s"
  shows "if atomic_finished s then atomic_counter s = 4000000 else (\<exists>s'. atomic_step s s')"
proof -
  have inv: "atomic_inv s" by (rule ac.run_inv [OF assms atomic_start_inv])
  then show ?thesis using atomic_finished_value [OF inv] atomic_progress [OF inv]
    by (simp add: NUM_COUNT_THREADS_def NUM_ITERATIONS_def)
qed

end
