(* ===== verification/Fifo_Transfer.thy ===== *)
theory Fifo_Transfer
  imports C_Scan
begin

text \<open>
  The file transfer over two named pipes, \<^verbatim>\<open>src/file-transfer/sender.c\<close> and \<^verbatim>\<open>src/file-transfer/receiver.c\<close>. A
  pipe is a stream of bytes: how many of the bytes written each \<open>read\<close> returns is an argument. The
  sender keeps the pipe open until it has been acknowledged, so that a \<open>read\<close> of the empty pipe waits.
\<close>

definition FIFO_MAX :: nat where "FIFO_MAX = 1024"

section \<open>The sender\<close>

text \<open>The blocks that \<open>fread\<close> gives, each written with one \<open>write\<close>.\<close>

function fread_blocks :: "string \<Rightarrow> string list" where
  "fread_blocks data = (if data = [] then [] else take FIFO_MAX data # fread_blocks (drop FIFO_MAX data))"
  by pat_completeness auto
termination
  by (relation "measure length") (auto simp: FIFO_MAX_def)

declare fread_blocks.simps [simp del]

definition trailer :: string where
  "trailer = ''EOF'' @ [NUL]"

datatype send_error = Send_open | Send_name_overflow | Send_fopen

text \<open>\<open>main\<close> up to the wait: the writes to the pipe. The name goes to an array of 100 characters.\<close>

definition sender_main :: "bool \<Rightarrow> bool \<Rightarrow> string \<Rightarrow> (string \<Rightarrow> string option) \<Rightarrow> send_error + string list" where
  "sender_main write_ok read_ok inp files =
     (if \<not> write_ok \<or> \<not> read_ok then Inl Send_open
      else
        let filename = (case scan_word None inp of Some (w, _) \<Rightarrow> w | None \<Rightarrow> []) in
        if length filename \<ge> 100 then Inl Send_name_overflow
        else case files filename of
            None \<Rightarrow> Inl Send_fopen
          | Some data \<Rightarrow> Inr (fread_blocks data @ [trailer]))"

section \<open>The receiver\<close>

text \<open>
  The loop: \<open>ks\<close> says how many bytes the next reads return (one at least; all that fit when it has
  ended), \<open>buffer\<close> keeps the bytes of earlier reads beyond those just read. It ends when the buffer
  starts with the mark, or waits for ever with the pipe empty.
\<close>

datatype recv_end = Received string | Waiting_for_ever string

function recv_loop :: "nat list \<Rightarrow> string \<Rightarrow> string \<Rightarrow> string \<Rightarrow> recv_end" where
  "recv_loop ks buffer pipe file =
     (if pipe = [] then Waiting_for_ever file
      else
        let n = min (min FIFO_MAX (length pipe)) (if ks = [] then FIFO_MAX else max 1 (hd ks));
            buffer = take n pipe @ drop n buffer
        in if take 3 buffer = ''EOF'' then Received file
           else recv_loop (tl ks) buffer (drop n pipe) (file @ take n pipe))"
  by pat_completeness auto
termination
  by (relation "measure (\<lambda>(ks, buffer, pipe, file). length pipe)") (auto simp: FIFO_MAX_def)

declare recv_loop.simps [simp del]

datatype recv_error = Recv_open | Recv_fopen

definition receiver_main :: "bool \<Rightarrow> bool \<Rightarrow> bool \<Rightarrow> nat list \<Rightarrow> string \<Rightarrow> string \<Rightarrow> recv_error + recv_end" where
  "receiver_main read_ok write_ok fopen_ok ks buffer pipe =
     (if \<not> write_ok \<or> \<not> read_ok then Inl Recv_open
      else if \<not> fopen_ok then Inl Recv_fopen
      else Inr (recv_loop ks buffer pipe []))"

section \<open>A transfer is complete or hangs\<close>

lemma concat_fread_blocks: "concat (fread_blocks data) = data"
  by (induction data rule: fread_blocks.induct) (simp add: fread_blocks.simps append_take_drop_id)

text \<open>The first bytes decide: no byte of the file and no later byte of the mark starts the mark.\<close>

lemma recv_loop_outcome:
  "fl @ pipe = data @ trailer \<Longrightarrow> CHR ''E'' \<notin> set data \<Longrightarrow>
   recv_loop ks buffer pipe fl \<in> {Received data, Waiting_for_ever (data @ trailer)}"
proof (induction ks buffer pipe fl rule: recv_loop.induct)
  case (1 ks buffer pipe fl)
  show ?case
  proof (cases "pipe = []")
    case True
    then show ?thesis using "1.prems"(1) by (simp add: recv_loop.simps [of ks buffer "[]"])
  next
    case False
    define n where "n = min (min FIFO_MAX (length pipe)) (if ks = [] then FIFO_MAX else max 1 (hd ks))"
    define buf where "buf = take n pipe @ drop n buffer"
    have n: "0 < n" using False by (auto simp: n_def FIFO_MAX_def)
    have hd: "hd buf = hd pipe" "buf \<noteq> []" using False n by (simp_all add: buf_def hd_append)
    show ?thesis
    proof (cases "take 3 buf = ''EOF''")
      case True
      then have "hd pipe = CHR ''E''" using hd by (cases buf) auto
      then have "fl = data"
      proof -
        have "length fl = length data"
        proof (rule ccontr)
          assume ne: "length fl \<noteq> length data"
          have "hd pipe = (data @ trailer) ! length fl"
            using "1.prems"(1) False by (metis hd_conv_nth nth_append_length_plus add.right_neutral)
          moreover have "length fl < length data + 4"
            using arg_cong [OF "1.prems"(1), of length] False by (cases pipe) (auto simp: trailer_def)
          ultimately show False using ne \<open>hd pipe = CHR ''E''\<close> "1.prems"(2)
            by (auto simp: nth_append trailer_def NUL_def nth_Cons' split: if_splits)
        qed
        then show ?thesis using "1.prems"(1) by simp
      qed
      then show ?thesis using True False by (simp add: recv_loop.simps [of ks buffer pipe] n_def buf_def Let_def)
    next
      case nb: False
      have "(fl @ take n pipe) @ drop n pipe = data @ trailer" using "1.prems"(1) by simp
      from "1.IH" [OF False n_def buf_def nb this "1.prems"(2)] show ?thesis
        using nb False by (simp add: recv_loop.simps [of ks buffer pipe] n_def buf_def Let_def)
    qed
  qed
qed

section \<open>Properties\<close>

text \<open>C21: The transfer of a file without the letter E, however the pipe delivers its bytes: either the receiver ends with
  exactly the file, or it writes the mark into the file, too, and then both processes wait for each other for
  ever.\<close>

theorem transfer_outcome:
  assumes "sender_main True True inp files = Inr writes" and "files filename = Some data"
    and "scan_word None inp = Some (filename, rest)" and "CHR ''E'' \<notin> set data"
  shows "receiver_main True True True ks buffer (concat writes) \<in>
    {Inr (Received data), Inr (Waiting_for_ever (data @ trailer))}"
proof -
  have "concat writes = data @ trailer"
    using assms(1,2,3) by (auto simp: sender_main_def concat_fread_blocks Let_def split: if_splits)
  then show ?thesis using recv_loop_outcome [of "[]" "concat writes" data ks buffer] assms(4)
    by (auto simp: receiver_main_def)
qed

definition demo_files :: "string \<Rightarrow> string option" where
  "demo_files = (\<lambda>_. Some ''data'')"

theorem transfer_outcome_witness:
  "receiver_main True True True [4, 4] (replicate 1024 NUL) (''data'' @ trailer) \<in>
    {Inr (Received ''data''), Inr (Waiting_for_ever (''data'' @ trailer))}"
proof -
  have s: "sender_main True True ''f'' demo_files = Inr [''data'', trailer]" by code_simp
  have w: "scan_word None ''f'' = Some (''f'', [])" by code_simp
  show ?thesis using transfer_outcome [OF s _ w, of "''data''" "[4, 4]" "replicate 1024 NUL"]
    by (simp add: demo_files_def)
qed

text \<open>Both outcomes occur for the same file: when the last block and the mark arrive in one \<open>read\<close> the transfer hangs.\<close>

lemma transfer_separate_reads:
  "recv_loop [4, 4] (replicate 1024 NUL) (''data'' @ trailer) [] = Received ''data''"
  by code_simp

lemma transfer_one_read_hangs:
  "recv_loop [8] (replicate 1024 NUL) (''data'' @ trailer) [] = Waiting_for_ever (''data'' @ trailer)"
  by code_simp

text \<open>A block that starts with the mark ends the transfer early.\<close>

lemma transfer_truncated:
  "recv_loop [] (replicate 1024 NUL) (''EOF is here'' @ trailer) [] = Received []"
  by code_simp

end
