(* ===== verification/Mq_Chat.thy ===== *)
theory Mq_Chat
  imports C_Scan
begin

text \<open>
  The two chat programs over a System V message queue, \<^verbatim>\<open>src/chat-application/mq-1.c\<close> and \<^verbatim>\<open>src/chat-application/mq-2.c\<close>, which
  differ only in the message types. The kernel takes the type of a message from the first 8 bytes of the
  structure it is given, a \<open>long\<close> on the 64-bit little-endian machines meant here, and its text from the
  bytes after them; the programs' structure has an \<open>int\<close> there. What follows the structure in memory is
  an argument.
\<close>

definition MAX_TEXT :: nat where "MAX_TEXT = 128"
definition MSG_USER1_TO_USER2 :: int where "MSG_USER1_TO_USER2 = 1"
definition MSG_USER2_TO_USER1 :: int where "MSG_USER2_TO_USER1 = 2"

text \<open>\<open>Message\<close>: a 32-bit type and the array \<open>mtext\<close>.\<close>

record message =
  mtype :: int
  mtext :: "char list"

text \<open>The bytes of an \<open>int\<close> and the value of bytes, the low byte first.\<close>

fun le_bytes :: "nat \<Rightarrow> int \<Rightarrow> char list" where
  "le_bytes 0 n = []"
| "le_bytes (Suc k) n = char_of (nat (n mod 256)) # le_bytes k (n div 256)"

fun le_value :: "char list \<Rightarrow> int" where
  "le_value [] = 0"
| "le_value (c # cs) = int (of_char c) + 256 * le_value cs"

definition msg_bytes :: "message \<Rightarrow> char list \<Rightarrow> char list" where
  "msg_bytes m beyond = le_bytes 4 (mtype m) @ mtext m @ beyond"

text \<open>The \<open>long\<close> the kernel reads.\<close>

definition kernel_type :: "char list \<Rightarrow> int" where
  "kernel_type bytes = signed_take_bit 63 (le_value (take 8 bytes))"

text \<open>A message in the queue: its type and its text.\<close>

type_synonym mqueue = "(int \<times> char list) list"

text \<open>\<open>msgsnd\<close>: a type that is not positive is refused.\<close>

definition msgsnd :: "mqueue \<Rightarrow> char list \<Rightarrow> nat \<Rightarrow> mqueue option" where
  "msgsnd q bytes msgsz =
     (let ty = kernel_type bytes
      in if ty < 1 then None else Some (q @ [(ty, take msgsz (drop 8 bytes))]))"

text \<open>\<open>msgrcv\<close> with a positive type: the first message of exactly that type; without one it waits: \<open>None\<close>.\<close>

fun msgrcv :: "mqueue \<Rightarrow> int \<Rightarrow> (char list \<times> mqueue) option" where
  "msgrcv [] ty = None"
| "msgrcv ((t, text) # q) ty =
     (if t = ty then Some (text, q) else map_option (\<lambda>(x, q'). (x, (t, text) # q')) (msgrcv q ty))"

text \<open>\<open>fgets\<close> into \<open>mtext\<close>, and the newline overwritten with a NUL; later bytes of the array stay.\<close>

definition fgets_into :: "char list \<Rightarrow> string \<Rightarrow> char list" where
  "fgets_into arr line = line @ [NUL] @ drop (length line + 1) arr"

definition cut_newline :: "char list \<Rightarrow> char list" where
  "cut_newline arr =
     (let n = length (takeWhile (\<lambda>c. c \<noteq> newline \<and> c \<noteq> NUL) arr) in arr[n := NUL])"

text \<open>
  The sending loop over the lines of the input: the queue and the structure after it. \<open>None\<close> is the exit after a
  refused message.
\<close>

fun send_loop :: "int \<Rightarrow> char list \<Rightarrow> mqueue \<Rightarrow> message \<Rightarrow> string list \<Rightarrow> (mqueue \<times> message) option" where
  "send_loop ty beyond q m [] = Some (q, m)"
| "send_loop ty beyond q m (line # lines) =
     (let m = \<lparr>mtype = ty, mtext = cut_newline (fgets_into (mtext m) line)\<rparr> in
      case msgsnd q (msg_bytes m beyond) (length (c_str (mtext m)) + 1) of
        None \<Rightarrow> None
      | Some q \<Rightarrow> send_loop ty beyond q m lines)"

datatype mq_error = Ftok | Msgget | Msgsnd

text \<open>\<open>main\<close> of the sending process from an empty queue, for \<open>ftok\<close> and \<open>msgget\<close> as they turn out.\<close>

definition mq_main :: "int \<Rightarrow> bool \<Rightarrow> bool \<Rightarrow> char list \<Rightarrow> message \<Rightarrow> string \<Rightarrow> mq_error + mqueue" where
  "mq_main ty ftok_ok msgget_ok beyond m inp =
     (if \<not> ftok_ok then Inl Ftok
      else if \<not> msgget_ok then Inl Msgget
      else case send_loop ty beyond [] m (fgets_lines MAX_TEXT inp) of
          None \<Rightarrow> Inl Msgsnd
        | Some (q, _) \<Rightarrow> Inr q)"

definition mq1_main :: "bool \<Rightarrow> bool \<Rightarrow> char list \<Rightarrow> message \<Rightarrow> string \<Rightarrow> mq_error + mqueue" where
  "mq1_main = mq_main MSG_USER1_TO_USER2"

definition mq2_main :: "bool \<Rightarrow> bool \<Rightarrow> char list \<Rightarrow> message \<Rightarrow> string \<Rightarrow> mq_error + mqueue" where
  "mq2_main = mq_main MSG_USER2_TO_USER1"

text \<open>The receiving process: the next text it prints for a queue, if it does not wait.\<close>

definition mq1_receive :: "mqueue \<Rightarrow> (string \<times> mqueue) option" where
  "mq1_receive q = map_option (\<lambda>(text, q). (c_str text, q)) (msgrcv q MSG_USER2_TO_USER1)"

definition mq2_receive :: "mqueue \<Rightarrow> (string \<times> mqueue) option" where
  "mq2_receive q = map_option (\<lambda>(text, q). (c_str text, q)) (msgrcv q MSG_USER1_TO_USER2)"

section \<open>The type the kernel sees\<close>

lemma le_value_nonneg: "0 \<le> le_value cs"
  by (induction cs) auto

lemma le_value_less: "le_value cs < 256 ^ length cs"
proof (induction cs)
  case (Cons c cs)
  have "int (of_char c) < 256" using nat_of_char_less_256 [of c] by linarith
  moreover have "le_value cs + 1 \<le> 256 ^ length cs" using Cons by simp
  ultimately show ?case unfolding le_value.simps length_Cons power_Suc by linarith
qed simp

lemma le_value_0: "le_value cs = 0 \<longleftrightarrow> (\<forall>c\<in>set cs. c = NUL)"
proof (induction cs)
  case (Cons c cs)
  have "of_char c = (0 :: nat) \<longleftrightarrow> c = NUL"
    using of_char_eq_iff [of c "CHR 0x00", where 'a = nat] by (simp add: NUL_def)
  then show ?case using Cons le_value_nonneg [of cs] by (auto simp: add_nonneg_eq_0_iff)
qed simp

lemma le_value_append: "le_value (xs @ ys) = le_value xs + 256 ^ length xs * le_value ys"
  by (induction xs) (simp_all add: algebra_simps)

text \<open>The type is mixed with the first four bytes of the text; only four NULs leave it as it is.\<close>

lemma kernel_type_mixed:
  assumes "ty = 1 \<or> ty = 2" and "mtype m = ty" and "4 \<le> length (mtext m)"
  shows "kernel_type (msg_bytes m beyond) = signed_take_bit 63 (ty + 2 ^ 32 * le_value (take 4 (mtext m)))"
proof -
  have "length (le_bytes 4 1) = 4" "length (le_bytes 4 2) = 4" "le_value (le_bytes 4 1) = 1" "le_value (le_bytes 4 2) = 2"
    by code_simp+
  then have le: "length (le_bytes 4 ty) = 4" "le_value (le_bytes 4 ty) = ty" using assms(1) by auto
  have "take 8 (msg_bytes m beyond) = le_bytes 4 ty @ take 4 (mtext m)"
    using assms(2,3) le(1) by (simp add: msg_bytes_def)
  then show ?thesis using le by (simp add: kernel_type_def le_value_append)
qed

lemma kernel_type_wrong:
  assumes "ty = 1 \<or> ty = 2" and "mtype m = ty" and "4 \<le> length (mtext m)" and "hd (mtext m) \<noteq> NUL"
  shows "kernel_type (msg_bytes m beyond) < 1 \<or> kernel_type (msg_bytes m beyond) > 2"
proof -
  let ?v = "le_value (take 4 (mtext m))"
  have "hd (mtext m) \<in> set (take 4 (mtext m))" using assms(3) by (cases "mtext m") auto
  then have "?v \<noteq> 0" using assms(4) by (auto simp: le_value_0)
  then have v: "0 < ?v" "?v < 2 ^ 32" using le_value_nonneg [of "take 4 (mtext m)"] le_value_less [of "take 4 (mtext m)"] assms(3)
    by auto
  show ?thesis
  proof (cases "?v < 2 ^ 31")
    case True
    then have "signed_take_bit 63 (ty + 2 ^ 32 * ?v) = ty + 2 ^ 32 * ?v"
      using v assms(1) by (intro signed_take_bit_int_eq_self) auto
    then show ?thesis using kernel_type_mixed [OF assms(1-3)] v assms(1) by auto
  next
    case False
    then have "2 ^ 63 \<le> ty + 2 ^ 32 * ?v" "ty + 2 ^ 32 * ?v < 2 ^ 64" using v assms(1) by auto
    moreover have "signed_take_bit 63 (ty + 2 ^ 32 * ?v) \<le> ty + 2 ^ 32 * ?v - 2 ^ 64"
      using signed_take_bit_int_less_eq [of 63 "ty + 2 ^ 32 * ?v"] calculation by simp
    ultimately have "signed_take_bit 63 (ty + 2 ^ 32 * ?v) < 0" by linarith
    then show ?thesis unfolding kernel_type_mixed [OF assms(1-3)] by linarith
  qed
qed

section \<open>No message arrives\<close>

lemma cut_newline_hd:
  assumes "line \<noteq> []" and "hd line \<noteq> newline" and "hd line \<noteq> NUL"
  shows "hd (cut_newline (fgets_into arr line)) = hd line"
proof -
  obtain c cs where "line = c # cs" using assms(1) by (cases line) auto
  then show ?thesis using assms by (simp add: cut_newline_def fgets_into_def Let_def)
qed

lemma length_fgets_into: "length line < length arr \<Longrightarrow> length (cut_newline (fgets_into arr line)) = length arr"
  by (simp add: cut_newline_def fgets_into_def Let_def)

lemma msgrcv_None: "(\<forall>x\<in>set q. fst x \<noteq> ty) \<Longrightarrow> msgrcv q ty = None"
  by (induction q ty rule: msgrcv.induct) auto

lemma send_loop_types:
  assumes ty: "ty = 1 \<or> ty = 2"
  shows "length (mtext m) = MAX_TEXT \<Longrightarrow> (\<forall>x\<in>set q. fst x > 2) \<Longrightarrow>
    (\<forall>l\<in>set lines. l \<noteq> [] \<and> length l < MAX_TEXT \<and> hd l \<noteq> newline \<and> hd l \<noteq> NUL) \<Longrightarrow>
    send_loop ty beyond q m lines = Some (q', m') \<Longrightarrow> (\<forall>x\<in>set q'. fst x > 2)"
proof (induction lines arbitrary: q m)
  case (Cons l lines)
  define n where "n = \<lparr>mtype = ty, mtext = cut_newline (fgets_into (mtext m) l)\<rparr>"
  have l: "l \<noteq> []" "length l < MAX_TEXT" "hd l \<noteq> newline" "hd l \<noteq> NUL" using Cons.prems(3) by auto
  have len: "length (mtext n) = MAX_TEXT" using length_fgets_into [of l "mtext m"] l(2) Cons.prems(1) by (simp add: n_def)
  have "kernel_type (msg_bytes n beyond) < 1 \<or> kernel_type (msg_bytes n beyond) > 2"
    using cut_newline_hd [OF l(1,3,4)] l(4) len by (intro kernel_type_wrong [OF ty]) (simp_all add: n_def MAX_TEXT_def)
  moreover obtain r where r: "msgsnd q (msg_bytes n beyond) (length (c_str (mtext n)) + 1) = Some r"
    "send_loop ty beyond r n lines = Some (q', m')"
    using Cons.prems(4) by (auto simp: n_def Let_def split: option.splits)
  ultimately have "\<forall>x\<in>set r. fst x > 2" using Cons.prems(2) by (auto simp: msgsnd_def Let_def split: if_splits)
  then show ?case using Cons.IH [OF len _ _ r(2)] Cons.prems(3) by simp
qed auto

section \<open>Properties\<close>

text \<open>Lines as \<open>fgets\<close> reads them are not empty and fit.\<close>

lemma fgets_lines_fit: "l \<in> set (fgets_lines n s) \<Longrightarrow> l \<noteq> [] \<and> length l < n"
proof (induction n s rule: fgets_lines.induct)
  case (1 n s)
  show ?case
  proof (cases "s = [] \<or> n \<le> 1")
    case True
    then show ?thesis using "1.prems" by (auto simp: fgets_lines.simps [of n s])
  next
    case False
    have "length (fgets_line n s) < n" using False by (auto simp: fgets_line_def Let_def)
    moreover have "fgets_line n s \<noteq> []" using False fgets_line_pos [of s n] by auto
    ultimately show ?thesis using "1.prems" "1.IH" [OF False refl] False
      by (auto simp: fgets_lines.simps [of n s] Let_def)
  qed
qed

text \<open>C34: No line that starts with a character arrives: whatever non-blank lines the first user types, the kernel mixes the
  start of each text into the message type, so that the program ends with an error from \<open>msgsnd\<close>, or the second
  user's receiving process waits for ever, and so does the first user's.\<close>

theorem mq_chat_never_delivers:
  assumes "length (mtext m) = MAX_TEXT"
    and "list_all (\<lambda>l. hd l \<noteq> newline \<and> hd l \<noteq> NUL) (fgets_lines MAX_TEXT inp)"
  shows "case mq1_main True True beyond m inp of
    Inl e \<Rightarrow> e = Msgsnd
  | Inr q \<Rightarrow> mq2_receive q = None \<and> mq1_receive q = None"
proof -
  have ls: "\<forall>l\<in>set (fgets_lines MAX_TEXT inp). l \<noteq> [] \<and> length l < MAX_TEXT \<and> hd l \<noteq> newline \<and> hd l \<noteq> NUL"
    using assms(2) fgets_lines_fit by (auto simp: list_all_iff)
  show ?thesis
  proof (cases "send_loop 1 beyond [] m (fgets_lines MAX_TEXT inp)")
    case None
    then show ?thesis by (simp add: mq1_main_def mq_main_def MSG_USER1_TO_USER2_def)
  next
    case (Some r)
    obtain q m' where r: "r = (q, m')" by fastforce
    have "\<forall>x\<in>set q. fst x > 2"
      by (rule send_loop_types [OF _ assms(1) _ ls, of 1 "[]" beyond q m']) (use Some r in simp_all)
    then have "msgrcv q 1 = None" "msgrcv q 2 = None" by (auto intro!: msgrcv_None)
    then show ?thesis using Some r
      by (simp add: mq1_main_def mq_main_def mq1_receive_def mq2_receive_def MSG_USER1_TO_USER2_def MSG_USER2_TO_USER1_def)
  qed
qed

definition hello_lines :: string where
  "hello_lines = ''hello'' @ [newline] @ ''there'' @ [newline]"

theorem mq_chat_never_delivers_witness:
  "\<exists>q. mq1_main True True ''abcd'' \<lparr>mtype = 0, mtext = replicate MAX_TEXT NUL\<rparr> hello_lines = Inr q \<and> mq2_receive q = None"
proof -
  let ?r = "mq1_main True True ''abcd'' \<lparr>mtype = 0, mtext = replicate MAX_TEXT NUL\<rparr> hello_lines"
  have "list_all (\<lambda>l. hd l \<noteq> newline \<and> hd l \<noteq> NUL) (fgets_lines MAX_TEXT hello_lines)" by code_simp
  moreover have "isl ?r = False" by code_simp
  ultimately show ?thesis
    using mq_chat_never_delivers [of "\<lparr>mtype = 0, mtext = replicate MAX_TEXT NUL\<rparr>" hello_lines "''abcd''"]
    by (cases ?r) auto
qed

end
