(* ===== verification/Copy_Syscalls.thy ===== *)
theory Copy_Syscalls
  imports File_Copy "HOL-Library.Sublist"
begin

text \<open>
  The second copy program, \<^verbatim>\<open>src/fille-copy-syscalls.c\<close>: one \<open>read\<close> and one \<open>write\<close> per block. The outcomes of the calls
  are taken from a list as in \<open>File_Copy\<close>. A short \<open>write\<close> is not repeated.
\<close>

definition COPY_BUF_SIZE :: nat where "COPY_BUF_SIZE = 1024"

text \<open>The loop over the rest of the source: how it ends, the destination, and the two totals.\<close>

function sc_loop :: "io list \<Rightarrow> char list \<Rightarrow> char list \<Rightarrow> nat \<Rightarrow> nat \<Rightarrow> copy_end \<times> char list \<times> nat \<times> nat" where
  "sc_loop outs rest dst total_read total_written =
     (if outs \<noteq> [] \<and> hd outs \<in> {IO_EINTR, IO_ERR} then (Read_failed, dst, total_read, total_written)
      else
        let n = io_amount outs (min COPY_BUF_SIZE (length rest)); outs = tl outs in
        if n = 0 then (Copy_ok, dst, total_read, total_written)
        else if outs \<noteq> [] \<and> hd outs \<in> {IO_EINTR, IO_ERR} then (Write_failed, dst, total_read + n, total_written)
        else
          let w = io_amount outs n
          in sc_loop (tl outs) (drop n rest) (dst @ take w rest) (total_read + n) (total_written + w))"
  by pat_completeness auto
termination
proof (relation "measure (\<lambda>(outs, rest, dst, tr, tw). length rest)")
  fix outs outs' :: "io list" and rest dst :: "char list" and tr tw n w
  assume "n = io_amount outs (min COPY_BUF_SIZE (length rest))" "n \<noteq> 0"
  then have "n \<le> length rest" "0 < n" using io_amount_le [of outs "min COPY_BUF_SIZE (length rest)"] by auto
  then show "((tl outs', drop n rest, dst @ take w rest, tr + n, tw + w), outs, rest, dst, tr, tw)
      \<in> measure (\<lambda>(outs, rest, dst, tr, tw). length rest)" by auto
qed simp

declare sc_loop.simps [simp del]

datatype sc_msg = Sc_usage | Sc_open_src | Sc_open_dst | Sc_write | Sc_read | Sc_close_src | Sc_close_dst | Sc_totals nat nat

text \<open>\<open>main\<close>: exit status, message and destination file, if it was opened.\<close>

definition sc_main :: "nat \<Rightarrow> bool \<Rightarrow> bool \<Rightarrow> bool \<Rightarrow> bool \<Rightarrow> io list \<Rightarrow> char list \<Rightarrow> int \<times> sc_msg \<times> char list option" where
  "sc_main argc src_ok dst_ok close_src_ok close_dst_ok outs src =
     (if argc \<noteq> 3 then (1, Sc_usage, None)
      else if \<not> src_ok then (1, Sc_open_src, None)
      else if \<not> dst_ok then (1, Sc_open_dst, None)
      else
        let (e, dst, tr, tw) = sc_loop outs src [] 0 0 in
        case e of
          Write_failed \<Rightarrow> (1, Sc_write, Some dst)
        | Read_failed \<Rightarrow> (1, Sc_read, Some dst)
        | Copy_ok \<Rightarrow>
            if \<not> close_src_ok then (1, Sc_close_src, Some dst)
            else if \<not> close_dst_ok then (1, Sc_close_dst, Some dst)
            else (0, Sc_totals tr tw, Some dst))"

lemma subseq_take_block: "w \<le> n \<Longrightarrow> subseq xs (drop n rest) \<Longrightarrow> subseq (take w rest @ xs) rest"
proof -
  assume "w \<le> n" "subseq xs (drop n rest)"
  then have "subseq (take w rest @ xs) (take n rest @ drop n rest)"
    by (intro list_emb_append_mono) (metis min.absorb1 prefix_imp_subseq take_is_prefix take_take)
  then show ?thesis by simp
qed

lemma sc_loop_outcome:
  "sc_loop outs rest dst tr tw = (e, dst', tr', tw') \<Longrightarrow>
   \<exists>xs. dst' = dst @ xs \<and> subseq xs rest \<and> tw' = tw + length xs \<and> (e = Copy_ok \<longrightarrow> tr' = tr + length rest)"
proof (induction outs rest dst tr tw rule: sc_loop.induct)
  case (1 outs rest dst tr tw)
  show ?case
  proof (cases "outs \<noteq> [] \<and> hd outs \<in> {IO_EINTR, IO_ERR}")
    case True
    then show ?thesis using "1.prems" by (simp add: sc_loop.simps [of outs rest])
  next
    case r: False
    define n where "n = io_amount outs (min COPY_BUF_SIZE (length rest))"
    define os where "os = tl outs"
    have n: "n \<le> length rest" "n = 0 \<Longrightarrow> rest = []"
      using io_amount_le [of outs "min COPY_BUF_SIZE (length rest)"] io_amount_pos [of "min COPY_BUF_SIZE (length rest)" outs]
      by (auto simp: n_def COPY_BUF_SIZE_def)
    show ?thesis
    proof (cases "n = 0 \<or> (os \<noteq> [] \<and> hd os \<in> {IO_EINTR, IO_ERR})")
      case True
      then have "dst' = dst" "tw' = tw" "e = Copy_ok \<Longrightarrow> n = 0" "n = 0 \<Longrightarrow> tr' = tr"
        using "1.prems" r by (auto simp: sc_loop.simps [of outs rest] n_def os_def Let_def split: if_splits)
      then show ?thesis using n(2) by auto
    next
      case False
      define w where "w = io_amount os n"
      have w: "w \<le> n" by (simp add: w_def io_amount_le)
      have "sc_loop (tl os) (drop n rest) (dst @ take w rest) (tr + n) (tw + w) = (e, dst', tr', tw')"
        using "1.prems" r False
        unfolding sc_loop.simps [of outs rest dst tr tw] Let_def n_def [symmetric] os_def [symmetric] w_def [symmetric]
        by (auto split: if_splits)
      from "1.IH" [OF r n_def os_def _ _ w_def this] False obtain xs where
        xs: "dst' = (dst @ take w rest) @ xs" "subseq xs (drop n rest)" "tw' = tw + w + length xs"
        "e = Copy_ok \<longrightarrow> tr' = tr + n + length (drop n rest)" by auto
      have "subseq (take w rest @ xs) rest" by (rule subseq_take_block [OF w xs(2)])
      then show ?thesis using xs n(1) w by (intro exI [of _ "take w rest @ xs"]) auto
    qed
  qed
qed

section \<open>Properties\<close>

text \<open>C35: When the program ends with status 0 it reports the length of the source as read and the length of the
  destination as written; the destination is the source with bytes left out, and it is a copy exactly
  when the two totals are equal. A short \<open>write\<close> leaves bytes out with status 0.\<close>

theorem sc_main_totals:
  assumes "sc_main argc src_ok dst_ok close_src_ok close_dst_ok outs src = (0, msg, Some dst)"
  shows "msg = Sc_totals (length src) (length dst) \<and> subseq dst src \<and> (length src = length dst \<longleftrightarrow> dst = src)"
proof -
  obtain e d tr tw where l: "sc_loop outs src [] 0 0 = (e, d, tr, tw)" using prod_cases4 by blast
  then have m: "e = Copy_ok" "msg = Sc_totals tr tw" "dst = d"
    using assms by (auto simp: sc_main_def split: if_splits copy_end.splits)
  from sc_loop_outcome [OF l] m have "subseq dst src" "tw = length dst" "tr = length src" by auto
  then show ?thesis using m(2) subseq_same_length [of dst src] by auto
qed

theorem sc_main_totals_witness:
  "sc_main 3 True True True True [IO_SOME 1024, IO_SOME 2] ''abcdef'' = (0, Sc_totals 6 2, Some ''ab'')"
proof -
  have r: "sc_main 3 True True True True [IO_SOME 1024, IO_SOME 2] ''abcdef'' =
      (0, fst (snd (sc_main 3 True True True True [IO_SOME 1024, IO_SOME 2] ''abcdef'')), Some ''ab'')" by code_simp
  show ?thesis using sc_main_totals [OF r] r by simp
qed

end
