(* ===== verification/Uring_IO.thy ===== *)
theory Uring_IO
  imports C_Strings
begin

text \<open>
  The programs over liburing and the write benchmarks: \<^verbatim>\<open>src/reads-from-multiple-files-asynchronously-io_uring.c\<close>, which merges
  files in the order in which their reads complete, \<^verbatim>\<open>src/wite--io_uring version.c\<close> and \<^verbatim>\<open>src/direct-vs-buffered-W.c\<close>, which
  write blocks of a pattern and measure each write. liburing is not part of the sources: what
  completes, when and with what result is an argument. Times are the numbers of nanoseconds measured.
\<close>

section \<open>Merging files\<close>

definition QUEUE_DEPTH :: nat where "QUEUE_DEPTH = 4"

text \<open>
  An input file: its name and contents, whether it can be opened and its size found, and whether the two allocations for
  it succeed, that of the buffer and that of the \<open>ReadRequest\<close>.
\<close>

record infile =
  i_name :: string
  i_open :: bool
  i_fstat :: bool
  i_alloc :: bool
  i_request :: bool
  i_data :: string

text \<open>The result of a read, an error or the number of bytes read; and that of a \<open>write\<close>.\<close>

datatype completion = Res_error | Res_bytes nat

datatype write_result = Write_failed | Wrote nat

text \<open>\<open>Mg_null_request\<close> is the write through a \<open>ReadRequest\<close> that was not allocated.\<close>

datatype merge_error = Mg_usage | Mg_output | Mg_init | Mg_alloc | Mg_sqe | Mg_null_request

text \<open>
  Submitting the reads. \<open>get_sqe n\<close> says whether \<open>io_uring_get_sqe\<close> gives an entry when \<open>n\<close> have been taken and not submitted;
  nothing is submitted before all files have been gone through.
\<close>

fun submit_reads :: "(nat \<Rightarrow> bool) \<Rightarrow> infile list \<Rightarrow> nat \<Rightarrow> merge_error + infile list" where
  "submit_reads get_sqe [] queued = Inr []"
| "submit_reads get_sqe (f # fs) queued =
     (if \<not> i_open f then submit_reads get_sqe fs queued
      else if \<not> i_fstat f then submit_reads get_sqe fs queued
      else if \<not> i_alloc f then Inl Mg_alloc
      else if \<not> get_sqe queued then Inl Mg_sqe
      else if \<not> i_request f then Inl Mg_null_request
      else case submit_reads get_sqe fs (queued + 1) of Inl e \<Rightarrow> Inl e | Inr rs \<Rightarrow> Inr (f # rs))"

datatype merge_line = Merged string nat | Read_error_line string | Write_error_line

text \<open>
  Processing one completion after the other: \<open>n\<close> are expected, each comes with the result of the \<open>write\<close> it leads to. A
  completion beyond the submitted reads never comes: the last result says whether the loop ends. The whole buffer is
  written, as far as \<open>write\<close> takes it; bytes that were not read are taken from \<open>junk\<close>.
\<close>

fun process :: "nat \<Rightarrow> (infile \<times> completion \<times> write_result) list \<Rightarrow> (nat \<Rightarrow> char) \<Rightarrow> string \<times> merge_line list \<times> bool" where
  "process 0 cs junk = ([], [], True)"
| "process (Suc n) [] junk = ([], [], False)"
| "process (Suc n) ((f, c, w) # cs) junk =
     (let (out, ls, fin) = process n cs junk in
      case c of
        Res_error \<Rightarrow> (out, Read_error_line (i_name f) # ls, fin)
      | Res_bytes k \<Rightarrow>
          let file_size = length (i_data f);
              buffer = take k (i_data f) @ map junk [k..<file_size]
          in (case w of
                Write_failed \<Rightarrow> (out, Write_error_line # ls, fin)
              | Wrote b \<Rightarrow>
                  (take b buffer @ out,
                   (if b \<noteq> file_size then Write_error_line else Merged (i_name f) file_size) # ls, fin)))"

text \<open>
  \<open>main\<close> on the input files: \<open>complete\<close> says in which order and with which results the submitted reads
  complete and the writes go. The result is the output file, the lines printed and whether the program ends.
\<close>

definition merge_main ::
  "infile list \<Rightarrow> bool \<Rightarrow> bool \<Rightarrow> (nat \<Rightarrow> bool) \<Rightarrow> (infile list \<Rightarrow> (infile \<times> completion \<times> write_result) list) \<Rightarrow>
   (nat \<Rightarrow> char) \<Rightarrow> merge_error + (string \<times> merge_line list \<times> bool)" where
  "merge_main ins out_ok init_ok get_sqe complete junk =
     (if ins = [] then Inl Mg_usage
      else if \<not> out_ok then Inl Mg_output
      else if \<not> init_ok then Inl Mg_init
      else case submit_reads get_sqe ins 0 of
          Inl e \<Rightarrow> Inl e
        | Inr rs \<Rightarrow> Inr (process (length ins) (complete rs) junk))"

section \<open>Writing blocks and measuring\<close>

text \<open>\<open>buffer[i] = i & 0xFF\<close>.\<close>

definition fill_pattern :: "nat \<Rightarrow> char list" where
  "fill_pattern n = map (\<lambda>i. char_of (i mod 256)) [0..<n]"

record timing =
  min_ns :: int
  max_ns :: int
  sum_ns :: int

definition timing_start :: timing where
  "timing_start = \<lparr>min_ns = 2 ^ 62, max_ns = 0, sum_ns = 0\<rparr>"

definition record_ns :: "timing \<Rightarrow> int \<Rightarrow> timing" where
  "record_ns t ns =
     \<lparr>min_ns = (if ns < min_ns t then ns else min_ns t), max_ns = (if ns > max_ns t then ns else max_ns t),
      sum_ns = sum_ns t + ns\<rparr>"

datatype write_failure = Clock_failed | Write_failed_or_short | Fsync_failed | No_sqe | Wait_failed

text \<open>The outcome of one iteration: a failure, or the time it took.\<close>

type_synonym iteration = "write_failure + int"

text \<open>\<open>benchmark_write\<close> with the file it appends to; the loop of the io_uring program is the same at offsets \<open>i * write_size\<close>.\<close>

fun bench_loop :: "char list \<Rightarrow> iteration list \<Rightarrow> string \<Rightarrow> timing \<Rightarrow> write_failure + (string \<times> timing)" where
  "bench_loop buffer [] fl t = Inr (fl, t)"
| "bench_loop buffer (Inl e # its) fl t = Inl e"
| "bench_loop buffer (Inr ns # its) fl t = bench_loop buffer its (fl @ buffer) (record_ns t ns)"

definition benchmark_write :: "char list \<Rightarrow> iteration list \<Rightarrow> write_failure + (string \<times> timing)" where
  "benchmark_write buffer its = bench_loop buffer its [] timing_start"

text \<open>A positioned write that extends the file to \<open>offset\<close> when it is shorter.\<close>

definition pwrite :: "string \<Rightarrow> nat \<Rightarrow> char list \<Rightarrow> string" where
  "pwrite fl offset b =
     take offset (fl @ replicate (offset - length fl) NUL) @ b @ drop (offset + length b) fl"

fun uring_loop :: "char list \<Rightarrow> nat \<Rightarrow> iteration list \<Rightarrow> string \<Rightarrow> timing \<Rightarrow> write_failure + (string \<times> timing)" where
  "uring_loop buffer i [] fl t = Inr (fl, t)"
| "uring_loop buffer i (Inl e # its) fl t = Inl e"
| "uring_loop buffer i (Inr ns # its) fl t =
     uring_loop buffer (i + 1) its (pwrite fl (i * length buffer) buffer) (record_ns t ns)"

datatype bench_error = Be_alloc | Be_open string | Be_init | Be_loop write_failure

text \<open>\<open>main\<close> of the two programs; the iterations' outcomes are arguments, the file is the one written last.\<close>

definition direct_main ::
  "bool \<Rightarrow> bool \<Rightarrow> bool \<Rightarrow> iteration list \<Rightarrow> iteration list \<Rightarrow> bench_error + (timing \<times> timing \<times> string)" where
  "direct_main alloc_ok buffered_ok direct_ok its1 its2 =
     (if \<not> alloc_ok then Inl Be_alloc
      else
        let buffer = fill_pattern 4096 in
        if \<not> buffered_ok then Inl (Be_open ''open buffered'')
        else case benchmark_write buffer its1 of
            Inl e \<Rightarrow> Inl (Be_loop e)
          | Inr (_, t1) \<Rightarrow>
              if \<not> direct_ok then Inl (Be_open ''open direct'')
              else case benchmark_write buffer its2 of
                  Inl e \<Rightarrow> Inl (Be_loop e)
                | Inr (fl, t2) \<Rightarrow> Inr (t1, t2, fl))"

definition uring_main :: "bool \<Rightarrow> bool \<Rightarrow> bool \<Rightarrow> iteration list \<Rightarrow> bench_error + (timing \<times> string)" where
  "uring_main open_ok alloc_ok init_ok its =
     (if \<not> open_ok then Inl (Be_open ''open'')
      else if \<not> alloc_ok then Inl Be_alloc
      else if \<not> init_ok then Inl Be_init
      else case uring_loop (fill_pattern 4096) 0 its [] timing_start of
          Inl e \<Rightarrow> Inl (Be_loop e)
        | Inr (fl, t) \<Rightarrow> Inr (t, fl))"

section \<open>What the merge writes\<close>

text \<open>What the program relies on of liburing: \<open>io_uring_get_sqe\<close> gives an entry exactly as long as the queue is not full.\<close>

definition queue_of_depth :: "(nat \<Rightarrow> bool) \<Rightarrow> bool" where
  "queue_of_depth get_sqe \<longleftrightarrow> (\<forall>n. get_sqe n \<longleftrightarrow> n < QUEUE_DEPTH)"

definition opened :: "infile \<Rightarrow> bool" where
  "opened f \<longleftrightarrow> i_open f \<and> i_fstat f"

definition allocated :: "infile list \<Rightarrow> bool" where
  "allocated ins \<longleftrightarrow> list_all (\<lambda>f. opened f \<longrightarrow> i_alloc f \<and> i_request f) ins"

lemma submit_reads_few:
  assumes "queue_of_depth get_sqe"
  shows "allocated ins \<Longrightarrow> length (filter opened ins) + queued \<le> QUEUE_DEPTH \<Longrightarrow>
    submit_reads get_sqe ins queued = Inr (filter opened ins)"
proof (induction ins arbitrary: queued)
  case (Cons f fs)
  have q: "get_sqe queued \<longleftrightarrow> queued < QUEUE_DEPTH" using assms by (simp add: queue_of_depth_def)
  show ?case
  proof (cases "opened f")
    case True
    then have "submit_reads get_sqe fs (queued + 1) = Inr (filter opened fs)" using Cons by (simp add: allocated_def)
    then show ?thesis using True q Cons.prems by (simp add: opened_def [of f] allocated_def)
  next
    case False
    then show ?thesis using Cons by (auto simp: opened_def allocated_def)
  qed
qed simp

lemma submit_reads_many:
  assumes "queue_of_depth get_sqe"
  shows "allocated ins \<Longrightarrow> length (filter opened ins) + queued > QUEUE_DEPTH \<Longrightarrow> queued \<le> QUEUE_DEPTH \<Longrightarrow> submit_reads get_sqe ins queued = Inl Mg_sqe"
proof (induction ins arbitrary: queued)
  case (Cons f fs)
  have q: "get_sqe queued \<longleftrightarrow> queued < QUEUE_DEPTH" using assms(1) by (simp add: queue_of_depth_def)
  show ?case
  proof (cases "opened f \<and> queued < QUEUE_DEPTH")
    case True
    then have "submit_reads get_sqe fs (queued + 1) = Inl Mg_sqe" using Cons by (simp add: allocated_def)
    then show ?thesis using True q Cons.prems(1) by (simp add: opened_def allocated_def)
  next
    case False
    then show ?thesis using Cons q by (auto simp: opened_def allocated_def)
  qed
qed simp

lemma process_ends: "snd (snd (process n cs junk)) \<longleftrightarrow> n \<le> length cs"
  by (induction n cs junk rule: process.induct) (auto simp: split_def Let_def split: completion.split write_result.split)

text \<open>What a completion whose read got the whole file adds to the output, and the line it prints.\<close>

fun merged :: "infile \<times> completion \<times> write_result \<Rightarrow> string" where
  "merged (f, Res_bytes k, Wrote b) = take b (i_data f)"
| "merged (f, c, w) = []"

fun merged_line :: "infile \<times> completion \<times> write_result \<Rightarrow> merge_line" where
  "merged_line (f, Res_error, w) = Read_error_line (i_name f)"
| "merged_line (f, Res_bytes k, w) =
     (if w = Wrote (length (i_data f)) then Merged (i_name f) (length (i_data f)) else Write_error_line)"

lemma merged_full:
  assumes "\<forall>(f, c, w)\<in>set cs. c \<noteq> Res_error \<and> w = Wrote (length (i_data f))"
  shows "map merged cs = map (i_data \<circ> fst) cs" "map merged_line cs = map (\<lambda>(f, c, w). Merged (i_name f) (length (i_data f))) cs"
proof -
  have "merged x = i_data (fst x) \<and> merged_line x = (\<lambda>(f, c, w). Merged (i_name f) (length (i_data f))) x" if "x \<in> set cs" for x
    using that assms by (cases x; cases "fst (snd x)") auto
  then show "map merged cs = map (i_data \<circ> fst) cs"
    "map merged_line cs = map (\<lambda>(f, c, w). Merged (i_name f) (length (i_data f))) cs" by simp_all
qed

lemma process_output:
  assumes "\<forall>(f, c, w)\<in>set cs. c = Res_error \<or> c = Res_bytes (length (i_data f))" and "length cs \<le> n"
  shows "process n cs junk = (concat (map merged cs), map merged_line cs, n \<le> length cs)"
proof -
  have "fst (process n cs junk) = concat (map merged cs) \<and> fst (snd (process n cs junk)) = map merged_line cs"
    using assms by (induction n cs junk rule: process.induct) (auto simp: split_def Let_def split: write_result.split)
  then show ?thesis using process_ends [of n cs junk] by (simp add: prod_eq_iff)
qed

section \<open>What the benchmarks write\<close>

lemma bench_loop_ok:
  "bench_loop buffer (map Inr nss) fl t = Inr (fl @ concat (replicate (length nss) buffer), fold (\<lambda>ns t. record_ns t ns) nss t)"
  by (induction nss arbitrary: fl t) auto

lemma pwrite_append: "length fl = offset \<Longrightarrow> pwrite fl offset b = fl @ b"
  by (simp add: pwrite_def)

lemma uring_loop_ok:
  "length fl = i * length buffer \<Longrightarrow>
   uring_loop buffer i (map Inr nss) fl t =
   Inr (fl @ concat (replicate (length nss) buffer), fold (\<lambda>ns t. record_ns t ns) nss t)"
proof (induction nss arbitrary: i fl t)
  case (Cons ns nss)
  then show ?case using Cons.IH [of "fl @ buffer" "i + 1"] by (simp add: pwrite_append)
qed simp

lemma record_ns_fields:
  "min_ns (record_ns t ns) = min (min_ns t) ns" "max_ns (record_ns t ns) = max (max_ns t) ns"
  "sum_ns (record_ns t ns) = sum_ns t + ns"
  by (simp_all add: record_ns_def min_def max_def)

lemma timings:
  "sum_ns (fold (\<lambda>ns t. record_ns t ns) nss t) = sum_ns t + sum_list nss"
  "min_ns (fold (\<lambda>ns t. record_ns t ns) nss t) = fold (\<lambda>ns x. min x ns) nss (min_ns t)"
  "max_ns (fold (\<lambda>ns t. record_ns t ns) nss t) = fold (\<lambda>ns x. max x ns) nss (max_ns t)"
  by (induction nss arbitrary: t) (simp_all add: record_ns_fields)

lemma fold_min_le: "fold (\<lambda>ns x. min x ns) nss (a :: int) \<le> a \<and> (\<forall>ns\<in>set nss. fold (\<lambda>ns x. min x ns) nss a \<le> ns)"
proof (induction nss arbitrary: a)
  case (Cons n nss)
  then show ?case using Cons.IH [of "min a n"] by auto
qed simp

lemma fold_max_ge: "a \<le> fold (\<lambda>ns x. max x ns) nss (a :: int) \<and> (\<forall>ns\<in>set nss. ns \<le> fold (\<lambda>ns x. max x ns) nss a)"
proof (induction nss arbitrary: a)
  case (Cons n nss)
  have "max a n \<le> fold (\<lambda>ns x. max x ns) nss (max a n)" "\<forall>ns\<in>set nss. ns \<le> fold (\<lambda>ns x. max x ns) nss (max a n)"
    using Cons by blast+
  then show ?case by simp
qed simp

lemma uring_main_writes:
  "\<exists>t. uring_main True True True (map Inr nss) = Inr (t, concat (replicate (length nss) (fill_pattern 4096))) \<and>
     sum_ns t = sum_list nss \<and> (\<forall>ns\<in>set nss. min_ns t \<le> ns \<and> ns \<le> max_ns t)"
  using uring_loop_ok [of "[]" 0 "fill_pattern 4096" nss timing_start] fold_min_le [of nss "2 ^ 62"] fold_max_ge [of 0 nss]
  by (simp add: uring_main_def timings timing_start_def)

section \<open>Properties\<close>

text \<open>What the program relies on of liburing and the kernel: every submitted read completes once, in some order, with an error or
  with all its bytes.\<close>

definition all_complete :: "(infile list \<Rightarrow> (infile \<times> completion \<times> write_result) list) \<Rightarrow> bool" where
  "all_complete complete \<longleftrightarrow>
     (\<forall>rs. mset (map fst (complete rs)) = mset rs \<and>
       (\<forall>(f, c, w)\<in>set (complete rs). c = Res_error \<or> c = Res_bytes (length (i_data f))))"

text \<open>C36: Provided the queue holds \<open>QUEUE_DEPTH\<close> entries, the allocations succeed and every submitted read completes once, with an
  error or with all its bytes, the merge program handles the files that can be opened in the order in which their reads
  complete: its output is, in this order, what \<open>write\<close> took of each file that was read, and its lines are one per completion,
  in the same order. When every read and write is full the output is the files one after the other. It ends exactly
  when all files could be opened, and otherwise waits for ever for the missing completions. With more
  than four such files it exits before it reads any.\<close>

theorem merge_main_outcome:
  assumes "ins \<noteq> []" and "queue_of_depth get_sqe" and "allocated ins" and "all_complete complete"
  shows "let cs = complete (filter opened ins) in
    if length (filter opened ins) \<le> QUEUE_DEPTH
    then merge_main ins True True get_sqe complete junk =
        Inr (concat (map merged cs), map merged_line cs, list_all opened ins) \<and>
      ((\<forall>(f, c, w)\<in>set cs. c \<noteq> Res_error \<and> w = Wrote (length (i_data f))) \<longrightarrow>
        merge_main ins True True get_sqe complete junk =
          Inr (concat (map (i_data \<circ> fst) cs), map (\<lambda>(f, c, w). Merged (i_name f) (length (i_data f))) cs, list_all opened ins))
    else merge_main ins True True get_sqe complete junk = Inl Mg_sqe"
proof (cases "length (filter opened ins) \<le> QUEUE_DEPTH")
  case True
  define cs where "cs = complete (filter opened ins)"
  have "mset (map fst cs) = mset (filter opened ins)"
    and full: "\<forall>(f, c, w)\<in>set cs. c = Res_error \<or> c = Res_bytes (length (i_data f))"
    using assms(4) by (simp_all add: all_complete_def cs_def)
  then have len: "length cs = length (filter opened ins)" using mset_eq_length by fastforce
  then have "length ins \<le> length cs \<longleftrightarrow> list_all opened ins"
    by (metis (no_types, lifting) filter_True length_filter_less list_all_iff not_le order_refl)
  then have m: "merge_main ins True True get_sqe complete junk = Inr (concat (map merged cs), map merged_line cs, list_all opened ins)"
    using assms(1) True submit_reads_few [OF assms(2,3), of 0] process_output [OF full, of "length ins" junk]
      length_filter_le [of opened ins] len by (simp add: merge_main_def cs_def [symmetric])
  then have "(\<forall>(f, c, w)\<in>set cs. c \<noteq> Res_error \<and> w = Wrote (length (i_data f))) \<longrightarrow>
      merge_main ins True True get_sqe complete junk =
        Inr (concat (map (i_data \<circ> fst) cs), map (\<lambda>(f, c, w). Merged (i_name f) (length (i_data f))) cs, list_all opened ins)"
    using m merged_full [of cs] by (metis (no_types, lifting))
  then show ?thesis unfolding Let_def cs_def [symmetric] using m True by simp
next
  case False
  then show ?thesis using assms(1) submit_reads_many [OF assms(2,3), of 0] by (simp add: merge_main_def Let_def)
qed

definition in_reverse :: "infile list \<Rightarrow> (infile \<times> completion \<times> write_result) list" where
  "in_reverse rs = map (\<lambda>f. (f, Res_bytes (length (i_data f)), Wrote (length (i_data f)))) (rev rs)"

definition two_files :: "infile list" where
  "two_files = [\<lparr>i_name = ''a'', i_open = True, i_fstat = True, i_alloc = True, i_request = True, i_data = ''aa''\<rparr>,
     \<lparr>i_name = ''b'', i_open = True, i_fstat = True, i_alloc = True, i_request = True, i_data = ''bbb''\<rparr>]"

theorem merge_main_outcome_witness:
  "merge_main two_files True True (\<lambda>n. n < 4) in_reverse (\<lambda>_. NUL) =
     Inr (''bbbaa'', [Merged ''b'' 3, Merged ''a'' 2], True)"
proof -
  have "map fst (in_reverse rs) = rev rs" for rs by (simp add: in_reverse_def comp_def)
  then have "all_complete in_reverse" by (simp add: all_complete_def in_reverse_def)
  moreover have "queue_of_depth (\<lambda>n. n < 4)" by (simp add: queue_of_depth_def QUEUE_DEPTH_def)
  moreover have "allocated two_files" "two_files \<noteq> []" by (simp_all add: two_files_def allocated_def)
  moreover have "filter opened two_files = two_files" "length two_files \<le> QUEUE_DEPTH" "list_all opened two_files"
    by (simp_all add: two_files_def opened_def QUEUE_DEPTH_def)
  ultimately show ?thesis using merge_main_outcome [of two_files "\<lambda>n. n < 4" in_reverse "\<lambda>_. NUL"]
    by (simp add: Let_def) (simp add: in_reverse_def two_files_def)
qed

text \<open>The order is that of the completions: with the same files and the other order the output is another.\<close>

lemma merge_follows_completions:
  "merge_main two_files True True (\<lambda>n. n < 4) (\<lambda>rs. rev (in_reverse rs)) (\<lambda>_. NUL) =
     Inr (''aabbb'', [Merged ''a'' 2, Merged ''b'' 3], True)"
  by code_simp

end
