(* ===== verification/Mini_Shell.thy ===== *)
theory Mini_Shell
  imports C_Scan
begin

text \<open>
  The shell \<^verbatim>\<open>src/minishell.c\<close>: reading lines, cutting them into arguments with \<open>strtok\<close>, and running each command in a
  child process. How the calls of \<open>fork\<close> and the children end is an argument.
\<close>

definition MAX_INPUT :: nat where "MAX_INPUT = 1024"
definition MAX_ARGS :: nat where "MAX_ARGS = 64"

text \<open>One call of \<open>strtok\<close> with the delimiter blank: the token and where the next call goes on.\<close>

definition strtok :: "string \<Rightarrow> (string \<times> string) option" where
  "strtok s =
     (let s = dropWhile (\<lambda>c. c = CHR '' '') s;
          t = takeWhile (\<lambda>c. c \<noteq> CHR '' '') s
      in if s = [] then None else Some (t, drop (length t + 1) s))"

text \<open>The loop that fills \<open>args\<close>; \<open>n\<close> slots are left before the \<open>NULL\<close>.\<close>

fun args_loop :: "nat \<Rightarrow> string \<Rightarrow> string list" where
  "args_loop 0 s = []"
| "args_loop (Suc n) s = (case strtok s of None \<Rightarrow> [] | Some (t, r) \<Rightarrow> t # args_loop n r)"

definition shell_args :: "string \<Rightarrow> string list" where
  "shell_args inp = args_loop (MAX_ARGS - 1) inp"

datatype child_end = Fork_fails | Exits_with int | Killed

datatype shell_out = Fork_failed_line | Child_exited int

text \<open>
  The loop over the lines that \<open>fgets\<close> reads, with the ends of the children: the commands run and the
  lines printed. A line that ends early at a NUL is the string before it.
\<close>

fun shell_loop :: "string list \<Rightarrow> child_end list \<Rightarrow> (string list \<times> shell_out option) list" where
  "shell_loop [] ends = []"
| "shell_loop (line # lines) ends =
     (let inp = chop_newline (c_str line) in
      if inp = ''exit'' then []
      else
        let args = shell_args inp in
        if args = [] then shell_loop lines ends
        else
          case ends of
            [] \<Rightarrow> []
          | Fork_fails # ends \<Rightarrow> (args, Some Fork_failed_line) # shell_loop lines ends
          | Exits_with k # ends \<Rightarrow> (args, Some (Child_exited k)) # shell_loop lines ends
          | Killed # ends \<Rightarrow> (args, None) # shell_loop lines ends)"

definition shell_main :: "string \<Rightarrow> child_end list \<Rightarrow> (string list \<times> shell_out option) list" where
  "shell_main inp ends = shell_loop (fgets_lines MAX_INPUT inp) ends"

section \<open>Arguments\<close>

definition blank_free :: "string \<Rightarrow> bool" where
  "blank_free w \<longleftrightarrow> w \<noteq> [] \<and> CHR '' '' \<notin> set w"

text \<open>Words with at least one blank after each.\<close>

definition spaced :: "(string \<times> nat) list \<Rightarrow> string" where
  "spaced ws = concat (map (\<lambda>(w, k). w @ replicate (Suc k) (CHR '' '')) ws)"

lemma strtok_word:
  assumes "blank_free w"
  shows "strtok (replicate n (CHR '' '') @ w @ CHR '' '' # r) = Some (w, r)"
proof -
  have d: "dropWhile (\<lambda>c. c = CHR '' '') (replicate n (CHR '' '') @ w @ CHR '' '' # r) = w @ CHR '' '' # r"
    using assms by (induction n) (cases w; auto simp: blank_free_def)+
  have t: "takeWhile (\<lambda>c. c \<noteq> CHR '' '') (w @ CHR '' '' # r) = w"
    using assms by (auto simp: blank_free_def takeWhile_append takeWhile_eq_all_conv)
  show ?thesis using assms by (simp add: strtok_def d t Let_def blank_free_def)
qed

text \<open>The shell passes on exactly the words of a line, at most \<open>MAX_ARGS - 1\<close> of them, however many blanks separate them.\<close>

lemma args_loop_spaced:
  "(\<forall>(w, k)\<in>set ws. blank_free w) \<Longrightarrow> args_loop n (replicate j (CHR '' '') @ spaced ws) = take n (map fst ws)"
proof (induction ws arbitrary: n j)
  case Nil
  then show ?case by (cases n) (simp_all add: spaced_def strtok_def)
next
  case (Cons p ws)
  obtain w k where p: "p = (w, k)" by fastforce
  have s: "replicate j (CHR '' '') @ spaced (p # ws) =
      replicate j (CHR '' '') @ w @ CHR '' '' # (replicate k (CHR '' '') @ spaced ws)" by (simp add: spaced_def p)
  show ?case
  proof (cases n)
    case (Suc m)
    then show ?thesis using Cons strtok_word [of w j "replicate k (CHR '' '') @ spaced ws"] p unfolding s by simp
  qed simp
qed

lemma shell_args_words:
  "(\<forall>(w, k)\<in>set ws. blank_free w) \<Longrightarrow> shell_args (spaced ws) = take (MAX_ARGS - 1) (map fst ws)"
  using args_loop_spaced [of ws "MAX_ARGS - 1" 0] by (simp add: shell_args_def)

end
