(* ===== verification/Proc_Module.thy ===== *)
theory Proc_Module
  imports C_Strings
begin

text \<open>
  The kernel module \<^verbatim>\<open>src/kernal-module/sys_call_invocations.c\<close> with a writable entry under \<^verbatim>\<open>/proc\<close>, and the program
  \<^verbatim>\<open>src/kernal-module/code_thats_call_write.c\<close> that writes to it. What \<open>proc_create\<close> and \<open>copy_from_user\<close> return is an
  argument.
\<close>

definition BUF_SZ :: nat where "BUF_SZ = 128"
definition EFAULT :: int where "EFAULT = 14"
definition ENOMEM :: int where "ENOMEM = 12"

datatype klog = Module_loaded | Create_failed | Entering | Got nat string | Returning | Unloading

text \<open>
  \<open>demo_write\<close> on \<open>len\<close> bytes of the user: the value returned, the array \<open>kbuf\<close> after it and what is logged. A write
  outside \<open>kbuf\<close> would be undefined: \<open>None\<close>.
\<close>

definition demo_write :: "bool \<Rightarrow> char list \<Rightarrow> char list \<Rightarrow> nat \<Rightarrow> (int \<times> char list \<times> klog list) option" where
  "demo_write copy_fails kbuf ubuf len =
     (let len = (if len \<ge> BUF_SZ then BUF_SZ - 1 else len) in
      if copy_fails then Some (- EFAULT, kbuf, [Entering])
      else if len > BUF_SZ then None
      else
        let kbuf = take len ubuf @ drop len kbuf in
        if len \<ge> length kbuf then None
        else
          let kbuf = kbuf[len := NUL]
          in Some (int len, kbuf, [Entering, Got len (c_str kbuf), Returning]))"

text \<open>Loading and unloading: whether the entry exists, the value returned and what is logged.\<close>

definition demo_init :: "bool \<Rightarrow> bool \<times> int \<times> klog list" where
  "demo_init create_ok =
     (if \<not> create_ok then (False, - ENOMEM, [Module_loaded, Create_failed]) else (True, 0, [Module_loaded]))"

definition demo_exit :: "bool \<times> klog list" where
  "demo_exit = (False, [Unloading])"

text \<open>The user program: its exit status and what the kernel logs; \<open>None\<close> when the handler is undefined.\<close>

definition trigger_main :: "bool \<Rightarrow> bool \<Rightarrow> char list \<Rightarrow> (int \<times> klog list) option" where
  "trigger_main loaded copy_fails kbuf =
     (if \<not> loaded then Some (1, [])
      else
        let msg = ''hello from user space'' in
        case demo_write copy_fails kbuf msg (length msg) of
          None \<Rightarrow> None
        | Some (n, _, ls) \<Rightarrow> Some (if n < 0 then 1 else 0, ls))"

lemma c_str_cut: "c_str (xs @ NUL # ys) = c_str xs"
  by (induction xs) (auto simp: c_str_def)

text \<open>
  The handler never writes outside its buffer, whatever length the user gives; of a long write it takes 127 bytes and
  says so, which the caller sees as a short write.
\<close>

lemma demo_write_bounded:
  assumes "length kbuf = BUF_SZ" and "length ubuf = len"
  shows "demo_write False kbuf ubuf len =
    Some (int (min len (BUF_SZ - 1)), take (min len (BUF_SZ - 1)) ubuf @ NUL # drop (Suc (min len (BUF_SZ - 1))) kbuf,
      [Entering, Got (min len (BUF_SZ - 1)) (c_str (take (min len (BUF_SZ - 1)) ubuf)), Returning])"
proof -
  define k where "k = min len (BUF_SZ - 1)"
  have k: "k < BUF_SZ" "k \<le> length ubuf" using assms(2) by (auto simp: k_def BUF_SZ_def)
  have l: "(if len \<ge> BUF_SZ then BUF_SZ - 1 else len) = k" by (auto simp: k_def BUF_SZ_def)
  have u: "(take k ubuf @ drop k kbuf)[k := NUL] = take k ubuf @ NUL # drop (Suc k) kbuf"
    using k assms(1) by (simp add: list_update_append drop_update_swap Cons_nth_drop_Suc [symmetric])
  have c: "c_str (take k ubuf @ NUL # drop (Suc k) kbuf) = c_str (take k ubuf)"
    by (rule c_str_cut)
  show ?thesis unfolding demo_write_def l k_def [symmetric] Let_def u c using k assms(1) by (simp add: u c)
qed

lemma trigger_main_ok:
  assumes "length kbuf = BUF_SZ"
  shows "trigger_main True False kbuf = Some (0, [Entering, Got 21 ''hello from user space'', Returning])"
proof -
  have l: "length ''hello from user space'' = 21" by simp
  have c: "c_str (take 21 ''hello from user space'') = ''hello from user space''" by (simp add: c_str_def NUL_def)
  have "demo_write False kbuf ''hello from user space'' 21 =
      Some (21, take 21 ''hello from user space'' @ NUL # drop 22 kbuf, [Entering, Got 21 ''hello from user space'', Returning])"
    using demo_write_bounded [OF assms l] c by (simp add: BUF_SZ_def)
  then show ?thesis unfolding trigger_main_def Let_def l by simp
qed

end
