(* ===== verification/Dir_Stat.thy ===== *)
theory Dir_Stat
  imports C_Strings
begin

text \<open>
  The directory listing \<^verbatim>\<open>src/file-stat.c\<close> and the query simulator \<^verbatim>\<open>src/multiple-simulated-q.c\<close>. The entries of the
  directory with what \<open>stat\<close> says of them, and \<open>qsort\<close>, are arguments.
\<close>

section \<open>Listing a directory\<close>

text \<open>The bit of the mode for each of the nine characters, from \<open>S_IRUSR\<close> down to \<open>S_IXOTH\<close>.\<close>

definition perm_char :: "nat \<Rightarrow> nat \<Rightarrow> char" where
  "perm_char mode i =
     (if bit mode (8 - i) then (if i mod 3 = 0 then CHR ''r'' else if i mod 3 = 1 then CHR ''w'' else CHR ''x'') else CHR ''-'')"

definition perms :: "nat \<Rightarrow> string" where
  "perms mode = map (perm_char mode) [0..<9]"

text \<open>The path given to \<open>stat\<close>, cut to the array of 512 characters.\<close>

definition entry_path :: "string \<Rightarrow> string \<Rightarrow> string" where
  "entry_path dir name = take 511 (dir @ ''/'' @ name)"

text \<open>Lines of the listing: name, size and permissions. \<open>stat\<close> gives the size and the mode.\<close>

datatype dline = Dline string int string

fun list_loop :: "(string \<Rightarrow> (int \<times> nat) option) \<Rightarrow> string \<Rightarrow> string list \<Rightarrow> int \<Rightarrow> dline list \<times> int" where
  "list_loop stat dir [] total_size = ([], total_size)"
| "list_loop stat dir (d # ds) total_size =
     (if d = ''.'' \<or> d = ''..'' then list_loop stat dir ds total_size
      else case stat (entry_path dir d) of
          None \<Rightarrow> list_loop stat dir ds total_size
        | Some (sz, mode) \<Rightarrow>
            (let (ls, t) = list_loop stat dir ds (total_size + sz) in (Dline d sz (perms mode) # ls, t)))"

datatype ls_error = Ls_usage | Ls_opendir

definition ls_main ::
  "nat \<Rightarrow> (string \<Rightarrow> (int \<times> nat) option) \<Rightarrow> string \<Rightarrow> string list option \<Rightarrow> ls_error + (dline list \<times> int)" where
  "ls_main argc stat dir opendir =
     (if argc \<noteq> 2 then Inl Ls_usage
      else case opendir of None \<Rightarrow> Inl Ls_opendir | Some ds \<Rightarrow> Inr (list_loop stat dir ds 0))"

definition line_size :: "dline \<Rightarrow> int" where
  "line_size l = (case l of Dline _ sz _ \<Rightarrow> sz)"

lemma list_loop_total: "snd (list_loop stat dir ds t) = t + sum_list (map line_size (fst (list_loop stat dir ds t)))"
  by (induction stat dir ds t rule: list_loop.induct) (auto simp: line_size_def split_def Let_def split: option.splits)

lemma list_loop_lines:
  "fst (list_loop stat dir ds t) =
   concat (map (\<lambda>d. if d \<in> {''.'', ''..''} then []
     else case stat (entry_path dir d) of None \<Rightarrow> [] | Some (sz, mode) \<Rightarrow> [Dline d sz (perms mode)]) ds)"
  by (induction stat dir ds t rule: list_loop.induct) (auto simp: split_def Let_def split: option.splits)

text \<open>The permission string determines the nine bits, and only they matter.\<close>

lemma perms_bits: "perms m = perms n \<longleftrightarrow> (\<forall>k<9. bit m k \<longleftrightarrow> bit n k)"
proof -
  have inj: "perm_char m i = perm_char n i \<longleftrightarrow> (bit m (8 - i) \<longleftrightarrow> bit n (8 - i))" for i
    by (auto simp: perm_char_def)
  have "perms m = perms n \<longleftrightarrow> (\<forall>i<9. bit m (8 - i) \<longleftrightarrow> bit n (8 - i))"
    unfolding perms_def map_eq_conv using inj by auto
  also have "\<dots> \<longleftrightarrow> (\<forall>k<9. bit m k \<longleftrightarrow> bit n k)"
  proof
    assume a: "\<forall>i<9. bit m (8 - i) \<longleftrightarrow> bit n (8 - i)"
    show "\<forall>k<9. bit m k \<longleftrightarrow> bit n k"
    proof (intro allI impI)
      fix k :: nat
      assume "k < 9"
      then show "bit m k = bit n k" using a [rule_format, of "8 - k"] by simp
    qed
  next
    assume "\<forall>k<9. bit m k \<longleftrightarrow> bit n k"
    then show "\<forall>i<9. bit m (8 - i) \<longleftrightarrow> bit n (8 - i)" by simp
  qed
  finally show ?thesis .
qed

section \<open>Running queries by cost\<close>

definition NUM_QUERIES :: nat where "NUM_QUERIES = 5"

record query =
  q_text :: string
  q_cost :: int

definition queries :: "query list" where
  "queries = [
     \<lparr>q_text = ''SELECT * FROM table WHERE age > 50'', q_cost = 5\<rparr>,
     \<lparr>q_text = ''SELECT * FROM table WHERE name LIKE '' @ [CHR 0x27] @ ''A%'' @ [CHR 0x27], q_cost = 2\<rparr>,
     \<lparr>q_text = ''SELECT * FROM table WHERE salary > 50000'', q_cost = 4\<rparr>,
     \<lparr>q_text = ''SELECT * FROM table WHERE id < 100'', q_cost = 1\<rparr>,
     \<lparr>q_text = ''SELECT * FROM table WHERE age BETWEEN 20 AND 30'', q_cost = 3\<rparr>]"

definition compare_queries :: "query \<Rightarrow> query \<Rightarrow> int" where
  "compare_queries a b = q_cost a - q_cost b"

text \<open>The queries listed before and executed after sorting.\<close>

definition queries_main :: "((query \<Rightarrow> query \<Rightarrow> int) \<Rightarrow> query list \<Rightarrow> query list) \<Rightarrow> query list \<Rightarrow> query list \<times> query list" where
  "queries_main qsort qs = (qs, qsort compare_queries qs)"

text \<open>With a \<open>qsort\<close> that keeps its promise the queries run in the order of their costs, each once.\<close>

lemma queries_main_order:
  assumes "\<And>qs. mset (qsort compare_queries qs) = mset qs \<and> sorted_wrt (\<lambda>a b. compare_queries a b \<le> 0) (qsort compare_queries qs)"
  shows "mset (snd (queries_main qsort qs)) = mset qs \<and> sorted (map q_cost (snd (queries_main qsort qs)))"
  using assms [of qs] by (simp add: queries_main_def compare_queries_def sorted_map)

end
