(* ===== verification/Mini_Server.thy ===== *)
theory Mini_Server
  imports Select_Servers
begin

text \<open>
  The server of \<^verbatim>\<open>src/miniserver.c\<close> (with the same code under \<^verbatim>\<open>src/miniserver/server.c\<close>), which answers one request per
  connection in a child process or a thread, its client \<^verbatim>\<open>src/miniserver/client.c\<close>, and the clients of the servers of
  \<open>Select_Servers\<close>. The results of the system calls are arguments. A write outside an array is
  undefined: \<open>None\<close>. The times printed are left out.
\<close>

definition MINI_BUF_SIZE :: nat where "MINI_BUF_SIZE = 1024"

section \<open>The server\<close>

text \<open>
  \<open>thread_handler\<close> and \<open>fork_handler\<close>: \<open>read\<close> fails (\<open>None\<close>) or gives at most \<open>BUF_SIZE\<close> bytes; then
  \<open>buffer[n] = 0\<close> is executed for the result \<open>n\<close>, whatever it is.
\<close>

definition mini_handle :: "string option \<Rightarrow> string option" where
  "mini_handle r = (case r of None \<Rightarrow> None | Some b \<Rightarrow> if length b \<ge> MINI_BUF_SIZE then None else Some b)"

datatype conn =
    Accept_fails
  | Conn (c_request: "string option") (c_started: bool)

datatype mini_result = Accept_error | Replied string | Closed | Left_open | Mini_undefined

text \<open>One round of the loop in \<open>main\<close>; \<open>c_started\<close> says whether the child process or the thread could be created.\<close>

definition mini_round :: "string \<Rightarrow> conn \<Rightarrow> mini_result" where
  "mini_round mode c =
     (case c of
        Accept_fails \<Rightarrow> Accept_error
      | Conn r started \<Rightarrow>
          if mode = ''fork'' then
            if started then (case mini_handle r of None \<Rightarrow> Mini_undefined | Some b \<Rightarrow> Replied b) else Closed
          else if mode = ''thread'' then
            if started then (case mini_handle r of None \<Rightarrow> Mini_undefined | Some b \<Rightarrow> Replied b) else Left_open
          else Closed)"

datatype mini_error = Mini_usage | Mini_socket | Mini_bind | Mini_listen

definition mini_main :: "string list \<Rightarrow> bool \<Rightarrow> bool \<Rightarrow> bool \<Rightarrow> conn list \<Rightarrow> mini_error + mini_result list" where
  "mini_main argv socket_ok bind_ok listen_ok conns =
     (if length argv < 2 then Inl Mini_usage
      else if \<not> socket_ok then Inl Mini_socket
      else if \<not> bind_ok then Inl Mini_bind
      else if \<not> listen_ok then Inl Mini_listen
      else Inr (map (mini_round (argv ! 1)) conns))"

text \<open>The program \<^verbatim>\<open>src/miniserver/server.c\<close>, function by function; \<open>exit\<close> and \<open>return\<close> both end the worker.\<close>

definition thread_handler :: "string option \<Rightarrow> string option" where
  "thread_handler r = do { b \<leftarrow> r; if length b < MINI_BUF_SIZE then Some b else None }"

definition fork_handler :: "string option \<Rightarrow> string option" where
  "fork_handler r = do { b \<leftarrow> r; if length b < MINI_BUF_SIZE then Some b else None }"

definition mini_worker :: "string option \<Rightarrow> mini_result" where
  "mini_worker r = (case r of None \<Rightarrow> Mini_undefined | Some b \<Rightarrow> Replied b)"

fun mini_loop2 :: "string \<Rightarrow> conn list \<Rightarrow> mini_result list" where
  "mini_loop2 mode [] = []"
| "mini_loop2 mode (Accept_fails # cs) = Accept_error # mini_loop2 mode cs"
| "mini_loop2 mode (Conn r started # cs) =
     (if mode = ''fork'' then if started then mini_worker (fork_handler r) else Closed
      else if mode = ''thread'' then if started then mini_worker (thread_handler r) else Left_open
      else Closed) # mini_loop2 mode cs"

definition mini_main2 :: "string list \<Rightarrow> bool \<Rightarrow> bool \<Rightarrow> bool \<Rightarrow> conn list \<Rightarrow> mini_error + mini_result list" where
  "mini_main2 argv socket_ok bind_ok listen_ok conns =
     (if length argv < 2 then Inl Mini_usage
      else if \<not> socket_ok then Inl Mini_socket
      else if \<not> bind_ok then Inl Mini_bind
      else if \<not> listen_ok then Inl Mini_listen
      else Inr (mini_loop2 (argv ! 1) conns))"

lemma mini_loop2_round: "mini_loop2 mode cs = map (mini_round mode) cs"
  by (induction mode cs rule: mini_loop2.induct)
    (auto simp: mini_round_def mini_handle_def thread_handler_def fork_handler_def mini_worker_def split: option.split)

text \<open>The two copies of the server do the same.\<close>

theorem mini_copies_agree: "mini_main2 = mini_main"
  by (intro ext) (simp add: mini_main2_def mini_main_def mini_loop2_round)

section \<open>The clients\<close>

datatype client_line = Connect_failed | Write_failed_line | Read_failed_line | Echoed string | Server_gone | Message string

text \<open>
  The client of the mini server: \<open>old\<close> is the string in the uninitialised array, which is sent when the input is
  empty; \<open>reply\<close> is what \<open>read\<close> gives, up to \<open>BUF_SIZE\<close> bytes.
\<close>

definition mini_client :: "bool \<Rightarrow> bool \<Rightarrow> string \<Rightarrow> string \<Rightarrow> bool \<Rightarrow> string option \<Rightarrow> (string \<times> client_line) option" where
  "mini_client socket_ok connect_ok old inp write_ok reply =
     (if \<not> socket_ok \<or> \<not> connect_ok then Some ([], Connect_failed)
      else
        let buffer = (if inp = [] then old else fgets_line MINI_BUF_SIZE inp);
            msg = c_str buffer in
        if \<not> write_ok then Some ([], Write_failed_line)
        else case reply of
            None \<Rightarrow> Some (msg, Read_failed_line)
          | Some b \<Rightarrow> if length b \<ge> MINI_BUF_SIZE then None else Some (msg, Echoed (c_str b)))"

text \<open>The loop of the echo client over the lines typed; for each, whether \<open>write\<close> succeeds and what the \<open>read\<close> after it gives.\<close>

fun echo_client_loop :: "string list \<Rightarrow> (bool \<times> string option) list \<Rightarrow> (string \<times> client_line) list" where
  "echo_client_loop [] rs = []"
| "echo_client_loop (line # lines) [] = []"
| "echo_client_loop (line # lines) ((write_ok, r) # rs) =
     (if \<not> write_ok then [([], Write_failed_line)]
      else case r of
        None \<Rightarrow> [(c_str line, Read_failed_line)]
      | Some b \<Rightarrow>
          if b = [] then [(c_str line, Read_failed_line)]
          else (c_str line, Echoed (c_str (take (ECHO_BUF_SIZE - 1) b))) # echo_client_loop lines rs)"

definition echo_client_main :: "bool \<Rightarrow> bool \<Rightarrow> bool \<Rightarrow> string \<Rightarrow> (bool \<times> string option) list \<Rightarrow> (string \<times> client_line) list" where
  "echo_client_main socket_ok pton_ok connect_ok inp rs =
     (if \<not> socket_ok \<or> \<not> pton_ok \<or> \<not> connect_ok then [([], Connect_failed)]
      else echo_client_loop (fgets_lines ECHO_BUF_SIZE inp) rs)"

text \<open>
  One round of the chat client after \<open>select\<close>: the line typed, if standard input is ready (the empty string at its
  end, where the old contents of the buffer are used again), and what \<open>read\<close> gives, if the socket is.
  The result is the buffer, what was sent and printed, and whether the loop goes on.
\<close>

record chat_in =
  typed :: "string option"
  incoming :: "string option"

definition chat_client_round :: "string \<Rightarrow> chat_in \<Rightarrow> (string \<times> string list \<times> client_line list \<times> bool) option" where
  "chat_client_round buf ev =
     (let buf1 = (case typed ev of None \<Rightarrow> buf | Some l \<Rightarrow> if l = [] then buf else c_str (fgets_line MSG_BUF_SIZE l));
          quit = (typed ev \<noteq> None \<and> take 4 buf1 = ''exit'');
          out = (if typed ev \<noteq> None then [buf1] else []) in
      if quit then Some (buf1, [], [], False)
      else case incoming ev of
          None \<Rightarrow> Some (buf1, out, [], True)
        | Some b \<Rightarrow>
            if b = [] then Some (buf1, out, [Server_gone], False)
            else if length b \<ge> MSG_BUF_SIZE then None
            else Some (c_str b, out, [Message (c_str b)], True))"

fun chat_client_loop :: "string \<Rightarrow> chat_in list \<Rightarrow> (string list \<times> client_line list) option" where
  "chat_client_loop buf [] = Some ([], [])"
| "chat_client_loop buf (ev # evs) = do {
     (buf, out, ls, go) \<leftarrow> chat_client_round buf ev;
     if go then do { (outs, lss) \<leftarrow> chat_client_loop buf evs; Some (out @ outs, ls @ lss) } else Some (out, ls) }"

definition chat_client_main :: "bool \<Rightarrow> bool \<Rightarrow> bool \<Rightarrow> string \<Rightarrow> chat_in list \<Rightarrow> (string list \<times> client_line list) option" where
  "chat_client_main socket_ok pton_ok connect_ok buf evs =
     (if \<not> socket_ok \<or> \<not> pton_ok \<or> \<not> connect_ok then Some ([], [Connect_failed]) else chat_client_loop buf evs)"

section \<open>What can go wrong\<close>

text \<open>A request is echoed unless it fills the buffer; then, and when \<open>read\<close> fails, the handler writes outside the array.\<close>

lemma mini_round_echo:
  "mode \<in> {''fork'', ''thread''} \<Longrightarrow>
   mini_round mode (Conn r True) =
     (if r \<noteq> None \<and> length (the r) < MINI_BUF_SIZE then Replied (the r) else Mini_undefined)"
  by (auto simp: mini_round_def mini_handle_def split: option.split)

text \<open>At the end of its input the chat client sends its last line again in every round.\<close>

lemma chat_client_repeats:
  assumes "take 4 buf \<noteq> ''exit''"
  shows "chat_client_loop buf (replicate n \<lparr>typed = Some [], incoming = None\<rparr>) = Some (replicate n buf, [])"
  by (induction n) (use assms in \<open>simp_all add: chat_client_round_def Let_def\<close>)

text \<open>Messages that fill the chat client's buffer are undefined.\<close>

lemma chat_client_overflow:
  "length b = MSG_BUF_SIZE \<Longrightarrow> chat_client_loop buf (\<lparr>typed = None, incoming = Some b\<rparr> # evs) = None"
  by (auto simp: chat_client_round_def Let_def MSG_BUF_SIZE_def)

end
