(* ===== verification/Job_Control.thy ===== *)
theory Job_Control
  imports GT_Prelude
begin

text \<open>
  The controller \<^verbatim>\<open>src/signal-based-job-controller.c\<close> and its children as a state machine over the signals sent to the
  process id of the controller. The children are created after the handler is installed and inherit it, with
  the process ids stored so far and 0 in the other entries: a running child that \<open>SIGTERM\<close> reaches runs the
  handler, which sends \<open>SIGTERM\<close> once more to the process group (the controller, which has it blocked, and the other
  child, which is sent it anyway), has nothing to wait for and exits; this is taken to happen at once. A
  stopped child keeps the signal pending. \<open>waitpid\<close> is interrupted by a signal that is handled, and its result is not looked at.
  A \<open>SIGINT\<close> typed at the terminal, which reaches the children as well, is not modelled.
\<close>

definition NUM_CHILDREN :: nat where "NUM_CHILDREN = 2"

datatype kid_state = Runs | Stopped | Dead

record kid =
  k_state :: kid_state
  k_pending :: bool

text \<open>In \<open>pause\<close>, in the \<open>waitpid\<close> for child \<open>k\<close>, ended, or after a signal was sent to process -1, that is to every process.\<close>

datatype phase = Pausing | Waits_for nat | Ended | Signalled_everyone

record ctl =
  kids :: "kid option list"
  c_phase :: phase

datatype sig = SIGINT | SIGUSR1 | SIGTERM

text \<open>\<open>main\<close> up to the loop; \<open>None\<close> stands for the -1 of a failed \<open>fork\<close>, which is stored like a process id.\<close>

definition spawn :: "bool list \<Rightarrow> ctl" where
  "spawn forks =
     \<lparr>kids = map (\<lambda>ok. if ok then Some \<lparr>k_state = Runs, k_pending = False\<rparr> else None) (take NUM_CHILDREN forks),
      c_phase = Pausing\<rparr>"

definition stop_kid :: "kid \<Rightarrow> kid" where
  "stop_kid k = (if k_state k = Dead then k else k\<lparr>k_state := Stopped\<rparr>)"

definition cont_kid :: "kid \<Rightarrow> kid" where
  "cont_kid k =
     (if k_state k = Dead then k
      else if k_pending k then \<lparr>k_state = Dead, k_pending = False\<rparr> else k\<lparr>k_state := Runs\<rparr>)"

definition term_kid :: "kid \<Rightarrow> kid" where
  "term_kid k =
     (case k_state k of Dead \<Rightarrow> k | Runs \<Rightarrow> \<lparr>k_state = Dead, k_pending = False\<rparr> | Stopped \<Rightarrow> k\<lparr>k_pending := True\<rparr>)"

definition dead :: "kid option \<Rightarrow> bool" where
  "dead k \<longleftrightarrow> k = None \<or> k_state (the k) = Dead"

text \<open>The calls of \<open>waitpid\<close> from child \<open>k\<close> on, up to one that has to wait.\<close>

fun wait_from :: "kid option list \<Rightarrow> nat \<Rightarrow> phase" where
  "wait_from [] k = Ended"
| "wait_from (c # cs) k = (if dead c then wait_from cs (k + 1) else Waits_for k)"

definition wait_rest :: "ctl \<Rightarrow> nat \<Rightarrow> ctl" where
  "wait_rest c k = c\<lparr>c_phase := wait_from (drop k (kids c)) k\<rparr>"

definition send_all :: "(kid \<Rightarrow> kid) \<Rightarrow> ctl \<Rightarrow> ctl" where
  "send_all f c =
     (if None \<in> set (kids c) then c\<lparr>c_phase := Signalled_everyone\<rparr> else c\<lparr>kids := map (map_option f) (kids c)\<rparr>)"

text \<open>
  A signal reaches the controller. During the handler for \<open>SIGTERM\<close> another \<open>SIGTERM\<close> is blocked; the other two are
  handled and interrupt the \<open>waitpid\<close>, after which the next child is waited for.
\<close>

definition handle_signal :: "ctl \<Rightarrow> sig \<Rightarrow> ctl" where
  "handle_signal c s =
     (case c_phase c of
        Ended \<Rightarrow> c
      | Signalled_everyone \<Rightarrow> c
      | Pausing \<Rightarrow>
          (case s of
             SIGINT \<Rightarrow> send_all stop_kid c
           | SIGUSR1 \<Rightarrow> send_all cont_kid c
           | SIGTERM \<Rightarrow>
               let c = send_all term_kid c in if c_phase c = Signalled_everyone then c else wait_rest c 0)
      | Waits_for k \<Rightarrow>
          (case s of
             SIGINT \<Rightarrow> wait_rest (send_all stop_kid c) (k + 1)
           | SIGUSR1 \<Rightarrow> wait_rest (send_all cont_kid c) (k + 1)
           | SIGTERM \<Rightarrow> c))"

definition ctl_main :: "bool list \<Rightarrow> sig list \<Rightarrow> ctl" where
  "ctl_main forks sigs = fold (\<lambda>s c. handle_signal c s) sigs (spawn forks)"

section \<open>Termination of the children\<close>

text \<open>With both children created and none of them ever stopped, \<open>SIGTERM\<close> ends the children and then the controller.\<close>

definition all_run :: "ctl \<Rightarrow> bool" where
  "all_run c \<longleftrightarrow> c_phase c = Pausing \<and> (\<forall>k\<in>set (kids c). k = Some \<lparr>k_state = Runs, k_pending = False\<rparr>)"

lemma wait_from_dead: "(\<forall>c\<in>set cs. dead c) \<Longrightarrow> wait_from cs k = Ended"
  by (induction cs k rule: wait_from.induct) auto

lemma cont_all_run: "all_run c \<Longrightarrow> all_run (handle_signal c SIGUSR1)"
  by (auto simp: all_run_def handle_signal_def send_all_def cont_kid_def)

lemma term_all_run:
  "all_run c \<longrightarrow> c_phase (handle_signal c SIGTERM) = Ended \<and> (\<forall>k\<in>set (kids (handle_signal c SIGTERM)). dead k)"
proof (rule impI)
  assume c: "all_run c"
  let ?ks = "map (map_option term_kid) (kids c)"
  have dead: "\<forall>k\<in>set ?ks. dead k"
    using c by (auto simp: all_run_def term_kid_def dead_def)
  moreover have "handle_signal c SIGTERM = c\<lparr>kids := ?ks, c_phase := wait_from ?ks 0\<rparr>"
    using c by (auto simp: all_run_def handle_signal_def send_all_def wait_rest_def Let_def)
  ultimately show "c_phase (handle_signal c SIGTERM) = Ended \<and> (\<forall>k\<in>set (kids (handle_signal c SIGTERM)). dead k)"
    by (simp add: wait_from_dead del: set_map)
qed

lemma ctl_terminates:
  "\<forall>s\<in>set sigs. s = SIGUSR1 \<Longrightarrow> all_run c \<Longrightarrow>
   c_phase (fold (\<lambda>s c. handle_signal c s) (sigs @ [SIGTERM]) c) = Ended \<and>
   (\<forall>k\<in>set (kids (fold (\<lambda>s c. handle_signal c s) (sigs @ [SIGTERM]) c)). dead k)"
proof (induction sigs arbitrary: c)
  case Nil
  then show ?case using term_all_run by (auto simp del: set_map)
next
  case (Cons s sigs)
  then show ?case using cont_all_run [of c] by simp
qed

text \<open>After \<open>SIGINT\<close> the children are stopped: \<open>SIGTERM\<close> then leaves the controller waiting, and two further \<open>SIGINT\<close> make it exit
  with both children alive.\<close>

lemma ctl_stopped_waits: "c_phase (ctl_main [True, True] [SIGINT, SIGTERM]) = Waits_for 0"
  by code_simp

lemma ctl_leaves_children:
  "c_phase (ctl_main [True, True] [SIGINT, SIGTERM, SIGINT, SIGINT]) = Ended \<and>
   map dead (kids (ctl_main [True, True] [SIGINT, SIGTERM, SIGINT, SIGINT])) = [False, False]"
  by code_simp

text \<open>After a failed \<open>fork\<close> the first signal goes to every process.\<close>

lemma ctl_signals_everyone: "c_phase (ctl_main [True, False] [s]) = Signalled_everyone"
  by (cases s) (simp_all add: ctl_main_def spawn_def NUM_CHILDREN_def numeral_2_eq_2 handle_signal_def send_all_def Let_def)

end
