(* ===== verification/C_Float.thy ===== *)
theory C_Float
  imports C_Input Complex_Main
begin

text \<open>
  Single-precision arithmetic and its input with \<^verbatim>\<open>scanf("%f", ...)\<close>. A value is a rational number, an infinity or a NaN;
  the sign of a zero is not kept, as nothing here depends on it. Every operation is exact and then rounded to nearest,
  ties to even (\<open>rnd32\<close>). The conversion follows the GNU C library: it first collects the characters that can belong
  to a number and then reads the number from them.
\<close>

section \<open>Rounding\<close>

definition pow2 :: "int \<Rightarrow> rat" where
  "pow2 e = (if 0 \<le> e then 2 ^ nat e else 1 / 2 ^ nat (- e))"

function bits :: "int \<Rightarrow> int" where
  "bits n = (if n \<le> 0 then 0 else bits (n div 2) + 1)"
  by pat_completeness auto
termination
  by (relation "measure nat") auto

declare bits.simps [simp del]

text \<open>The exponent of a positive number: \<open>pow2 e \<le> x < pow2 (e + 1)\<close>.\<close>

definition expo :: "rat \<Rightarrow> int" where
  "expo x =
     (let (n, d) = quotient_of x;
          k = bits n - bits d
      in if pow2 k \<le> x then k else k - 1)"

definition round_even :: "rat \<Rightarrow> int" where
  "round_even y =
     (let f = \<lfloor>y\<rfloor>; r = y - of_int f
      in if r < 1 / 2 then f else if 1 / 2 < r then f + 1 else if even f then f else f + 1)"

text \<open>The unit in the last place: 24 significant bits, and not below the smallest subnormal number.\<close>

definition ulp_exp :: "rat \<Rightarrow> int" where
  "ulp_exp x = max (expo x) (-126) - 23"

definition rnd_pos :: "rat \<Rightarrow> rat" where
  "rnd_pos x = of_int (round_even (x / pow2 (ulp_exp x))) * pow2 (ulp_exp x)"

definition rnd32 :: "rat \<Rightarrow> rat" where
  "rnd32 x = (if x = 0 then 0 else if 0 < x then rnd_pos x else - rnd_pos (- x))"

subsection \<open>Properties of the rounding\<close>

lemma pow2_pos [simp]: "0 < pow2 e"
  by (simp add: pow2_def)

lemma pow2_add: "pow2 (a + b) = pow2 a * pow2 b"
proof -
  have pi: "pow2 e = 2 powi e" for e
    by (simp add: pow2_def power_int_def inverse_eq_divide power_one_over)
  show ?thesis by (simp add: pi power_int_add)
qed

lemma pow2_nat: "pow2 (int n) = 2 ^ n"
  by (simp add: pow2_def)

lemma pow2_mono: "a \<le> b \<Longrightarrow> pow2 a \<le> pow2 b"
proof -
  assume "a \<le> b"
  then have "b = a + int (nat (b - a))" by simp
  then have "pow2 b = pow2 a * 2 ^ nat (b - a)" by (metis pow2_add pow2_nat)
  moreover have "(1 :: rat) \<le> 2 ^ nat (b - a)" by simp
  ultimately show "pow2 a \<le> pow2 b" by simp
qed

lemma bits_nonneg: "0 \<le> bits n"
  by (induction n rule: bits.induct) (subst bits.simps, simp)

lemma pow2_Suc: "pow2 (e + 1) = 2 * pow2 e"
  using pow2_add [of e 1] by (simp add: pow2_def [of 1])

lemma bits_bounds: "0 < n \<Longrightarrow> pow2 (bits n - 1) \<le> of_int n \<and> of_int n < pow2 (bits n)"
proof (induction n rule: bits.induct)
  case (1 n)
  show ?case
  proof (cases "n = 1")
    case True
    then show ?thesis by (simp add: bits.simps [of 1] bits.simps [of 0] pow2_def)
  next
    case False
    then have pos: "0 < n div 2" and b: "bits n = bits (n div 2) + 1" using "1.prems" by (auto simp: bits.simps [of n])
    have IH: "pow2 (bits (n div 2) - 1) \<le> of_int (n div 2)" "of_int (n div 2) < pow2 (bits (n div 2))"
      using "1.IH" [OF _ pos] "1.prems" by auto
    have p: "pow2 (bits n - 1) = 2 * pow2 (bits (n div 2) - 1)" "pow2 (bits n) = 2 * pow2 (bits (n div 2))"
      using pow2_Suc [of "bits (n div 2) - 1"] pow2_Suc [of "bits (n div 2)"] by (simp_all add: b)
    define h where "h = n div 2"
    have "2 * h \<le> n" "n \<le> 2 * h + 1" unfolding h_def by presburger+
    then have "rat_of_int (2 * h) \<le> of_int n" "rat_of_int n \<le> of_int (2 * h + 1)" by (simp_all only: of_int_le_iff)
    then have n: "2 * rat_of_int (n div 2) \<le> of_int n" "of_int n \<le> 2 * rat_of_int (n div 2) + 1"
      by (simp_all flip: h_def)
    have "0 \<le> bits (n div 2)" by (rule bits_nonneg)
    then have i: "pow2 (bits (n div 2)) = of_int (2 ^ nat (bits (n div 2)))" by (simp add: pow2_def)
    have "n div 2 < 2 ^ nat (bits (n div 2))" using IH(2) unfolding i by (simp only: of_int_less_iff)
    then have "rat_of_int (n div 2 + 1) \<le> of_int (2 ^ nat (bits (n div 2)))" unfolding of_int_le_iff by linarith
    then have "rat_of_int (n div 2) + 1 \<le> pow2 (bits (n div 2))" unfolding i by simp
    then show ?thesis using IH n unfolding p by linarith
  qed
qed

lemma expo_bounds:
  assumes "0 < x"
  shows "pow2 (expo x) \<le> x" and "x < pow2 (expo x + 1)"
proof -
  obtain n d where q: "quotient_of x = (n, d)" by fastforce
  have d: "0 < d" and x: "x = of_int n / of_int d"
    using q by (auto dest: quotient_of_denom_pos quotient_of_div)
  have n: "0 < n" using assms d by (simp add: x zero_less_divide_iff)
  have 2: "pow2 (bits n - 1) \<le> of_int n" "of_int n < pow2 (bits n)" "pow2 (bits d - 1) \<le> of_int d" "of_int d < pow2 (bits d)"
    using bits_bounds [OF n] bits_bounds [OF d] by auto
  let ?k = "bits n - bits d"
  have dr: "(0 :: rat) < of_int d" using d by simp
  have lo: "pow2 (?k - 1) \<le> x"
  proof -
    have "pow2 (?k - 1) * of_int d \<le> pow2 (?k - 1) * pow2 (bits d)" using 2(4) by simp
    also have "\<dots> = pow2 (bits n - 1)" by (simp flip: pow2_add)
    also have "\<dots> \<le> of_int n" by (rule 2(1))
    finally show ?thesis using dr by (simp add: x pos_le_divide_eq)
  qed
  have hi: "x < pow2 (?k + 1)"
  proof -
    have "of_int n < pow2 (bits n)" by (rule 2(2))
    also have "pow2 (bits n) = pow2 (?k + 1) * pow2 (bits d - 1)" by (simp flip: pow2_add)
    also have "\<dots> \<le> pow2 (?k + 1) * of_int d" using 2(3) by simp
    finally show ?thesis using dr by (simp add: x pos_divide_less_eq)
  qed
  have e: "expo x = (if pow2 ?k \<le> x then ?k else ?k - 1)"
    by (simp add: expo_def q Let_def)
  show "pow2 (expo x) \<le> x" "x < pow2 (expo x + 1)" using lo hi by (auto simp: e)
qed

lemma round_even_mono: "x \<le> y \<Longrightarrow> round_even x \<le> round_even y"
proof -
  assume xy: "x \<le> y"
  then have f: "\<lfloor>x\<rfloor> \<le> \<lfloor>y\<rfloor>" by (rule floor_mono)
  show ?thesis
  proof (cases "\<lfloor>x\<rfloor> = \<lfloor>y\<rfloor>")
    case True
    then show ?thesis using xy by (auto simp: round_even_def Let_def)
  next
    case False
    then have "\<lfloor>x\<rfloor> + 1 \<le> \<lfloor>y\<rfloor>" using f by simp
    then show ?thesis by (auto simp: round_even_def Let_def)
  qed
qed

lemma round_even_of_int [simp]: "round_even (of_int k) = k"
  by (simp add: round_even_def)

lemma rnd_pos_mono:
  assumes "0 < x" "x \<le> y"
  shows "rnd_pos x \<le> rnd_pos y"
proof (cases "ulp_exp x = ulp_exp y")
  case True
  have "x / pow2 (ulp_exp y) \<le> y / pow2 (ulp_exp y)" using assms by (simp add: divide_right_mono less_imp_le)
  then show ?thesis
    unfolding rnd_pos_def True by (intro mult_right_mono) (simp_all add: round_even_mono less_imp_le)
next
  case False
  let ?E = "\<lambda>x. max (expo x) (-126)"
  have y: "0 < y" using assms by simp
  have "pow2 (expo x) < pow2 (expo y + 1)" using expo_bounds [OF assms(1)] expo_bounds [OF y] assms(2) by linarith
  then have "expo x \<le> expo y" using pow2_mono [of "expo y + 1" "expo x"] by fastforce
  then have E: "?E x < ?E y" and Ey: "?E y = expo y" using False by (auto simp: ulp_exp_def max_def split: if_splits)
  have q: "pow2 (ulp_exp z) * 2 ^ 24 = pow2 (?E z + 1)" for z
    using pow2_add [of "ulp_exp z" "int 24"] by (simp only: pow2_nat) (simp add: ulp_exp_def add.commute)
  have q': "pow2 (ulp_exp z) * 2 ^ 23 = pow2 (?E z)" for z
    using pow2_add [of "ulp_exp z" "int 23"] unfolding pow2_nat by (simp add: ulp_exp_def)
  have "x \<le> pow2 (?E x + 1)" using expo_bounds(2) [OF assms(1)] pow2_mono [of "expo x + 1" "?E x + 1"] by linarith
  then have "x / pow2 (ulp_exp x) \<le> of_int (2 ^ 24)" by (simp add: pos_divide_le_eq mult.commute flip: q [of x])
  then have "round_even (x / pow2 (ulp_exp x)) \<le> 2 ^ 24" using round_even_mono round_even_of_int by metis
  then have "rnd_pos x \<le> of_int (2 ^ 24) * pow2 (ulp_exp x)"
    unfolding rnd_pos_def by (intro mult_right_mono) (simp_all only: of_int_le_iff less_imp_le [OF pow2_pos])
  also have "\<dots> = pow2 (?E x + 1)" by (simp add: mult.commute flip: q [of x])
  also have "\<dots> \<le> pow2 (?E y)" using E by (intro pow2_mono) linarith
  also have "\<dots> = of_int (2 ^ 23) * pow2 (ulp_exp y)" by (simp add: mult.commute flip: q' [of y])
  also have "\<dots> \<le> rnd_pos y"
  proof -
    have "pow2 (?E y) \<le> y" using expo_bounds(1) [OF y] Ey by simp
    then have "of_int (2 ^ 23) \<le> y / pow2 (ulp_exp y)"
      by (simp add: pos_le_divide_eq mult.commute flip: q' [of y])
    then have "2 ^ 23 \<le> round_even (y / pow2 (ulp_exp y))" using round_even_mono round_even_of_int by metis
    then show ?thesis
      unfolding rnd_pos_def by (intro mult_right_mono) (simp_all only: of_int_le_iff less_imp_le [OF pow2_pos])
  qed
  finally show ?thesis .
qed

text \<open>Numbers with at most 24 bits in units of at least the smallest subnormal number are exact.\<close>

lemma rnd_pos_exact:
  assumes "0 < k" "k < 2 ^ 24" "-149 \<le> e"
  shows "rnd_pos (of_int k * pow2 e) = of_int k * pow2 e"
proof -
  let ?x = "of_int k * pow2 e"
  have x: "0 < ?x" using assms by simp
  have "(of_int k :: rat) < of_int (2 ^ 24)" using assms(2) by (simp only: of_int_less_iff)
  then have "?x < pow2 e * 2 ^ 24" by (simp add: mult.commute)
  also have "\<dots> = pow2 (e + 24)" using pow2_add [of e "int 24"] by (simp only: pow2_nat) simp
  finally have "pow2 (expo ?x) < pow2 (e + 24)" using expo_bounds(1) [OF x] by simp
  then have "expo ?x < e + 24" using pow2_mono [of "e + 24" "expo ?x"] by fastforce
  then have u: "ulp_exp ?x \<le> e" using assms(3) by (auto simp: ulp_exp_def)
  have e: "pow2 e = 2 ^ nat (e - ulp_exp ?x) * pow2 (ulp_exp ?x)"
    using pow2_add [of "int (nat (e - ulp_exp ?x))" "ulp_exp ?x"] u by (simp only: pow2_nat) simp
  have "?x / pow2 (ulp_exp ?x) = of_int (k * 2 ^ nat (e - ulp_exp ?x))"
    using e less_imp_neq [OF pow2_pos [of "ulp_exp ?x"]] by (simp add: divide_eq_eq)
  then show ?thesis unfolding rnd_pos_def by (simp only: round_even_of_int) (subst (2) e, simp)
qed

text \<open>A number with the smallest exponent, and what rounding gives for small and large numbers.\<close>

lemma rnd32_mono_pos: "0 < x \<Longrightarrow> x \<le> y \<Longrightarrow> rnd32 x \<le> rnd32 y"
  by (simp add: rnd32_def rnd_pos_mono)

lemma rnd32_exact: "0 < k \<Longrightarrow> k < 2 ^ 24 \<Longrightarrow> -149 \<le> e \<Longrightarrow> rnd32 (of_int k * pow2 e) = of_int k * pow2 e"
  using rnd_pos_exact [of k e] by (simp add: rnd32_def)

lemma rnd32_int: "0 < k \<Longrightarrow> k < 2 ^ 24 \<Longrightarrow> rnd32 (of_int k) = of_int k"
  using rnd32_exact [of k 0] by (simp add: pow2_def)

lemma round_even_nonneg: "0 \<le> y \<Longrightarrow> 0 \<le> round_even y"
  using round_even_mono [of "of_int 0" y] unfolding round_even_of_int by simp

definition tiny :: rat where "tiny = pow2 (-149)"

lemma tiny_pos [simp]: "0 < tiny"
  by (simp add: tiny_def)

lemma rnd32_tiny: "0 < rnd32 x \<Longrightarrow> tiny \<le> rnd32 x"
proof -
  assume r: "0 < rnd32 x"
  have x: "0 < x"
  proof (rule ccontr)
    assume "\<not> 0 < x"
    then have "0 \<le> - x / pow2 (ulp_exp (- x))" by (intro divide_nonneg_pos) simp_all
    then have "0 \<le> rnd_pos (- x)"
      unfolding rnd_pos_def by (intro mult_nonneg_nonneg) (simp_all add: round_even_nonneg less_imp_le del: minus_divide_left)
    then have "rnd32 x \<le> 0" using \<open>\<not> 0 < x\<close> by (simp add: rnd32_def)
    then show False using r by simp
  qed
  define m where "m = round_even (x / pow2 (ulp_exp x))"
  have rx: "rnd32 x = of_int m * pow2 (ulp_exp x)" using x by (simp add: rnd32_def rnd_pos_def m_def)
  then have "0 < rat_of_int m" using r pow2_pos [of "ulp_exp x"] by (auto simp: zero_less_mult_iff)
  then have "(1 :: rat) \<le> of_int m" by simp
  then have "1 * pow2 (ulp_exp x) \<le> rnd32 x" unfolding rx by (intro mult_right_mono) (simp_all add: less_imp_le)
  moreover have "tiny \<le> pow2 (ulp_exp x)" unfolding tiny_def by (rule pow2_mono) (simp add: ulp_exp_def)
  ultimately show ?thesis by simp
qed

lemma rnd32_tiny_mult: "0 < k \<Longrightarrow> k < 2 ^ 24 \<Longrightarrow> of_int k * tiny \<le> x \<Longrightarrow> of_int k * tiny \<le> rnd32 x"
  using rnd32_mono_pos [of "of_int k * tiny" x] rnd32_exact [of k "-149"] by (simp add: tiny_def)

lemma rnd32_le_int: "0 < k \<Longrightarrow> k < 2 ^ 24 \<Longrightarrow> 0 < x \<Longrightarrow> x \<le> of_int k \<Longrightarrow> rnd32 x \<le> of_int k"
  using rnd32_mono_pos [of x "of_int k"] rnd32_int [of k] by simp

text \<open>The rounding error is at most half a unit in the last place.\<close>

lemma round_even_error: "\<bar>of_int (round_even y) - y\<bar> \<le> 1 / 2"
proof -
  define r where "r = y - of_int \<lfloor>y\<rfloor>"
  have "0 \<le> r" "r < 1" unfolding r_def by linarith+
  moreover have "y = of_int \<lfloor>y\<rfloor> + r" by (simp add: r_def)
  ultimately show ?thesis by (simp add: round_even_def Let_def r_def [symmetric])
qed

lemma rnd32_error:
  assumes "0 < x" "x < pow2 k" "-125 \<le> k"
  shows "\<bar>rnd32 x - x\<bar> \<le> pow2 (k - 25)"
proof -
  let ?u = "pow2 (ulp_exp x)"
  have "pow2 (expo x) < pow2 k" using expo_bounds(1) [OF assms(1)] assms(2) by linarith
  then have "expo x < k" using pow2_mono [of k "expo x"] by fastforce
  then have "ulp_exp x \<le> k - 25 + 1" using assms(3) by (simp add: ulp_exp_def)
  then have u: "?u \<le> 2 * pow2 (k - 25)" using pow2_mono [of "ulp_exp x" "k - 25 + 1"] unfolding pow2_Suc by simp
  have "rnd32 x - x = (of_int (round_even (x / ?u)) - x / ?u) * ?u"
    using assms(1) less_imp_neq [OF pow2_pos [of "ulp_exp x"]] by (simp add: rnd32_def rnd_pos_def left_diff_distrib)
  then have "\<bar>rnd32 x - x\<bar> = \<bar>of_int (round_even (x / ?u)) - x / ?u\<bar> * ?u" by (simp add: abs_mult abs_of_pos [OF pow2_pos])
  also have "\<dots> \<le> 1 / 2 * ?u" by (intro mult_right_mono round_even_error) (simp add: less_imp_le)
  finally show ?thesis using u by simp
qed

section \<open>Values and operations\<close>

text \<open>\<open>Inf True\<close> is the negative infinity.\<close>

datatype fl = Fin rat | Inf bool | NaN

definition fl_of :: "rat \<Rightarrow> fl" where
  "fl_of x = (let r = rnd32 x in if 2 ^ 128 \<le> \<bar>r\<bar> then Inf (r < 0) else Fin r)"

fun fadd :: "fl \<Rightarrow> fl \<Rightarrow> fl" where
  "fadd (Fin a) (Fin b) = fl_of (a + b)"
| "fadd (Inf s) (Inf t) = (if s = t then Inf s else NaN)"
| "fadd (Inf s) (Fin b) = Inf s"
| "fadd (Fin a) (Inf t) = Inf t"
| "fadd a b = NaN"

fun fmul :: "fl \<Rightarrow> fl \<Rightarrow> fl" where
  "fmul (Fin a) (Fin b) = fl_of (a * b)"
| "fmul (Inf s) (Inf t) = Inf (s \<noteq> t)"
| "fmul (Inf s) (Fin b) = (if b = 0 then NaN else Inf (s \<noteq> (b < 0)))"
| "fmul (Fin a) (Inf t) = (if a = 0 then NaN else Inf (t \<noteq> (a < 0)))"
| "fmul a b = NaN"

fun fdiv :: "fl \<Rightarrow> fl \<Rightarrow> fl" where
  "fdiv (Fin a) (Fin b) = (if b = 0 then (if a = 0 then NaN else Inf (a < 0)) else fl_of (a / b))"
| "fdiv (Inf s) (Fin b) = Inf (s \<noteq> (b < 0))"
| "fdiv (Fin a) (Inf t) = Fin 0"
| "fdiv a b = NaN"

fun fless :: "fl \<Rightarrow> fl \<Rightarrow> bool" where
  "fless (Fin a) (Fin b) \<longleftrightarrow> a < b"
| "fless (Fin a) (Inf t) \<longleftrightarrow> \<not> t"
| "fless (Inf s) (Fin b) \<longleftrightarrow> s"
| "fless (Inf s) (Inf t) \<longleftrightarrow> s \<and> \<not> t"
| "fless a b \<longleftrightarrow> False"

definition feq :: "fl \<Rightarrow> fl \<Rightarrow> bool" where
  "feq a b \<longleftrightarrow> a = b \<and> a \<noteq> NaN"

definition fle :: "fl \<Rightarrow> fl \<Rightarrow> bool" where
  "fle a b \<longleftrightarrow> fless a b \<or> feq a b"

section \<open>Input\<close>

definition isxdigit :: "char \<Rightarrow> bool" where
  "isxdigit c \<longleftrightarrow> c \<in> set ''0123456789abcdefABCDEF''"

definition digit_val :: "char \<Rightarrow> int" where
  "digit_val c =
     (if isdigit c then of_char c - 48 else if c \<in> set ''abcdef'' then of_char c - 87 else of_char c - 55)"

text \<open>
  The characters that can belong to the number. The flags: a hexadecimal number; a digit, the exponent's letter or the
  point has been read; the character read last is the exponent's letter.
\<close>

fun num_span :: "bool \<Rightarrow> bool \<Rightarrow> bool \<Rightarrow> bool \<Rightarrow> bool \<Rightarrow> string \<Rightarrow> string \<times> string" where
  "num_span hexa got_digit got_e got_dot last_e [] = ([], [])"
| "num_span hexa got_digit got_e got_dot last_e (c # s) =
     (if isdigit c \<or> \<not> got_e \<and> hexa \<and> isxdigit c then apfst ((#) c) (num_span hexa True got_e got_dot False s)
      else if got_e \<and> last_e \<and> c \<in> set ''+-'' then apfst ((#) c) (num_span hexa got_digit got_e got_dot False s)
      else if got_digit \<and> \<not> got_e \<and> c \<in> set (if hexa then ''pP'' else ''eE'')
        then apfst ((#) c) (num_span hexa got_digit True True True s)
      else if \<not> got_dot \<and> c = CHR ''.'' then apfst ((#) c) (num_span hexa got_digit got_e True False s)
      else ([], c # s))"

text \<open>The number in the characters collected, without its sign and the prefix of a hexadecimal number.\<close>

definition strtof :: "bool \<Rightarrow> string \<Rightarrow> rat option" where
  "strtof hexa s =
     (let dig = (if hexa then isxdigit else isdigit);
          ip = takeWhile dig s;
          s = dropWhile dig s;
          fp = (if s \<noteq> [] \<and> hd s = CHR ''.'' then takeWhile dig (tl s) else []);
          s = (if s \<noteq> [] \<and> hd s = CHR ''.'' then dropWhile dig (tl s) else s);
          x = tl s;
          neg = (x \<noteq> [] \<and> hd x = CHR ''-'');
          ds = (if x \<noteq> [] \<and> hd x \<in> set ''+-'' then tl x else x);
          e = (if neg then - digits_val ds else digits_val ds);
          b = (if hexa then 16 else 10) :: int;
          m = fold (\<lambda>c v. v * b + digit_val c) (ip @ fp) 0;
          v = of_int m / of_int b ^ length fp
      in if ip @ fp = [] then (if hexa then Some 0 else None)
         else if hexa then Some (v * pow2 e)
         else Some (if 0 \<le> e then v * 10 ^ nat e else v / 10 ^ nat (- e)))"

text \<open>The letters of \<open>nan\<close>, \<open>inf\<close> or \<open>inity\<close>, upper or lower case; the first character that differs has been read, too.\<close>

fun letters :: "(char \<times> char) list \<Rightarrow> string \<Rightarrow> bool \<times> string" where
  "letters [] s = (True, s)"
| "letters (c # cs) [] = (False, [])"
| "letters (c # cs) (d # s) = (if d = fst c \<or> d = snd c then letters cs s else (False, s))"

definition scan_nan :: "string \<Rightarrow> fl option \<times> string" where
  "scan_nan s = (let (ok, r) = letters (zip ''nan'' ''NAN'') s in (if ok then Some NaN else None, r))"

definition scan_inf :: "bool \<Rightarrow> string \<Rightarrow> fl option \<times> string" where
  "scan_inf neg s =
     (let (ok, r) = letters (zip ''inf'' ''INF'') s;
          (ok, r) = (if ok \<and> r \<noteq> [] \<and> hd r \<in> set ''iI'' then letters (zip ''inity'' ''INITY'') r else (ok, r))
      in (if ok then Some (Inf neg) else None, r))"

definition scan_num :: "bool \<Rightarrow> string \<Rightarrow> fl option \<times> string" where
  "scan_num neg s =
     (let hexa = (2 \<le> length s \<and> hd s = CHR ''0'' \<and> s ! 1 \<in> set ''xX'');
          (buf, r) = num_span hexa False False False False (if hexa then drop 2 s else s)
      in (if buf = [] then None else map_option (\<lambda>v. fl_of (if neg then - v else v)) (strtof hexa buf), r))"

definition scanf_f :: "string \<Rightarrow> fl option \<times> string" where
  "scanf_f s =
     (let s = skip_ws s;
          neg = (s \<noteq> [] \<and> hd s = CHR ''-'');
          s = (if s \<noteq> [] \<and> hd s \<in> set ''+-'' then tl s else s)
      in if s \<noteq> [] \<and> hd s \<in> set ''nN'' then scan_nan s
         else if s \<noteq> [] \<and> hd s \<in> set ''iI'' then scan_inf neg s
         else scan_num neg s)"

lemma num_span_append: "fst (num_span h d e p l s) @ snd (num_span h d e p l s) = s"
  by (induction h d e p l s rule: num_span.induct) auto

lemma letters_length: "length (snd (letters cs s)) \<le> length s"
  by (induction cs s rule: letters.induct) auto

lemma num_span_length: "length (snd (num_span h d e p l s)) \<le> length s"
  using arg_cong [OF num_span_append [of h d e p l s], of length] by simp

lemma scan_nan_length: "length (snd (scan_nan s)) \<le> length s"
  using letters_length [of "zip ''nan'' ''NAN''" s] by (simp add: scan_nan_def split_beta)

lemma scan_inf_length: "length (snd (scan_inf neg s)) \<le> length s"
  using letters_length [of "zip ''inf'' ''INF''" s]
    letters_length [of "zip ''inity'' ''INITY''" "snd (letters (zip ''inf'' ''INF'') s)"]
  by (simp add: scan_inf_def Let_def split_beta del: zip_Cons_Cons)

lemma scan_num_length: "length (snd (scan_num neg s)) \<le> length s"
  unfolding scan_num_def Let_def split_beta snd_conv
  by (rule order_trans [OF num_span_length]) simp

lemma scan_num_empty: "scan_num neg [] = (None, [])"
  by (simp add: scan_num_def)

lemma scanf_f_length: "length (snd (scanf_f s)) \<le> length s"
proof -
  define t where "t = skip_ws s"
  define u where "u = (if t \<noteq> [] \<and> hd t \<in> set ''+-'' then tl t else t)"
  have "length u \<le> length s" by (simp add: u_def t_def skip_ws_def length_dropWhile_le diff_le_mono2 le_diff_conv le_SucI)
  moreover have "length (snd (scanf_f s)) \<le> length u"
    unfolding scanf_f_def Let_def t_def [symmetric] u_def [symmetric]
    by (simp add: scan_nan_length scan_inf_length scan_num_length scan_num_empty)
  ultimately show ?thesis by simp
qed

text \<open>A finite number read is one of the representable ones.\<close>

lemma fl_of_Fin: "fl_of x = Fin r \<Longrightarrow> r = rnd32 x"
  by (simp add: fl_of_def Let_def split: if_splits)

lemma scanf_f_Fin: "fst (scanf_f s) = Some (Fin r) \<Longrightarrow> \<exists>x. r = rnd32 x"
  unfolding scanf_f_def Let_def
  by (auto simp: scan_nan_def scan_inf_def scan_num_def Let_def split_beta simp del: zip_Cons_Cons split: if_splits
      dest!: fl_of_Fin)

lemma fl_of_small: "\<bar>rnd32 x\<bar> \<le> 1000 \<Longrightarrow> fl_of x = Fin (rnd32 x)"
  by (simp add: fl_of_def Let_def)

lemma scanf_f_empty: "scanf_f [] = (None, [])"
  by (simp add: scanf_f_def skip_ws_def scan_num_empty)

end
