(* ===== verification/Student_Records.thy ===== *)
theory Student_Records
  imports C_Float
begin

text \<open>
  The student records of \<^verbatim>\<open>src/student.c\<close>: the entry of the first students and the menu, over the characters typed. What
  \<open>malloc\<close> and \<open>realloc\<close> leave in a new element is an argument (\<open>fresh\<close>), of the index and of the moment, which the unread input stands
  for. An access outside the array, a name that does not fit and the use of a variable that was never set are \<open>Undefined\<close>; a loop
  that reads past the end of the input for ever is \<open>Hang\<close>. Memory and the export file are taken to be available; prompts are left out.
\<close>

datatype 'a run = Done 'a | Hang | Undefined

fun bind_run :: "'a run \<Rightarrow> ('a \<Rightarrow> 'b run) \<Rightarrow> 'b run" where
  "bind_run (Done x) f = f x"
| "bind_run Hang f = Hang"
| "bind_run Undefined f = Undefined"

record st =
  roll :: int
  st_name :: string
  subject1 :: fl
  subject2 :: fl
  subject3 :: fl
  st_sum :: fl
  st_avg :: fl

section \<open>Entering a student\<close>

text \<open>A question that is answered wrongly: the rest of the line is thrown away.\<close>

definition rejected :: "string \<Rightarrow> st \<Rightarrow> (st \<times> string) run" where
  "rejected inp p = (case drop_line inp of None \<Rightarrow> Hang | Some r \<Rightarrow> Done (p, r))"

text \<open>The mark read, if it is accepted.\<close>

definition mark :: "string \<Rightarrow> fl option \<times> string" where
  "mark inp =
     (let (v, r) = scanf_f inp in
      (if v = None \<or> fle (the v) (Fin 0) \<or> fless (Fin 101) (the v) then None else v, r))"

definition enter_marks :: "st \<Rightarrow> string \<Rightarrow> (st \<times> string) run" where
  "enter_marks p inp =
     (case mark inp of
        (None, r) \<Rightarrow> rejected r (p\<lparr>subject1 := Fin (-1)\<rparr>)
      | (Some a, r) \<Rightarrow>
          let p = p\<lparr>subject1 := a\<rparr> in
          (case mark r of
             (None, r) \<Rightarrow> rejected r (p\<lparr>subject2 := Fin (-1)\<rparr>)
           | (Some b, r) \<Rightarrow>
               let p = p\<lparr>subject2 := b\<rparr> in
               (case mark r of
                  (None, r) \<Rightarrow> rejected r (p\<lparr>subject3 := Fin (-1)\<rparr>)
                | (Some c, r) \<Rightarrow>
                    let total = fadd (fadd a b) c in
                    Done (p\<lparr>subject3 := c, st_sum := total, st_avg := fdiv total (Fin 3)\<rparr>, r))))"

definition enter_named :: "st \<Rightarrow> st list \<Rightarrow> string \<Rightarrow> (st \<times> string) run" where
  "enter_named p s inp =
     (if list_ex (\<lambda>x. st_name x = st_name p) s then Done (p\<lparr>st_name := ''x''\<rparr>, inp) else enter_marks p inp)"

text \<open>\<open>students\<close> with the element \<open>p\<close> and the \<open>num\<close> elements \<open>s\<close>; at the end of the input the name stays as it is.\<close>

definition students :: "st \<Rightarrow> st list \<Rightarrow> string \<Rightarrow> (st \<times> string) run" where
  "students p s inp =
     (let (v, r) = scanf_d inp in
      if v = None \<or> the v \<le> 0 \<or> 100 < the v then rejected r (p\<lparr>roll := -1\<rparr>)
      else
        let p = p\<lparr>roll := the v\<rparr> in
        if list_ex (\<lambda>x. roll x = roll p) s then Done (p\<lparr>roll := -1\<rparr>, r)
        else (case scan_word None r of
            None \<Rightarrow> enter_named p s []
          | Some (w, r) \<Rightarrow> if 20 \<le> length w then Undefined else enter_named (p\<lparr>st_name := c_str w\<rparr>) s r))"

section \<open>The operations on the table\<close>

definition classaverage :: "st list \<Rightarrow> fl" where
  "classaverage p = fdiv (fold (\<lambda>s total. fadd total (st_avg s)) p (Fin 0)) (fl_of (of_nat (length p)))"

fun numberOfStudentsPassed :: "st list \<Rightarrow> nat" where
  "numberOfStudentsPassed [] = 0"
| "numberOfStudentsPassed (s # p) = (if fless (Fin 150) (st_sum s) then 1 else 0) + numberOfStudentsPassed p"

definition passPercentage :: "st list \<Rightarrow> fl" where
  "passPercentage p =
     fmul (fdiv (fl_of (of_nat (numberOfStudentsPassed p))) (fl_of (of_nat (length p)))) (Fin 100)"

definition findStudentByRoll :: "st list \<Rightarrow> int \<Rightarrow> st option" where
  "findStudentByRoll p searchroll = find (\<lambda>s. roll s = searchroll) p"

definition findStudentByName :: "st list \<Rightarrow> string \<Rightarrow> st option" where
  "findStudentByName p Name = find (\<lambda>s. st_name s = Name) p"

section \<open>The program\<close>

text \<open>\<open>if (...p[i]...) i--;\<close> with \<open>i\<close> possibly below 0.\<close>

definition step_back :: "(st \<Rightarrow> bool) \<Rightarrow> st list \<Rightarrow> int \<Rightarrow> int run" where
  "step_back P p i = (if i < 0 then Undefined else Done (if P (p ! nat i) then i - 1 else i))"

definition entry_back :: "st list \<Rightarrow> int \<Rightarrow> int run" where
  "entry_back p i =
     bind_run (step_back (\<lambda>s. roll s = -1) p i) (\<lambda>i.
     bind_run (step_back (\<lambda>s. st_name s = ''x'') p i) (\<lambda>i.
     bind_run (step_back (\<lambda>s. feq (subject1 s) (Fin (-1))) p i) (\<lambda>i.
     bind_run (step_back (\<lambda>s. feq (subject2 s) (Fin (-1))) p i)
       (step_back (\<lambda>s. feq (subject2 s) (Fin (-1))) p))))"

lemma rejected_length: "rejected inp p = Done (q, r) \<Longrightarrow> length r < length inp \<and> q = p"
  by (auto simp: rejected_def dest: drop_line_length split: option.splits)

lemma mark_length: "length (snd (mark inp)) \<le> length inp"
  using scanf_f_length [of inp] by (simp add: mark_def split_beta)

lemma enter_marks_length: "enter_marks p inp = Done (q, r) \<Longrightarrow> length r \<le> length inp"
proof -
  have m: "length r \<le> length s" if "mark s = (v, r)" for v r s using mark_length [of s] that by simp
  assume "enter_marks p inp = Done (q, r)"
  then show ?thesis
    by (auto simp: enter_marks_def Let_def split: prod.splits option.splits dest!: m rejected_length)
qed

lemma scan_word_length: "scan_word None t = Some (w, u) \<Longrightarrow> length u \<le> length t"
proof -
  assume "scan_word None t = Some (w, u)"
  then have "skip_ws t = w @ u" using scan_span_Some [of None "\<lambda>c. \<not> isspace c" "skip_ws t" w u] by (simp add: scan_word_def)
  then have "length (dropWhile isspace t) = length w + length u" by (simp add: skip_ws_def)
  then show ?thesis using length_dropWhile_le [of isspace t] by linarith
qed

lemma enter_named_length: "enter_named p s inp = Done (q, r) \<Longrightarrow> length r \<le> length inp"
  by (auto simp: enter_named_def split: if_splits dest: enter_marks_length)

lemma students_length: "students p s inp = Done (q, r) \<Longrightarrow> length r < length inp"
proof -
  assume d: "students p s inp = Done (q, r)"
  obtain v t where t: "scanf_d inp = (v, t)" by fastforce
  have le: "length t \<le> length inp" and lt: "v \<noteq> None \<Longrightarrow> length t < length inp"
    using scanf_d_length [of inp] scanf_d_consumes [of inp] t by auto
  show ?thesis
  proof (cases "v = None \<or> the v \<le> 0 \<or> 100 < the v")
    case True
    then show ?thesis using d t le by (auto simp: students_def dest: rejected_length)
  next
    case False
    then have "length t < length inp" using lt by auto
    moreover have "length r \<le> length t"
      using d t False
      by (auto simp: students_def Let_def split: if_splits option.splits prod.splits
          dest!: enter_named_length scan_word_length)
    ultimately show ?thesis by simp
  qed
qed

function entry_loop :: "st list \<Rightarrow> int \<Rightarrow> string \<Rightarrow> (st list \<times> string) run" where
  "entry_loop p i inp =
     (if int (length p) \<le> i then Done (p, inp)
      else case students (p ! nat i) (take (nat i) p) inp of
          Hang \<Rightarrow> Hang
        | Undefined \<Rightarrow> Undefined
        | Done (q, r) \<Rightarrow>
            let p = p[nat i := q] in
            (case entry_back p i of
               Hang \<Rightarrow> Hang
             | Undefined \<Rightarrow> Undefined
             | Done j \<Rightarrow> entry_loop p (j + 1) r))"
  by pat_completeness auto
termination
  by (relation "measure (\<lambda>(p, i, inp). length inp)") (auto dest: students_length)

declare entry_loop.simps [simp del]

text \<open>Option 2: the new element is at the end; the name looked at afterwards is that of the last element left.\<close>

definition add_student :: "(nat \<Rightarrow> string \<Rightarrow> st) \<Rightarrow> st list \<Rightarrow> string \<Rightarrow> (st list \<times> string) run" where
  "add_student fresh p inp =
     (case students (fresh (length p) inp) p inp of
        Hang \<Rightarrow> Hang
      | Undefined \<Rightarrow> Undefined
      | Done (q, r) \<Rightarrow>
          let p = p @ [q];
              num = (if roll q = -1 then length p - 1 else length p) in
          if num = 0 then Undefined
          else Done (take (if st_name (p ! (num - 1)) = ''x'' then num - 1 else num) p, r))"

datatype sline =
    Details st | Class_average fl | Pass_percentage fl | Exported "st list" | Found st | Not_found | Passed nat
  | Exiting | Invalid_option

definition found_line :: "st option \<Rightarrow> sline" where
  "found_line s = (case s of None \<Rightarrow> Not_found | Some s \<Rightarrow> Found s)"

text \<open>Option 6: the results of these calls of \<open>scanf\<close> are not looked at.\<close>

definition find_case :: "st list \<Rightarrow> string \<Rightarrow> (sline list \<times> string) run" where
  "find_case p inp =
     (case scanf_d inp of
        (None, r) \<Rightarrow> Undefined
      | (Some op, r) \<Rightarrow>
          if op = 1 then
            (case scanf_d r of
               (None, r) \<Rightarrow> Undefined
             | (Some searchroll, r) \<Rightarrow> Done ([found_line (findStudentByRoll p searchroll)], r))
          else if op = 2 then
            (case scan_word None r of
               None \<Rightarrow> Undefined
             | Some (w, r) \<Rightarrow>
                 if 20 \<le> length w then Undefined else Done ([found_line (findStudentByName p (c_str w))], r))
          else Done ([], r))"

definition menu_case :: "(nat \<Rightarrow> string \<Rightarrow> st) \<Rightarrow> st list \<Rightarrow> int \<Rightarrow> string \<Rightarrow> (st list \<times> sline list \<times> string) run" where
  "menu_case fresh p v inp =
     (if v = 1 then Done (p, map Details p, inp)
      else if v = 2 then bind_run (add_student fresh p inp) (\<lambda>(p, r). Done (p, [], r))
      else if v = 3 then Done (p, [Class_average (classaverage p)], inp)
      else if v = 4 then Done (p, [Pass_percentage (passPercentage p)], inp)
      else if v = 5 then Done (p, [Exported p], inp)
      else if v = 6 then bind_run (find_case p inp) (\<lambda>(ls, r). Done (p, ls, r))
      else if v = 7 then Done (p, [Passed (numberOfStudentsPassed p)], inp)
      else Done (p, [Invalid_option], inp))"

datatype send = S_exit | S_hang | S_undefined

lemma scanf_d_le: "scanf_d s = (v, r) \<Longrightarrow> length r \<le> length s"
  using scanf_d_length [of s] by simp

lemma find_case_length: "find_case p inp = Done (ls, r) \<Longrightarrow> length r \<le> length inp"
  by (fastforce simp: find_case_def split: prod.splits option.splits if_splits dest: scanf_d_le scan_word_length)

lemma add_student_length: "add_student fresh p inp = Done (q, r) \<Longrightarrow> length r \<le> length inp"
  by (auto simp: add_student_def Let_def split: run.splits prod.splits if_splits dest!: students_length)

lemma menu_case_length: "menu_case fresh p v inp = Done (q, ls, r) \<Longrightarrow> length r \<le> length inp"
  by (cases "add_student fresh p inp"; cases "find_case p inp")
    (auto simp: menu_case_def split: if_splits dest: add_student_length find_case_length)

text \<open>The menu: the table at the end, what was printed, and how the session ends.\<close>

function menu :: "(nat \<Rightarrow> string \<Rightarrow> st) \<Rightarrow> st list \<Rightarrow> string \<Rightarrow> st list \<times> sline list \<times> send" where
  "menu fresh p inp =
     (case ask (\<lambda>n. 0 < n \<and> n \<le> 100) inp of
        None \<Rightarrow> (p, [], S_hang)
      | Some (v, r) \<Rightarrow>
          if v = 8 then (p, [Exiting], S_exit)
          else (case menu_case fresh p v r of
              Hang \<Rightarrow> (p, [], S_hang)
            | Undefined \<Rightarrow> (p, [], S_undefined)
            | Done (q, ls, r) \<Rightarrow> (case menu fresh q r of (t, ls', e) \<Rightarrow> (t, ls @ ls', e))))"
  by pat_completeness auto
termination
  by (relation "measure (\<lambda>(fresh, p, inp). length inp)") (auto dest!: ask_Some menu_case_length)

declare menu.simps [simp del]

text \<open>\<open>main\<close>: the table at the end is \<open>None\<close> when the menu is not reached.\<close>

definition student_main :: "(nat \<Rightarrow> string \<Rightarrow> st) \<Rightarrow> string \<Rightarrow> st list option \<times> sline list \<times> send" where
  "student_main fresh inp =
     (case ask (\<lambda>n. 0 < n \<and> n \<le> 100) inp of
        None \<Rightarrow> (None, [], S_hang)
      | Some (n, r) \<Rightarrow>
          (case entry_loop (map (\<lambda>i. fresh i r) [0..<nat n]) 0 r of
             Hang \<Rightarrow> (None, [], S_hang)
           | Undefined \<Rightarrow> (None, [], S_undefined)
           | Done (p, r) \<Rightarrow> (case menu fresh p r of (t, ls, e) \<Rightarrow> (Some t, ls, e))))"

section \<open>The invariant of the table\<close>

definition accepted_mark :: "fl \<Rightarrow> bool" where
  "accepted_mark v \<longleftrightarrow> (case v of Fin r \<Rightarrow> tiny \<le> r \<and> r \<le> 101 | Inf _ \<Rightarrow> False | NaN \<Rightarrow> True)"

text \<open>A student none of whose marks was rejected.\<close>

definition complete :: "st \<Rightarrow> bool" where
  "complete s \<longleftrightarrow> subject1 s \<noteq> Fin (-1) \<and> subject2 s \<noteq> Fin (-1) \<and> subject3 s \<noteq> Fin (-1)"

definition marks_ok :: "st \<Rightarrow> bool" where
  "marks_ok s \<longleftrightarrow> accepted_mark (subject1 s) \<and> accepted_mark (subject2 s) \<and> accepted_mark (subject3 s) \<and>
     st_sum s = fadd (fadd (subject1 s) (subject2 s)) (subject3 s) \<and> st_avg s = fdiv (st_sum s) (Fin 3)"

definition st_ok :: "st \<Rightarrow> bool" where
  "st_ok s \<longleftrightarrow> 1 \<le> roll s \<and> roll s \<le> 100 \<and> st_name s \<noteq> ''x'' \<and> length (st_name s) < 20 \<and> (complete s \<longrightarrow> marks_ok s)"

definition table_ok :: "st list \<Rightarrow> bool" where
  "table_ok p \<longleftrightarrow> distinct (map roll p) \<and> distinct (map st_name p) \<and> (\<forall>s\<in>set p. st_ok s)"

lemma mark_accepted: "mark inp = (Some v, r) \<Longrightarrow> accepted_mark v"
proof -
  assume m: "mark inp = (Some v, r)"
  then have v: "fst (scanf_f inp) = Some v" "\<not> fle v (Fin 0)" "\<not> fless (Fin 101) v"
    by (auto simp: mark_def split_beta split: if_splits)
  show ?thesis
  proof (cases v)
    case (Fin x)
    then obtain y where "x = rnd32 y" using scanf_f_Fin v(1) by blast
    then have "0 < x \<longrightarrow> tiny \<le> x" using rnd32_tiny by blast
    then show ?thesis using v(2,3) Fin by (auto simp: accepted_mark_def fle_def feq_def)
  next
    case (Inf b)
    then show ?thesis using v(2,3) by (cases b) (auto simp: fle_def)
  next
    case NaN
    then show ?thesis by (simp add: accepted_mark_def)
  qed
qed

lemma enter_marks_outcome:
  assumes "enter_marks p inp = Done (q, r)"
  shows "roll q = roll p \<and> st_name q = st_name p \<and> (complete q \<longrightarrow> marks_ok q) \<and> inp \<noteq> []"
proof -
  have "inp \<noteq> []" using assms by (auto simp: enter_marks_def mark_def scanf_f_empty rejected_def)
  moreover have "roll q = roll p \<and> st_name q = st_name p \<and> (complete q \<longrightarrow> marks_ok q)"
    using assms unfolding enter_marks_def Let_def
    by (auto split: prod.splits option.splits dest!: rejected_length mark_accepted simp: complete_def marks_ok_def)
  ultimately show ?thesis by simp
qed

lemma c_str_length: "length (c_str w) \<le> length w"
  by (simp add: c_str_def length_takeWhile_le)

text \<open>What \<open>students\<close> leaves: a rejected roll number, a rejected name, or a student that fits into the table.\<close>

lemma students_outcome:
  assumes "students p s inp = Done (q, r)"
  shows "roll q = -1 \<or> 1 \<le> roll q \<and> roll q \<le> 100 \<and> roll q \<notin> roll ` set s \<and>
    (st_name q = ''x'' \<or> st_ok q \<and> st_name q \<notin> st_name ` set s)"
proof -
  have named: "1 \<le> roll q \<and> roll q \<le> 100 \<and> roll q \<notin> roll ` set s \<and>
      (st_name q = ''x'' \<or> st_ok q \<and> st_name q \<notin> st_name ` set s)"
    if "enter_named p' s t = Done (q, r)" "1 \<le> roll p'" "roll p' \<le> 100" "roll p' \<notin> roll ` set s" "t \<noteq> [] \<longrightarrow> length (st_name p') < 20"
    for p' t
  proof (cases "list_ex (\<lambda>x. st_name x = st_name p') s")
    case True
    then show ?thesis using that by (auto simp: enter_named_def)
  next
    case False
    then have q: "roll q = roll p'" "st_name q = st_name p'" "complete q \<longrightarrow> marks_ok q" "t \<noteq> []"
      using that(1) enter_marks_outcome [of p' t q r] by (auto simp: enter_named_def)
    moreover have "st_name q \<notin> st_name ` set s" using False q(2) by (auto simp: list_ex_iff)
    ultimately show ?thesis using that(2-) by (simp add: st_ok_def)
  qed
  obtain v t where t: "scanf_d inp = (v, t)" by fastforce
  show ?thesis
  proof (cases "v = None \<or> the v \<le> 0 \<or> 100 < the v")
    case True
    then show ?thesis using assms t by (auto simp: students_def dest: rejected_length)
  next
    case False
    let ?p = "p\<lparr>roll := the v\<rparr>"
    show ?thesis
    proof (cases "list_ex (\<lambda>x. roll x = the v) s")
      case True
      then show ?thesis using assms t False by (auto simp: students_def Let_def)
    next
      case nodup: False
      then have n: "the v \<notin> roll ` set s" by (auto simp: list_ex_iff)
      show ?thesis
      proof (cases "scan_word None t")
        case None
        then have "enter_named ?p s [] = Done (q, r)" using assms t False nodup by (simp add: students_def Let_def)
        then show ?thesis using named [of ?p "[]"] n False by simp
      next
        case (Some wu)
        obtain w u where wu: "wu = (w, u)" by fastforce
        have "enter_named (?p\<lparr>st_name := c_str w\<rparr>) s u = Done (q, r)" "length w < 20"
          using assms t False nodup Some by (auto simp: students_def Let_def wu split: if_splits)
        then show ?thesis using named [of "?p\<lparr>st_name := c_str w\<rparr>" u] n False c_str_length [of w] by simp
      qed
    qed
  qed
qed

text \<open>
  A student the entry loop asks for again. The third mark is not looked at. With good students before it a bad one is
  entered again, except for the first, where the next test reads \<open>p[-1]\<close>.
\<close>

definition bad :: "st \<Rightarrow> bool" where
  "bad s \<longleftrightarrow> roll s = -1 \<or> st_name s = ''x'' \<or> subject1 s = Fin (-1) \<or> subject2 s = Fin (-1)"

lemma entry_back_eq:
  assumes "0 \<le> i" and "\<And>k. int k < i \<Longrightarrow> \<not> bad (p ! k)"
  shows "entry_back p i = (if bad (p ! nat i) then if i = 0 then Undefined else Done (i - 1) else Done i)"
proof -
  have "\<not> bad (p ! nat (i - 1))" if "i \<noteq> 0" using assms(2) [of "nat (i - 1)"] assms(1) that by simp
  then show ?thesis using assms(1) by (auto simp: entry_back_def step_back_def bad_def feq_def)
qed

lemma table_ok_snoc:
  "table_ok p \<Longrightarrow> st_ok q \<Longrightarrow> roll q \<notin> roll ` set p \<Longrightarrow> st_name q \<notin> st_name ` set p \<Longrightarrow> table_ok (p @ [q])"
  by (auto simp: table_ok_def)

lemma entry_loop_ok:
  assumes "entry_loop p i inp = Done (t, r)" and "0 \<le> i" "i \<le> int (length p)"
    and "table_ok (take (nat i) p)" "\<forall>s\<in>set (take (nat i) p). \<not> bad s"
  shows "table_ok t \<and> length t = length p \<and> (\<forall>s\<in>set t. \<not> bad s)"
  using assms
proof (induction p i inp rule: entry_loop.induct)
  case (1 p i inp)
  show ?case
  proof (cases "int (length p) \<le> i")
    case True
    then show ?thesis using "1.prems" by (simp add: entry_loop.simps [of p i])
  next
    case False
    define n where "n = nat i"
    have n: "n < length p" "i = int n" using False "1.prems"(2) by (auto simp: n_def)
    obtain q u where q: "students (p ! n) (take n p) inp = Done (q, u)"
      using "1.prems"(1) False by (auto simp: entry_loop.simps [of p "int n"] n(2) Let_def split: run.splits)
    let ?p = "p[n := q]"
    have pre: "take n ?p = take n p" "?p ! n = q" using n by auto
    have "\<not> bad (?p ! k)" if "int k < i" for k
      using "1.prems"(5) n that nth_mem [of k "take n p"] by (auto simp: n_def [symmetric])
    then have b: "entry_back ?p i = (if bad q then if i = 0 then Undefined else Done (i - 1) else Done i)"
      using entry_back_eq [of i ?p] n by simp
    obtain j where j: "entry_back ?p i = Done j" and rec: "entry_loop ?p (j + 1) u = Done (t, r)"
      using "1.prems"(1) False q by (auto simp: entry_loop.simps [of p "int n"] n(2) Let_def split: run.splits)
    note IH = "1.IH" [OF False q [folded n(2) n_def, unfolded n_def] refl refl, folded n_def, OF j rec]
    show ?thesis
    proof (cases "bad q")
      case True
      then have "j = i - 1" using b j by (auto split: if_splits)
      then show ?thesis using IH "1.prems"(2-5) pre(1) by (simp add: n_def [symmetric])
    next
      case good: False
      then have ji: "nat (j + 1) = Suc n" "j + 1 = int (Suc n)" using b j n by auto
      have tk: "take (Suc n) ?p = take n p @ [q]" using n pre by (simp add: take_Suc_conv_app_nth)
      have "st_ok q \<and> roll q \<notin> roll ` set (take n p) \<and> st_name q \<notin> st_name ` set (take n p)"
        using students_outcome [OF q] good by (auto simp: bad_def)
      then have "table_ok (take n p @ [q])" using table_ok_snoc "1.prems"(4) by (simp add: n_def)
      then show ?thesis using IH [unfolded ji(1) tk] "1.prems"(5) n good by (simp add: ji(2) n_def [symmetric])
    qed
  qed
qed

lemma add_student_ok:
  assumes "add_student fresh p inp = Done (t, r)" and "table_ok p"
  shows "table_ok t"
proof -
  obtain q where q: "students (fresh (length p) inp) p inp = Done (q, r)"
    using assms(1) by (auto simp: add_student_def Let_def split: run.splits if_splits)
  have ok: "st_name s \<noteq> ''x''" if "s \<in> set p" for s using assms(2) that by (simp add: table_ok_def st_ok_def)
  show ?thesis
  proof (cases "roll q = -1")
    case True
    then have "t = p" using assms(1) q ok [of "last p"]
      by (auto simp: add_student_def Let_def nth_append last_conv_nth split: if_splits)
    then show ?thesis using assms(2) by simp
  next
    case False
    then have t: "t = (if st_name q = ''x'' then p else p @ [q])" using assms(1) q by (auto simp: add_student_def Let_def nth_append)
    show ?thesis using students_outcome [OF q] False assms(2) table_ok_snoc by (auto simp: t)
  qed
qed

lemma add_student_ne: "add_student fresh p inp = Done (t, r) \<Longrightarrow> p \<noteq> [] \<Longrightarrow> table_ok p \<Longrightarrow> t \<noteq> []"
  by (auto simp: add_student_def table_ok_def st_ok_def nth_append Let_def split: run.splits if_splits)

lemma menu_case_ok:
  assumes "menu_case fresh p v inp = Done (t, ls, r)" and "table_ok p" "p \<noteq> []"
  shows "table_ok t \<and> t \<noteq> []"
  using assms add_student_ok [of fresh p inp] add_student_ne [of fresh p inp]
  by (cases "add_student fresh p inp"; cases "find_case p inp") (auto simp: menu_case_def split: if_splits)

lemma menu_ok: "menu fresh p inp = (t, ls, e) \<Longrightarrow> table_ok p \<Longrightarrow> p \<noteq> [] \<Longrightarrow> table_ok t \<and> t \<noteq> []"
proof (induction fresh p inp arbitrary: ls rule: menu.induct)
  case (1 fresh p inp)
  show ?case
  proof (cases "ask (\<lambda>n. 0 < n \<and> n \<le> 100) inp")
    case None
    then show ?thesis using "1.prems" by (simp add: menu.simps [of fresh p])
  next
    case (Some vr)
    obtain v r where vr: "vr = (v, r)" by fastforce
    show ?thesis
    proof (cases "v \<noteq> 8 \<and> (\<exists>x. menu_case fresh p v r = Done x)")
      case False
      then show ?thesis using "1.prems" Some
        by (cases "menu_case fresh p v r") (auto simp: menu.simps [of fresh p] vr split: if_splits)
    next
      case True
      then obtain q l u where q: "menu_case fresh p v r = Done (q, l, u)" by auto
      obtain l' where "menu fresh q u = (t, l', e)"
        using "1.prems"(1) Some q True by (auto simp: menu.simps [of fresh p] vr split: prod.splits)
      then show ?thesis using "1.IH" Some vr q True menu_case_ok [OF q "1.prems"(2,3)] by blast
    qed
  qed
qed

lemma average_close:
  assumes "tiny \<le> a" "a \<le> 101" "tiny \<le> b" "b \<le> 101" "tiny \<le> c" "c \<le> 101"
  shows "\<exists>m. fdiv (fadd (fadd (Fin a) (Fin b)) (Fin c)) (Fin 3) = Fin m \<and> 0 < m \<and> m \<le> 101 \<and>
    \<bar>m - (a + b + c) / 3\<bar> \<le> 1 / 10000"
proof -
  note t = tiny_pos
  define u where "u = rnd32 (a + b)"
  define v where "v = rnd32 (u + c)"
  define m where "m = rnd32 (v / 3)"
  have u: "2 * tiny \<le> u" "u \<le> 202" "\<bar>u - (a + b)\<bar> \<le> pow2 (-17)"
    using rnd32_tiny_mult [of 2 "a + b"] rnd32_le_int [of 202 "a + b"] rnd32_error [of "a + b" 8] assms t
    by (simp_all add: u_def pow2_def)
  have v: "3 * tiny \<le> v" "v \<le> 303" "\<bar>v - (u + c)\<bar> \<le> pow2 (-16)"
    using rnd32_tiny_mult [of 3 "u + c"] rnd32_le_int [of 303 "u + c"] rnd32_error [of "u + c" 9] assms u t
    by (simp_all add: v_def pow2_def)
  have m: "1 * tiny \<le> m" "m \<le> 101" "\<bar>m - v / 3\<bar> \<le> pow2 (-18)"
    using rnd32_tiny_mult [of 1 "v / 3"] rnd32_le_int [of 101 "v / 3"] rnd32_error [of "v / 3" 7] v t
    by (simp_all add: m_def pow2_def)
  have "fdiv (fadd (fadd (Fin a) (Fin b)) (Fin c)) (Fin 3) = Fin m"
  proof -
    have "\<bar>u\<bar> \<le> 1000" "\<bar>v\<bar> \<le> 1000" "\<bar>m\<bar> \<le> 1000" using u v m t by linarith+
    then show ?thesis
      using fl_of_small [of "a + b", folded u_def] fl_of_small [of "u + c", folded v_def]
        fl_of_small [of "v / 3", folded m_def] by simp
  qed
  moreover have "\<bar>m - (a + b + c) / 3\<bar> \<le> 1 / 10000"
  proof -
    have e: "pow2 (-17) = 1 / 131072" "pow2 (-16) = 1 / 65536" "pow2 (-18) = 1 / 262144" by (simp_all add: pow2_def)
    have "\<bar>m - (a + b + c) / 3\<bar> \<le> \<bar>m - v / 3\<bar> + \<bar>v - (u + c)\<bar> / 3 + \<bar>u - (a + b)\<bar> / 3" by (simp add: abs_if field_simps)
    moreover have "x \<le> 1 / 10000" if "x \<le> y + z / 3 + w / 3" "w \<le> 1 / 131072" "z \<le> 1 / 65536" "y \<le> 1 / 262144" for w x y z :: rat
      using that by simp
    ultimately show ?thesis using u(3) v(3) m(3) unfolding e by blast
  qed
  moreover have "0 < m" using less_le_trans [OF t m(1) [unfolded mult_1_left]] .
  ultimately show ?thesis using m(2) by blast
qed

lemma student_main_ok:
  assumes "student_main fresh inp = (Some p, ls, e)"
  shows "table_ok p \<and> p \<noteq> []"
proof -
  obtain n r where n: "ask (\<lambda>n. 0 < n \<and> n \<le> 100) inp = Some (n, r)"
    using assms by (auto simp: student_main_def split: option.splits)
  let ?m = "map (\<lambda>i. fresh i r) [0..<nat n]"
  obtain t u where t: "entry_loop ?m 0 r = Done (t, u)"
    using assms n by (auto simp: student_main_def split: run.splits)
  obtain l where m: "menu fresh t u = (p, l, e)"
    using assms n t by (auto simp: student_main_def split: prod.splits)
  have "0 < n" using ask_Some [OF n] by simp
  moreover have "table_ok t" "length t = nat n" using entry_loop_ok [OF t] by (auto simp: table_ok_def)
  ultimately have "t \<noteq> []" by (metis length_greater_0_conv zero_less_nat_eq)
  then show ?thesis using menu_ok [OF m \<open>table_ok t\<close>] by blast
qed

lemma find_distinct: "distinct (map f p) \<Longrightarrow> s \<in> set p \<Longrightarrow> find (\<lambda>x. f x = f s) p = Some s"
  by (induction p) auto

text \<open>C12: In every session, whatever memory held before, the table is never empty, no two students have the same roll number
  or the same name, roll numbers are from 1 to 100 and names fit their array, the total and the average of a student none of whose
  marks was rejected are computed from marks that were accepted, and both searches find every student.\<close>

theorem student_table_invariant:
  assumes "student_main fresh inp = (Some p, ls, e)"
  shows "p \<noteq> [] \<and> distinct (map roll p) \<and> distinct (map st_name p) \<and>
    (\<forall>s\<in>set p. 1 \<le> roll s \<and> roll s \<le> 100 \<and> length (st_name s) < 20 \<and> (complete s \<longrightarrow> marks_ok s) \<and>
      findStudentByRoll p (roll s) = Some s \<and> findStudentByName p (st_name s) = Some s)"
  using student_main_ok [OF assms]
  by (auto simp: table_ok_def st_ok_def findStudentByRoll_def findStudentByName_def find_distinct)

text \<open>New memory that holds zeros, and a session that enters a student and exits.\<close>

definition zero_st :: st where
  "zero_st = \<lparr>roll = 0, st_name = [], subject1 = Fin 0, subject2 = Fin 0, subject3 = Fin 0, st_sum = Fin 0, st_avg = Fin 0\<rparr>"

definition ann_session :: string where
  "ann_session = ''1 7 ann 50 60 70.5 8 ''"

definition ann :: st where
  "ann = \<lparr>roll = 7, st_name = ''ann'', subject1 = Fin 50, subject2 = Fin 60, subject3 = Fin (141 / 2), st_sum = Fin (361 / 2),
     st_avg = Fin (15772331 / 262144)\<rparr>"

lemma ann_run: "student_main (\<lambda>_ _. zero_st) ann_session = (Some [ann], [Exiting], S_exit)"
  by code_simp

theorem student_table_invariant_witness:
  "findStudentByRoll [ann] 7 = Some ann \<and> marks_ok ann"
  using student_table_invariant [OF ann_run] by (simp add: ann_def complete_def)

text \<open>C37: In every session the average of a student none of whose marks was rejected is, if the three marks are numbers, above 0
  and at most 101, and within 1/10000 of their mean in spite of single precision; a mark may be NaN, as \<open>nan\<close> is
  accepted, and then the average is NaN.\<close>

theorem student_average_close:
  assumes "student_main fresh inp = (Some p, ls, e)" and "s \<in> set p" and "complete s"
  shows "(\<exists>a b c m. subject1 s = Fin a \<and> subject2 s = Fin b \<and> subject3 s = Fin c \<and>
      st_avg s = Fin m \<and> 0 < m \<and> m \<le> 101 \<and> \<bar>m - (a + b + c) / 3\<bar> \<le> 1 / 10000) \<or>
    (NaN \<in> {subject1 s, subject2 s, subject3 s} \<and> st_avg s = NaN)"
proof -
  have ok: "marks_ok s" using student_main_ok [OF assms(1)] assms(2,3) by (simp add: table_ok_def st_ok_def)
  then have avg: "st_avg s = fdiv (fadd (fadd (subject1 s) (subject2 s)) (subject3 s)) (Fin 3)"
    by (auto simp: marks_ok_def)
  have each: "x = NaN \<or> (\<exists>a. x = Fin a \<and> tiny \<le> a \<and> a \<le> 101)" if "accepted_mark x" for x
    using that by (cases x) (auto simp: accepted_mark_def)
  have "accepted_mark (subject1 s)" "accepted_mark (subject2 s)" "accepted_mark (subject3 s)"
    using ok by (simp_all add: marks_ok_def)
  note marks = this [THEN each]
  show ?thesis
  proof (cases "NaN \<in> {subject1 s, subject2 s, subject3 s}")
    case True
    then have "st_avg s = NaN" unfolding avg using marks by auto
    then show ?thesis using True by blast
  next
    case False
    then obtain a b c where abc: "subject1 s = Fin a" "subject2 s = Fin b" "subject3 s = Fin c"
      and "tiny \<le> a" "a \<le> 101" "tiny \<le> b" "b \<le> 101" "tiny \<le> c" "c \<le> 101" using marks by auto
    from average_close [OF this(4-9)] show ?thesis unfolding avg abc by blast
  qed
qed

theorem student_average_close_witness:
  "\<exists>a b c m. subject1 ann = Fin a \<and> subject2 ann = Fin b \<and> subject3 ann = Fin c \<and>
     st_avg ann = Fin m \<and> 0 < m \<and> m \<le> 101 \<and> \<bar>m - (a + b + c) / 3\<bar> \<le> 1 / 10000"
  using student_average_close [OF ann_run, of ann] by (simp add: ann_def complete_def)

section \<open>What can go wrong\<close>

text \<open>A first student that is rejected makes the program read \<open>p[-1]\<close>.\<close>

lemma first_student_rejected:
  assumes "p \<noteq> []" and "students (p ! 0) [] inp = Done (q, r)" and "bad q"
  shows "entry_loop p 0 inp = Undefined"
proof -
  have "entry_back (p[0 := q]) 0 = Undefined" using entry_back_eq [of 0 "p[0 := q]"] assms by simp
  then show ?thesis using assms by (simp add: entry_loop.simps)
qed

text \<open>A student added from the menu keeps a rejected mark, and the total is whatever the memory held.\<close>

lemma rejected_mark_kept:
  "fst (student_main (\<lambda>_ _. zero_st) (''1 7 ann 50 60 70.5 2 8 bob 200'' @ [newline] @ ''8 '')) =
     Some [ann, zero_st\<lparr>roll := 8, st_name := ''bob'', subject1 := Fin (-1)\<rparr>]"
  by code_simp

text \<open>\<open>nan\<close> passes both comparisons.\<close>

lemma nan_accepted: "mark ''nan '' = (Some NaN, '' '')"
  by code_simp

end
