(* ===== verification/Sql_Parser.thy ===== *)
theory Sql_Parser
  imports C_Strings "HOL-Library.Monad_Syntax"
begin

text \<open>
  The parser \<^verbatim>\<open>src/sql-lexer-analysis/sql_parser.tab.c\<close> with its tables and its driver \<open>yyparse\<close>, over any scanner: \<open>yylex\<close> is a
  parameter that gives the kind of the next token, what it assigns to \<open>yylval\<close>, what it prints, and its state after that. The stacks
  have their top first. Reading the wrong member of \<open>YYSTYPE\<close>, or printing past the end of a block that an action allocated, is
  \<open>Bad_value\<close>; a stack that would have to grow is \<open>Stack_limit\<close>.
  What the scanner promises is the locale \<open>token_source\<close>; inside it the driver is shown to accept exactly the
  statements of the grammar. Messages to standard error are in the same list as those to standard output.
\<close>

section \<open>Token kinds and tables\<close>

definition YYEMPTY :: int where "YYEMPTY = -2"
definition IDENTIFIER :: int where "IDENTIFIER = 258"
definition NUMBER :: int where "NUMBER = 259"
definition SELECT :: int where "SELECT = 260"
definition FROM :: int where "FROM = 261"
definition WHERE :: int where "WHERE = 262"
definition INSERT :: int where "INSERT = 263"
definition INTO :: int where "INTO = 264"
definition VALUES :: int where "VALUES = 265"
definition UPDATE :: int where "UPDATE = 266"
definition SET :: int where "SET = 267"
definition EQ :: int where "EQ = 268"
definition COMMA :: int where "COMMA = 269"
definition SEMICOLON :: int where "SEMICOLON = 270"

lemmas token_kinds = IDENTIFIER_def NUMBER_def SELECT_def FROM_def WHERE_def EQ_def COMMA_def SEMICOLON_def

definition YYFINAL :: int where "YYFINAL = 5"
definition YYLAST :: int where "YYLAST = 11"
definition YYNTOKENS :: int where "YYNTOKENS = 16"
definition YYMAXUTOK :: int where "YYMAXUTOK = 270"
definition YYPACT_NINF :: int where "YYPACT_NINF = -8"
definition YYINITDEPTH :: nat where "YYINITDEPTH = 200"

definition yytranslate :: "int list" where
  "yytranslate = [0] @ replicate 255 2 @ [1, 2, 3, 4, 5, 6, 7, 8, 9, 10, 11, 12, 13, 14, 15]"

definition yypact :: "int list" where
  "yypact = [-4, -1, 3, -8, -6, -8, 1, 2, -8, 0, -8, 6, -7, -5, 7, -8, -8]"

definition yydefact :: "int list" where
  "yydefact = [0, 0, 0, 3, 0, 1, 0, 0, 5, 0, 4, 0, 0, 0, 0, 2, 6]"

definition yypgoto :: "int list" where
  "yypgoto = [-8, -8, -8, -8, -8]"

definition yydefgoto :: "int list" where
  "yydefgoto = [0, 2, 4, 9, 13]"

definition yytable :: "int list" where
  "yytable = [6, 1, 3, 5, 8, 10, 14, 11, 7, 12, 15, 16]"

definition yycheck :: "int list" where
  "yycheck = [6, 5, 3, 0, 3, 3, 13, 7, 14, 3, 15, 4]"

definition yyr1 :: "int list" where
  "yyr1 = [0, 16, 17, 18, 18, 19, 20]"

definition yyr2 :: "int list" where
  "yyr2 = [0, 2, 7, 1, 3, 1, 3]"

definition entry :: "int list \<Rightarrow> int \<Rightarrow> int" where
  "entry xs i = xs ! nat i"

definition YYTRANSLATE :: "int \<Rightarrow> int" where
  "YYTRANSLATE c = (if 0 \<le> c \<and> c \<le> YYMAXUTOK then entry yytranslate c else 2)"

section \<open>The driver\<close>

text \<open>\<open>Junk\<close> is a value that was never set.\<close>

datatype yystype = Str string | Num int | Junk

datatype sql_out = Unknown_character string | Echoed_text string | Parsed string string string | Error_line string

record 'l yypar =
  yyss :: "int list"
  yyvs :: "yystype list"
  yychar :: int
  yylval :: yystype
  yyerrstatus :: int
  yynerrs :: int
  outs :: "sql_out list"
  yyin :: 'l

datatype 'l yyres = Next "'l yypar" | Return int "'l yypar" | Stack_limit | Bad_value | Scanner_fails

text \<open>\<open>yynewstate\<close> and \<open>yysetstate\<close>.\<close>

definition yynewstate :: "int \<Rightarrow> 'l yypar \<Rightarrow> 'l yyres" where
  "yynewstate state p =
     (let p = p\<lparr>yyss := state # yyss p\<rparr> in
      if YYINITDEPTH \<le> length (yyss p) then Stack_limit
      else if state = YYFINAL then Return 0 p
      else Next p)"

text \<open>The semantic actions: the value of the left-hand side and what is printed.\<close>

definition show_int :: "int \<Rightarrow> string" where
  "show_int n = (if n < 0 then CHR ''-'' # dec_str (nat (- n)) else dec_str (nat n))"

text \<open>\<open>sprintf\<close> into a block of so many bytes from \<open>malloc\<close>; the string and its end must fit. The blocks are taken to be allocated.\<close>

definition sprintf_block :: "nat \<Rightarrow> string \<Rightarrow> string option" where
  "sprintf_block room s = (if length s + 1 \<le> room then Some s else None)"

fun yyaction :: "int \<Rightarrow> yystype list \<Rightarrow> (yystype \<times> sql_out list) option" where
  "yyaction n vs =
     (if n = 2 then
        (case (vs ! 5, vs ! 3, vs ! 1) of
           (Str cols, Str tab, Str cond) \<Rightarrow> Some (vs ! 6, [Parsed cols tab cond])
         | _ \<Rightarrow> None)
      else if n = 3 \<or> n = 5 then (case vs ! 0 of Str s \<Rightarrow> Some (Str s, []) | _ \<Rightarrow> None)
      else if n = 4 then
        (case (vs ! 2, vs ! 0) of (Str s, Str t) \<Rightarrow>
             map_option (\<lambda>tmp. (Str tmp, [])) (sprintf_block (length s + length t + 2) (s @ '','' @ t))
         | _ \<Rightarrow> None)
      else if n = 6 then
        (case (vs ! 2, vs ! 0) of (Str s, Num k) \<Rightarrow>
             map_option (\<lambda>tmp. (Str tmp, [])) (sprintf_block (length s + 20) (s @ ''='' @ show_int k))
         | _ \<Rightarrow> None)
      else Some (vs ! nat (entry yyr2 n - 1), []))"

declare yyaction.simps [simp del]

text \<open>What an \<open>int\<close> can hold, and that it prints in at most 11 characters.\<close>

definition c_int :: "int \<Rightarrow> bool" where
  "c_int n \<longleftrightarrow> - (2 ^ 31) \<le> n \<and> n < 2 ^ 31"

lemma dec_str_length: "n < 10 ^ k \<Longrightarrow> 0 < k \<Longrightarrow> length (dec_str n) \<le> k"
proof (induction k arbitrary: n)
  case (Suc k)
  show ?case
  proof (cases "n < 10")
    case False
    then have "0 < k" using Suc.prems by (cases k) auto
    moreover have "n div 10 < 10 ^ k" using Suc.prems by (simp add: less_mult_imp_div_less mult.commute)
    ultimately show ?thesis using Suc.IH [of "n div 10"] False by (simp add: dec_str.simps [of n])
  qed (simp add: dec_str.simps [of n])
qed simp

lemma show_int_length: "c_int n \<Longrightarrow> length (show_int n) \<le> 11"
proof -
  assume "c_int n"
  then have "nat n < 10 ^ 10" "nat (- n) < 10 ^ 10" by (auto simp: c_int_def)
  then show ?thesis using dec_str_length [of "nat n" 10] dec_str_length [of "nat (- n)" 10]
    by (auto simp: show_int_def)
qed

text \<open>The blocks are large enough.\<close>

lemma action_columns: "yyaction 4 (Str t # a # Str s # vs) = Some (Str (s @ '','' @ t), [])"
  by (simp add: yyaction.simps sprintf_block_def)

lemma action_condition: "c_int k \<Longrightarrow> yyaction 6 (Num k # a # Str s # vs) = Some (Str (s @ ''='' @ show_int k), [])"
  using show_int_length [of k] by (simp add: yyaction.simps sprintf_block_def)

definition yyreduce :: "int \<Rightarrow> 'l yypar \<Rightarrow> 'l yyres" where
  "yyreduce n p =
     (case yyaction n (yyvs p) of
        None \<Rightarrow> Bad_value
      | Some (v, ls) \<Rightarrow>
          let len = nat (entry yyr2 n);
              ss = drop len (yyss p);
              lhs = entry yyr1 n - YYNTOKENS;
              i = entry yypgoto lhs + hd ss;
              state = (if 0 \<le> i \<and> i \<le> YYLAST \<and> entry yycheck i = hd ss then entry yytable i else entry yydefgoto lhs)
          in yynewstate state (p\<lparr>yyss := ss, yyvs := v # drop len (yyvs p), outs := outs p @ ls\<rparr>))"

text \<open>\<open>yyerrlab1\<close>: states are popped until one shifts the token \<open>error\<close>; without one the parse is given up.\<close>

fun pop_error :: "int list \<Rightarrow> yystype list \<Rightarrow> (int \<times> int list \<times> yystype list) option" where
  "pop_error [] vs = None"
| "pop_error (s # ss) vs =
     (let n = entry yypact s + 1 in
      if entry yypact s \<noteq> YYPACT_NINF \<and> 0 \<le> n \<and> n \<le> YYLAST \<and> entry yycheck n = 1 \<and> 0 < entry yytable n
      then Some (entry yytable n, s # ss, vs)
      else if ss = [] then None
      else pop_error ss (tl vs))"

definition yyerrlab1 :: "'l yypar \<Rightarrow> 'l yyres" where
  "yyerrlab1 p =
     (case pop_error (yyss p) (yyvs p) of
        None \<Rightarrow> Return 1 (p\<lparr>yyerrstatus := 3\<rparr>)
      | Some (n, ss, vs) \<Rightarrow> yynewstate n (p\<lparr>yyerrstatus := 3, yyss := ss, yyvs := yylval p # vs\<rparr>))"

definition yyerrlab :: "'l yypar \<Rightarrow> 'l yyres" where
  "yyerrlab p =
     (let p = (if yyerrstatus p = 0 then p\<lparr>yynerrs := yynerrs p + 1, outs := outs p @ [Error_line ''syntax error'']\<rparr> else p) in
      if yyerrstatus p = 3 \<and> yychar p = 0 then Return 1 p
      else yyerrlab1 (if yyerrstatus p = 3 \<and> 0 < yychar p then p\<lparr>yychar := YYEMPTY\<rparr> else p))"

definition yydefault :: "'l yypar \<Rightarrow> 'l yyres" where
  "yydefault p = (let n = entry yydefact (hd (yyss p)) in if n = 0 then yyerrlab p else yyreduce n p)"

text \<open>\<open>yybackup\<close> from the point where the lookahead is known.\<close>

definition yydecide :: "'l yypar \<Rightarrow> 'l yyres" where
  "yydecide p =
     (let p = (if yychar p \<le> 0 then p\<lparr>yychar := 0\<rparr> else p) in
      if yychar p = 256 then yyerrlab1 (p\<lparr>yychar := 257\<rparr>)
      else
        let token = (if yychar p = 0 then 0 else YYTRANSLATE (yychar p));
            n = entry yypact (hd (yyss p)) + token in
        if n < 0 \<or> YYLAST < n \<or> entry yycheck n \<noteq> token then yydefault p
        else
          let n = entry yytable n in
          if n \<le> 0 then yyreduce (- n) p
          else
            yynewstate n
              (p\<lparr>yyerrstatus := (if yyerrstatus p \<noteq> 0 then yyerrstatus p - 1 else 0),
                 yyvs := yylval p # yyvs p, yychar := YYEMPTY\<rparr>))"

definition yybackup :: "('l \<Rightarrow> (int \<times> yystype option \<times> sql_out list \<times> 'l) option) \<Rightarrow> 'l yypar \<Rightarrow> 'l yyres" where
  "yybackup yylex p =
     (if entry yypact (hd (yyss p)) = YYPACT_NINF then yydefault p
      else if yychar p = YYEMPTY then
        (case yylex (yyin p) of
           None \<Rightarrow> Scanner_fails
         | Some (c, v, ls, l) \<Rightarrow>
             yydecide (p\<lparr>yychar := c, yylval := (case v of None \<Rightarrow> yylval p | Some x \<Rightarrow> x), outs := outs p @ ls, yyin := l\<rparr>))
      else yydecide p)"

datatype parse_end = Parse_returns int "sql_out list" | Parse_stack_limit | Parse_bad_value | Parse_scanner_fails

partial_function (option) yyrun ::
  "('l \<Rightarrow> (int \<times> yystype option \<times> sql_out list \<times> 'l) option) \<Rightarrow> 'l yypar \<Rightarrow> parse_end option" where
  "yyrun yylex p =
     (case yybackup yylex p of
        Next p \<Rightarrow> yyrun yylex p
      | Return r p \<Rightarrow> Some (Parse_returns r (outs p))
      | Stack_limit \<Rightarrow> Some Parse_stack_limit
      | Bad_value \<Rightarrow> Some Parse_bad_value
      | Scanner_fails \<Rightarrow> Some Parse_scanner_fails)"

declare yyrun.simps [code]

definition yystart :: "'l \<Rightarrow> 'l yypar" where
  "yystart l = \<lparr>yyss = [0], yyvs = [Junk], yychar = YYEMPTY, yylval = Num 0, yyerrstatus = 0, yynerrs = 0, outs = [], yyin = l\<rparr>"

definition yyparse :: "('l \<Rightarrow> (int \<times> yystype option \<times> sql_out list \<times> 'l) option) \<Rightarrow> 'l \<Rightarrow> parse_end option" where
  "yyparse yylex l = yyrun yylex (yystart l)"

section \<open>The grammar\<close>

text \<open>
  A token is its kind and its value. \<open>statement cols tab x n\<close> are the tokens of the statement
  \<^verbatim>\<open>SELECT cols FROM tab WHERE x = n;\<close>, and \<open>parse_statement\<close> cuts such a statement off the front.
\<close>

type_synonym token = "int \<times> yystype option"

fun more_columns :: "string list \<Rightarrow> token list" where
  "more_columns [] = []"
| "more_columns (c # cs) = (COMMA, None) # (IDENTIFIER, Some (Str c)) # more_columns cs"

definition statement :: "string \<Rightarrow> string list \<Rightarrow> string \<Rightarrow> string \<Rightarrow> int \<Rightarrow> token list" where
  "statement c cs tab x n =
     (SELECT, None) # (IDENTIFIER, Some (Str c)) # more_columns cs @
     [(FROM, None), (IDENTIFIER, Some (Str tab)), (WHERE, None), (IDENTIFIER, Some (Str x)), (EQ, None),
      (NUMBER, Some (Num n)), (SEMICOLON, None)]"

text \<open>What a statement makes the parser print.\<close>

fun joined :: "string \<Rightarrow> string list \<Rightarrow> string" where
  "joined c [] = c"
| "joined c (d # ds) = joined (c @ '','' @ d) ds"

definition parsed :: "string \<Rightarrow> string list \<Rightarrow> string \<Rightarrow> string \<Rightarrow> int \<Rightarrow> sql_out" where
  "parsed c cs tab x n = Parsed (joined c cs) tab (x @ ''='' @ show_int n)"

text \<open>The tokens a scanner can deliver; the value of a number is an \<open>int\<close>.\<close>

definition token_ok :: "token \<Rightarrow> bool" where
  "token_ok t \<longleftrightarrow> 258 \<le> fst t \<and> fst t \<le> 270 \<and>
     (if fst t = IDENTIFIER then \<exists>s. snd t = Some (Str s)
      else if fst t = NUMBER then \<exists>n. snd t = Some (Num n) \<and> c_int n else snd t = None)"

text \<open>The same grammar as a recursive descent: a statement is cut off the front of the tokens.\<close>

definition expect :: "int \<Rightarrow> token list \<Rightarrow> (yystype option \<times> token list) option" where
  "expect c ts = (case ts of [] \<Rightarrow> None | t # ts \<Rightarrow> if fst t = c then Some (snd t, ts) else None)"

definition str_of :: "yystype option \<Rightarrow> string" where
  "str_of v = (case v of Some (Str s) \<Rightarrow> s | _ \<Rightarrow> [])"

definition num_of :: "yystype option \<Rightarrow> int" where
  "num_of v = (case v of Some (Num n) \<Rightarrow> n | _ \<Rightarrow> 0)"

lemma str_of_Str: "str_of (Some (Str s)) = s"
  and num_of_Num: "num_of (Some (Num n)) = n"
  by (simp_all add: str_of_def num_of_def)

fun parse_columns :: "string \<Rightarrow> token list \<Rightarrow> (string \<times> token list) option" where
  "parse_columns c ((k, v) # (k', v') # ts) =
     (if k = FROM then Some (c, (k', v') # ts)
      else if k = COMMA \<and> k' = IDENTIFIER then parse_columns (c @ '','' @ str_of v') ts else None)"
| "parse_columns c [(k, v)] = (if k = FROM then Some (c, []) else None)"
| "parse_columns c [] = None"

definition parse_condition :: "string \<Rightarrow> string \<Rightarrow> token list \<Rightarrow> (sql_out \<times> token list) option" where
  "parse_condition cols tab ts = do {
     (_, ts) \<leftarrow> expect WHERE ts;
     (x, ts) \<leftarrow> expect IDENTIFIER ts;
     (_, ts) \<leftarrow> expect EQ ts;
     (n, ts) \<leftarrow> expect NUMBER ts;
     (_, ts) \<leftarrow> expect SEMICOLON ts;
     Some (Parsed cols tab (str_of x @ ''='' @ show_int (num_of n)), ts) }"

definition parse_statement :: "token list \<Rightarrow> (sql_out \<times> token list) option" where
  "parse_statement ts = do {
     (_, ts) \<leftarrow> expect SELECT ts;
     (c, ts) \<leftarrow> expect IDENTIFIER ts;
     (cols, ts) \<leftarrow> parse_columns (str_of c) ts;
     (tab, ts) \<leftarrow> expect IDENTIFIER ts;
     parse_condition cols (str_of tab) ts }"

text \<open>The result of \<open>yyparse\<close> and what it prints, for what was cut off.\<close>

definition verdict :: "(sql_out \<times> token list) option \<Rightarrow> int \<times> sql_out list" where
  "verdict q =
     (case q of
        None \<Rightarrow> (1, [Error_line ''syntax error''])
      | Some (out, ts) \<Rightarrow> if ts = [] then (0, [out]) else (1, [out, Error_line ''syntax error'']))"

definition reported :: "sql_out list \<Rightarrow> sql_out list" where
  "reported os = filter (\<lambda>out. \<forall>s. out \<noteq> Unknown_character s) os"

lemma reported_append [simp]: "reported (xs @ ys) = reported xs @ reported ys"
  and reported_Parsed [simp]: "reported [Parsed a b c] = [Parsed a b c]"
  and reported_Error [simp]: "reported [Error_line m] = [Error_line m]"
  and reported_Nil [simp]: "reported [] = []"
  by (simp_all add: reported_def)

section \<open>The decisions of the driver\<close>

text \<open>The entry of the tables for a state and a symbol; 0 when there is none.\<close>

definition yylookup :: "int \<Rightarrow> int \<Rightarrow> int" where
  "yylookup state token =
     (let n = entry yypact state + token in
      if n < 0 \<or> YYLAST < n \<or> entry yycheck n \<noteq> token then 0 else entry yytable n)"

text \<open>The states that read a token, with the tokens they shift.\<close>

definition shifts :: "(int \<times> int \<times> int) list" where
  "shifts =
     [(0, SELECT, 1), (1, IDENTIFIER, 3), (4, FROM, 6), (4, COMMA, 7), (6, IDENTIFIER, 8), (7, IDENTIFIER, 10), (9, WHERE, 11),
      (11, IDENTIFIER, 12), (12, EQ, 14), (13, SEMICOLON, 15), (14, NUMBER, 16)]"

definition reading :: "int list" where
  "reading = [0, 1, 2, 4, 6, 7, 9, 11, 12, 13, 14]"

lemma reading_states:
  "\<forall>s\<in>set reading. entry yypact s \<noteq> YYPACT_NINF \<and> entry yydefact s = 0 \<and> 0 \<le> s \<and> s < 17"
  by code_simp

lemma lookup_table:
  "\<forall>s\<in>set reading. \<forall>c\<in>set [258..270].
     yylookup s (YYTRANSLATE c) = (case find (\<lambda>(a, b, n). a = s \<and> b = c) shifts of None \<Rightarrow> 0 | Some (_, _, n) \<Rightarrow> n)"
  by code_simp

lemma lookup_token:
  assumes "s \<in> set reading" "258 \<le> c" "c \<le> 270"
  shows "yylookup s (YYTRANSLATE c) = (case find (\<lambda>(a, b, n). a = s \<and> b = c) shifts of None \<Rightarrow> 0 | Some (_, _, n) \<Rightarrow> n)"
  using lookup_table assms by (metis atLeastAtMost_iff set_upto)

lemmas find_shift = shifts_def token_kinds

lemma lookup_2: "258 \<le> c \<Longrightarrow> c \<le> 270 \<Longrightarrow> yylookup 2 (YYTRANSLATE c) = 0"
  by (simp add: lookup_token reading_def find_shift)

text \<open>What the tables say, state by state.\<close>

lemma reductions:
  "entry yypact 3 = YYPACT_NINF" "entry yypact 8 = YYPACT_NINF" "entry yypact 10 = YYPACT_NINF" "entry yypact 15 = YYPACT_NINF"
  "entry yypact 16 = YYPACT_NINF" "entry yydefact 3 = 3" "entry yydefact 8 = 5" "entry yydefact 10 = 4" "entry yydefact 15 = 2"
  "entry yydefact 16 = 6" "entry yyr1 2 = 17" "entry yyr1 3 = 18" "entry yyr1 4 = 18" "entry yyr1 5 = 19" "entry yyr1 6 = 20"
  "entry yyr2 2 = 7" "entry yyr2 3 = 1" "entry yyr2 4 = 3" "entry yyr2 5 = 1" "entry yyr2 6 = 3"
  "YYNTOKENS = 16" "entry yypgoto 1 = -8" "entry yypgoto 2 = -8" "entry yypgoto 3 = -8" "entry yypgoto 4 = -8"
  "entry yydefgoto 1 = 2" "entry yydefgoto 2 = 4" "entry yydefgoto 3 = 9" "entry yydefgoto 4 = 13"
  "entry yycheck 3 = 0"
  by code_simp+

lemma lookup_eof: "\<forall>s\<in>set reading. yylookup s 0 = (if s = 2 then 5 else 0)"
  by code_simp

lemmas lookups = lookup_token lookup_eof [rule_format] reading_def find_shift

lemma no_error_shift:
  "\<forall>s\<in>set [0..16]. \<not> (entry yypact s \<noteq> YYPACT_NINF \<and> 0 \<le> entry yypact s + 1 \<and> entry yypact s + 1 \<le> YYLAST \<and>
     entry yycheck (entry yypact s + 1) = 1 \<and> 0 < entry yytable (entry yypact s + 1))"
  by code_simp

lemma pop_error_None: "\<forall>s\<in>set ss. 0 \<le> s \<and> s \<le> 16 \<Longrightarrow> pop_error ss vs = None"
  using no_error_shift by (induction ss vs rule: pop_error.induct) (auto simp: Let_def)

lemma yytable_pos: "\<forall>n\<in>set [0..11]. 0 < entry yytable n"
  by code_simp

lemma yylookup_0:
  "yylookup s k = 0 \<Longrightarrow>
   entry yypact s + k < 0 \<or> YYLAST < entry yypact s + k \<or> entry yycheck (entry yypact s + k) \<noteq> k"
proof (rule ccontr)
  assume "yylookup s k = 0" and n: "\<not> (entry yypact s + k < 0 \<or> YYLAST < entry yypact s + k \<or> entry yycheck (entry yypact s + k) \<noteq> k)"
  then have "entry yytable (entry yypact s + k) = 0" by (simp add: yylookup_def Let_def)
  moreover have "entry yypact s + k \<in> set [0..11]" using n by (simp only: YYLAST_def set_upto atLeastAtMost_iff) linarith
  ultimately show False using yytable_pos by fastforce
qed

section \<open>The parser over any scanner\<close>

text \<open>\<open>toks l\<close> are the tokens still to come in the scanner's state \<open>l\<close>; besides them it may print lines on unknown characters.\<close>

locale token_source =
  fixes yylex :: "'l \<Rightarrow> (int \<times> yystype option \<times> sql_out list \<times> 'l) option"
    and toks :: "'l \<Rightarrow> token list" and ready :: "'l \<Rightarrow> bool"
  assumes next_token: "ready l \<Longrightarrow> toks l = t # ts \<Longrightarrow>
      \<exists>ls l'. yylex l = Some (fst t, snd t, ls, l') \<and> ready l' \<and> toks l' = ts \<and> reported ls = []"
    and end_token: "ready l \<Longrightarrow> toks l = [] \<Longrightarrow> \<exists>v ls l'. yylex l = Some (0, v, ls, l') \<and> reported ls = []"
    and tokens_ok: "t \<in> set (toks l) \<Longrightarrow> token_ok t"
begin

text \<open>A configuration between two tokens.\<close>

definition cfg :: "'l yypar \<Rightarrow> int list \<Rightarrow> yystype list \<Rightarrow> token list \<Rightarrow> sql_out list \<Rightarrow> bool" where
  "cfg p ss vs ts os \<longleftrightarrow> yyss p = ss \<and> yyvs p = vs \<and> yychar p = YYEMPTY \<and> yyerrstatus p = 0 \<and> ready (yyin p) \<and> toks (yyin p) = ts \<and>
     reported (outs p) = os \<and> (\<forall>s\<in>set ss. 0 \<le> s \<and> s \<le> 16)"

definition runs :: "'l yypar \<Rightarrow> int \<Rightarrow> sql_out list \<Rightarrow> bool" where
  "runs p r os \<longleftrightarrow> (\<exists>out. yyrun yylex p = Some (Parse_returns r out) \<and> reported out = os)"

lemma runs_Next: "yybackup yylex p = Next p' \<Longrightarrow> runs p' r os \<Longrightarrow> runs p r os"
  by (simp add: runs_def yyrun.simps [of yylex p])

lemma runs_Return: "yybackup yylex p = Return r p' \<Longrightarrow> reported (outs p') = os \<Longrightarrow> runs p r os"
  by (simp add: runs_def yyrun.simps [of yylex p])

lemma runs_shift:
  assumes c: "cfg p (s # ss) vs (t # ts) os" and s: "s \<in> set reading" and len: "length ss < 100"
    and n: "yylookup s (YYTRANSLATE (fst t)) = n" "0 < n" "n < 17" "n \<noteq> 5"
    and rest: "\<And>p'. cfg p' (n # s # ss) ((case snd t of None \<Rightarrow> yylval p | Some x \<Rightarrow> x) # vs) ts os \<Longrightarrow> runs p' r os'"
  shows "runs p r os'"
proof -
  have p: "yyss p = s # ss" "yyvs p = vs" "yychar p = YYEMPTY" "yyerrstatus p = 0" "toks (yyin p) = t # ts" "reported (outs p) = os"
    and ss: "\<forall>s\<in>set (s # ss). 0 \<le> s \<and> s \<le> 16"
    and r: "ready (yyin p)"
    using c by (auto simp: cfg_def)
  obtain ls l where l: "yylex (yyin p) = Some (fst t, snd t, ls, l)" "ready l" "toks l = ts" "reported ls = []" using next_token [OF r p(5)] by auto
  have t: "258 \<le> fst t" "fst t \<le> 270" using tokens_ok [of t "yyin p"] p(5) by (auto simp: token_ok_def)
  let ?p = "p\<lparr>yychar := YYEMPTY, yylval := (case snd t of None \<Rightarrow> yylval p | Some x \<Rightarrow> x), outs := outs p @ ls, yyin := l,
    yyerrstatus := 0, yyvs := (case snd t of None \<Rightarrow> yylval p | Some x \<Rightarrow> x) # vs, yyss := n # s # ss\<rparr>"
  have look: "\<not> (entry yypact s + YYTRANSLATE (fst t) < 0 \<or> YYLAST < entry yypact s + YYTRANSLATE (fst t) \<or>
      entry yycheck (entry yypact s + YYTRANSLATE (fst t)) \<noteq> YYTRANSLATE (fst t))"
    "entry yytable (entry yypact s + YYTRANSLATE (fst t)) = n"
    using n(1,2) by (auto simp: yylookup_def Let_def split: if_splits)
  have "yybackup yylex p = Next ?p"
    using reading_states s p l t look n len
    by (simp add: yybackup_def yydecide_def Let_def yynewstate_def YYFINAL_def YYINITDEPTH_def)
  moreover have "cfg ?p (n # s # ss) ((case snd t of None \<Rightarrow> yylval p | Some x \<Rightarrow> x) # vs) ts os"
    using p l ss n by (simp add: cfg_def)
  ultimately show ?thesis using runs_Next rest by blast
qed

lemma runs_error:
  assumes c: "cfg p (s # ss) vs ts os" and s: "s \<in> set reading"
    and n: "yylookup s (case ts of [] \<Rightarrow> 0 | t # _ \<Rightarrow> YYTRANSLATE (fst t)) = 0"
  shows "runs p 1 (os @ [Error_line ''syntax error''])"
proof -
  have p: "yyss p = s # ss" "yyvs p = vs" "yychar p = YYEMPTY" "yyerrstatus p = 0" "toks (yyin p) = ts" "reported (outs p) = os"
    and ss: "\<forall>s\<in>set (s # ss). 0 \<le> s \<and> s \<le> 16"
    and r: "ready (yyin p)"
    using c by (auto simp: cfg_def)
  obtain c v ls l where l: "yylex (yyin p) = Some (c, v, ls, l)" "reported ls = []" and
    c: "c = 0 \<and> ts = [] \<or> (\<exists>t ts'. ts = t # ts' \<and> c = fst t \<and> 258 \<le> c \<and> c \<le> 270)"
  proof (cases ts)
    case Nil
    then show ?thesis using end_token [of "yyin p"] r p(5) that by blast
  next
    case (Cons t ts')
    then show ?thesis using next_token [of "yyin p" t ts'] r tokens_ok [of t "yyin p"] p(5) that by (auto simp: token_ok_def)
  qed
  let ?k = "if c = 0 then 0 else YYTRANSLATE c"
  have k: "entry yypact s + ?k < 0 \<or> YYLAST < entry yypact s + ?k \<or> entry yycheck (entry yypact s + ?k) \<noteq> ?k"
    using n c by (intro yylookup_0) (auto split: list.splits)
  have c': "0 \<le> c" "c \<noteq> 256" using c by auto
  have pact: "entry yypact s \<noteq> YYPACT_NINF" "entry yydefact s = 0" using reading_states s by blast+
  obtain p' where p': "yybackup yylex p = yydefault p'" "yyss p' = s # ss" "yyvs p' = vs" "outs p' = outs p @ ls" "yyerrstatus p' = 0"
  proof (cases "c = 0")
    case True
    then show thesis using k that unfolding yybackup_def yydecide_def Let_def by (simp add: p(1,2,3,4) l(1) pact)
  next
    case False
    then have "\<not> c \<le> 0" "c \<noteq> 256" using c' by auto
    then show thesis using k that unfolding yybackup_def yydecide_def Let_def by (simp add: p(1,2,3,4) l(1) pact)
  qed
  obtain p'' where "yyerrlab p' = Return 1 p''" "outs p'' = outs p @ ls @ [Error_line ''syntax error'']"
    using pop_error_None [OF ss] p' by (simp add: yyerrlab_def yyerrlab1_def Let_def)
  moreover have "yydefault p' = yyerrlab p'" using p'(2) pact(2) by (simp add: yydefault_def)
  ultimately show ?thesis using p'(1) runs_Return [of p 1 p''] p(6) l(2) by simp
qed

lemma runs_reduce:
  assumes c: "cfg p (s # ss) vs ts os" and s: "entry yypact s = YYPACT_NINF" and n: "entry yydefact s = n" "n \<noteq> 0"
    and act: "yyaction n vs = Some (v, ls)" and len: "length ss < 100"
    and g: "entry yypgoto (entry yyr1 n - YYNTOKENS) = -8" 
      "\<not> (8 \<le> hd (drop (nat (entry yyr2 n)) (s # ss)) \<and> entry yycheck (hd (drop (nat (entry yyr2 n)) (s # ss)) - 8) = hd (drop (nat (entry yyr2 n)) (s # ss)))"
      "entry yydefgoto (entry yyr1 n - YYNTOKENS) = g" "0 \<le> g" "g \<le> 16" "g \<noteq> 5"
    and rest: "\<And>p'. cfg p' (g # drop (nat (entry yyr2 n)) (s # ss)) (v # drop (nat (entry yyr2 n)) vs) ts (os @ reported ls) \<Longrightarrow>
      runs p' r os'"
  shows "runs p r os'"
proof -
  have p: "yyss p = s # ss" "yyvs p = vs" "yychar p = YYEMPTY" "yyerrstatus p = 0" "toks (yyin p) = ts" "reported (outs p) = os"
    and ss: "\<forall>s\<in>set (s # ss). 0 \<le> s \<and> s \<le> 16"
    using c by (auto simp: cfg_def)
  let ?d = "drop (nat (entry yyr2 n))"
  let ?p = "p\<lparr>yyss := g # ?d (s # ss), yyvs := v # ?d vs, outs := outs p @ ls\<rparr>"
  have "length (g # ?d (s # ss)) < 200" using len by simp
  then have "yybackup yylex p = Next ?p"
    using s n p act g
    by (simp add: yybackup_def yydefault_def yyreduce_def yynewstate_def Let_def YYFINAL_def YYINITDEPTH_def) blast
  moreover have "cfg ?p (g # ?d (s # ss)) (v # ?d vs) ts (os @ reported ls)"
    using c p ss g(4,5) set_drop_subset [of "nat (entry yyr2 n)" "s # ss"] by (auto simp: cfg_def)
  ultimately show ?thesis using runs_Next rest by blast
qed

text \<open>The end of the input after a statement.\<close>

lemma runs_accept:
  assumes c: "cfg p [2, 0] vs [] os"
  shows "runs p 0 os"
proof -
  have p: "yyss p = [2, 0]" "yychar p = YYEMPTY" "toks (yyin p) = []" "reported (outs p) = os" using c by (auto simp: cfg_def)
  obtain v ls l where l: "yylex (yyin p) = Some (0, v, ls, l)" "reported ls = []" using end_token [OF _ p(3)] c by (auto simp: cfg_def)
  have e: "entry yypact 2 = 3" "entry yycheck 3 = 0" "entry yytable 3 = 5" by code_simp+
  obtain p' where "yybackup yylex p = Return 0 p'" "outs p' = outs p @ ls"
    using p l e by (simp add: yybackup_def yydecide_def yynewstate_def Let_def YYPACT_NINF_def YYLAST_def YYFINAL_def YYINITDEPTH_def)
  then show ?thesis using runs_Return [of p 0 p' os] p(4) l(2) by simp
qed

text \<open>The driver at \<open>p\<close>, with \<open>os\<close> printed, behaves as the recursive descent that returns \<open>q\<close>.\<close>

definition behaves :: "'l yypar \<Rightarrow> sql_out list \<Rightarrow> (sql_out \<times> token list) option \<Rightarrow> bool" where
  "behaves p os q \<longleftrightarrow> runs p (fst (verdict q)) (os @ snd (verdict q))"

text \<open>A state that shifts exactly the token \<open>c\<close>.\<close>

lemma behaves_expect:
  assumes c: "cfg p (s # ss) vs ts os" and s: "s \<in> set reading" "yylookup s 0 = 0" and len: "length ss < 100"
    and look: "\<And>k. 258 \<le> k \<Longrightarrow> k \<le> 270 \<Longrightarrow> yylookup s (YYTRANSLATE k) = (if k = c then n else 0)"
    and n: "0 < n" "n < 17" "n \<noteq> 5"
    and rest: "\<And>p' v ts'. ts = (c, v) # ts' \<Longrightarrow> token_ok (c, v) \<Longrightarrow>
      cfg p' (n # s # ss) ((case v of None \<Rightarrow> yylval p | Some x \<Rightarrow> x) # vs) ts' os \<Longrightarrow> behaves p' os (f (v, ts'))"
  shows "behaves p os (expect c ts \<bind> f)"
proof (cases ts)
  case Nil
  then have "runs p 1 (os @ [Error_line ''syntax error''])" using runs_error [OF c s(1)] s(2) by simp
  then show ?thesis using Nil by (simp add: behaves_def verdict_def expect_def)
next
  case (Cons t ts')
  have ok: "token_ok t" using tokens_ok [of t "yyin p"] c Cons by (simp add: cfg_def)
  then have k: "yylookup s (YYTRANSLATE (fst t)) = (if fst t = c then n else 0)" by (intro look) (auto simp: token_ok_def)
  show ?thesis
  proof (cases "fst t = c")
    case True
    then have t: "t = (c, snd t)" by (simp add: prod_eq_iff)
    have "runs p r os'" if "\<And>p'. cfg p' (n # s # ss) ((case snd t of None \<Rightarrow> yylval p | Some x \<Rightarrow> x) # vs) ts' os \<Longrightarrow> runs p' r os'"
      for r os'
      using runs_shift [OF c [unfolded Cons] s(1) len _ n that] k True by simp
    then show ?thesis using rest [of "snd t" ts'] ok t True Cons by (simp add: behaves_def expect_def)
  next
    case False
    then have "runs p 1 (os @ [Error_line ''syntax error''])" using runs_error [OF c s(1)] k Cons by simp
    then show ?thesis using Cons False by (simp add: behaves_def verdict_def expect_def)
  qed
qed

lemma behaves_end:
  assumes c: "cfg p [2, 0] vs ts (os @ [out])"
  shows "behaves p os (Some (out, ts))"
proof (cases ts)
  case Nil
  then show ?thesis using runs_accept [OF c [unfolded Nil]] by (simp add: behaves_def verdict_def)
next
  case (Cons t ts')
  have "token_ok t" using tokens_ok [of t "yyin p"] c Cons by (simp add: cfg_def)
  then have "yylookup 2 (YYTRANSLATE (fst t)) = 0" using lookup_2 by (auto simp: token_ok_def)
  then have "runs p 1 ((os @ [out]) @ [Error_line ''syntax error''])" using runs_error [OF c] Cons by (simp add: reading_def)
  then show ?thesis using Cons by (simp add: behaves_def verdict_def)
qed

lemma behaves_reduce:
  assumes c: "cfg p (s # ss) vs ts os" and s: "entry yypact s = YYPACT_NINF" and n: "entry yydefact s = n" "n \<noteq> 0"
    and act: "yyaction n vs = Some (v, [])" and len: "length ss < 100"
    and g: "entry yypgoto (entry yyr1 n - YYNTOKENS) = -8" 
      "\<not> (8 \<le> hd (drop (nat (entry yyr2 n)) (s # ss)) \<and> entry yycheck (hd (drop (nat (entry yyr2 n)) (s # ss)) - 8) = hd (drop (nat (entry yyr2 n)) (s # ss)))"
      "entry yydefgoto (entry yyr1 n - YYNTOKENS) = g" "0 \<le> g" "g \<le> 16" "g \<noteq> 5"
    and rest: "\<And>p'. cfg p' (g # drop (nat (entry yyr2 n)) (s # ss)) (v # drop (nat (entry yyr2 n)) vs) ts os \<Longrightarrow> behaves p' os q"
  shows "behaves p os q"
  unfolding behaves_def
  by (rule runs_reduce [OF c s n act len g]) (use rest in \<open>simp add: behaves_def\<close>)

text \<open>The states of the automaton, from the last one back.\<close>

lemma at_13:
  assumes "cfg p [13, 11, 9, 6, 4, 1, 0] (Str cond # a # Str tab # b # Str cols # d # vs) ts os"
  shows "behaves p os (expect SEMICOLON ts \<bind> (\<lambda>(_, ts). Some (Parsed cols tab cond, ts)))"
proof (rule behaves_expect [OF assms, where n = 15])
  fix p' v ts'
  let ?x = "case v of None \<Rightarrow> yylval p | Some x \<Rightarrow> x"
  assume "cfg p' [15, 13, 11, 9, 6, 4, 1, 0] (?x # Str cond # a # Str tab # b # Str cols # d # vs) ts' os"
  then have "runs p' r os'" if "\<And>p''. cfg p'' [2, 0] (d # vs) ts' (os @ [Parsed cols tab cond]) \<Longrightarrow> runs p'' r os'" for r os'
    by (rule runs_reduce [where n = 2 and v = d and ls = "[Parsed cols tab cond]" and g = 2])
      (use that in \<open>simp_all add: yyaction.simps reductions\<close>)
  then show "behaves p' os ((\<lambda>(_, ts). Some (Parsed cols tab cond, ts)) (v, ts'))"
    using behaves_end by (simp add: behaves_def)
qed (simp_all add: lookups)

lemma at_9:
  assumes "cfg p [9, 6, 4, 1, 0] (Str tab # b # Str cols # d # vs) ts os"
  shows "behaves p os (parse_condition cols tab ts)"
  unfolding parse_condition_def
proof (rule behaves_expect [OF assms, where n = 11])
  fix p' v ts'
  assume c: "cfg p' [11, 9, 6, 4, 1, 0] ((case v of None \<Rightarrow> yylval p | Some x \<Rightarrow> x) # Str tab # b # Str cols # d # vs) ts' os"
  obtain a where c: "cfg p' [11, 9, 6, 4, 1, 0] (a # Str tab # b # Str cols # d # vs) ts' os" using c by blast
  show "behaves p' os ((\<lambda>(_, ts). do {
      (x, ts) \<leftarrow> expect IDENTIFIER ts; (_, ts) \<leftarrow> expect EQ ts; (n, ts) \<leftarrow> expect NUMBER ts; (_, ts) \<leftarrow> expect SEMICOLON ts;
      Some (Parsed cols tab (str_of x @ ''='' @ show_int (num_of n)), ts) }) (v, ts'))"
    unfolding prod.case
  proof (rule behaves_expect [OF c, where n = 12])
    fix p x ts
    assume "token_ok (IDENTIFIER, x)"
    then obtain s where x: "x = Some (Str s)" by (auto simp: token_ok_def)
    assume "cfg p [12, 11, 9, 6, 4, 1, 0] ((case x of None \<Rightarrow> yylval p' | Some x \<Rightarrow> x) # a # Str tab # b # Str cols # d # vs) ts os"
    then have c: "cfg p [12, 11, 9, 6, 4, 1, 0] (Str s # a # Str tab # b # Str cols # d # vs) ts os" by (simp add: x)
    show "behaves p os ((\<lambda>(x, ts). do {
        (_, ts) \<leftarrow> expect EQ ts; (n, ts) \<leftarrow> expect NUMBER ts; (_, ts) \<leftarrow> expect SEMICOLON ts;
        Some (Parsed cols tab (str_of x @ ''='' @ show_int (num_of n)), ts) }) (x, ts))"
      unfolding prod.case
    proof (rule behaves_expect [OF c, where n = 14])
      fix p' v ts'
      assume "cfg p' [14, 12, 11, 9, 6, 4, 1, 0] ((case v of None \<Rightarrow> yylval p | Some x \<Rightarrow> x) # Str s # a # Str tab # b # Str cols # d # vs) ts' os"
      then obtain e where c: "cfg p' [14, 12, 11, 9, 6, 4, 1, 0] (e # Str s # a # Str tab # b # Str cols # d # vs) ts' os" by blast
      show "behaves p' os ((\<lambda>(_, ts). do {
          (n, ts) \<leftarrow> expect NUMBER ts; (_, ts) \<leftarrow> expect SEMICOLON ts;
          Some (Parsed cols tab (str_of x @ ''='' @ show_int (num_of n)), ts) }) (v, ts'))"
        unfolding prod.case
      proof (rule behaves_expect [OF c, where n = 16])
        fix p y ts
        assume "token_ok (NUMBER, y)"
        then obtain k where y: "y = Some (Num k)" "c_int k" by (auto simp: token_ok_def token_kinds)
        assume "cfg p [16, 14, 12, 11, 9, 6, 4, 1, 0] ((case y of None \<Rightarrow> yylval p' | Some x \<Rightarrow> x) # e # Str s # a # Str tab # b # Str cols # d # vs) ts os"
        then show "behaves p os ((\<lambda>(n, ts). do {
            (_, ts) \<leftarrow> expect SEMICOLON ts; Some (Parsed cols tab (str_of x @ ''='' @ show_int (num_of n)), ts) }) (y, ts))"
          by (rule behaves_reduce [where n = 6 and v = "Str (s @ ''='' @ show_int k)" and g = 13])
            (simp_all add: action_condition y reductions x str_of_Str num_of_Num at_13)
      qed (simp_all add: lookups)
    qed (simp_all add: lookups)
  qed (simp_all add: lookups)
qed (simp_all add: lookups)

lemma at_6:
  assumes "cfg p [6, 4, 1, 0] (b # Str cols # d # vs) ts os"
  shows "behaves p os (do { (tab, ts) \<leftarrow> expect IDENTIFIER ts; parse_condition cols (str_of tab) ts })"
proof (rule behaves_expect [OF assms, where n = 8])
  fix p' x ts'
  assume "token_ok (IDENTIFIER, x)"
  then obtain s where x: "x = Some (Str s)" by (auto simp: token_ok_def)
  assume "cfg p' [8, 6, 4, 1, 0] ((case x of None \<Rightarrow> yylval p | Some x \<Rightarrow> x) # b # Str cols # d # vs) ts' os"
  then show "behaves p' os ((\<lambda>(tab, ts). parse_condition cols (str_of tab) ts) (x, ts'))"
    by (rule behaves_reduce [where n = 5 and v = "Str s" and g = 9])
      (simp_all add: yyaction.simps reductions x str_of_Str at_9)
qed (simp_all add: lookups)

text \<open>State 4 shifts a comma or \<open>FROM\<close>; it is met again after every further column.\<close>

lemma at_4:
  assumes "cfg p [4, 1, 0] (Str cols # d # vs) ts os"
  shows "behaves p os (do { (cols, ts) \<leftarrow> parse_columns cols ts; (tab, ts) \<leftarrow> expect IDENTIFIER ts; parse_condition cols (str_of tab) ts })"
  using assms
proof (induction "length ts" arbitrary: p cols ts rule: less_induct)
  case less
  show ?case
  proof (cases ts)
    case Nil
    then have "runs p 1 (os @ [Error_line ''syntax error''])" using runs_error [OF less.prems] by (simp add: lookups)
    then show ?thesis using Nil by (simp add: behaves_def verdict_def)
  next
    case (Cons t ts')
    have ok: "token_ok t" using tokens_ok [of t "yyin p"] less.prems Cons by (simp add: cfg_def)
    then have r: "258 \<le> fst t" "fst t \<le> 270" by (auto simp: token_ok_def)
    consider (from_) "fst t = FROM" | (comma) "fst t = COMMA" | (other) "fst t \<noteq> FROM" "fst t \<noteq> COMMA" by blast
    then show ?thesis
    proof cases
      case from_
      have "parse_columns cols ts = Some (cols, ts')" using from_ Cons by (cases t; cases ts') auto
      moreover have "behaves p os (do { (tab, ts) \<leftarrow> expect IDENTIFIER ts'; parse_condition cols (str_of tab) ts })"
        unfolding behaves_def
        by (rule runs_shift [OF less.prems [unfolded Cons], where n = 6])
          (use r from_ at_6 in \<open>auto simp: lookups behaves_def\<close>)
      ultimately show ?thesis by simp
    next
      case comma
      have nxt: "behaves p' os (do { (cols, ts) \<leftarrow> parse_columns cols ts; (tab, ts) \<leftarrow> expect IDENTIFIER ts; parse_condition cols (str_of tab) ts })"
        if c: "cfg p' [7, 4, 1, 0] (a # Str cols # d # vs) ts' os" for p' a
      proof -
        have "behaves p' os (expect IDENTIFIER ts' \<bind> (\<lambda>(x, ts). do {
            (cols, ts) \<leftarrow> parse_columns (cols @ '','' @ str_of x) ts; (tab, ts) \<leftarrow> expect IDENTIFIER ts;
            parse_condition cols (str_of tab) ts }))"
        proof (rule behaves_expect [OF c, where n = 10])
          fix q x us
          assume us: "ts' = (IDENTIFIER, x) # us" and "token_ok (IDENTIFIER, x)"
          then obtain s where x: "x = Some (Str s)" by (auto simp: token_ok_def)
          assume "cfg q [10, 7, 4, 1, 0] ((case x of None \<Rightarrow> yylval p' | Some x \<Rightarrow> x) # a # Str cols # d # vs) us os"
          then show "behaves q os ((\<lambda>(x, ts). do {
              (cols, ts) \<leftarrow> parse_columns (cols @ '','' @ str_of x) ts; (tab, ts) \<leftarrow> expect IDENTIFIER ts;
              parse_condition cols (str_of tab) ts }) (x, us))"
            by (rule behaves_reduce [where n = 4 and v = "Str (cols @ '','' @ s)" and g = 4])
              (use less.hyps [of us] us Cons in \<open>simp_all add: action_columns reductions x str_of_Str\<close>)
        qed (simp_all add: lookups)
        moreover have "parse_columns cols ts =
            (case ts' of [] \<Rightarrow> None | (k, x) # us \<Rightarrow> if k = IDENTIFIER then parse_columns (cols @ '','' @ str_of x) us else None)"
          using comma Cons by (cases t; cases ts') (auto simp: token_kinds)
        ultimately show ?thesis by (cases ts') (auto simp: expect_def split: if_splits)
      qed
      show ?thesis
        unfolding behaves_def
        by (rule runs_shift [OF less.prems [unfolded Cons], where n = 7])
          (use r comma nxt in \<open>auto simp: lookups behaves_def\<close>)
    next
      case other
      then have "parse_columns cols ts = None" using Cons by (cases t; cases ts') auto
      moreover have "runs p 1 (os @ [Error_line ''syntax error''])"
        by (rule runs_error [OF less.prems]) (use r other Cons in \<open>auto simp: lookups\<close>)
      ultimately show ?thesis by (simp add: behaves_def verdict_def)
    qed
  qed
qed

text \<open>The parser returns for every token sequence, with the verdict of the recursive descent.\<close>

lemma yyparse_descends:
  assumes "ready l"
  shows "\<exists>out. yyparse yylex l = Some (Parse_returns (fst (verdict (parse_statement (toks l)))) out) \<and>
     reported out = snd (verdict (parse_statement (toks l)))"
proof -
  have c: "cfg (yystart l) [0] [Junk] (toks l) []" using assms by (simp add: cfg_def yystart_def)
  have "behaves (yystart l) [] (parse_statement (toks l))"
    unfolding parse_statement_def
  proof (rule behaves_expect [OF c, where n = 1])
    fix p v ts
    assume "cfg p [1, 0] ((case v of None \<Rightarrow> yylval (yystart l) | Some x \<Rightarrow> x) # [Junk]) ts []"
    then obtain d where c: "cfg p [1, 0] [d, Junk] ts []" by blast
    show "behaves p [] ((\<lambda>(_, ts). do {
        (c, ts) \<leftarrow> expect IDENTIFIER ts; (cols, ts) \<leftarrow> parse_columns (str_of c) ts;
        (tab, ts) \<leftarrow> expect IDENTIFIER ts; parse_condition cols (str_of tab) ts }) (v, ts))"
      unfolding prod.case
    proof (rule behaves_expect [OF c, where n = 3])
      fix q x us
      assume "token_ok (IDENTIFIER, x)"
      then obtain s where x: "x = Some (Str s)" by (auto simp: token_ok_def)
      assume "cfg q [3, 1, 0] ((case x of None \<Rightarrow> yylval p | Some x \<Rightarrow> x) # [d, Junk]) us []"
      then show "behaves q [] ((\<lambda>(c, ts). do {
          (cols, ts) \<leftarrow> parse_columns (str_of c) ts;
          (tab, ts) \<leftarrow> expect IDENTIFIER ts; parse_condition cols (str_of tab) ts }) (x, us))"
        by (rule behaves_reduce [where n = 3 and v = "Str s" and g = 4])
          (simp_all add: yyaction.simps reductions x str_of_Str at_4)
    qed (simp_all add: lookups)
  qed (simp_all add: lookups)
  then show ?thesis by (simp add: behaves_def runs_def yyparse_def)
qed

end

section \<open>The statements\<close>

lemma expect_iff: "expect c ts = Some (v, rest) \<longleftrightarrow> ts = (c, v) # rest"
  by (cases ts) (auto simp: expect_def)

lemma token_ok_iff:
  "token_ok (IDENTIFIER, v) \<longleftrightarrow> (\<exists>s. v = Some (Str s))"
  "token_ok (NUMBER, v) \<longleftrightarrow> (\<exists>n. v = Some (Num n) \<and> c_int n)"
  "token_ok (SELECT, v) \<longleftrightarrow> v = None" "token_ok (FROM, v) \<longleftrightarrow> v = None" "token_ok (WHERE, v) \<longleftrightarrow> v = None"
  "token_ok (EQ, v) \<longleftrightarrow> v = None" "token_ok (COMMA, v) \<longleftrightarrow> v = None" "token_ok (SEMICOLON, v) \<longleftrightarrow> v = None"
  by (auto simp: token_ok_def token_kinds)

lemma parse_columns_more: "parse_columns c (more_columns cs @ (FROM, None) # rest) = Some (joined c cs, rest)"
proof (induction c cs rule: joined.induct)
  case (1 c)
  then show ?case by (cases rest) auto
qed (simp add: token_kinds str_of_Str)

lemma parse_columns_Some:
  "parse_columns c ts = Some (cols, rest) \<Longrightarrow> \<forall>t\<in>set ts. token_ok t \<Longrightarrow>
   \<exists>cs. ts = more_columns cs @ (FROM, None) # rest \<and> cols = joined c cs"
proof (induction c ts rule: parse_columns.induct)
  case (1 c k v k' v' ts)
  show ?case
  proof (cases "k = FROM")
    case True
    then show ?thesis using 1 by (intro exI [of _ "[]"]) (auto simp: token_ok_iff)
  next
    case False
    then have k: "k = COMMA" "k' = IDENTIFIER" and r: "parse_columns (c @ '','' @ str_of v') ts = Some (cols, rest)"
      using "1.prems" by (auto split: if_splits)
    obtain s where v: "v' = Some (Str s)" "v = None" using "1.prems"(2) k by (auto simp: token_ok_iff)
    obtain cs where "ts = more_columns cs @ (FROM, None) # rest" "cols = joined (c @ '','' @ s) cs"
      using "1.IH" [OF False _ r] k "1.prems"(2) v by (auto simp: str_of_Str)
    then show ?thesis using k v by (intro exI [of _ "s # cs"]) simp
  qed
next
  case (2 c k v)
  then show ?case by (intro exI [of _ "[]"]) (auto simp: token_ok_iff split: if_splits)
qed simp

lemma parse_statement_iff:
  assumes "\<forall>t\<in>set ts. token_ok t"
  shows "parse_statement ts = Some (out, rest) \<longleftrightarrow>
    (\<exists>c cs tab x n. ts = statement c cs tab x n @ rest \<and> out = parsed c cs tab x n)"
proof
  assume "\<exists>c cs tab x n. ts = statement c cs tab x n @ rest \<and> out = parsed c cs tab x n"
  then show "parse_statement ts = Some (out, rest)"
    by (auto simp: statement_def parsed_def parse_statement_def parse_condition_def expect_def parse_columns_more str_of_Str num_of_Num)
next
  assume "parse_statement ts = Some (out, rest)"
  then obtain a c t1 cols t2 b t3 d x e n f where
    ts: "ts = (SELECT, a) # (IDENTIFIER, c) # t1" and cols: "parse_columns (str_of c) t1 = Some (cols, (IDENTIFIER, b) # t2)"
    and t2: "t2 = (WHERE, d) # (IDENTIFIER, x) # (EQ, e) # (NUMBER, n) # (SEMICOLON, f) # rest"
    and out: "out = Parsed cols (str_of b) (str_of x @ ''='' @ show_int (num_of n))"
    by (auto simp: parse_statement_def parse_condition_def expect_iff bind_eq_Some_conv)
  obtain cs where t1: "t1 = more_columns cs @ (FROM, None) # (IDENTIFIER, b) # t2" "cols = joined (str_of c) cs"
    using parse_columns_Some [OF cols] assms ts by auto
  have ok: "token_ok (SELECT, a)" "token_ok (IDENTIFIER, c)" "token_ok (IDENTIFIER, b)" "token_ok (WHERE, d)"
    "token_ok (IDENTIFIER, x)" "token_ok (EQ, e)" "token_ok (NUMBER, n)" "token_ok (SEMICOLON, f)"
    using assms ts t1(1) t2 by auto
  then obtain c' b' x' n' where v: "c = Some (Str c')" "b = Some (Str b')" "x = Some (Str x')" "n = Some (Num n')"
    by (auto simp: token_ok_iff)
  have "ts = statement c' cs b' x' n' @ rest \<and> out = parsed c' cs b' x' n'"
    using ts t1 t2 out ok by (simp add: v token_ok_iff statement_def parsed_def str_of_Str num_of_Num)
  then show "\<exists>c cs tab x n. ts = statement c cs tab x n @ rest \<and> out = parsed c cs tab x n" by blast
qed

context token_source
begin

text \<open>What \<open>yyparse\<close> does, in terms of the statements of the grammar.\<close>

lemma yyparse_statement:
  "ready l \<Longrightarrow> toks l = statement c cs tab x n @ rest \<Longrightarrow>
   \<exists>out. yyparse yylex l = Some (Parse_returns (if rest = [] then 0 else 1) out) \<and>
     reported out = parsed c cs tab x n # (if rest = [] then [] else [Error_line ''syntax error''])"
proof -
  assume r: "ready l"
  assume "toks l = statement c cs tab x n @ rest"
  then have "parse_statement (toks l) = Some (parsed c cs tab x n, rest)"
    using parse_statement_iff [of "toks l" "parsed c cs tab x n" rest] tokens_ok by blast
  then show ?thesis using yyparse_descends [OF r] by (cases "rest = []") (simp_all add: verdict_def)
qed

lemma yyparse_no_statement:
  assumes "ready l" "\<And>c cs tab x n rest. toks l \<noteq> statement c cs tab x n @ rest"
  shows "\<exists>out. yyparse yylex l = Some (Parse_returns 1 out) \<and> reported out = [Error_line ''syntax error'']"
proof -
  have "parse_statement (toks l) = None"
  proof (rule ccontr)
    assume "parse_statement (toks l) \<noteq> None"
    then obtain out rest where "parse_statement (toks l) = Some (out, rest)" by auto
    then show False using assms(2) parse_statement_iff [of "toks l" out rest] tokens_ok by blast
  qed
  then show ?thesis using yyparse_descends [OF assms(1)] by (simp add: verdict_def)
qed

end

end
