(* ===== verification/Sql_Lexer.thy ===== *)
theory Sql_Lexer
  imports Sql_Parser C_Input
begin

text \<open>
  The scanner \<^verbatim>\<open>src/sql-lexer-analysis/lex.yy.c\<close>: its tables, the loop \<open>yy_match\<close> over them and \<open>yylex\<close>, over the string of the whole input.
  The buffer into which the input is read in pieces is the theory \<open>Flex_Buffer\<close>, which is shown to implement the scanner of this theory. The
  scanner cuts the input as the rules of \<^verbatim>\<open>sql_lexer.l\<close> say, which makes it a provider of \<open>token_source\<close>.
\<close>

section \<open>The tables\<close>

definition yy_accept :: "nat list" where
  "yy_accept = [
    0, 0, 0, 17, 15, 14, 14, 11, 13, 10, 9, 12, 12, 12, 12, 12, 12, 12, 14, 13, 12, 12, 12, 12, 12, 12, 12, 12, 12,
    12, 12, 8, 12, 12, 12, 2, 12, 5, 12, 12, 12, 12, 12, 12, 12, 12, 3, 4, 1, 7, 6, 0]"

definition yy_ec :: "nat list" where
  "yy_ec = [
    0, 1, 1, 1, 1, 1, 1, 1, 1, 2, 3, 1, 1, 2, 1, 1, 1, 1, 1, 1, 1, 1, 1, 1, 1, 1, 1, 1, 1, 1, 1, 1, 2, 1, 1, 1, 1, 1,
    1, 1, 1, 1, 1, 1, 4, 1, 1, 1, 5, 5, 5, 5, 5, 5, 5, 5, 5, 5, 1, 6, 1, 7, 1, 1, 1, 8, 9, 10, 11, 12, 13, 9, 14, 15,
    9, 9, 16, 17, 18, 19, 20, 9, 21, 22, 23, 24, 25, 26, 9, 9, 9, 1, 1, 1, 1, 9, 1, 9, 9, 9, 9, 9, 9, 9, 9, 9, 9, 9,
    9, 9, 9, 9, 9, 9, 9, 9, 9, 9, 9, 9, 9, 9, 9, 1, 1, 1, 1, 1, 1, 1, 1, 1, 1, 1, 1, 1, 1, 1, 1, 1, 1, 1, 1, 1, 1, 1,
    1, 1, 1, 1, 1, 1, 1, 1, 1, 1, 1, 1, 1, 1, 1, 1, 1, 1, 1, 1, 1, 1, 1, 1, 1, 1, 1, 1, 1, 1, 1, 1, 1, 1, 1, 1, 1, 1,
    1, 1, 1, 1, 1, 1, 1, 1, 1, 1, 1, 1, 1, 1, 1, 1, 1, 1, 1, 1, 1, 1, 1, 1, 1, 1, 1, 1, 1, 1, 1, 1, 1, 1, 1, 1, 1, 1,
    1, 1, 1, 1, 1, 1, 1, 1, 1, 1, 1, 1, 1, 1, 1, 1, 1, 1, 1, 1, 1, 1, 1, 1, 1, 1, 1, 1, 1, 1, 1, 1, 1, 1]"

definition yy_meta :: "nat list" where
  "yy_meta = [
    0, 1, 1, 1, 1, 2, 1, 1, 2, 2, 2, 2, 2, 2, 2, 2, 2, 2, 2, 2, 2, 2, 2, 2, 2, 2, 2]"

definition yy_base :: "nat list" where
  "yy_base = [
    0, 0, 0, 66, 67, 25, 27, 67, 60, 67, 67, 0, 43, 45, 50, 41, 52, 45, 29, 53, 0, 38, 11, 19, 45, 39, 42, 36, 40,
    32, 38, 0, 41, 24, 26, 0, 25, 0, 35, 21, 31, 29, 17, 16, 26, 15, 0, 0, 0, 0, 0, 67, 34]"

definition yy_def :: "nat list" where
  "yy_def = [
    0, 51, 1, 51, 51, 51, 51, 51, 51, 51, 51, 52, 52, 52, 52, 52, 52, 52, 51, 51, 52, 52, 52, 52, 52, 52, 52, 52, 52,
    52, 52, 52, 52, 52, 52, 52, 52, 52, 52, 52, 52, 52, 52, 52, 52, 52, 52, 52, 52, 52, 52, 0, 51]"

definition yy_nxt :: "nat list" where
  "yy_nxt = [
    0, 4, 5, 6, 7, 8, 9, 10, 11, 11, 11, 11, 11, 12, 11, 13, 11, 11, 11, 11, 11, 11, 14, 11, 15, 16, 17, 18, 18, 18,
    18, 18, 18, 28, 29, 30, 20, 50, 49, 48, 47, 46, 31, 45, 44, 43, 42, 41, 40, 39, 38, 37, 36, 35, 34, 33, 32, 27,
    19, 26, 25, 24, 23, 22, 21, 19, 51, 3, 51, 51, 51, 51, 51, 51, 51, 51, 51, 51, 51, 51, 51, 51, 51, 51, 51, 51,
    51, 51, 51, 51, 51, 51, 51, 51]"

definition yy_chk :: "nat list" where
  "yy_chk = [
    0, 1, 1, 1, 1, 1, 1, 1, 1, 1, 1, 1, 1, 1, 1, 1, 1, 1, 1, 1, 1, 1, 1, 1, 1, 1, 1, 5, 5, 6, 6, 18, 18, 22, 22, 23,
    52, 45, 44, 43, 42, 41, 23, 40, 39, 38, 36, 34, 33, 32, 30, 29, 28, 27, 26, 25, 24, 21, 19, 17, 16, 15, 14, 13,
    12, 8, 3, 51, 51, 51, 51, 51, 51, 51, 51, 51, 51, 51, 51, 51, 51, 51, 51, 51, 51, 51, 51, 51, 51, 51, 51, 51, 51,
    51]"

section \<open>The automaton\<close>

text \<open>The jam state, and the number of entries of \<open>yy_def\<close>.\<close>

definition YY_JAM :: nat where "YY_JAM = 51"
definition YY_JAMBASE :: nat where "YY_JAMBASE = 67"

text \<open>
  A transition: default states are followed until an entry belongs to the state. The first argument bounds the number
  of states followed; \<open>None\<close> when it is used up.
\<close>

fun yy_goto :: "nat \<Rightarrow> nat \<Rightarrow> nat \<Rightarrow> nat option" where
  "yy_goto 0 state c = None"
| "yy_goto (Suc n) state c =
     (if yy_chk ! (yy_base ! state + c) = state then Some (yy_nxt ! (yy_base ! state + c))
      else let state = yy_def ! state in yy_goto n state (if 52 \<le> state then yy_meta ! c else c))"

text \<open>The class of a character; a NUL in the input is given the class 1 (\<open>yy_try_NUL_trans\<close>, \<open>yy_get_previous_state\<close>).\<close>

definition yy_class :: "char \<Rightarrow> nat" where
  "yy_class c = (if c = NUL then 1 else yy_ec ! of_char c)"

text \<open>Three states are enough, as no default state has a default but the jam state.\<close>

definition yy_next :: "nat \<Rightarrow> char \<Rightarrow> nat option" where
  "yy_next state c = yy_goto 3 state (yy_class c)"

text \<open>\<open>yy_find_action\<close>: the number of the rule, the text and the rest; \<open>acc\<close> is where the scanner backs up to.\<close>

definition yy_find_action :: "nat \<Rightarrow> string \<Rightarrow> string \<Rightarrow> (nat \<times> string \<times> string) option \<Rightarrow> (nat \<times> string \<times> string) option" where
  "yy_find_action state yytext rest acc =
     (if yy_accept ! state \<noteq> 0 then Some (yy_accept ! state, yytext, rest)
      else map_option (\<lambda>(state, yytext, rest). (yy_accept ! state, yytext, rest)) acc)"

text \<open>\<open>yy_match\<close> with the text matched so far and the rest of the input.\<close>

fun yy_match :: "nat \<Rightarrow> string \<Rightarrow> (nat \<times> string \<times> string) option \<Rightarrow> string \<Rightarrow> (nat \<times> string \<times> string) option" where
  "yy_match state yytext acc [] = yy_find_action state yytext [] acc"
| "yy_match state yytext acc (c # rest) =
     (let acc = (if yy_accept ! state \<noteq> 0 then Some (state, yytext, c # rest) else acc) in
      case yy_next state c of
        None \<Rightarrow> None
      | Some next \<Rightarrow>
          if c = NUL then
            (if next = YY_JAM then yy_find_action state yytext (c # rest) acc else yy_match next (yytext @ [c]) acc rest)
          else if yy_base ! next = YY_JAMBASE then yy_find_action next (yytext @ [c]) rest acc
          else yy_match next (yytext @ [c]) acc rest)"

lemma yy_match_length:
  assumes "yy_match state yytext acc rest = Some (a, t, r)" and "length rest \<le> n"
    and "yy_accept ! state = 0 \<or> length rest < n" and "\<And>s u q. acc = Some (s, u, q) \<Longrightarrow> length q < n"
  shows "length r < n"
  using assms
proof (induction state yytext acc rest rule: yy_match.induct)
  case (1 state yytext acc)
  then show ?case by (auto simp: yy_find_action_def split: if_splits)
next
  case (2 state yytext acc c rest)
  let ?acc = "if yy_accept ! state \<noteq> 0 then Some (state, yytext, c # rest) else acc"
  have acc: "length q < n" if "?acc = Some (s, u, q)" for s u q using that 2(3-) by (auto split: if_splits)
  have r: "length rest < n" using "2.prems"(2) by simp
  obtain nx where nx: "yy_next state c = Some nx" using "2.prems"(1) by (auto simp: Let_def split: option.splits)
  have act: "length q < n" if "yy_find_action s u v ?acc = Some (b, w, q)" "yy_accept ! s = 0 \<or> length v < n" for s u v b w q
    using that acc by (auto simp: yy_find_action_def split: if_splits)
  show ?case
    using "2.prems"(1,3) nx r acc act "2.IH" [OF refl nx]
    by (auto simp: Let_def simp del: if_split split: if_split_asm)
qed

lemma yy_start_length: "yy_match 1 [] None s = Some (a, t, r) \<Longrightarrow> length r < length s"
  by (rule yy_match_length [of 1 "[]" None s a t r]) (simp_all add: yy_accept_def)

section \<open>The scanner\<close>

text \<open>The rules that return a token.\<close>

definition lex_action :: "nat \<Rightarrow> string \<Rightarrow> (int \<times> yystype option) option" where
  "lex_action act yytext =
     (if act = 1 then Some (SELECT, None) else if act = 2 then Some (FROM, None) else if act = 3 then Some (WHERE, None)
      else if act = 4 then Some (INSERT, None) else if act = 5 then Some (INTO, None) else if act = 6 then Some (VALUES, None)
      else if act = 7 then Some (UPDATE, None) else if act = 8 then Some (SET, None) else if act = 9 then Some (EQ, None)
      else if act = 10 then Some (SEMICOLON, None) else if act = 11 then Some (COMMA, None)
      else if act = 12 then Some (IDENTIFIER, Some (Str (c_str yytext)))
      else if act = 13 then Some (NUMBER, Some (Num (to_int32 (digits_val yytext))))
      else None)"

text \<open>
  The kind of the token, the assignment to \<open>yylval\<close>, the lines printed and the rest of the input. \<open>None\<close> is the fatal
  error of a scanner without an action.
\<close>

function yylex :: "string \<Rightarrow> (int \<times> yystype option \<times> sql_out list \<times> string) option" where
  "yylex s =
     (if s = [] then Some (0, None, [], [])
      else case yy_match 1 [] None s of
          None \<Rightarrow> None
        | Some (act, yytext, rest) \<Rightarrow>
            if act = 14 then yylex rest
            else if act = 15 then map_option (\<lambda>(k, v, ls, r). (k, v, Unknown_character (c_str yytext) # ls, r)) (yylex rest)
            else if act = 16 then map_option (\<lambda>(k, v, ls, r). (k, v, Echoed_text yytext # ls, r)) (yylex rest)
            else map_option (\<lambda>(k, v). (k, v, [], rest)) (lex_action act yytext))"
  by pat_completeness auto
termination
  by (relation "measure length") (auto dest: yy_start_length [unfolded One_nat_def])

declare yylex.simps [simp del]

text \<open>\<open>main\<close> of the parser, over the characters of the input: what is printed; the value of \<open>yyparse\<close> is not looked at.\<close>

definition sql_main :: "string \<Rightarrow> parse_end option" where
  "sql_main inp = yyparse yylex inp"

section \<open>The rules of the scanner\<close>

definition is_blank :: "char \<Rightarrow> bool" where
  "is_blank c \<longleftrightarrow> c \<in> {CHR '' '', CHR 0x09, CHR 0x0D, CHR 0x0A}"

definition is_letter :: "char \<Rightarrow> bool" where
  "is_letter c \<longleftrightarrow> c \<in> set ''abcdefghijklmnopqrstuvwxyzABCDEFGHIJKLMNOPQRSTUVWXYZ_''"

definition is_word :: "char \<Rightarrow> bool" where
  "is_word c \<longleftrightarrow> is_letter c \<or> isdigit c"

definition sql_keywords :: "(string \<times> int) list" where
  "sql_keywords =
     [(''SELECT'', SELECT), (''FROM'', FROM), (''WHERE'', WHERE), (''INSERT'', INSERT), (''INTO'', INTO), (''VALUES'', VALUES),
      (''UPDATE'', UPDATE), (''SET'', SET)]"

definition word_token :: "string \<Rightarrow> token" where
  "word_token w = (case map_of sql_keywords w of Some k \<Rightarrow> (k, None) | None \<Rightarrow> (IDENTIFIER, Some (Str w)))"

lemma dropWhile_shorter: "P (hd s) \<Longrightarrow> s \<noteq> [] \<Longrightarrow> length (dropWhile P s) < length s"
  by (cases s) (simp_all add: le_imp_less_Suc length_dropWhile_le)

text \<open>
  The lexemes of a string by the rules: the longest match, and the keywords before the identifiers. \<open>Inl\<close> is a character
  no other rule takes.
\<close>

function sql_lexemes :: "string \<Rightarrow> (char + token) list" where
  "sql_lexemes s =
     (if s = [] then []
      else if is_blank (hd s) then sql_lexemes (dropWhile is_blank s)
      else if is_letter (hd s) then Inr (word_token (takeWhile is_word s)) # sql_lexemes (dropWhile is_word s)
      else if isdigit (hd s) then
        Inr (NUMBER, Some (Num (to_int32 (digits_val (takeWhile isdigit s))))) # sql_lexemes (dropWhile isdigit s)
      else if hd s = CHR ''='' then Inr (EQ, None) # sql_lexemes (tl s)
      else if hd s = CHR '';'' then Inr (SEMICOLON, None) # sql_lexemes (tl s)
      else if hd s = CHR '','' then Inr (COMMA, None) # sql_lexemes (tl s)
      else Inl (hd s) # sql_lexemes (tl s))"
  by pat_completeness auto
termination
  by (relation "measure length") (auto simp: is_word_def dropWhile_shorter)

declare sql_lexemes.simps [simp del]

definition sql_tokens :: "string \<Rightarrow> token list" where
  "sql_tokens s = map projr (filter (\<lambda>x. \<not> isl x) (sql_lexemes s))"

end
