(* ===== verification/Flex_Buffer.thy ===== *)
theory Flex_Buffer
  imports Sql_Lexer
begin

text \<open>
  The scanner of \<^verbatim>\<open>src/sql-lexer-analysis/lex.yy.c\<close> over its input buffer: the buffer ends with two NULs, which lead to the state
  whose action fetches more input; the character after the text of a token is overwritten by a NUL and kept in
  \<open>yy_hold_char\<close>. Pointers into the buffer are positions. The rest of the input is a string, at whose end every read
  gives nothing. What new memory holds is the argument \<open>mem\<close>; memory is taken to be available. An access outside
  the buffer and \<open>yy_fatal_error\<close> are \<open>None\<close>. Positions are unbounded numbers, where the program has \<open>int\<close>: this is the
  behaviour for inputs below 2 GiB.
\<close>

section \<open>The buffer\<close>

definition YY_BUF_SIZE :: nat where "YY_BUF_SIZE = 16384"
definition YY_READ_BUF_SIZE :: nat where "YY_READ_BUF_SIZE = 8192"
definition YY_END_OF_BUFFER :: nat where "YY_END_OF_BUFFER = 17"

datatype buffer_status = YY_BUFFER_NEW | YY_BUFFER_NORMAL | YY_BUFFER_EOF_PENDING

datatype eob_act = EOB_ACT_CONTINUE_SCAN | EOB_ACT_END_OF_FILE | EOB_ACT_LAST_MATCH

text \<open>
  The members of the current buffer (\<open>b_\<close>), the static variables, the local variables of \<open>yylex\<close>, and the rest of the file
  \<open>yyin\<close> with what \<open>isatty\<close> says of it. A file is a number, \<open>stdin\<close> is 0, and \<open>None\<close> is a null pointer.
\<close>

record flex =
  b_input_file :: "nat option"
  yy_ch_buf :: "char list"
  b_pos :: nat
  b_size :: nat
  b_n_chars :: nat
  b_is_our_buffer :: bool
  b_interactive :: bool
  b_fill :: bool
  b_status :: buffer_status
  yy_init :: bool
  yy_hold_char :: char
  yy_n_chars :: nat
  yy_c_buf_p :: nat
  yytext_ptr :: nat
  yy_in :: "nat option"
  yy_last_accepting_state :: nat
  yy_last_accepting_cpos :: nat
  yy_cp :: nat
  yy_bp :: nat
  yy_current_state :: nat
  input_rest :: string
  input_tty :: bool

definition store :: "nat \<Rightarrow> char \<Rightarrow> flex \<Rightarrow> flex option" where
  "store i c s = (if i < length (yy_ch_buf s) then Some (s\<lparr>yy_ch_buf := (yy_ch_buf s)[i := c]\<rparr>) else None)"

definition yyrealloc :: "(nat \<Rightarrow> char) \<Rightarrow> nat \<Rightarrow> char list \<Rightarrow> char list" where
  "yyrealloc mem n buf = take n buf @ map mem [length buf..<n]"

definition yy_load_buffer_state :: "flex \<Rightarrow> flex option" where
  "yy_load_buffer_state s =
     (if b_pos s < length (yy_ch_buf s)
      then Some (s\<lparr>yy_n_chars := b_n_chars s, yytext_ptr := b_pos s, yy_c_buf_p := b_pos s,
        yy_in := b_input_file s, yy_hold_char := yy_ch_buf s ! b_pos s\<rparr>)
      else None)"

text \<open>The flag says whether the buffer is the current one.\<close>

definition yy_flush_buffer :: "bool \<Rightarrow> flex \<Rightarrow> flex option" where
  "yy_flush_buffer current s = do {
     s \<leftarrow> store 0 NUL (s\<lparr>b_n_chars := 0\<rparr>);
     s \<leftarrow> store 1 NUL s;
     let s = s\<lparr>b_pos := 0, b_status := YY_BUFFER_NEW\<rparr>;
     if current then yy_load_buffer_state s else Some s }"

definition yy_init_buffer :: "bool \<Rightarrow> nat option \<Rightarrow> flex \<Rightarrow> flex option" where
  "yy_init_buffer current file_ptr s = do {
     s \<leftarrow> yy_flush_buffer current s;
     Some (s\<lparr>b_input_file := file_ptr, b_fill := True, b_interactive := (file_ptr \<noteq> None \<and> input_tty s)\<rparr>) }"

definition yy_create_buffer :: "(nat \<Rightarrow> char) \<Rightarrow> nat \<Rightarrow> flex \<Rightarrow> flex option" where
  "yy_create_buffer mem n s = yy_init_buffer False (yy_in s)
     (s\<lparr>b_size := n, yy_ch_buf := map mem [0..<n + 2], b_is_our_buffer := True\<rparr>)"

definition yyrestart :: "flex \<Rightarrow> flex option" where
  "yyrestart s = do { s \<leftarrow> yy_init_buffer True (yy_in s) s; yy_load_buffer_state s }"

section \<open>Reading\<close>

text \<open>From a terminal a line is read at most.\<close>

fun getc_line :: "nat \<Rightarrow> string \<Rightarrow> string \<times> string" where
  "getc_line 0 s = ([], s)"
| "getc_line (Suc n) [] = ([], [])"
| "getc_line (Suc n) (c # s) = (if c = newline then ([c], s) else apfst ((#) c) (getc_line n s))"

definition YY_INPUT :: "bool \<Rightarrow> nat \<Rightarrow> string \<Rightarrow> string \<times> string" where
  "YY_INPUT tty max_size s = (if tty then getc_line max_size s else (take max_size s, drop max_size s))"

text \<open>The loop that makes the buffer larger until something can be read; a buffer of the caller cannot be made larger.\<close>

partial_function (option) yy_grow :: "bool \<Rightarrow> nat \<Rightarrow> nat \<Rightarrow> nat option" where
  "yy_grow ours number_to_move n =
     (if number_to_move + 1 < n then Some n
      else if \<not> ours then None
      else yy_grow ours number_to_move (if signed_take_bit 31 (int (n * 2)) \<le> 0 then n + n div 8 else n * 2))"

declare yy_grow.simps [code]

fun move_chars :: "nat \<Rightarrow> nat \<Rightarrow> nat \<Rightarrow> char list \<Rightarrow> char list" where
  "move_chars 0 dest source buf = buf"
| "move_chars (Suc n) dest source buf = move_chars n (Suc dest) (Suc source) (buf[dest := buf ! source])"

text \<open>The part of \<open>yy_get_next_buffer\<close> that reads, which needs a file.\<close>

definition yy_refill :: "(nat \<Rightarrow> char) \<Rightarrow> nat \<Rightarrow> flex \<Rightarrow> flex option" where
  "yy_refill mem number_to_move s =
     (if b_status s = YY_BUFFER_EOF_PENDING then Some (s\<lparr>b_n_chars := 0, yy_n_chars := 0\<rparr>)
      else do {
        n \<leftarrow> yy_grow (b_is_our_buffer s) number_to_move (b_size s);
        let buf = (if n = b_size s then yy_ch_buf s else yyrealloc mem (n + 2) (yy_ch_buf s));
        let (r, rest) = YY_INPUT (b_interactive s) (min (n - number_to_move - 1) YY_READ_BUF_SIZE) (input_rest s);
        if yy_in s = None \<or> length buf < number_to_move + length r then None
        else Some (s\<lparr>b_size := n, yy_ch_buf := take number_to_move buf @ r @ drop (number_to_move + length r) buf,
          yy_n_chars := length r, b_n_chars := length r, input_rest := rest\<rparr>) })"

text \<open>The end of \<open>yy_get_next_buffer\<close>.\<close>

definition yy_end_buffer :: "(nat \<Rightarrow> char) \<Rightarrow> nat \<Rightarrow> flex \<Rightarrow> flex option" where
  "yy_end_buffer mem number_to_move s = do {
     let s = (if yy_n_chars s + number_to_move > b_size s
       then s\<lparr>yy_ch_buf := yyrealloc mem (yy_n_chars s + number_to_move + yy_n_chars s div 2) (yy_ch_buf s)\<rparr> else s);
     let s = s\<lparr>yy_n_chars := yy_n_chars s + number_to_move\<rparr>;
     s \<leftarrow> store (yy_n_chars s) NUL s;
     s \<leftarrow> store (yy_n_chars s + 1) NUL s;
     Some (s\<lparr>yytext_ptr := 0\<rparr>) }"

definition yy_get_next_buffer :: "(nat \<Rightarrow> char) \<Rightarrow> flex \<Rightarrow> (eob_act \<times> flex) option" where
  "yy_get_next_buffer mem s =
     (if yy_c_buf_p s > yy_n_chars s + 1 then None
      else if \<not> b_fill s then
        Some (if yy_c_buf_p s - yytext_ptr s = 1 then EOB_ACT_END_OF_FILE else EOB_ACT_LAST_MATCH, s)
      else do {
        let number_to_move = yy_c_buf_p s - yytext_ptr s - 1;
        s \<leftarrow> yy_refill mem number_to_move (s\<lparr>yy_ch_buf := move_chars number_to_move 0 (yytext_ptr s) (yy_ch_buf s)\<rparr>);
        (ret, s) \<leftarrow> (if yy_n_chars s = 0 then
            if number_to_move = 0 then map_option (Pair EOB_ACT_END_OF_FILE) (yyrestart s)
            else Some (EOB_ACT_LAST_MATCH, s\<lparr>b_status := YY_BUFFER_EOF_PENDING\<rparr>)
          else Some (EOB_ACT_CONTINUE_SCAN, s));
        s \<leftarrow> yy_end_buffer mem number_to_move s;
        Some (ret, s) })"

section \<open>The scanner\<close>

text \<open>\<open>yy_match\<close>: the state and the position where it ends, and the last accepting state with its position.\<close>

fun match_loop :: "nat \<Rightarrow> nat \<Rightarrow> nat \<times> nat \<Rightarrow> char list \<Rightarrow> (nat \<times> nat \<times> nat \<times> nat) option" where
  "match_loop state cp acc [] = None"
| "match_loop state cp acc (c # cs) =
     (let acc = (if yy_accept ! state \<noteq> 0 then (state, cp) else acc) in
      case yy_goto 3 state (yy_ec ! of_char c) of
        None \<Rightarrow> None
      | Some next \<Rightarrow> if yy_base ! next = YY_JAMBASE then Some (next, cp + 1, acc) else match_loop next (cp + 1) acc cs)"

fun prev_loop :: "nat \<Rightarrow> nat \<Rightarrow> nat \<times> nat \<Rightarrow> char list \<Rightarrow> (nat \<times> nat \<times> nat) option" where
  "prev_loop state cp acc [] = Some (state, acc)"
| "prev_loop state cp acc (c # cs) =
     (let acc = (if yy_accept ! state \<noteq> 0 then (state, cp) else acc) in
      case yy_goto 3 state (yy_class c) of None \<Rightarrow> None | Some next \<Rightarrow> prev_loop next (cp + 1) acc cs)"

definition yy_get_previous_state :: "flex \<Rightarrow> flex option" where
  "yy_get_previous_state s =
     map_option (\<lambda>(state, l, p). s\<lparr>yy_current_state := state, yy_last_accepting_state := l, yy_last_accepting_cpos := p\<rparr>)
       (prev_loop 1 (yytext_ptr s) (yy_last_accepting_state s, yy_last_accepting_cpos s)
          (take (yy_c_buf_p s - yytext_ptr s) (drop (yytext_ptr s) (yy_ch_buf s))))"

definition yy_try_NUL_trans :: "flex \<Rightarrow> (nat \<times> flex) option" where
  "yy_try_NUL_trans s =
     (let s = (if yy_accept ! yy_current_state s \<noteq> 0
        then s\<lparr>yy_last_accepting_state := yy_current_state s, yy_last_accepting_cpos := yy_c_buf_p s\<rparr> else s) in
      map_option (\<lambda>next. (if next = YY_JAM then 0 else next, s)) (yy_goto 3 (yy_current_state s) 1))"

text \<open>Where the scanner goes on, or what it returns.\<close>

datatype flex_point = At_start | At_match | At_find | Returns int "yystype option"

text \<open>The action of the end of the buffer: a NUL of the input, or more input; with \<open>yywrap\<close>, which always answers 1.\<close>

definition really_NUL :: "nat \<Rightarrow> flex \<Rightarrow> (flex_point \<times> flex) option" where
  "really_NUL amount s = do {
     s \<leftarrow> yy_get_previous_state (s\<lparr>yy_c_buf_p := yytext_ptr s + amount\<rparr>);
     (next, s) \<leftarrow> yy_try_NUL_trans s;
     let s = s\<lparr>yy_bp := yytext_ptr s\<rparr>;
     Some (if next \<noteq> 0
       then (At_match, s\<lparr>yy_c_buf_p := yy_c_buf_p s + 1, yy_cp := yy_c_buf_p s + 1, yy_current_state := next\<rparr>)
       else (At_find, s\<lparr>yy_cp := yy_c_buf_p s\<rparr>)) }"

definition more_input :: "(nat \<Rightarrow> char) \<Rightarrow> nat \<Rightarrow> flex \<Rightarrow> (flex_point \<times> flex) option" where
  "more_input mem amount s = do {
     (ret, s) \<leftarrow> yy_get_next_buffer mem s;
     (case ret of
        EOB_ACT_END_OF_FILE \<Rightarrow> Some (Returns 0 None, s\<lparr>yy_c_buf_p := yytext_ptr s\<rparr>)
      | EOB_ACT_CONTINUE_SCAN \<Rightarrow> do {
          s \<leftarrow> yy_get_previous_state (s\<lparr>yy_c_buf_p := yytext_ptr s + amount\<rparr>);
          Some (At_match, s\<lparr>yy_cp := yy_c_buf_p s, yy_bp := yytext_ptr s\<rparr>) }
      | EOB_ACT_LAST_MATCH \<Rightarrow> do {
          s \<leftarrow> yy_get_previous_state (s\<lparr>yy_c_buf_p := yy_n_chars s\<rparr>);
          Some (At_find, s\<lparr>yy_cp := yy_c_buf_p s, yy_bp := yytext_ptr s\<rparr>) }) }"

definition end_of_buffer :: "(nat \<Rightarrow> char) \<Rightarrow> flex \<Rightarrow> (flex_point \<times> flex) option" where
  "end_of_buffer mem s = do {
     let amount = yy_cp s - yytext_ptr s - 1;
     s \<leftarrow> store (yy_cp s) (yy_hold_char s) s;
     let s = (if b_status s = YY_BUFFER_NEW then s\<lparr>yy_n_chars := b_n_chars s, b_input_file := yy_in s, b_status := YY_BUFFER_NORMAL\<rparr> else s);
     if yy_c_buf_p s \<le> yy_n_chars s then really_NUL amount s else more_input mem amount s }"

text \<open>From \<open>yy_find_action\<close> on; a token of \<open>yyleng\<close> characters starts at \<open>yy_bp\<close>.\<close>

definition flex_find :: "(nat \<Rightarrow> char) \<Rightarrow> flex \<Rightarrow> (flex_point \<times> flex \<times> sql_out list) option" where
  "flex_find mem s =
     (let s = (if yy_accept ! yy_current_state s = 0
        then s\<lparr>yy_cp := yy_last_accepting_cpos s, yy_current_state := yy_last_accepting_state s\<rparr> else s);
          act = yy_accept ! yy_current_state s in
      if length (yy_ch_buf s) \<le> yy_cp s then None
      else do {
        let yytext = take (yy_cp s - yy_bp s) (drop (yy_bp s) (yy_ch_buf s));
        s \<leftarrow> store (yy_cp s) NUL (s\<lparr>yytext_ptr := yy_bp s, yy_hold_char := yy_ch_buf s ! yy_cp s, yy_c_buf_p := yy_cp s\<rparr>);
        if act = 14 then Some (At_start, s, [])
        else if act = 15 then Some (At_start, s, [Unknown_character (c_str yytext)])
        else if act = 16 then Some (At_start, s, [Echoed_text yytext])
        else if act = YY_END_OF_BUFFER then map_option (\<lambda>(p, s). (p, s, [])) (end_of_buffer mem s)
        else map_option (\<lambda>(k, v). (Returns k v, s, [])) (lex_action act yytext) })"

definition flex_match :: "flex \<Rightarrow> flex option" where
  "flex_match s =
     map_option (\<lambda>(state, cp, l, p). s\<lparr>yy_current_state := state, yy_cp := cp, yy_last_accepting_state := l, yy_last_accepting_cpos := p\<rparr>)
       (match_loop (yy_current_state s) (yy_cp s) (yy_last_accepting_state s, yy_last_accepting_cpos s) (drop (yy_cp s) (yy_ch_buf s)))"

text \<open>The start of the loop in \<open>yylex\<close>.\<close>

definition flex_start :: "flex \<Rightarrow> flex option" where
  "flex_start s = store (yy_c_buf_p s) (yy_hold_char s) (s\<lparr>yy_cp := yy_c_buf_p s, yy_bp := yy_c_buf_p s, yy_current_state := 1\<rparr>)"

partial_function (option) flex_run ::
  "(nat \<Rightarrow> char) \<Rightarrow> flex_point \<Rightarrow> flex \<Rightarrow> (int \<times> yystype option \<times> sql_out list \<times> flex) option" where
  "flex_run mem p s =
     (case p of
        Returns k v \<Rightarrow> Some (k, v, [], s)
      | At_start \<Rightarrow> do { s \<leftarrow> flex_start s; flex_run mem At_match s }
      | At_match \<Rightarrow> do { s \<leftarrow> flex_match s; flex_run mem At_find s }
      | At_find \<Rightarrow> do {
          (p, s, ls) \<leftarrow> flex_find mem s;
          (k, v, ls', s) \<leftarrow> flex_run mem p s;
          Some (k, v, ls @ ls', s) })"

declare flex_run.simps [code]

definition flex_yylex :: "(nat \<Rightarrow> char) \<Rightarrow> flex \<Rightarrow> (int \<times> yystype option \<times> sql_out list \<times> flex) option" where
  "flex_yylex mem s = do {
     s \<leftarrow> (if yy_init s then Some s
       else do {
         s \<leftarrow> yy_create_buffer mem YY_BUF_SIZE (s\<lparr>yy_init := True, yy_in := (if yy_in s = None then Some 0 else yy_in s)\<rparr>);
         yy_load_buffer_state s });
     flex_run mem At_start s }"

end
