(* ===== verification/Sql_Lexer_Props.thy ===== *)
theory Sql_Lexer_Props
  imports Sql_Lexer
begin

text \<open>
  The scanner generated by flex cuts its input as the rules say. The compressed tables are first expanded: \<open>yy_entries\<close> lists the
  transitions that are stored, and every other transition is a default. Then each kind of token is a walk through the
  states that belong to it.
\<close>

section \<open>Character classes\<close>

text \<open>The letter of a class that belongs to one letter only.\<close>

definition class_letter :: "nat \<Rightarrow> char" where
  "class_letter k = ''        A_CDEFHILMNOPRSTUVW'' ! k"

definition class_ok :: "char \<Rightarrow> nat \<Rightarrow> bool" where
  "class_ok c k \<longleftrightarrow> 0 < k \<and> k < 27 \<and> (k = 2 \<or> k = 3 \<longleftrightarrow> is_blank c) \<and> (k = 3 \<longleftrightarrow> c = newline) \<and> (k = 4 \<longleftrightarrow> c = CHR '','') \<and>
     (k = 5 \<longleftrightarrow> isdigit c) \<and> (k = 6 \<longleftrightarrow> c = CHR '';'') \<and> (k = 7 \<longleftrightarrow> c = CHR ''='') \<and> (8 \<le> k \<longleftrightarrow> is_letter c) \<and>
     (8 \<le> k \<and> k \<noteq> 9 \<longrightarrow> c = class_letter k)"

lemma classes_ok: "list_all (\<lambda>(c, k). class_ok c k) (zip Enum.enum (1 # tl yy_ec))"
  by code_simp

lemma class_ok: "class_ok c (yy_class c)"
proof -
  let ?n = "of_char c :: nat" and ?E = "Enum.enum :: char list"
  have n: "?n < 256" by simp
  have len: "length yy_ec = 256" by (simp add: yy_ec_def)
  have E: "?E ! ?n = c" "length ?E = 256" using n by (simp_all add: enum_char_unfold)
  have "yy_class c = (1 # tl yy_ec) ! ?n"
  proof (cases "c = NUL")
    case True
    then show ?thesis by (simp add: yy_class_def NUL_def of_char_def)
  next
    case False
    have "0 < ?n"
    proof (rule ccontr)
      assume "\<not> 0 < ?n"
      then have "c = char_of (0 :: nat)" by (metis char_of_char not_gr_zero)
      then show False using False by (simp add: NUL_def char_of_def)
    qed
    then obtain m where "?n = Suc m" using gr0_implies_Suc by blast
    then show ?thesis using False len n by (simp add: yy_class_def nth_tl)
  qed
  moreover have "(c, (1 # tl yy_ec) ! ?n) \<in> set (zip ?E (1 # tl yy_ec))"
    using n E len by (auto simp: set_zip intro!: exI [of _ ?n])
  ultimately show ?thesis using classes_ok by (auto simp: list_all_iff)
qed

section \<open>Transitions\<close>

text \<open>The transitions stored, as state, class and next state, in the order of the table.\<close>

definition yy_entries :: "((nat \<times> nat) \<times> nat) list" where
  "yy_entries = [
    ((1, 1), 4), ((1, 2), 5), ((1, 3), 6), ((1, 4), 7), ((1, 5), 8), ((1, 6), 9), ((1, 7), 10), ((1, 8), 11),
    ((1, 9), 11), ((1, 10), 11), ((1, 11), 11), ((1, 12), 11), ((1, 13), 12), ((1, 14), 11), ((1, 15), 13),
    ((1, 16), 11), ((1, 17), 11), ((1, 18), 11), ((1, 19), 11), ((1, 20), 11), ((1, 21), 11), ((1, 22), 14),
    ((1, 23), 11), ((1, 24), 15), ((1, 25), 16), ((1, 26), 17), ((5, 2), 18), ((5, 3), 18), ((6, 2), 18),
    ((6, 3), 18), ((18, 2), 18), ((18, 3), 18), ((22, 22), 28), ((22, 23), 29), ((23, 16), 30), ((52, 2), 20),
    ((45, 22), 50), ((44, 12), 49), ((43, 23), 48), ((42, 23), 47), ((41, 12), 46), ((23, 23), 31), ((40, 12), 45),
    ((39, 23), 44), ((38, 10), 43), ((36, 21), 42), ((34, 21), 41), ((33, 24), 40), ((32, 8), 39), ((30, 12), 38),
    ((29, 19), 37), ((28, 12), 36), ((27, 17), 35), ((26, 12), 34), ((25, 16), 33), ((24, 11), 32), ((21, 19), 27),
    ((19, 5), 19), ((17, 14), 26), ((16, 8), 25), ((15, 20), 24), ((14, 12), 23), ((13, 18), 22), ((12, 21), 21),
    ((8, 5), 19)]"

lemma entries_stored:
  "map (\<lambda>((s, k), n). (yy_base ! s + k, s, n)) yy_entries = zip [1..<66] (zip (take 65 (tl yy_chk)) (take 65 (tl yy_nxt)))"
  by code_simp

lemma chk_rest: "list_all (\<lambda>s. s = 3 \<or> s = 51) (drop 66 yy_chk)"
  by code_simp

lemma entries_distinct: "distinct (map fst yy_entries)"
  by (simp add: yy_entries_def)

lemma table_sizes: "length yy_chk = 94" "length yy_nxt = 94" "length yy_entries = 65" "list_all (\<lambda>b. b \<le> 67) yy_base" "length yy_base = 53"
  by (simp_all add: yy_chk_def yy_nxt_def yy_entries_def yy_base_def)

lemma entry_at: "j < 65 \<Longrightarrow> yy_entries ! j = ((s, k), n) \<Longrightarrow> yy_base ! s + k = Suc j \<and> yy_chk ! Suc j = s \<and> yy_nxt ! Suc j = n"
  using arg_cong [OF entries_stored, of "\<lambda>xs. xs ! j"] table_sizes by (auto simp: nth_tl)

text \<open>A transition is found in the row of its state exactly when it is stored.\<close>

lemma own_entry:
  assumes "s < 53" "s \<noteq> 3" "s \<noteq> 51" "0 < k" "k < 27"
  shows "yy_chk ! (yy_base ! s + k) = s \<longleftrightarrow> map_of yy_entries (s, k) = Some (yy_nxt ! (yy_base ! s + k))"
    and "yy_chk ! (yy_base ! s + k) \<noteq> s \<longleftrightarrow> map_of yy_entries (s, k) = None"
proof -
  let ?i = "yy_base ! s + k"
  have i: "0 < ?i" "?i < 94" using assms table_sizes by (auto simp: list_all_length)
  have stored: "map_of yy_entries (s, k) = Some (yy_nxt ! ?i) \<and> ?i \<le> 65" if "yy_chk ! ?i = s"
  proof (cases "?i \<le> 65")
    case True
    obtain s' k' n where e: "yy_entries ! (?i - 1) = ((s', k'), n)" by (metis prod.exhaust)
    have "Suc (?i - 1) = ?i" "?i - 1 < 65" using i True by auto
    then have "((s, k), yy_nxt ! ?i) = yy_entries ! (?i - 1)" using entry_at [OF _ e] that e by auto
    then have "((s, k), yy_nxt ! ?i) \<in> set yy_entries" using \<open>?i - 1 < 65\<close> table_sizes by (metis nth_mem)
    then show ?thesis using entries_distinct True by simp
  next
    case False
    then have "yy_chk ! ?i \<in> set (drop 66 yy_chk)" using i table_sizes nth_mem [of "?i - 66" "drop 66 yy_chk"] by simp
    then show ?thesis using chk_rest assms that by (auto simp: list_all_iff)
  qed
  have bk: "yy_chk ! ?i = s" if e: "map_of yy_entries (s, k) = Some n" for n
  proof -
    obtain j where "j < 65" "yy_entries ! j = ((s, k), n)"
      using map_of_SomeD [OF e] table_sizes by (metis in_set_conv_nth)
    then show ?thesis using entry_at [of j s k n] by simp
  qed
  show "yy_chk ! ?i = s \<longleftrightarrow> map_of yy_entries (s, k) = Some (yy_nxt ! ?i)" using stored bk by blast
  show "yy_chk ! ?i \<noteq> s \<longleftrightarrow> map_of yy_entries (s, k) = None" using stored bk by (cases "map_of yy_entries (s, k)") auto
qed

text \<open>
  A transition that is not stored: the states of identifiers default to state 52, which stores the transition to state 20 for
  the characters of identifiers; the others default to the jam state.
\<close>

definition id_states :: "nat list" where
  "id_states = [11..<18] @ [20..<51]"

lemma defaults:
  "map ((!) yy_def) id_states = replicate 38 52" "map ((!) yy_def) [5, 6, 8, 18, 19] = [51, 51, 51, 51, 51]" "yy_def ! 52 = 51"
  by code_simp+

lemma jam_row: "yy_chk ! (yy_base ! 51 + k) = 51 \<and> yy_nxt ! (yy_base ! 51 + k) = 51" if "0 < k" "k < 27"
proof -
  have "list_all2 (\<lambda>s n. s = 51 \<and> n = 51) (drop 68 yy_chk) (drop 68 yy_nxt)" "yy_base ! 51 = 67" by code_simp+
  then show ?thesis using that table_sizes list_all2_nthD [of "\<lambda>s n. s = 51 \<and> n = 51" "drop 68 yy_chk" "drop 68 yy_nxt" "k - 1"] by auto
qed

lemma meta: "0 < k \<Longrightarrow> k < 27 \<Longrightarrow> yy_meta ! k = (if k = 5 \<or> 8 \<le> k then 2 else 1)"
proof -
  have "list_all (\<lambda>(k, m). m = (if k = 5 \<or> 8 \<le> k then 2 else 1)) (zip [1..<27] (tl yy_meta))" "length yy_meta = 27" by code_simp+
  moreover assume "0 < k" "k < 27"
  ultimately show ?thesis by (auto simp: list_all_length nth_tl dest!: spec [of _ "k - 1"])
qed

lemma goto_stored:
  "s < 53 \<Longrightarrow> s \<noteq> 3 \<Longrightarrow> s \<noteq> 51 \<Longrightarrow> 0 < k \<Longrightarrow> k < 27 \<Longrightarrow>
   yy_goto (Suc n) s k =
     (case map_of yy_entries (s, k) of
        Some t \<Rightarrow> Some t
      | None \<Rightarrow> yy_goto n (yy_def ! s) (if 52 \<le> yy_def ! s then yy_meta ! k else k))"
  using own_entry [of s k] by (cases "yy_chk ! (yy_base ! s + k) = s") (auto simp: Let_def)

lemma goto_jam: "0 < k \<Longrightarrow> k < 27 \<Longrightarrow> yy_goto (Suc n) 51 k = Some 51"
  using jam_row by simp

declare yy_goto.simps [simp del]

lemma state_52: "map_of yy_entries (52, Suc 0) = None" "map_of yy_entries (52, 2) = Some 20"
  by (simp_all add: yy_entries_def)

lemma goto_plain:
  assumes "s \<in> {5, 6, 8, 18, 19}" "0 < k" "k < 27"
  shows "yy_goto 3 s k = Some (case map_of yy_entries (s, k) of Some t \<Rightarrow> t | None \<Rightarrow> 51)"
proof -
  have "yy_def ! s = 51" using defaults(2) assms(1) by auto
  moreover have "s < 53" "s \<noteq> 3" "s \<noteq> 51" using assms(1) by auto
  ultimately show ?thesis
    unfolding numeral_3_eq_3 using goto_stored [of s k "Suc (Suc 0)"] goto_jam [of k "Suc 0"] assms(2,3)
    by (simp split: option.split)
qed

lemma goto_id:
  assumes "s \<in> set id_states" "0 < k" "k < 27"
  shows "yy_goto 3 s k = Some (case map_of yy_entries (s, k) of Some t \<Rightarrow> t | None \<Rightarrow> if k = 5 \<or> 8 \<le> k then 20 else 51)"
proof -
  obtain j where j: "j < length id_states" "id_states ! j = s" using assms(1) by (auto simp: in_set_conv_nth)
  have l: "length id_states = 38" by (simp add: id_states_def)
  have "yy_def ! s = map ((!) yy_def) id_states ! j" using j by simp
  then have d: "yy_def ! s = 52" unfolding defaults(1) using j l by simp
  have s: "s < 53" "s \<noteq> 3" "s \<noteq> 51" using assms(1) by (auto simp: id_states_def)
  have "yy_goto (Suc (Suc 0)) 52 (yy_meta ! k) = Some (if k = 5 \<or> 8 \<le> k then 20 else 51)"
    using goto_stored [of 52 "yy_meta ! k" "Suc 0"] goto_jam [of 1 0] meta [OF assms(2,3)] defaults(3) state_52
    by simp
  moreover have "yy_goto (Suc (Suc (Suc 0))) s k =
      (case map_of yy_entries (s, k) of Some t \<Rightarrow> Some t | None \<Rightarrow> yy_goto (Suc (Suc 0)) 52 (yy_meta ! k))"
    using goto_stored [OF s assms(2,3), of "Suc (Suc 0)", unfolded d] by simp
  ultimately show ?thesis unfolding numeral_3_eq_3 by (cases "map_of yy_entries (s, k)") (simp_all only: option.case)
qed

section \<open>Walks through the states of a token\<close>

text \<open>
  \<open>st t\<close> is the state after the text \<open>t\<close>; while the characters satisfy \<open>P\<close> the scanner goes on, and it ends in an accepting state
  otherwise. \<open>Q\<close> holds of the texts that are met.
\<close>

lemma walk:
  assumes nxt: "\<And>t c. Q t \<Longrightarrow> yy_next (st t) c = Some (if P c then st (t @ [c]) else 51)"
    and acc: "\<And>t. Q t \<Longrightarrow> yy_accept ! st t \<noteq> 0" and base: "\<And>t. Q t \<Longrightarrow> yy_base ! st t \<noteq> 67 \<and> st t \<noteq> 51"
    and Q: "\<And>t c. Q t \<Longrightarrow> P c \<Longrightarrow> Q (t @ [c])" and nul: "\<not> P NUL"
  shows "Q t \<Longrightarrow> yy_match (st t) t a rest = Some (yy_accept ! st (t @ takeWhile P rest), t @ takeWhile P rest, dropWhile P rest)"
proof (induction rest arbitrary: t a)
  case Nil
  then show ?case using acc by (simp add: yy_find_action_def)
next
  case (Cons c rest)
  note t = acc [OF Cons.prems] nxt [OF Cons.prems, of c]
  show ?case
  proof (cases "P c")
    case True
    then have c: "c \<noteq> NUL" using nul by auto
    have Qc: "Q (t @ [c])" using Q [OF Cons.prems True] .
    show ?thesis using t True c base [OF Qc] Cons.IH [OF Qc] by (simp add: YY_JAMBASE_def Let_def)
  next
    case False
    have "yy_accept ! 51 = 0" "yy_base ! 51 = 67" by code_simp+
    then show ?thesis using t False by (auto simp: YY_JAM_def YY_JAMBASE_def yy_find_action_def Let_def)
  qed
qed

subsection \<open>Blanks and numbers\<close>

definition blank_state :: "string \<Rightarrow> nat" where
  "blank_state t = (if length t = 1 then if hd t = newline then 6 else 5 else 18)"

definition digit_state :: "string \<Rightarrow> nat" where
  "digit_state t = (if length t = 1 then 8 else 19)"

lemma class_range: "0 < yy_class c" "yy_class c < 27"
  using class_ok [of c] by (auto simp: class_ok_def)

lemma class_blank: "is_blank c \<longleftrightarrow> yy_class c = 2 \<or> yy_class c = 3"
  and class_newline: "c = newline \<longleftrightarrow> yy_class c = 3"
  and class_digit: "isdigit c \<longleftrightarrow> yy_class c = 5"
  and class_letter_iff: "is_letter c \<longleftrightarrow> 8 \<le> yy_class c"
  and class_comma: "c = CHR '','' \<longleftrightarrow> yy_class c = 4"
  and class_semicolon: "c = CHR '';'' \<longleftrightarrow> yy_class c = 6"
  and class_eq: "c = CHR ''='' \<longleftrightarrow> yy_class c = 7"
  and class_single: "8 \<le> yy_class c \<Longrightarrow> yy_class c \<noteq> 9 \<Longrightarrow> c = class_letter (yy_class c)"
  using class_ok [of c] by (auto simp: class_ok_def)

lemma class_NUL: "yy_class NUL = 1"
  by (simp add: yy_class_def)

lemma accepts: "yy_accept ! 5 = 14" "yy_accept ! 6 = 14" "yy_accept ! 18 = 14" "yy_accept ! 8 = 13" "yy_accept ! 19 = 13"
  "yy_accept ! 4 = 15" "yy_accept ! 7 = 11" "yy_accept ! 9 = 10" "yy_accept ! 10 = 9" "yy_accept ! 1 = 0"
  by (simp_all add: yy_accept_def)

lemma bases: "yy_base ! 5 = 25" "yy_base ! 6 = 27" "yy_base ! 18 = 29" "yy_base ! 8 = 60" "yy_base ! 19 = 53"
  "yy_base ! 4 = 67" "yy_base ! 7 = 67" "yy_base ! 9 = 67" "yy_base ! 10 = 67"
  by (simp_all add: yy_base_def)

lemma blank_rows: "s \<in> {5, 6, 18} \<Longrightarrow> 0 < k \<Longrightarrow> k < 27 \<Longrightarrow> yy_goto 3 s k = Some (if k = 2 \<or> k = 3 then 18 else 51)"
  using goto_plain [of s k] by (auto simp: yy_entries_def)

lemma digit_rows: "s \<in> {8, 19} \<Longrightarrow> 0 < k \<Longrightarrow> k < 27 \<Longrightarrow> yy_goto 3 s k = Some (if k = 5 then 19 else 51)"
  using goto_plain [of s k] by (auto simp: yy_entries_def)

lemma match_blank:
  "t \<noteq> [] \<Longrightarrow> yy_match (blank_state t) t a rest = Some (14, t @ takeWhile is_blank rest, dropWhile is_blank rest)"
proof -
  have acc: "yy_accept ! blank_state u = 14" for u by (simp add: blank_state_def accepts)
  assume "t \<noteq> []"
  then have "yy_match (blank_state t) t a rest =
      Some (yy_accept ! blank_state (t @ takeWhile is_blank rest), t @ takeWhile is_blank rest, dropWhile is_blank rest)"
  proof (rule walk [of "\<lambda>t. t \<noteq> []", rotated -1])
    show "yy_next (blank_state u) c = Some (if is_blank c then blank_state (u @ [c]) else 51)" if "u \<noteq> []" for u c
      using blank_rows [of "blank_state u" "yy_class c"] class_range that by (simp add: yy_next_def blank_state_def class_blank)
  qed (auto simp: accepts bases blank_state_def class_blank class_NUL)
  then show ?thesis by (simp add: acc)
qed

lemma match_digit:
  "t \<noteq> [] \<Longrightarrow> yy_match (digit_state t) t a rest = Some (13, t @ takeWhile isdigit rest, dropWhile isdigit rest)"
proof -
  have acc: "yy_accept ! digit_state u = 13" for u by (simp add: digit_state_def accepts)
  assume "t \<noteq> []"
  then have "yy_match (digit_state t) t a rest =
      Some (yy_accept ! digit_state (t @ takeWhile isdigit rest), t @ takeWhile isdigit rest, dropWhile isdigit rest)"
  proof (rule walk [of "\<lambda>t. t \<noteq> []", rotated -1])
    show "yy_next (digit_state u) c = Some (if isdigit c then digit_state (u @ [c]) else 51)" if "u \<noteq> []" for u c
      using digit_rows [of "digit_state u" "yy_class c"] class_range that by (simp add: yy_next_def digit_state_def class_digit)
  qed (auto simp: accepts bases digit_state_def class_digit class_NUL)
  then show ?thesis by (simp add: acc)
qed

subsection \<open>Keywords and identifiers\<close>

text \<open>The transitions towards keywords, the first letters, and the text that leads to each of these states.\<close>

definition id_trans :: "((nat \<times> char) \<times> nat) list" where
  "id_trans = [
    ((14, CHR ''E''), 23), ((23, CHR ''L''), 30), ((30, CHR ''E''), 38), ((38, CHR ''C''), 43),
    ((43, CHR ''T''), 48), ((12, CHR ''R''), 21), ((21, CHR ''O''), 27), ((27, CHR ''M''), 35),
    ((17, CHR ''H''), 26), ((26, CHR ''E''), 34), ((34, CHR ''R''), 41), ((41, CHR ''E''), 46),
    ((13, CHR ''N''), 22), ((22, CHR ''S''), 28), ((28, CHR ''E''), 36), ((36, CHR ''R''), 42),
    ((42, CHR ''T''), 47), ((22, CHR ''T''), 29), ((29, CHR ''O''), 37), ((16, CHR ''A''), 25),
    ((25, CHR ''L''), 33), ((33, CHR ''U''), 40), ((40, CHR ''E''), 45), ((45, CHR ''S''), 50),
    ((15, CHR ''P''), 24), ((24, CHR ''D''), 32), ((32, CHR ''A''), 39), ((39, CHR ''T''), 44),
    ((44, CHR ''E''), 49), ((23, CHR ''T''), 31)]"

definition id_firsts :: "(char \<times> nat) list" where
  "id_firsts = [(CHR ''S'', 14), (CHR ''F'', 12), (CHR ''W'', 17), (CHR ''I'', 13), (CHR ''V'', 16), (CHR ''U'', 15)]"

definition id_paths :: "(nat \<times> string) list" where
  "id_paths = [
    (14, ''S''), (23, ''SE''), (30, ''SEL''), (38, ''SELE''), (43, ''SELEC''), (48, ''SELECT''), (12, ''F''),
    (21, ''FR''), (27, ''FRO''), (35, ''FROM''), (17, ''W''), (26, ''WH''), (34, ''WHE''), (41, ''WHER''),
    (46, ''WHERE''), (13, ''I''), (22, ''IN''), (28, ''INS''), (36, ''INSE''), (42, ''INSER''), (47, ''INSERT''),
    (29, ''INT''), (37, ''INTO''), (16, ''V''), (25, ''VA''), (33, ''VAL''), (40, ''VALU''), (45, ''VALUE''),
    (50, ''VALUES''), (15, ''U''), (24, ''UP''), (32, ''UPD''), (39, ''UPDA''), (44, ''UPDAT''), (49, ''UPDATE''),
    (31, ''SET'')]"

definition id_step :: "nat \<Rightarrow> char \<Rightarrow> nat" where
  "id_step s c = (case map_of id_trans (s, c) of Some n \<Rightarrow> n | None \<Rightarrow> 20)"

definition id_first :: "char \<Rightarrow> nat" where
  "id_first c = (case map_of id_firsts c of Some n \<Rightarrow> n | None \<Rightarrow> 11)"

definition id_state :: "string \<Rightarrow> nat" where
  "id_state t = foldl id_step (id_first (hd t)) (tl t)"

text \<open>The number of the rule for a word.\<close>

definition word_rules :: "(string \<times> nat) list" where
  "word_rules =
     [(''SELECT'', 1), (''FROM'', 2), (''WHERE'', 3), (''INSERT'', 4), (''INTO'', 5), (''VALUES'', 6), (''UPDATE'', 7), (''SET'', 8)]"

definition word_rule :: "string \<Rightarrow> nat" where
  "word_rule w = (case map_of word_rules w of Some a \<Rightarrow> a | None \<Rightarrow> 12)"

lemma id_tables:
  "list_all (\<lambda>((s, k), n). s \<in> set id_states \<longrightarrow> 8 \<le> k \<and> k \<noteq> 9 \<and> ((s, class_letter k), n) \<in> set id_trans) yy_entries"
  "list_all (\<lambda>((s, c), n). ((s, yy_class c), n) \<in> set yy_entries) id_trans"
  "list_all (\<lambda>((s, c), n). n \<in> set id_states) id_trans"
  by code_simp+

lemma id_trans_distinct: "distinct (map fst id_trans)"
  by (simp add: id_trans_def)

lemma id_entries:
  assumes s: "s \<in> set id_states"
  shows "map_of yy_entries (s, yy_class c) = map_of id_trans (s, c)"
proof (cases "map_of yy_entries (s, yy_class c)")
  case (Some n)
  then have "8 \<le> yy_class c" "yy_class c \<noteq> 9" "((s, class_letter (yy_class c)), n) \<in> set id_trans"
    using id_tables(1) s map_of_SomeD [OF Some] by (auto simp: list_all_iff)
  then show ?thesis using Some class_single [of c] id_trans_distinct by simp
next
  case None
  have "map_of id_trans (s, c) = None"
  proof (rule ccontr)
    assume "map_of id_trans (s, c) \<noteq> None"
    then obtain n where "((s, c), n) \<in> set id_trans" by (auto dest: map_of_SomeD)
    then have "((s, yy_class c), n) \<in> set yy_entries" using id_tables(2) by (auto simp: list_all_iff)
    then show False using None by (auto simp: map_of_eq_None_iff image_iff)
  qed
  then show ?thesis using None by simp
qed

lemma id_next: "s \<in> set id_states \<Longrightarrow> yy_next s c = Some (if is_word c then id_step s c else 51)"
proof -
  assume s: "s \<in> set id_states"
  have k: "is_word c \<longleftrightarrow> yy_class c = 5 \<or> 8 \<le> yy_class c" by (auto simp: is_word_def class_letter_iff class_digit)
  have "is_word c" if "map_of id_trans (s, c) = Some n" for n
    using that id_entries [OF s, of c] id_tables(1) s k by (auto simp: list_all_iff dest!: map_of_SomeD)
  then show ?thesis
    using goto_id [OF s class_range [of c]] id_entries [OF s, of c]
    by (auto simp: yy_next_def id_step_def k split: option.split)
qed

lemma id_step_state: "id_step s c \<in> set id_states"
  using id_tables(3) by (auto simp: id_step_def list_all_iff id_states_def split: option.split dest!: map_of_SomeD)

lemma id_first_state: "id_first c \<in> set id_states"
  by (simp add: id_first_def id_firsts_def id_states_def)

lemma id_state_snoc: "t \<noteq> [] \<Longrightarrow> id_state (t @ [c]) = id_step (id_state t) c"
  by (cases t) (simp_all add: id_state_def)

lemma id_state_states: "id_state t \<in> set id_states"
  by (cases "tl t" rule: rev_cases) (simp_all add: id_state_def id_first_state id_step_state)

lemma id_path_tables:
  "list_all (\<lambda>(c, s). map_of id_paths s = Some [c]) id_firsts"
  "list_all (\<lambda>((s, c), n). map_of id_paths n = map_option (\<lambda>q. q @ [c]) (map_of id_paths s) \<and> map_of id_paths s \<noteq> None) id_trans"
  "map_of id_paths 11 = None" "map_of id_paths 20 = None"
  by code_simp+

lemma id_path: "t \<noteq> [] \<Longrightarrow> map_of id_paths (id_state t) = Some p \<Longrightarrow> t = p"
proof (induction t arbitrary: p rule: rev_nonempty_induct)
  case (single c)
  show ?case
  proof (cases "map_of id_firsts c")
    case None
    then show ?thesis using single id_path_tables(3) by (simp add: id_state_def id_first_def)
  next
    case (Some s)
    then have "map_of id_paths s = Some [c]" using id_path_tables(1) map_of_SomeD [OF Some] by (auto simp: list_all_iff)
    then show ?thesis using single Some by (simp add: id_state_def id_first_def)
  qed
next
  case (snoc c t)
  show ?case
  proof (cases "map_of id_trans (id_state t, c)")
    case None
    then show ?thesis using snoc id_path_tables(4) by (simp add: id_state_snoc id_step_def)
  next
    case (Some n)
    then obtain q where "map_of id_paths (id_state t) = Some q" "map_of id_paths n = Some (q @ [c])"
      using id_path_tables(2) map_of_SomeD [OF Some] by (fastforce simp: list_all_iff)
    then show ?thesis using snoc Some by (simp add: id_state_snoc id_step_def)
  qed
qed

lemma id_accepts:
  "list_all (\<lambda>(s, a, b). a = (case map_of id_paths s of Some p \<Rightarrow> word_rule p | None \<Rightarrow> 12) \<and> b \<noteq> 67)
     (map (\<lambda>s. (s, yy_accept ! s, yy_base ! s)) id_states)"
  "list_all (\<lambda>(w, a). map_of id_paths (id_state w) \<noteq> None) word_rules"
  by code_simp+

lemma word_rule_pos: "word_rule w \<noteq> 0"
  by (simp add: word_rule_def word_rules_def)

lemma id_accept: "t \<noteq> [] \<Longrightarrow> yy_accept ! id_state t = word_rule t"
proof -
  assume t: "t \<noteq> []"
  have a: "yy_accept ! id_state t = (case map_of id_paths (id_state t) of Some p \<Rightarrow> word_rule p | None \<Rightarrow> 12)"
    using id_accepts(1) id_state_states [of t] by (auto simp: list_all_iff)
  show ?thesis
  proof (cases "map_of id_paths (id_state t)")
    case (Some p)
    then show ?thesis using a id_path [OF t Some] by simp
  next
    case None
    then have "map_of word_rules t = None" using id_accepts(2) by (fastforce simp: list_all_iff map_of_eq_None_iff)
    then show ?thesis using a None by (simp add: word_rule_def)
  qed
qed

lemma match_word:
  "t \<noteq> [] \<Longrightarrow> yy_match (id_state t) t a rest = Some (word_rule (t @ takeWhile is_word rest), t @ takeWhile is_word rest, dropWhile is_word rest)"
proof -
  have no_jam: "51 \<notin> set id_states" by (simp add: id_states_def)
  assume t: "t \<noteq> []"
  then have "yy_match (id_state t) t a rest =
      Some (yy_accept ! id_state (t @ takeWhile is_word rest), t @ takeWhile is_word rest, dropWhile is_word rest)"
  proof (rule walk [of "\<lambda>t. t \<noteq> []", rotated -1])
    show "yy_next (id_state u) c = Some (if is_word c then id_state (u @ [c]) else 51)" if "u \<noteq> []" for u c
      using id_next [OF id_state_states] that by (simp add: id_state_snoc)
    show "yy_base ! id_state u \<noteq> 67 \<and> id_state u \<noteq> 51" for u
      using id_accepts(1) id_state_states [of u] no_jam by (auto simp: list_all_iff)
  qed (auto simp: id_accept word_rule_pos is_word_def class_letter_iff class_digit class_NUL)
  then show ?thesis using t by (simp add: id_accept)
qed

section \<open>The first character\<close>

definition first_state :: "char \<Rightarrow> nat" where
  "first_state c =
     (if is_blank c then blank_state [c] else if is_letter c then id_state [c] else if isdigit c then digit_state [c]
      else if c = CHR ''='' then 10 else if c = CHR '';'' then 9 else if c = CHR '','' then 7 else 4)"

text \<open>The row of the start state, and the letters that start a keyword.\<close>

lemma start_row:
  "list_all (\<lambda>k. map_of yy_entries (1, k) = Some 11 \<or>
     k \<noteq> 9 \<and> map_of yy_entries (1, k) = map_of id_firsts (class_letter k) \<and> map_of id_firsts (class_letter k) \<noteq> None) [8..<27]"
  "list_all (\<lambda>(c, s). map_of yy_entries (1, yy_class c) = Some s \<and> s \<noteq> 11) id_firsts"
  by code_simp+

lemma start_small: "0 < k \<Longrightarrow> k < 8 \<Longrightarrow> map_of yy_entries (1, k) = Some (k + 3)"
proof -
  assume "0 < k" "k < 8"
  then consider "k = 1" | "k = 2" | "k = 3" | "k = 4" | "k = 5" | "k = 6" | "k = 7" by linarith
  then show ?thesis by cases (simp_all add: yy_entries_def)
qed

lemma start_letter: "8 \<le> yy_class c \<Longrightarrow> map_of yy_entries (1, yy_class c) = Some (id_first c)"
proof -
  assume k: "8 \<le> yy_class c"
  then have "yy_class c \<in> set [8..<27]" using class_range [of c] unfolding set_upt by simp
  then have r: "map_of yy_entries (1, yy_class c) = Some 11 \<or> yy_class c \<noteq> 9 \<and>
      map_of yy_entries (1, yy_class c) = map_of id_firsts (class_letter (yy_class c)) \<and> map_of id_firsts (class_letter (yy_class c)) \<noteq> None"
    by (rule bspec [OF start_row(1) [unfolded list_all_iff]])
  show ?thesis
  proof (cases "map_of id_firsts c")
    case (Some s)
    then have "(c, s) \<in> set id_firsts" by (rule map_of_SomeD)
    then have "map_of yy_entries (1, yy_class c) = Some s" using start_row(2) by (auto simp: list_all_iff)
    then show ?thesis using Some by (simp add: id_first_def)
  next
    case None
    then have "map_of yy_entries (1, yy_class c) = Some 11" using r class_single [OF k] by metis
    then show ?thesis using None by (simp add: id_first_def)
  qed
qed

lemma start_next: "yy_next 1 c = Some (first_state c)"
proof -
  have "map_of yy_entries (1, yy_class c) = Some (first_state c)"
  proof (cases "8 \<le> yy_class c")
    case True
    then show ?thesis using start_letter [OF True] by (simp add: first_state_def id_state_def class_blank class_letter_iff)
  next
    case False
    then have "map_of yy_entries (1, yy_class c) = Some (yy_class c + 3)" using start_small class_range by simp
    moreover have "yy_class c \<in> {1, 2, 3, 4, 5, 6, 7}" using False class_range [of c] by auto
    ultimately show ?thesis using False
      by (auto simp: first_state_def class_blank class_letter_iff class_digit class_eq class_semicolon class_comma
        blank_state_def digit_state_def class_newline)
  qed
  then show ?thesis
    using goto_stored [of 1 "yy_class c" 2] class_range [of c] by (simp add: yy_next_def numeral_3_eq_3 numeral_2_eq_2)
qed

lemma stop_next: "yy_next 4 c = Some 51"
proof -
  have "yy_def ! 4 = 51" by code_simp
  moreover have "map_of yy_entries (4, yy_class c) = None" by (simp add: yy_entries_def)
  ultimately show ?thesis
    using goto_stored [of 4 "yy_class c" 2] goto_jam [of "yy_class c" 1] class_range [of c]
    by (simp add: yy_next_def numeral_3_eq_3 numeral_2_eq_2)
qed

text \<open>A NUL is a character no rule takes: the scanner goes one character further and backs up.\<close>

lemma match_stop: "yy_match 4 [c] None rest = Some (15, [c], rest)"
proof (cases rest)
  case (Cons d r)
  have "yy_accept ! 51 = 0" "yy_base ! 51 = 67" by code_simp+
  then show ?thesis using Cons by (simp add: stop_next accepts yy_find_action_def YY_JAM_def YY_JAMBASE_def Let_def)
qed (simp add: yy_find_action_def accepts)

lemma match_start:
  "yy_match 1 [] None (c # rest) =
     (if c = NUL \<or> yy_base ! first_state c \<noteq> 67 then yy_match (first_state c) [c] None rest
      else Some (yy_accept ! first_state c, [c], rest))" if "yy_accept ! first_state c \<noteq> 0"
proof -
  have "first_state c = 4" if "c = NUL"
    using that by (simp add: first_state_def class_blank class_letter_iff class_digit class_eq class_semicolon class_comma class_NUL)
  then show ?thesis using that start_next [of c]
    by (auto simp: accepts accepts(10) [unfolded One_nat_def] yy_find_action_def YY_JAM_def YY_JAMBASE_def Let_def)
qed

text \<open>One token: the rule, the text and the rest.\<close>

definition sql_rule :: "string \<Rightarrow> nat \<times> string \<times> string" where
  "sql_rule s =
     (if is_blank (hd s) then (14, takeWhile is_blank s, dropWhile is_blank s)
      else if is_letter (hd s) then (word_rule (takeWhile is_word s), takeWhile is_word s, dropWhile is_word s)
      else if isdigit (hd s) then (13, takeWhile isdigit s, dropWhile isdigit s)
      else (if hd s = CHR ''='' then 9 else if hd s = CHR '';'' then 10 else if hd s = CHR '','' then 11 else 15, [hd s], tl s))"

lemma match_rule: "s \<noteq> [] \<Longrightarrow> yy_match 1 [] None s = Some (sql_rule s)"
proof -
  assume "s \<noteq> []"
  then obtain c rest where s: "s = c # rest" by (cases s) auto
  have nul: "\<not> is_blank NUL" "\<not> is_letter NUL" "\<not> isdigit NUL" "NUL \<noteq> CHR ''=''" "NUL \<noteq> CHR '';''" "NUL \<noteq> CHR '',''"
    by (simp_all add: class_blank class_letter_iff class_digit class_eq class_semicolon class_comma class_NUL)
  consider (blank) "is_blank c" | (word) "\<not> is_blank c" "is_letter c" | (digit) "\<not> is_blank c" "\<not> is_letter c" "isdigit c"
    | (other) "\<not> is_blank c" "\<not> is_letter c" "\<not> isdigit c" by blast
  then show ?thesis
  proof cases
    case blank
    then have "first_state c = blank_state [c]" by (simp add: first_state_def)
    moreover have "yy_base ! blank_state [c] \<noteq> 67" "yy_accept ! blank_state [c] \<noteq> 0" by (simp_all add: blank_state_def bases accepts)
    ultimately show ?thesis using match_start [of c rest] match_blank [of "[c]" None rest] blank s by (simp add: sql_rule_def)
  next
    case word
    then have "first_state c = id_state [c]" by (simp add: first_state_def)
    moreover have "yy_base ! id_state [c] \<noteq> 67" using id_accepts(1) id_state_states [of "[c]"] by (auto simp: list_all_iff)
    moreover have "is_word c" using word by (simp add: is_word_def)
    ultimately show ?thesis using match_start [of c rest] match_word [of "[c]" None rest] word s id_accept [of "[c]"] word_rule_pos
      by (simp add: sql_rule_def)
  next
    case digit
    then have "first_state c = digit_state [c]" by (simp add: first_state_def)
    moreover have "yy_base ! digit_state [c] \<noteq> 67" "yy_accept ! digit_state [c] \<noteq> 0" by (simp_all add: digit_state_def bases accepts)
    ultimately show ?thesis using match_start [of c rest] match_digit [of "[c]" None rest] digit s by (simp add: sql_rule_def)
  next
    case other
    then show ?thesis using match_start [of c rest] match_stop [of c rest] s nul
      by (cases "c = NUL") (simp_all add: sql_rule_def first_state_def bases accepts)
  qed
qed

section \<open>The tokens\<close>

lemma word_action: "lex_action (word_rule w) w = Some (word_token w)" if "c_str w = w"
proof -
  have "map_of sql_keywords w = map_option (\<lambda>a. fst (the (lex_action a w))) (map_of word_rules w)"
    by (simp add: sql_keywords_def word_rules_def lex_action_def)
  moreover have "lex_action a w = Some (fst (the (lex_action a w)), None)" if "map_of word_rules w = Some a" for a
    using that by (auto simp: word_rules_def lex_action_def split: if_splits)
  ultimately show ?thesis using that
    by (cases "map_of word_rules w") (simp_all add: word_rule_def word_token_def, simp add: lex_action_def)
qed

lemma word_text: "c_str (takeWhile is_word s) = takeWhile is_word s"
proof -
  have "NUL \<notin> set (takeWhile is_word s)"
    by (auto simp: is_word_def class_letter_iff class_digit class_NUL dest: set_takeWhileD)
  then show ?thesis by (rule c_str_id)
qed

lemma word_rule_small: "word_rule w < 13"
  by (simp add: word_rule_def word_rules_def)

definition unknown :: "char + token \<Rightarrow> sql_out" where
  "unknown u = Unknown_character (c_str [projl u])"

definition lexed :: "(char + token) list \<Rightarrow> string \<Rightarrow> int \<times> yystype option \<times> sql_out list \<times> string" where
  "lexed xs rest =
     (let ls = map unknown (takeWhile isl xs) in
      case dropWhile isl xs of [] \<Rightarrow> (0, None, ls, rest) | x # _ \<Rightarrow> (fst (projr x), snd (projr x), ls, rest))"

lemma lexed_simps:
  "lexed [] r = (0, None, [], r)" "lexed (Inr t # xs) r = (fst t, snd t, [], r)"
  "lexed (Inl c # xs) r = (\<lambda>(k, v, ls, r). (k, v, Unknown_character (c_str [c]) # ls, r)) (lexed xs r)"
  by (simp_all add: lexed_def unknown_def Let_def del: dropWhile_eq_Nil_conv split: list.split)

lemma yylex_lexemes: "\<exists>rest. yylex s = Some (lexed (sql_lexemes s) rest) \<and> sql_lexemes rest = tl (dropWhile isl (sql_lexemes s))"
proof (induction s rule: sql_lexemes.induct)
  case (1 s)
  show ?case
  proof (cases "s = []")
    case True
    then show ?thesis by (simp add: yylex.simps [of "[]"] sql_lexemes.simps [of "[]"] lexed_simps)
  next
    case False
    note y = yylex.simps [of s] match_rule [OF False, unfolded One_nat_def] sql_lexemes.simps [of s] sql_rule_def False lex_action_def lexed_simps
    consider (blank) "is_blank (hd s)" | (word) "\<not> is_blank (hd s)" "is_letter (hd s)"
      | (token) "\<not> is_blank (hd s)" "\<not> is_letter (hd s)" "isdigit (hd s) \<or> hd s \<in> {CHR ''='', CHR '';'', CHR '',''}"
      | (other) "\<not> is_blank (hd s)" "\<not> is_letter (hd s)" "\<not> isdigit (hd s)" "hd s \<notin> {CHR ''='', CHR '';'', CHR '',''}" by blast
    then show ?thesis
    proof cases
      case blank
      then show ?thesis using "1.IH"(1) [OF False] by (simp add: y)
    next
      case word
      have "lex_action (word_rule (takeWhile is_word s)) (takeWhile is_word s) = Some (word_token (takeWhile is_word s))"
        by (rule word_action) (rule word_text)
      then show ?thesis using word word_rule_small [of "takeWhile is_word s"] by (auto simp: y(1,2,3,4,5) lexed_simps split: prod.split)
    next
      case token
      then show ?thesis by (auto simp: y)
    next
      case other
      then obtain rest where "yylex (tl s) = Some (lexed (sql_lexemes (tl s)) rest)" "sql_lexemes rest = tl (dropWhile isl (sql_lexemes (tl s)))"
        using "1.IH"(7) [OF False] by auto
      then show ?thesis using other by (auto simp: y)
    qed
  qed
qed

lemma token_ok_word: "token_ok (word_token w)"
proof -
  have "list_all (\<lambda>(w, k). token_ok (k, None)) sql_keywords" by (simp add: sql_keywords_def token_ok_def token_kinds INSERT_def INTO_def VALUES_def UPDATE_def SET_def)
  then show ?thesis
    by (cases "map_of sql_keywords w") (auto simp: word_token_def token_ok_iff list_all_iff dest!: map_of_SomeD)
qed

lemma c_int_to_int32: "c_int (to_int32 n)"
  unfolding c_int_def to_int32_def
  by (intro conjI) (simp_all only: signed_take_bit_int_greater_eq_minus_exp signed_take_bit_int_less_exp)

lemma lexemes_ok: "Inr t \<in> set (sql_lexemes s) \<Longrightarrow> token_ok t"
proof (induction s rule: sql_lexemes.induct)
  case (1 s)
  show ?case using "1.prems" "1.IH"
    by (subst (asm) sql_lexemes.simps) (auto simp: token_ok_word token_ok_iff c_int_to_int32 split: if_splits)
qed

lemma tokens_of_lexemes:
  "sql_tokens s = (case dropWhile isl (sql_lexemes s) of [] \<Rightarrow> [] | x # xs \<Rightarrow> projr x # map projr (filter (\<lambda>x. \<not> isl x) xs))"
proof -
  have "filter (\<lambda>x. \<not> isl x) xs = filter (\<lambda>x. \<not> isl x) (dropWhile isl xs)" for xs :: "(char + token) list" by (induction xs) auto
  from this [of "sql_lexemes s"] show ?thesis
    using hd_dropWhile [of isl "sql_lexemes s"]
    by (cases "dropWhile isl (sql_lexemes s)") (auto simp: sql_tokens_def simp del: dropWhile_eq_Nil_conv)
qed

lemma unknown_unreported: "reported (map unknown us) = []"
  by (simp add: reported_def unknown_def)

text \<open>The scanner keeps the contract of the parser.\<close>

interpretation sql: token_source yylex sql_tokens "\<lambda>_. True"
proof
  fix s t ts
  assume "sql_tokens s = t # ts"
  then obtain x xs where x: "dropWhile isl (sql_lexemes s) = x # xs" "t = projr x" "ts = map projr (filter (\<lambda>x. \<not> isl x) xs)"
    by (auto simp: tokens_of_lexemes split: list.splits)
  obtain rest where "yylex s = Some (lexed (sql_lexemes s) rest)" "sql_lexemes rest = xs" using yylex_lexemes [of s] x by auto
  then show "\<exists>ls l'. yylex s = Some (fst t, snd t, ls, l') \<and> True \<and> sql_tokens l' = ts \<and> reported ls = []"
    using x by (auto simp: lexed_def Let_def sql_tokens_def unknown_unreported)
next
  fix s
  assume "sql_tokens s = []"
  then have "dropWhile isl (sql_lexemes s) = []" by (auto simp: tokens_of_lexemes split: list.splits)
  then show "\<exists>v ls l'. yylex s = Some (0, v, ls, l') \<and> reported ls = []"
    using yylex_lexemes [of s] by (auto simp: lexed_def Let_def unknown_unreported simp del: dropWhile_eq_Nil_conv)
next
  fix t s
  assume "t \<in> set (sql_tokens s)"
  then obtain x where "x \<in> set (sql_lexemes s)" "\<not> isl x" "t = projr x" by (auto simp: sql_tokens_def)
  then show "token_ok t" using lexemes_ok [of t s] by (cases x) auto
qed

section \<open>The text of a statement\<close>

text \<open>An identifier that is not a keyword, and the usual way to write a statement.\<close>

definition is_name :: "string \<Rightarrow> bool" where
  "is_name w \<longleftrightarrow> w \<noteq> [] \<and> is_letter (hd w) \<and> list_all is_word w \<and> map_of sql_keywords w = None"

definition statement_text :: "string \<Rightarrow> string list \<Rightarrow> string \<Rightarrow> string \<Rightarrow> int \<Rightarrow> string" where
  "statement_text c cs tab x n =
     ''SELECT '' @ joined c cs @ '' FROM '' @ tab @ '' WHERE '' @ x @ ''='' @ show_int n @ '';''"

lemma kinds_of_characters:
  "is_letter c \<Longrightarrow> \<not> is_blank c" "is_letter c \<Longrightarrow> \<not> isdigit c" "isdigit c \<Longrightarrow> \<not> is_blank c"
  by (simp_all add: class_letter_iff class_blank class_digit)

lemma span_append: "list_all P w \<Longrightarrow> r = [] \<or> \<not> P (hd r) \<Longrightarrow> takeWhile P (w @ r) = w \<and> dropWhile P (w @ r) = r"
  by (cases r) (auto simp: list_all_iff takeWhile_eq_all_conv)

lemma tokens_Nil: "sql_tokens [] = []"
  by (simp add: sql_tokens_def sql_lexemes.simps [of "[]"])

lemma tokens_blank: "sql_tokens (CHR '' '' # s) = sql_tokens s"
proof -
  have b: "is_blank CHR '' ''" by (simp add: is_blank_def)
  have "sql_lexemes s = sql_lexemes (dropWhile is_blank s)"
  proof (cases "s \<noteq> [] \<and> is_blank (hd s)")
    case True
    then show ?thesis by (simp add: sql_lexemes.simps [of s])
  next
    case False
    then show ?thesis by (cases s) auto
  qed
  then show ?thesis using b by (simp add: sql_tokens_def sql_lexemes.simps [of "CHR '' '' # s"])
qed

lemma tokens_word:
  assumes "w \<noteq> []" "is_letter (hd w)" "list_all is_word w" "r = [] \<or> \<not> is_word (hd r)"
  shows "sql_tokens (w @ r) = word_token w # sql_tokens r"
  using assms span_append [of is_word w r] kinds_of_characters [of "hd w"]
  by (simp add: sql_tokens_def sql_lexemes.simps [of "w @ r"])

lemma tokens_number:
  assumes "w \<noteq> []" "list_all isdigit w" "r = [] \<or> \<not> isdigit (hd r)"
  shows "sql_tokens (w @ r) = (NUMBER, Some (Num (to_int32 (digits_val w)))) # sql_tokens r"
proof -
  have "isdigit (hd w)" using assms(1,2) by (cases w) auto
  then show ?thesis using assms span_append [of isdigit w r] kinds_of_characters [of "hd w"]
    by (auto simp: sql_tokens_def sql_lexemes.simps [of "w @ r"])
qed

lemma tokens_sign:
  "sql_tokens (CHR ''='' # r) = (EQ, None) # sql_tokens r" "sql_tokens (CHR '';'' # r) = (SEMICOLON, None) # sql_tokens r"
  "sql_tokens (CHR '','' # r) = (COMMA, None) # sql_tokens r"
  by (simp_all add: sql_tokens_def sql_lexemes.simps [of "_ # r"] is_blank_def is_letter_def isdigit_def)

lemma tokens_name: "is_name w \<Longrightarrow> r = [] \<or> \<not> is_word (hd r) \<Longrightarrow> sql_tokens (w @ r) = (IDENTIFIER, Some (Str w)) # sql_tokens r"
  using tokens_word [of w r] by (simp add: is_name_def word_token_def)

lemma tokens_columns:
  "is_name c \<Longrightarrow> list_all is_name cs \<Longrightarrow> r = [] \<or> \<not> is_word (hd r) \<Longrightarrow>
   sql_tokens (joined c cs @ r) = (IDENTIFIER, Some (Str c)) # more_columns cs @ sql_tokens r"
proof -
  have j: "joined d (e # es) = d @ '','' @ joined e es" for d e and es :: "string list"
    by (induction es arbitrary: e d) auto
  show "is_name c \<Longrightarrow> list_all is_name cs \<Longrightarrow> r = [] \<or> \<not> is_word (hd r) \<Longrightarrow> ?thesis"
  proof (induction cs arbitrary: c)
    case Nil
    then show ?case by (simp add: tokens_name)
  next
    case (Cons d cs)
    have "\<not> is_word CHR '',''" by (simp add: is_word_def is_letter_def isdigit_def)
    then have "sql_tokens (c @ CHR '','' # joined d cs @ r) = (IDENTIFIER, Some (Str c)) # (COMMA, None) # sql_tokens (joined d cs @ r)"
      using Cons.prems tokens_name [of c "CHR '','' # joined d cs @ r"] by (simp add: tokens_sign)
    then show ?case using Cons by (simp add: j del: joined.simps)
  qed
qed

lemma keyword_tokens:
  "sql_tokens (''SELECT '' @ r) = (SELECT, None) # sql_tokens r" "sql_tokens (''FROM '' @ r) = (FROM, None) # sql_tokens r"
  "sql_tokens (''WHERE '' @ r) = (WHERE, None) # sql_tokens r"
proof -
  have b: "\<not> is_word CHR '' ''" by (simp add: is_word_def is_letter_def isdigit_def)
  have k: "sql_tokens (w @ CHR '' '' # r) = word_token w # sql_tokens r" if "w \<noteq> []" "is_letter (hd w)" "list_all is_word w" for w
    using tokens_word [OF that, of "CHR '' '' # r"] b by (simp add: tokens_blank)
  show "sql_tokens (''SELECT '' @ r) = (SELECT, None) # sql_tokens r"
    using k [of "''SELECT''"] by (simp add: is_word_def is_letter_def word_token_def sql_keywords_def)
  show "sql_tokens (''FROM '' @ r) = (FROM, None) # sql_tokens r"
    using k [of "''FROM''"] by (simp add: is_word_def is_letter_def word_token_def sql_keywords_def)
  show "sql_tokens (''WHERE '' @ r) = (WHERE, None) # sql_tokens r"
    using k [of "''WHERE''"] by (simp add: is_word_def is_letter_def word_token_def sql_keywords_def)
qed

lemma to_int32_small: "0 \<le> n \<Longrightarrow> n < 2 ^ 31 \<Longrightarrow> to_int32 n = n"
  by (simp add: to_int32_def signed_take_bit_int_eq_self)

lemma tokens_statement:
  assumes "is_name c" "list_all is_name cs" "is_name tab" "is_name x" "0 \<le> n" "n < 2 ^ 31"
  shows "sql_tokens (statement_text c cs tab x n) = statement c cs tab x n"
proof -
  have b: "\<not> is_word CHR '' ''" "\<not> is_word CHR ''=''" "\<not> isdigit CHR '';''"
    by (simp_all add: is_word_def is_letter_def isdigit_def)
  let ?d = "dec_str (nat n)"
  have d: "show_int n = ?d" using assms(5) by (simp add: show_int_def)
  have number: "sql_tokens (?d @ '';'') = [(NUMBER, Some (Num n)), (SEMICOLON, None)]"
    using tokens_number [of ?d "'';''"] dec_str_digits [of "nat n"] b(3) to_int32_small [OF assms(5,6)] assms(5)
    by (simp add: list_all_iff tokens_sign tokens_Nil)
  have condition: "sql_tokens (x @ CHR ''='' # ?d @ '';'') = (IDENTIFIER, Some (Str x)) # (EQ, None) # sql_tokens (?d @ '';'')"
    using tokens_name [OF assms(4), of "CHR ''='' # ?d @ '';''"] b(2) by (simp add: tokens_sign)
  have table: "sql_tokens (tab @ CHR '' '' # r) = (IDENTIFIER, Some (Str tab)) # sql_tokens r" for r
    using tokens_name [OF assms(3), of "CHR '' '' # r"] b(1) by (simp add: tokens_blank)
  have columns: "sql_tokens (joined c cs @ CHR '' '' # r) = (IDENTIFIER, Some (Str c)) # more_columns cs @ sql_tokens r" for r
    using tokens_columns [OF assms(1,2), of "CHR '' '' # r"] b(1) by (simp add: tokens_blank)
  have "statement_text c cs tab x n =
      ''SELECT '' @ joined c cs @ CHR '' '' # ''FROM '' @ tab @ CHR '' '' # ''WHERE '' @ x @ CHR ''='' # ?d @ '';''"
    by (simp add: statement_text_def d)
  then show ?thesis
    unfolding statement_def by (simp only: keyword_tokens columns table condition number)
qed

section \<open>The program\<close>

text \<open>C10: The scanner generated from the tables delivers the next lexeme of the rules of \<^verbatim>\<open>sql_lexer.l\<close>, for every input. It returns;
  it reports the characters no rule takes that come before the token, one by one; and it leaves an input with the lexemes that
  come after the token. At the end of the input it returns 0.
\<close>

theorem yylex_follows_rules:
  "\<exists>rest. sql_lexemes rest = tl (dropWhile isl (sql_lexemes s)) \<and>
     yylex s = Some (let unknown = map (\<lambda>u. Unknown_character (c_str [projl u])) (takeWhile isl (sql_lexemes s)) in
       case dropWhile isl (sql_lexemes s) of
         [] \<Rightarrow> (0, None, unknown, rest)
       | t # _ \<Rightarrow> (fst (projr t), snd (projr t), unknown, rest))"
  using yylex_lexemes [of s] unfolding lexed_def unknown_def by blast

end
