(* ===== verification/Flex_Refine.thy ===== *)
theory Flex_Refine
  imports Flex_Buffer Sql_Lexer_Props
begin

text \<open>
  The scanner over the buffer implements the scanner over a string. \<open>window s w\<close> says that the buffer from the start of the token
  on, and then the input not read yet, are the string \<open>w\<close>; a refill moves the window without changing this
  string. The position inside a token is \<open>conf\<close>, a configuration of the abstract \<open>yy_match\<close>.
\<close>

section \<open>Reading\<close>

lemma getc_line_split: "getc_line n s = (r, rest) \<Longrightarrow> r @ rest = s \<and> length r \<le> n \<and> (0 < n \<longrightarrow> (r = [] \<longleftrightarrow> s = []))"
  by (induction n s arbitrary: r rest rule: getc_line.induct) (fastforce split: if_splits prod.splits simp: apfst_def map_prod_def)+

lemma YY_INPUT_split: "YY_INPUT tty n s = (r, rest) \<Longrightarrow> r @ rest = s \<and> length r \<le> n \<and> (0 < n \<longrightarrow> (r = [] \<longleftrightarrow> s = []))"
  using getc_line_split [of n s r rest] by (auto simp: YY_INPUT_def split: if_splits)

lemma yy_grow_returns: "0 < n \<Longrightarrow> \<exists>n'. yy_grow True m n = Some n' \<and> n \<le> n' \<and> m + 1 < n'"
proof (induction "m + 2 - n" arbitrary: n rule: less_induct)
  case less
  show ?case
  proof (cases "m + 1 < n")
    case True
    then show ?thesis by (simp add: yy_grow.simps)
  next
    case False
    let ?n = "if signed_take_bit 31 (int (n * 2)) \<le> 0 then n + n div 8 else n * 2"
    have "n < ?n"
    proof (cases "n < 8")
      case True
      then have "signed_take_bit 31 (int (n * 2)) = int (n * 2)" by (intro signed_take_bit_int_eq_self) auto
      then show ?thesis using less.prems by simp
    qed auto
    then obtain n' where "yy_grow True m ?n = Some n'" "?n \<le> n'" "m + 1 < n'" using less.hyps [of ?n] less.prems False by fastforce
    then show ?thesis using False \<open>n < ?n\<close> by (subst yy_grow.simps) (auto simp del: of_nat_mult)
  qed
qed

lemma move_chars_eq: "d \<le> s \<Longrightarrow> s + n \<le> length buf \<Longrightarrow> move_chars n d s buf = take d buf @ take n (drop s buf) @ drop (d + n) buf"
proof (induction n arbitrary: d s buf)
  case (Suc n)
  have "take n (drop (Suc s) (buf[d := buf ! s])) = take n (drop (Suc s) buf)" using Suc.prems by simp
  moreover have "take (Suc n) (drop s buf) = buf ! s # take n (drop (Suc s) buf)"
    using Suc.prems by (metis Cons_nth_drop_Suc Suc_leD add_leD1 add_Suc_right le_imp_less_Suc less_le_trans nat_add_left_cancel_less take_Suc_Cons zero_less_Suc less_add_same_cancel1)
  moreover have "take (Suc d) (buf[d := buf ! s]) = take d buf @ [buf ! s]" using Suc.prems by (simp add: take_Suc_conv_app_nth)
  ultimately show ?case using Suc.IH [of "Suc d" "Suc s" "buf[d := buf ! s]"] Suc.prems by simp
qed simp

section \<open>Configurations of a match\<close>

inductive conf :: "string \<Rightarrow> nat \<Rightarrow> string \<Rightarrow> (nat \<times> string \<times> string) option \<Rightarrow> string \<Rightarrow> bool" for w where
  conf_start: "conf w 1 [] None w"
| conf_step: "conf w st t acc (c # rest) \<Longrightarrow> yy_next st c = Some n \<Longrightarrow> (if c = NUL then n \<noteq> YY_JAM else yy_base ! n \<noteq> YY_JAMBASE) \<Longrightarrow>
    conf w n (t @ [c]) (if yy_accept ! st \<noteq> 0 then Some (st, t, c # rest) else acc) rest"

lemma conf_match: "conf w st t acc rest \<Longrightarrow> yy_match 1 [] None w = yy_match st t acc rest"
  by (induction rule: conf.induct) (auto simp: Let_def split: if_splits)

lemma conf_text: "conf w st t acc rest \<Longrightarrow> w = t @ rest"
  by (induction rule: conf.induct) auto

lemma conf_acc: "conf w st t acc rest \<Longrightarrow> acc = Some (s, u, q) \<Longrightarrow> w = u @ q \<and> length u < length t \<and> yy_accept ! s \<noteq> 0"
  by (induction arbitrary: s u q rule: conf.induct) (auto split: if_splits dest: conf_text less_SucI)

text \<open>The position of the last accepting state, when there is one.\<close>

fun acc_at :: "nat \<Rightarrow> (nat \<times> string \<times> string) option \<Rightarrow> nat \<times> nat \<Rightarrow> nat \<times> nat" where
  "acc_at b None l = l"
| "acc_at b (Some (s, u, q)) l = (s, b + length u)"

lemma prev_loop_snoc:
  "prev_loop s b l (t @ [c]) =
     (case prev_loop s b l t of None \<Rightarrow> None
      | Some (st, l) \<Rightarrow> map_option (\<lambda>n. (n, if yy_accept ! st \<noteq> 0 then (st, b + length t) else l)) (yy_goto 3 st (yy_class c)))"
  by (induction t arbitrary: s b l) (auto simp: Let_def split: option.splits)

lemma conf_prev: "conf w st t acc rest \<Longrightarrow> prev_loop 1 b l t = Some (st, acc_at b acc l)"
proof (induction rule: conf.induct)
  case (conf_step st t acc c rest n)
  then show ?case by (cases acc) (auto simp: prev_loop_snoc yy_next_def)
qed simp

text \<open>The states that are met, and the way out of them at a NUL.\<close>

definition live_states :: "nat list" where
  "live_states = [1, 4, 5, 6, 8, 18, 19] @ id_states"

lemma NUL_tables:
  "list_all (\<lambda>st. yy_goto 3 st 0 = Some 3) live_states" "list_all (\<lambda>k. yy_goto 3 3 k = Some 51) [0..<27]"
  "yy_accept ! 3 = 17" "yy_base ! 3 = 66" "yy_accept ! 51 = 0" "yy_base ! 51 = 67" "yy_ec ! 0 = 0"
  by code_simp+

lemma live_next:
  assumes "st \<in> set live_states" "yy_next st c = Some n" "if c = NUL then n \<noteq> YY_JAM else yy_base ! n \<noteq> YY_JAMBASE"
  shows "n \<in> set live_states"
proof -
  have jam: "n \<noteq> 51" using assms(3) NUL_tables(6) by (auto simp: YY_JAM_def YY_JAMBASE_def split: if_splits)
  consider (start) "st = 1" | (stop) "st = 4" | (blank) "st \<in> {5, 6, 18}" | (digit) "st \<in> {8, 19}" | (word) "st \<in> set id_states"
    using assms(1) unfolding live_states_def by auto
  then show ?thesis
  proof cases
    case start
    then have "n = first_state c" using assms(2) start_next [of c] by simp
    moreover have "first_state c \<notin> {7, 9, 10}" if "c = NUL"
      using that by (simp add: first_state_def class_blank class_letter_iff class_digit class_eq class_semicolon class_comma class_NUL)
    ultimately show ?thesis using assms(3) bases id_state_states [of "[c]"]
      by (auto simp: first_state_def live_states_def blank_state_def digit_state_def YY_JAMBASE_def split: if_splits)
  next
    case stop
    then show ?thesis using assms(2) stop_next jam by simp
  next
    case blank
    then show ?thesis using assms(2) jam blank_rows [OF blank class_range, of c] by (auto simp: yy_next_def live_states_def split: if_splits)
  next
    case digit
    then show ?thesis using assms(2) jam digit_rows [OF digit class_range, of c] by (auto simp: yy_next_def live_states_def split: if_splits)
  next
    case word
    then show ?thesis using assms(2) jam id_next [OF word, of c] id_step_state [of st c] by (auto simp: live_states_def split: if_splits)
  qed
qed

lemma conf_live: "conf w st t acc rest \<Longrightarrow> st \<in> set live_states"
proof (induction rule: conf.induct)
  case conf_start
  show ?case by (simp add: live_states_def)
next
  case (conf_step st t acc c rest n)
  then show ?case using live_next by blast
qed

text \<open>
  \<open>match_loop\<close> over the rest of the buffer ends at a character that jams, as \<open>yy_match\<close> does, or one character after a NUL, be it
  a character of the input or the end of the buffer; then it has backed up to just after that NUL.
\<close>

definition jams :: "string \<Rightarrow> nat \<Rightarrow> nat \<times> nat \<times> nat \<times> nat \<Rightarrow> nat \<Rightarrow> bool" where
  "jams w b res len \<longleftrightarrow> (\<exists>st t acc rest l. res = (st, b + length t, acc_at b acc l) \<and> w = t @ rest \<and> t \<noteq> [] \<and> length t \<le> len \<and>
     (\<forall>s u q. acc = Some (s, u, q) \<longrightarrow> w = u @ q \<and> length u \<le> length t) \<and> yy_match 1 [] None w = yy_find_action st t rest acc)"

definition stops_at_NUL :: "string \<Rightarrow> nat \<Rightarrow> nat \<times> nat \<times> nat \<times> nat \<Rightarrow> nat \<Rightarrow> nat \<Rightarrow> bool" where
  "stops_at_NUL w b res from len \<longleftrightarrow> (\<exists>st t acc rest. res = (51, b + length t + 2, 3, b + length t + 1) \<and> conf w st t acc rest \<and> from \<le> length t \<and>
     (length t = len \<or> length t < len \<and> (\<exists>r. rest = NUL # r)))"

lemma stops_weaken: "stops_at_NUL w b res from len \<Longrightarrow> from' \<le> from \<Longrightarrow> stops_at_NUL w b res from' len"
  unfolding stops_at_NUL_def using le_trans by blast

lemma class_of_char: "c \<noteq> NUL \<Longrightarrow> yy_ec ! of_char c = yy_class c" "yy_ec ! of_char c < 27" "(of_char NUL :: nat) = 0"
proof -
  show n: "(of_char NUL :: nat) = 0" by (simp add: NUL_def of_char_def)
  show c: "c \<noteq> NUL \<Longrightarrow> yy_ec ! of_char c = yy_class c" by (simp add: yy_class_def)
  show "yy_ec ! of_char c < 27" using c n class_range [of c] NUL_tables(7) by (cases "c = NUL") auto
qed

lemma match_loop_NUL:
  assumes "st \<in> set live_states"
  shows "match_loop st cp l (NUL # d # z) = Some (51, cp + 2, 3, cp + 1)"
proof -
  have 3: "yy_goto 3 st 0 = Some 3" using NUL_tables(1) assms by (simp add: list_all_iff)
  have "yy_ec ! of_char d \<in> set [0..<27]" unfolding set_upt using class_of_char(2) [of d] by simp
  then have "yy_goto 3 3 (yy_ec ! of_char d) = Some 51" using NUL_tables(2) unfolding list_all_iff by blast
  then show ?thesis using 3 by (simp add: class_of_char(3) NUL_tables YY_JAMBASE_def Let_def)
qed

lemma match_loop_conf:
  assumes "conf w st t acc (u @ rest)"
  shows "\<exists>res. match_loop st (b + length t) (acc_at b acc l) (u @ NUL # NUL # z) = Some res \<and>
    (jams w b res (length (t @ u)) \<or> stops_at_NUL w b res (length t) (length (t @ u)))"
  using assms
proof (induction u arbitrary: st t acc l)
  case Nil
  have "stops_at_NUL w b (51, b + length t + 2, 3, b + length t + 1) (length t) (length t)"
    unfolding stops_at_NUL_def using Nil by (intro exI [of _ st] exI [of _ t]) auto
  then show ?case using match_loop_NUL [OF conf_live [OF Nil]] by simp
next
  case (Cons c u)
  let ?acc = "if yy_accept ! st \<noteq> 0 then Some (st, t, c # u @ rest) else acc"
  show ?case
  proof (cases "c = NUL")
    case True
    obtain d z' where z: "u @ NUL # NUL # z = d # z'" by (cases u) auto
    have "stops_at_NUL w b (51, b + length t + 2, 3, b + length t + 1) (length t) (length (t @ c # u))"
      unfolding stops_at_NUL_def using Cons.prems True by (intro exI [of _ st] exI [of _ t]) auto
    then show ?thesis using match_loop_NUL [OF conf_live [OF Cons.prems], of _ _ d z'] z True by simp
  next
    case False
    obtain n where n: "yy_next st c = Some n"
      using conf_match [OF Cons.prems] match_rule [of w] conf_text [OF Cons.prems] by (auto simp: Let_def split: option.splits)
    have a: "(if yy_accept ! st \<noteq> 0 then (st, b + length t) else acc_at b acc l) = acc_at b ?acc l" by simp
    show ?thesis
    proof (cases "yy_base ! n = YY_JAMBASE")
      case True
      have "jams w b (n, b + length (t @ [c]), acc_at b ?acc l) (length (t @ c # u))"
        unfolding jams_def
      proof (intro exI conjI)
        show "w = (t @ [c]) @ u @ rest" using conf_text [OF Cons.prems] by simp
        show "yy_match 1 [] None w = yy_find_action n (t @ [c]) (u @ rest) ?acc"
          using conf_match [OF Cons.prems] n True False by (simp add: Let_def)
        show "\<forall>s v q. ?acc = Some (s, v, q) \<longrightarrow> w = v @ q \<and> length v \<le> length (t @ [c])"
          using conf_text [OF Cons.prems] conf_acc [OF Cons.prems] by (auto intro: less_imp_le dest: less_imp_le [THEN le_SucI])
      qed simp_all
      then show ?thesis using n True False a by (simp add: class_of_char yy_next_def Let_def)
    next
      case jam: False
      have "conf w n (t @ [c]) ?acc (u @ rest)" using conf_step [OF _ n, of w t acc "u @ rest"] Cons.prems False jam by simp
      from Cons.IH [OF this, of l] obtain res where
        "match_loop n (b + length (t @ [c])) (acc_at b ?acc l) (u @ NUL # NUL # z) = Some res"
        "jams w b res (length (t @ c # u)) \<or> stops_at_NUL w b res (length t) (length (t @ c # u))"
        using stops_weaken [of w b _ "length (t @ [c])" _ "length t"] by auto
      then show ?thesis using n False jam a by (simp add: class_of_char yy_next_def Let_def)
    qed
  qed
qed

section \<open>The buffer\<close>

definition good :: "flex \<Rightarrow> bool" where
  "good s \<longleftrightarrow> yy_n_chars s \<le> b_size s \<and> length (yy_ch_buf s) = b_size s + 2 \<and> yy_init s \<and>
     (if b_fill s then 0 < b_size s \<and> b_is_our_buffer s \<and> yy_in s \<noteq> None else input_rest s = []) \<and>
     (b_status s = YY_BUFFER_NEW \<longrightarrow> yy_n_chars s = b_n_chars s) \<and> (b_status s = YY_BUFFER_EOF_PENDING \<longrightarrow> input_rest s = [])"

definition ended :: "flex \<Rightarrow> bool" where
  "ended s \<longleftrightarrow> good s \<and> yy_ch_buf s ! yy_n_chars s = NUL \<and> yy_ch_buf s ! (yy_n_chars s + 1) = NUL"

definition window :: "nat \<Rightarrow> flex \<Rightarrow> string \<Rightarrow> bool" where
  "window b s w \<longleftrightarrow> ended s \<and> b \<le> yy_n_chars s \<and> w = drop b (take (yy_n_chars s) (yy_ch_buf s)) @ input_rest s"

definition refillable :: "flex \<Rightarrow> bool" where
  "refillable s \<longleftrightarrow> b_fill s \<and> b_is_our_buffer s \<and> yy_in s \<noteq> None \<and> yy_init s"

lemma yy_refill_text:
  assumes "0 < b_size s" "length (yy_ch_buf s) = b_size s + 2" "m \<le> b_size s" "refillable s" "b_status s \<noteq> YY_BUFFER_NEW"
    "b_status s = YY_BUFFER_EOF_PENDING \<Longrightarrow> input_rest s = []"
  shows "\<exists>s'. yy_refill mem m s = Some s' \<and> length (yy_ch_buf s') = b_size s' + 2 \<and> 0 < b_size s' \<and> m + yy_n_chars s' \<le> b_size s' \<and>
    b_n_chars s' = yy_n_chars s' \<and> refillable s' \<and> b_status s' = b_status s \<and> (yy_n_chars s' = 0 \<longleftrightarrow> input_rest s = []) \<and>
    take (m + yy_n_chars s') (yy_ch_buf s') @ input_rest s' = take m (yy_ch_buf s) @ input_rest s \<and>
    length (input_rest s) = length (input_rest s') + yy_n_chars s'"
proof (cases "b_status s = YY_BUFFER_EOF_PENDING")
  case True
  then show ?thesis using assms by (auto simp: yy_refill_def refillable_def)
next
  case False
  have u: "b_is_our_buffer s" "yy_in s \<noteq> None" using assms(4) by (simp_all add: refillable_def)
  obtain n where n: "yy_grow True m (b_size s) = Some n" "b_size s \<le> n" "m + 1 < n" using yy_grow_returns assms(1) by blast
  let ?buf = "if n = b_size s then yy_ch_buf s else yyrealloc mem (n + 2) (yy_ch_buf s)"
  have buf: "length ?buf = n + 2" "take m ?buf = take m (yy_ch_buf s)" using assms(2,3) n(2) by (auto simp: yyrealloc_def)
  obtain r rest where r: "YY_INPUT (b_interactive s) (min (n - m - 1) YY_READ_BUF_SIZE) (input_rest s) = (r, rest)" by fastforce
  have "0 < min (n - m - 1) YY_READ_BUF_SIZE" using n(3) by (simp add: YY_READ_BUF_SIZE_def)
  then have i: "r @ rest = input_rest s" "length r \<le> n - m - 1" "r = [] \<longleftrightarrow> input_rest s = []"
    using YY_INPUT_split [OF r] by auto
  define s' where "s' = s\<lparr>b_size := n, yy_ch_buf := take m ?buf @ r @ drop (m + length r) ?buf, yy_n_chars := length r, b_n_chars := length r, input_rest := rest\<rparr>"
  have "yy_refill mem m s = Some s'" using False n r buf i(2) u by (simp add: yy_refill_def s'_def Let_def)
  moreover have "take (m + length r) (take m ?buf @ r @ drop (m + length r) ?buf) = take m (yy_ch_buf s) @ r"
    using buf assms(2,3) n by simp
  moreover have "length (input_rest s) = length rest + length r" using i(1) by (metis add.commute length_append)
  ultimately show ?thesis using assms n i buf by (auto simp: s'_def refillable_def)
qed

lemma yyrestart_start:
  assumes "2 \<le> length (yy_ch_buf s)"
  shows "\<exists>s'. yyrestart s = Some s' \<and> yy_ch_buf s' = (yy_ch_buf s)[0 := NUL, 1 := NUL] \<and> b_size s' = b_size s \<and> b_n_chars s' = 0 \<and>
    yy_n_chars s' = 0 \<and> b_fill s' \<and> b_is_our_buffer s' = b_is_our_buffer s \<and> yy_in s' = yy_in s \<and> yy_init s' = yy_init s \<and> b_status s' = YY_BUFFER_NEW \<and> input_rest s' = input_rest s \<and>
    yytext_ptr s' = 0 \<and> yy_c_buf_p s' = 0 \<and> yy_hold_char s' = NUL"
  using assms
  by (auto simp: yyrestart_def yy_init_buffer_def yy_flush_buffer_def yy_load_buffer_state_def store_def)

lemma yy_end_buffer_ends:
  assumes "m + yy_n_chars s \<le> b_size s" "length (yy_ch_buf s) = b_size s + 2"
  shows "\<exists>buf. yy_end_buffer mem m s = Some (s\<lparr>yy_n_chars := m + yy_n_chars s, yy_ch_buf := buf, yytext_ptr := 0\<rparr>) \<and>
    length buf = b_size s + 2 \<and> take (m + yy_n_chars s) buf = take (m + yy_n_chars s) (yy_ch_buf s) \<and>
    buf ! (m + yy_n_chars s) = NUL \<and> buf ! (m + yy_n_chars s + 1) = NUL"
  using assms by (intro exI [of _ "(yy_ch_buf s)[m + yy_n_chars s := NUL, m + yy_n_chars s + 1 := NUL]"])
    (auto simp: yy_end_buffer_def store_def add.commute)

text \<open>What fetching more input does to a window whose end the scanner has met.\<close>

lemma next_buffer:
  assumes w: "window (yytext_ptr s) s w" and p: "yy_c_buf_p s = yy_n_chars s + 1" and st: "b_status s \<noteq> YY_BUFFER_NEW"
    and h: "yy_hold_char s = NUL"
  shows "\<exists>ret s'. yy_get_next_buffer mem s = Some (ret, s') \<and>
    (if input_rest s \<noteq> [] then ret = EOB_ACT_CONTINUE_SCAN \<and> window (yytext_ptr s') s' w \<and> length (input_rest s') < length (input_rest s)
     else if w \<noteq> [] then ret = EOB_ACT_LAST_MATCH \<and> window (yytext_ptr s') s' w \<and> yy_n_chars s' = yytext_ptr s' + length w
     else ret = EOB_ACT_END_OF_FILE \<and> window (yytext_ptr s') s' [] \<and> yy_hold_char s' = NUL)"
proof (cases "b_fill s")
  case False
  then have g: "input_rest s = []" "length w = yy_n_chars s - yytext_ptr s" "yytext_ptr s \<le> yy_n_chars s"
    using w by (auto simp: window_def ended_def good_def)
  then show ?thesis using False p w h by (cases "w = []") (auto simp: yy_get_next_buffer_def)
next
  case fill: True
  define m where "m = yy_n_chars s - yytext_ptr s"
  define s1 where "s1 = s\<lparr>yy_ch_buf := move_chars m 0 (yytext_ptr s) (yy_ch_buf s)\<rparr>"
  have g: "yy_n_chars s \<le> b_size s" "length (yy_ch_buf s) = b_size s + 2" "0 < b_size s" "refillable s"
    "b_status s = YY_BUFFER_EOF_PENDING \<Longrightarrow> input_rest s = []" and b: "yytext_ptr s \<le> yy_n_chars s"
    and ww: "w = take m (drop (yytext_ptr s) (yy_ch_buf s)) @ input_rest s"
    using w fill by (auto simp: window_def ended_def good_def take_drop m_def refillable_def)
  have m: "m \<le> b_size s" "yytext_ptr s + m \<le> length (yy_ch_buf s)" using g b by (auto simp: m_def)
  have mv: "yy_ch_buf s1 = take m (drop (yytext_ptr s) (yy_ch_buf s)) @ drop m (yy_ch_buf s)"
    using move_chars_eq [OF _ m(2), of 0] by (simp add: s1_def)
  have t1: "take m (yy_ch_buf s1) = take m (drop (yytext_ptr s) (yy_ch_buf s))" "length (yy_ch_buf s1) = length (yy_ch_buf s)"
    using m by (simp_all add: mv)
  have s1: "b_size s1 = b_size s" "refillable s1 = refillable s" "b_status s1 = b_status s" "input_rest s1 = input_rest s"
    by (simp_all add: s1_def refillable_def)
  obtain s2 where s2: "yy_refill mem m s1 = Some s2" "length (yy_ch_buf s2) = b_size s2 + 2" "0 < b_size s2" "m + yy_n_chars s2 \<le> b_size s2"
    "b_n_chars s2 = yy_n_chars s2" "refillable s2" "b_status s2 = b_status s" "yy_n_chars s2 = 0 \<longleftrightarrow> input_rest s = []"
    "take (m + yy_n_chars s2) (yy_ch_buf s2) @ input_rest s2 = w" "length (input_rest s) = length (input_rest s2) + yy_n_chars s2"
    using yy_refill_text [of s1 m mem] g m(1) st t1 ww unfolding s1 by auto
  have get: "yy_get_next_buffer mem s = do {
      (ret, s) \<leftarrow> (if yy_n_chars s2 = 0 then
            if m = 0 then map_option (Pair EOB_ACT_END_OF_FILE) (yyrestart s2)
            else Some (EOB_ACT_LAST_MATCH, s2\<lparr>b_status := YY_BUFFER_EOF_PENDING\<rparr>)
          else Some (EOB_ACT_CONTINUE_SCAN, s2));
      s \<leftarrow> yy_end_buffer mem m s;
      Some (ret, s) }"
    using p fill s2(1) by (simp add: yy_get_next_buffer_def Let_def m_def s1_def)
  consider (more) "input_rest s \<noteq> []" | (last) "input_rest s = []" "m \<noteq> 0" | (eof) "input_rest s = []" "m = 0" by blast
  then show ?thesis
  proof cases
    case more
    then show ?thesis using yy_end_buffer_ends [OF s2(4,2), of mem] s2 st g(5)
      by (auto simp: get window_def ended_def good_def refillable_def)
  next
    case last
    moreover have "w \<noteq> []" using ww last m(2) by auto
    ultimately show ?thesis using yy_end_buffer_ends [of m "s2\<lparr>b_status := YY_BUFFER_EOF_PENDING\<rparr>" mem] s2
      by (auto simp: get window_def ended_def good_def refillable_def)
  next
    case eof
    obtain s3 where s3: "yyrestart s2 = Some s3" "yy_ch_buf s3 = (yy_ch_buf s2)[0 := NUL, 1 := NUL]" "b_size s3 = b_size s2" "b_n_chars s3 = 0"
      "yy_n_chars s3 = 0" "b_fill s3" "b_is_our_buffer s3 = b_is_our_buffer s2" "yy_in s3 = yy_in s2" "yy_init s3 = yy_init s2" "b_status s3 = YY_BUFFER_NEW" "input_rest s3 = input_rest s2" "yytext_ptr s3 = 0" "yy_hold_char s3 = NUL"
      using yyrestart_start [of s2] s2(2) by auto
    have "w = []" "input_rest s2 = []" "yy_n_chars s2 = 0" using ww eof s2 by auto
    then show ?thesis using yy_end_buffer_ends [of m s3 mem] s2 s3 eof
      by (auto simp: get window_def ended_def good_def refillable_def)
  qed
qed

section \<open>One token\<close>

text \<open>The string that is left for the next call: the character after the last token is in \<open>yy_hold_char\<close>.\<close>

definition after :: "flex \<Rightarrow> string \<Rightarrow> bool" where
  "after s r \<longleftrightarrow> window (yy_c_buf_p s) (s\<lparr>yy_ch_buf := (yy_ch_buf s)[yy_c_buf_p s := yy_hold_char s]\<rparr>) r"

lemma window_split:
  assumes "window b s (x @ r)" "b + length x \<le> yy_n_chars s"
  shows "take (length x) (drop b (yy_ch_buf s)) = x" "window (b + length x) s r"
proof -
  let ?v = "drop b (take (yy_n_chars s) (yy_ch_buf s))"
  have l: "length x \<le> length ?v" using assms by (auto simp: window_def ended_def good_def)
  have e: "?v @ input_rest s = x @ r" using assms(1) by (simp add: window_def)
  have "take (length x) ?v = x" using arg_cong [OF e, of "take (length x)"] l by simp
  then show "take (length x) (drop b (yy_ch_buf s)) = x" using l by (simp add: drop_take)
  have "drop (length x) ?v @ input_rest s = r" using arg_cong [OF e, of "drop (length x)"] l by simp
  then show "window (b + length x) s r" using assms by (auto simp: window_def add.commute)
qed

lemma window_cong:
  "yy_ch_buf s' = yy_ch_buf s \<Longrightarrow> yy_n_chars s' = yy_n_chars s \<Longrightarrow> b_size s' = b_size s \<Longrightarrow> b_fill s' = b_fill s \<Longrightarrow> yy_init s' = yy_init s \<Longrightarrow>
   b_is_our_buffer s' = b_is_our_buffer s \<Longrightarrow> yy_in s' = yy_in s \<Longrightarrow> b_status s' = b_status s \<Longrightarrow> b_n_chars s' = b_n_chars s \<Longrightarrow> input_rest s' = input_rest s \<Longrightarrow> window b s' w = window b s w"
  by (simp add: window_def ended_def good_def)

lemma window_length: "window b s w \<Longrightarrow> yy_n_chars s + 1 < length (yy_ch_buf s) \<and> yy_n_chars s - b \<le> length w"
  by (auto simp: window_def ended_def good_def)

text \<open>What the scanner does with a token: the number of the rule, the text, and the state after the token.\<close>

definition act_on :: "nat \<Rightarrow> string \<Rightarrow> flex \<Rightarrow> (flex_point \<times> flex \<times> sql_out list) option" where
  "act_on a x s =
     (if a = 14 then Some (At_start, s, []) else if a = 15 then Some (At_start, s, [Unknown_character (c_str x)])
      else map_option (\<lambda>(k, v). (Returns k v, s, [])) (lex_action a x))"

lemma find_token:
  assumes w: "window (yy_bp s) s w" and cp: "yy_cp s = yy_bp s + length t" "yy_cp s \<le> yy_n_chars s" and t: "w = t @ rest"
    and acc: "(yy_last_accepting_state s, yy_last_accepting_cpos s) = acc_at (yy_bp s) acc l"
      "\<And>s u q. acc = Some (s, u, q) \<Longrightarrow> w = u @ q \<and> length u \<le> length t"
    and a: "yy_find_action (yy_current_state s) t rest acc = Some (a, x, r)" "a < 16" "a \<noteq> 0"
  shows "\<exists>s'. after s' r \<and> flex_find mem s = act_on a x s'"
proof -
  let ?s = "if yy_accept ! yy_current_state s = 0
    then s\<lparr>yy_cp := yy_last_accepting_cpos s, yy_current_state := yy_last_accepting_state s\<rparr> else s"
  have x: "w = x @ r" "length x \<le> length t" "yy_cp ?s = yy_bp s + length x" "yy_accept ! yy_current_state ?s = a"
    using a(1) acc t cp(1) by (cases acc; auto simp: yy_find_action_def split: if_splits)+
  have s: "yy_ch_buf ?s = yy_ch_buf s" "yy_bp ?s = yy_bp s" "window (yy_bp s) ?s w" "yy_n_chars ?s = yy_n_chars s"
    using w window_cong [of ?s s] by auto
  have n: "yy_bp s + length x \<le> yy_n_chars s" using x(2) cp by simp
  note W = window_split [OF w [unfolded x(1)] n] 
  have len: "yy_bp s + length x < length (yy_ch_buf s)" using n window_length [OF w] by simp
  define s' where "s' = ?s\<lparr>yytext_ptr := yy_bp s, yy_hold_char := yy_ch_buf s ! (yy_bp s + length x), yy_c_buf_p := yy_bp s + length x,
      yy_ch_buf := (yy_ch_buf s)[yy_bp s + length x := NUL]\<rparr>"
  have "flex_find mem s = act_on a x s'"
    using a(2,3) W(1) len unfolding flex_find_def Let_def x(3,4) s(1,2)
    by (simp add: store_def act_on_def YY_END_OF_BUFFER_def s'_def x(3))
  moreover have "after s' r"
    using W(2) window_cong [of "s'\<lparr>yy_ch_buf := yy_ch_buf s\<rparr>" s] by (simp add: after_def s'_def)
  ultimately show ?thesis by blast
qed

text \<open>The scanner inside a token, at its end, and after a NUL.\<close>

definition matching :: "flex \<Rightarrow> string \<Rightarrow> string \<Rightarrow> string \<Rightarrow> bool" where
  "matching s w t rest \<longleftrightarrow> window (yy_bp s) s w \<and> yy_cp s = yy_bp s + length t \<and> yy_cp s \<le> yy_n_chars s \<and>
     (\<exists>acc l. conf w (yy_current_state s) t acc rest \<and> (yy_last_accepting_state s, yy_last_accepting_cpos s) = acc_at (yy_bp s) acc l)"

lemma matchingI:
  "window (yy_bp s) s w \<Longrightarrow> yy_cp s = yy_bp s + length t \<Longrightarrow> yy_cp s \<le> yy_n_chars s \<Longrightarrow> conf w (yy_current_state s) t acc rest \<Longrightarrow>
   (yy_last_accepting_state s, yy_last_accepting_cpos s) = acc_at (yy_bp s) acc l \<Longrightarrow> matching s w t rest"
  unfolding matching_def by blast

definition finding :: "flex \<Rightarrow> string \<Rightarrow> bool" where
  "finding s w \<longleftrightarrow> w \<noteq> [] \<and> window (yy_bp s) s w \<and> yy_cp s \<le> yy_n_chars s \<and>
     (\<exists>t rest acc l. yy_cp s = yy_bp s + length t \<and> w = t @ rest \<and> (yy_last_accepting_state s, yy_last_accepting_cpos s) = acc_at (yy_bp s) acc l \<and>
        (\<forall>s u q. acc = Some (s, u, q) \<longrightarrow> w = u @ q \<and> length u \<le> length t) \<and>
        yy_match 1 [] None w = yy_find_action (yy_current_state s) t rest acc)"

lemma findingI:
  "w \<noteq> [] \<Longrightarrow> window (yy_bp s) s w \<Longrightarrow> yy_cp s = yy_bp s + length t \<Longrightarrow> yy_cp s \<le> yy_n_chars s \<Longrightarrow> w = t @ rest \<Longrightarrow>
   (yy_last_accepting_state s, yy_last_accepting_cpos s) = acc_at (yy_bp s) acc l \<Longrightarrow>
   (\<And>s u q. acc = Some (s, u, q) \<Longrightarrow> w = u @ q \<and> length u \<le> length t) \<Longrightarrow>
   yy_match 1 [] None w = yy_find_action (yy_current_state s) t rest acc \<Longrightarrow> finding s w"
  unfolding finding_def by blast

definition at_NUL :: "flex \<Rightarrow> string \<Rightarrow> string \<Rightarrow> string \<Rightarrow> bool" where
  "at_NUL s w t rest \<longleftrightarrow> window (yy_bp s) s w \<and> (\<exists>st acc. conf w st t acc rest) \<and> yy_current_state s = 51 \<and>
     yy_last_accepting_state s = 3 \<and> yy_last_accepting_cpos s = yy_bp s + length t + 1 \<and> yy_bp s + length t \<le> yy_n_chars s \<and>
     (yy_bp s + length t = yy_n_chars s \<or> (\<exists>r. rest = NUL # r))"

lemma match_sim:
  assumes "matching s w t rest"
  shows "\<exists>s'. flex_match s = Some s' \<and> input_rest s' = input_rest s \<and>
    (finding s' w \<or> (\<exists>t' rest'. at_NUL s' w t' rest' \<and> length rest' \<le> length rest))"
proof -
  obtain acc l where w: "window (yy_bp s) s w" and cp: "yy_cp s = yy_bp s + length t" "yy_cp s \<le> yy_n_chars s"
    and c: "conf w (yy_current_state s) t acc rest" and l: "(yy_last_accepting_state s, yy_last_accepting_cpos s) = acc_at (yy_bp s) acc l"
    using assms by (auto simp: matching_def)
  have w': "window (yy_bp s) s (t @ rest)" using w conf_text [OF c] by simp
  let ?n = "yy_n_chars s"
  have W: "window (yy_cp s) s rest" using window_split(2) [OF w'] cp by simp
  define u where "u = drop (yy_cp s) (take ?n (yy_ch_buf s))"
  have rest: "rest = u @ input_rest s" using W by (simp add: window_def u_def)
  obtain z where z: "drop (yy_cp s) (yy_ch_buf s) = u @ NUL # NUL # z"
  proof -
    have "drop ?n (yy_ch_buf s) = NUL # NUL # drop (?n + 2) (yy_ch_buf s)"
      using W by (auto simp: window_def ended_def good_def Cons_nth_drop_Suc [symmetric])
    then have "drop (yy_cp s) (take ?n (yy_ch_buf s) @ drop ?n (yy_ch_buf s)) = u @ NUL # NUL # drop (?n + 2) (yy_ch_buf s)"
      using cp(2) window_length [OF w] by (simp add: u_def del: append_take_drop_id)
    then show thesis using that by simp
  qed
  have len: "yy_bp s + length (t @ u) = ?n" using cp window_length [OF w] by (simp add: u_def)
  obtain st cp' a p where res: "match_loop (yy_current_state s) (yy_bp s + length t) (acc_at (yy_bp s) acc l) (u @ NUL # NUL # z) = Some (st, cp', a, p)"
    and alt: "jams w (yy_bp s) (st, cp', a, p) (length (t @ u)) \<or> stops_at_NUL w (yy_bp s) (st, cp', a, p) (length t) (length (t @ u))"
    using match_loop_conf [OF c [unfolded rest], of "yy_bp s" l z] by (metis prod_cases4)
  define s' where "s' = s\<lparr>yy_current_state := st, yy_cp := cp', yy_last_accepting_state := a, yy_last_accepting_cpos := p\<rparr>"
  have "flex_match s = Some s'" using res z cp(1) l by (simp add: flex_match_def s'_def)
  moreover have f: "window (yy_bp s) s' w" using w window_cong [of s' s] by (simp add: s'_def)
  moreover have "finding s' w" if J: "jams w (yy_bp s) (st, cp', a, p) (length (t @ u))"
  proof -
    obtain t' acc' rest' l' where j: "cp' = yy_bp s + length t'" "(a, p) = acc_at (yy_bp s) acc' l'" "w = t' @ rest'" "t' \<noteq> []" "length t' \<le> length (t @ u)"
      "\<forall>s u q. acc' = Some (s, u, q) \<longrightarrow> w = u @ q \<and> length u \<le> length t'" "yy_match 1 [] None w = yy_find_action st t' rest' acc'"
      using J unfolding jams_def by auto
    then show ?thesis using f len by (intro findingI [where t = t' and rest = rest' and acc = acc' and l = l']) (simp_all add: s'_def)
  qed
  moreover have "\<exists>t' rest'. at_NUL s' w t' rest' \<and> length rest' \<le> length rest"
    if N: "stops_at_NUL w (yy_bp s) (st, cp', a, p) (length t) (length (t @ u))"
  proof -
    obtain st' t' acc' rest' where e: "st = 51" "a = 3" "p = yy_bp s + length t' + 1" "conf w st' t' acc' rest'" "length t \<le> length t'"
      "length t' = length (t @ u) \<or> length t' < length (t @ u) \<and> (\<exists>r. rest' = NUL # r)"
      using N by (auto simp: stops_at_NUL_def)
    have "at_NUL s' w t' rest'" using e(1,2,3,4,6) f len unfolding at_NUL_def by (auto simp: s'_def)
    moreover have "length t' + length rest' = length t + length rest" using conf_text [OF e(4)] conf_text [OF c] by (metis length_append)
    ultimately show ?thesis using e(5) by (intro exI conjI) auto
  qed
  ultimately show ?thesis using alt by (auto simp: s'_def)
qed

lemma previous_state:
  assumes w: "window (yytext_ptr s) s w" and c: "conf w st t acc rest"
    and p: "yy_c_buf_p s = yytext_ptr s + length t" "yy_c_buf_p s \<le> yy_n_chars s"
  shows "\<exists>l. yy_get_previous_state s = Some (s\<lparr>yy_current_state := st, yy_last_accepting_state := fst (acc_at (yytext_ptr s) acc l),
    yy_last_accepting_cpos := snd (acc_at (yytext_ptr s) acc l)\<rparr>)"
proof -
  have "take (length t) (drop (yytext_ptr s) (yy_ch_buf s)) = t"
    using window_split(1) [of "yytext_ptr s" s t rest] w conf_text [OF c] p by simp
  then show ?thesis
    using conf_prev [OF c, of "yytext_ptr s" "(yy_last_accepting_state s, yy_last_accepting_cpos s)"] p(1)
    by (intro exI [of _ "(yy_last_accepting_state s, yy_last_accepting_cpos s)"]) (auto simp: yy_get_previous_state_def split: prod.split)
qed

text \<open>What the action of the end of the buffer leads to.\<close>

definition goes_on :: "flex_point \<Rightarrow> flex \<Rightarrow> string \<Rightarrow> nat \<Rightarrow> bool" where
  "goes_on p s w m \<longleftrightarrow>
     p = At_match \<and> (\<exists>t rest. matching s w t rest \<and> length rest + length (input_rest s) < m) \<or>
     p = At_find \<and> finding s w \<or> p = Returns 0 None \<and> w = [] \<and> after s []"

lemma goes_on_match: "matching s w t rest \<Longrightarrow> length rest + length (input_rest s) < m \<Longrightarrow> goes_on At_match s w m"
  unfolding goes_on_def by blast

lemma really_NUL_sim:
  assumes w: "window (yytext_ptr s) s w" and c: "conf w st t acc (NUL # rest)" and p: "yytext_ptr s + length t < yy_n_chars s"
  shows "\<exists>p' s'. really_NUL (length t) s = Some (p', s') \<and> goes_on p' s' w (length (NUL # rest) + length (input_rest s))"
proof -
  let ?b = "yytext_ptr s"
  have wn: "w = t @ NUL # rest" using conf_text [OF c] .
  obtain l where prev: "yy_get_previous_state (s\<lparr>yy_c_buf_p := ?b + length t\<rparr>) = Some (s\<lparr>yy_c_buf_p := ?b + length t,
      yy_current_state := st, yy_last_accepting_state := fst (acc_at ?b acc l), yy_last_accepting_cpos := snd (acc_at ?b acc l)\<rparr>)"
    using previous_state [of "s\<lparr>yy_c_buf_p := ?b + length t\<rparr>" w st t acc "NUL # rest"] w c p window_cong [of "s\<lparr>yy_c_buf_p := ?b + length t\<rparr>" s] by auto
  obtain n where n: "yy_next st NUL = Some n"
    using conf_match [OF c] match_rule [of w] wn by (auto simp: Let_def split: option.splits)
  then have g: "yy_goto 3 st 1 = Some n" by (simp add: yy_next_def class_NUL)
  let ?acc = "if yy_accept ! st \<noteq> 0 then Some (st, t, NUL # rest) else acc"
  define s1 where "s1 = s\<lparr>yy_c_buf_p := ?b + length t, yy_current_state := st, yy_last_accepting_state := fst (acc_at ?b ?acc l),
      yy_last_accepting_cpos := snd (acc_at ?b ?acc l), yy_bp := ?b\<rparr>"
  have r: "really_NUL (length t) s = Some (if n \<noteq> YY_JAM \<and> n \<noteq> 0
      then (At_match, s1\<lparr>yy_c_buf_p := ?b + length t + 1, yy_cp := ?b + length t + 1, yy_current_state := n\<rparr>)
      else (At_find, s1\<lparr>yy_cp := ?b + length t\<rparr>))"
    using prev g by (simp add: really_NUL_def yy_try_NUL_trans_def s1_def Let_def)
  have w1: "window ?b s1 w" using w window_cong [of s1 s] by (simp add: s1_def)
  show ?thesis
  proof (cases "n = YY_JAM")
    case True
    have "finding (s1\<lparr>yy_cp := ?b + length t\<rparr>) w"
    proof (rule findingI [where t = t and rest = "NUL # rest" and acc = ?acc and l = l])
      show "yy_match 1 [] None w = yy_find_action (yy_current_state (s1\<lparr>yy_cp := ?b + length t\<rparr>)) t (NUL # rest) ?acc"
        using conf_match [OF c] n True by (simp add: s1_def Let_def)
    qed (use p w1 window_cong [of "s1\<lparr>yy_cp := ?b + length t\<rparr>" s1] wn conf_acc [OF c] in \<open>auto simp: s1_def less_imp_le split: if_splits\<close>)
    then show ?thesis using True wn by (simp add: r goes_on_def)
  next
    case False
    have c': "conf w n (t @ [NUL]) ?acc rest" using conf_step [OF c n] False by simp
    then have "n \<noteq> 0" using conf_live [OF c'] by (auto simp: live_states_def id_states_def)
    moreover have "matching (s1\<lparr>yy_c_buf_p := ?b + length t + 1, yy_cp := ?b + length t + 1, yy_current_state := n\<rparr>) w (t @ [NUL]) rest"
      using c' p w1 window_cong [of "s1\<lparr>yy_c_buf_p := ?b + length t + 1, yy_cp := ?b + length t + 1, yy_current_state := n\<rparr>" s1]
      by (intro matchingI [where acc = ?acc and l = l]) (simp_all add: s1_def)
    ultimately show ?thesis using False goes_on_match [of _ w "t @ [NUL]" rest] by (simp add: r s1_def)
  qed
qed

lemma more_input_sim:
  assumes w: "window (yytext_ptr s) s w" and c: "conf w st t acc rest" and n: "yytext_ptr s + length t = yy_n_chars s"
    and p: "yy_c_buf_p s = yy_n_chars s + 1" and b: "b_status s \<noteq> YY_BUFFER_NEW" and h: "yy_hold_char s = NUL"
  shows "\<exists>p' s'. more_input mem (length t) s = Some (p', s') \<and> goes_on p' s' w (length rest + length (input_rest s))"
proof -
  have wt: "w = t @ rest" using conf_text [OF c] .
  then have rest: "rest = input_rest s" using w window_split(2) [of "yytext_ptr s" s t rest] n by (simp add: window_def)
  obtain ret s1 where get: "yy_get_next_buffer mem s = Some (ret, s1)" and
    r: "if input_rest s \<noteq> [] then ret = EOB_ACT_CONTINUE_SCAN \<and> window (yytext_ptr s1) s1 w \<and> length (input_rest s1) < length (input_rest s)
     else if w \<noteq> [] then ret = EOB_ACT_LAST_MATCH \<and> window (yytext_ptr s1) s1 w \<and> yy_n_chars s1 = yytext_ptr s1 + length w
     else ret = EOB_ACT_END_OF_FILE \<and> window (yytext_ptr s1) s1 [] \<and> yy_hold_char s1 = NUL"
    using next_buffer [OF w p b h, of mem] by blast
  consider (more) "input_rest s \<noteq> []" | (last) "input_rest s = []" "w \<noteq> []" | (eof) "input_rest s = []" "w = []" by blast
  then show ?thesis
  proof cases
    case more
    then have r: "ret = EOB_ACT_CONTINUE_SCAN" "window (yytext_ptr s1) s1 w" "length (input_rest s1) < length (input_rest s)" using r by auto
    have "length w + yytext_ptr s1 = yy_n_chars s1 + length (input_rest s1)" using r(2) window_length [OF r(2)] by (auto simp: window_def)
    then have t: "yytext_ptr s1 + length t \<le> yy_n_chars s1" using r(3) rest wt by simp
    let ?s = "s1\<lparr>yy_c_buf_p := yytext_ptr s1 + length t\<rparr>"
    obtain l where prev: "yy_get_previous_state ?s = Some (?s\<lparr>yy_current_state := st, yy_last_accepting_state := fst (acc_at (yytext_ptr s1) acc l),
        yy_last_accepting_cpos := snd (acc_at (yytext_ptr s1) acc l)\<rparr>)"
      using previous_state [of ?s w st t acc rest] c r(2) t window_cong [of ?s s1] by auto
    define s2 where "s2 = ?s\<lparr>yy_current_state := st, yy_last_accepting_state := fst (acc_at (yytext_ptr s1) acc l),
        yy_last_accepting_cpos := snd (acc_at (yytext_ptr s1) acc l), yy_cp := yytext_ptr s1 + length t, yy_bp := yytext_ptr s1\<rparr>"
    have "more_input mem (length t) s = Some (At_match, s2)" using get r(1) prev by (simp add: more_input_def s2_def)
    moreover have "matching s2 w t rest"
      using c r(2) t window_cong [of s2 s1] by (intro matchingI [where acc = acc and l = l]) (simp_all add: s2_def)
    ultimately show ?thesis using r(3) goes_on_match [of s2 w t rest] by (simp add: s2_def)
  next
    case last
    then have r: "ret = EOB_ACT_LAST_MATCH" "window (yytext_ptr s1) s1 w" "yy_n_chars s1 = yytext_ptr s1 + length w" and t: "t = w" "rest = []" using r rest wt by auto
    let ?s = "s1\<lparr>yy_c_buf_p := yy_n_chars s1\<rparr>"
    obtain l where prev: "yy_get_previous_state ?s = Some (?s\<lparr>yy_current_state := st, yy_last_accepting_state := fst (acc_at (yytext_ptr s1) acc l),
        yy_last_accepting_cpos := snd (acc_at (yytext_ptr s1) acc l)\<rparr>)"
      using previous_state [of ?s w st t acc rest] c r t window_cong [of ?s s1] by auto
    define s2 where "s2 = ?s\<lparr>yy_current_state := st, yy_last_accepting_state := fst (acc_at (yytext_ptr s1) acc l),
        yy_last_accepting_cpos := snd (acc_at (yytext_ptr s1) acc l), yy_cp := yytext_ptr s1 + length w, yy_bp := yytext_ptr s1\<rparr>"
    have "more_input mem (length t) s = Some (At_find, s2)" using get r prev by (simp add: more_input_def s2_def)
    moreover have "finding s2 w"
      using last(2) c r t window_cong [of s2 s1] conf_match [OF c] conf_acc [OF c]
      by (intro findingI [where t = w and rest = "[]" and acc = acc and l = l]) (auto simp: s2_def less_imp_le)
    ultimately show ?thesis using last by (simp add: goes_on_def)
  next
    case eof
    then have "ret = EOB_ACT_END_OF_FILE" "window (yytext_ptr s1) s1 []" "yy_hold_char s1 = NUL" using r by auto
    then have "more_input mem (length t) s = Some (Returns 0 None, s1\<lparr>yy_c_buf_p := yytext_ptr s1\<rparr>)" "after (s1\<lparr>yy_c_buf_p := yytext_ptr s1\<rparr>) []"
      using get by (auto simp: more_input_def after_def window_def ended_def good_def)
    then show ?thesis using eof by (auto simp: goes_on_def)
  qed
qed

lemma find_NUL_sim:
  assumes "at_NUL s w t rest"
  shows "\<exists>p s'. flex_find mem s = Some (p, s', []) \<and> goes_on p s' w (length rest + length (input_rest s))"
proof -
  obtain st acc where w: "window (yy_bp s) s w" and c: "conf w st t acc rest" and s: "yy_current_state s = 51"
      "yy_last_accepting_state s = 3" "yy_last_accepting_cpos s = yy_bp s + length t + 1" and n: "yy_bp s + length t \<le> yy_n_chars s"
    and alt: "yy_bp s + length t = yy_n_chars s \<or> (\<exists>r. rest = NUL # r)"
    using assms by (auto simp: at_NUL_def)
  let ?cp = "yy_bp s + length t + 1"
  define s1 where "s1 = s\<lparr>yy_cp := ?cp, yy_current_state := 3, yytext_ptr := yy_bp s, yy_hold_char := yy_ch_buf s ! ?cp, yy_c_buf_p := ?cp\<rparr>"
  define s2 where "s2 = (if b_status s = YY_BUFFER_NEW then s1\<lparr>yy_n_chars := b_n_chars s, b_input_file := yy_in s, b_status := YY_BUFFER_NORMAL\<rparr> else s1)"
  have len: "?cp < length (yy_ch_buf s)" using n window_length [OF w] by simp
  have e: "end_of_buffer mem (s1\<lparr>yy_ch_buf := (yy_ch_buf s)[?cp := NUL]\<rparr>) =
      (if ?cp \<le> yy_n_chars s2 then really_NUL (length t) s2 else more_input mem (length t) s2)"
  proof -
    have "store ?cp (yy_ch_buf s ! ?cp) (s1\<lparr>yy_ch_buf := (yy_ch_buf s)[?cp := NUL]\<rparr>) = Some s1"
      using len by (simp add: store_def s1_def)
    moreover have "yy_c_buf_p s2 = ?cp" by (simp add: s2_def s1_def)
    ultimately show ?thesis by (simp add: end_of_buffer_def s1_def s2_def Let_def)
  qed
  have f: "flex_find mem s = map_option (\<lambda>(p, s). (p, s, [])) (end_of_buffer mem (s1\<lparr>yy_ch_buf := (yy_ch_buf s)[?cp := NUL]\<rparr>))"
    using s len NUL_tables(3,5) by (simp add: flex_find_def Let_def store_def YY_END_OF_BUFFER_def s1_def)
  have s2: "yytext_ptr s2 = yy_bp s" "yy_c_buf_p s2 = ?cp" "b_status s2 \<noteq> YY_BUFFER_NEW" "input_rest s2 = input_rest s" "yy_n_chars s2 = yy_n_chars s"
    "window (yy_bp s) s2 w"
    using w by (auto simp: s2_def s1_def window_def ended_def good_def)
  show ?thesis
  proof (cases "?cp \<le> yy_n_chars s2")
    case True
    then obtain r where r: "rest = NUL # r" using alt s2(5) by auto
    have "\<exists>p s'. really_NUL (length t) s2 = Some (p, s') \<and> goes_on p s' w (length rest + length (input_rest s))"
      using really_NUL_sim [of s2 w st t acc r] s2 c True unfolding r by simp
    then show ?thesis using f e True by auto
  next
    case False
    then have e2: "yy_bp s + length t = yy_n_chars s2" using n s2(5) by simp
    then have "yy_hold_char s2 = NUL" using w s2(5) by (simp add: s2_def s1_def window_def ended_def)
    with e2 have "\<exists>p s'. more_input mem (length t) s2 = Some (p, s') \<and> goes_on p s' w (length rest + length (input_rest s))"
      using more_input_sim [of s2 w st t acc rest mem] s2 c by simp
    then show ?thesis using f e False by auto
  qed
qed

section \<open>The scanner\<close>

definition outcome :: "(nat \<Rightarrow> char) \<Rightarrow> string \<Rightarrow> (int \<times> yystype option \<times> sql_out list \<times> flex) option \<Rightarrow> bool" where
  "outcome mem w res \<longleftrightarrow>
     (if w = [] then \<exists>s'. res = Some (0, None, [], s') \<and> after s' []
      else \<exists>a x r s'. sql_rule w = (a, x, r) \<and> after s' r \<and>
        res = do { (p, s, ls) \<leftarrow> act_on a x s'; (k, v, ls', s) \<leftarrow> flex_run mem p s; Some (k, v, ls @ ls', s) })"

lemma sql_rule_range: "w \<noteq> [] \<Longrightarrow> sql_rule w = (a, x, r) \<Longrightarrow> 0 < a \<and> a < 16 \<and> length r < length w"
proof -
  assume w: "w \<noteq> []" and r: "sql_rule w = (a, x, r)"
  consider (blank) "is_blank (hd w)" | (word) "\<not> is_blank (hd w)" "is_letter (hd w)" | (digit) "\<not> is_blank (hd w)" "\<not> is_letter (hd w)" "isdigit (hd w)"
    | (other) "\<not> is_blank (hd w)" "\<not> is_letter (hd w)" "\<not> isdigit (hd w)" by blast
  then show ?thesis
  proof cases
    case blank
    then show ?thesis using r dropWhile_shorter [OF _ w, of is_blank] by (auto simp: sql_rule_def)
  next
    case word
    then show ?thesis using r dropWhile_shorter [OF _ w, of is_word] word_rule_small [of "takeWhile is_word w"] word_rule_pos [of "takeWhile is_word w"]
      by (auto simp: sql_rule_def is_word_def)
  next
    case digit
    then show ?thesis using r dropWhile_shorter [OF _ w, of isdigit] by (auto simp: sql_rule_def)
  next
    case other
    then show ?thesis using r w unfolding sql_rule_def by (auto split: if_splits)
  qed
qed

lemma find_outcome:
  assumes "finding s w"
  shows "outcome mem w (flex_run mem At_find s)"
proof -
  have w: "w \<noteq> []" using assms by (simp add: finding_def)
  obtain a x r where r: "sql_rule w = (a, x, r)" using prod_cases3 by blast
  obtain t rest acc l where f: "window (yy_bp s) s w" "yy_cp s = yy_bp s + length t" "yy_cp s \<le> yy_n_chars s" "w = t @ rest"
    "(yy_last_accepting_state s, yy_last_accepting_cpos s) = acc_at (yy_bp s) acc l"
    "\<And>s u q. acc = Some (s, u, q) \<Longrightarrow> w = u @ q \<and> length u \<le> length t"
    "yy_match 1 [] None w = yy_find_action (yy_current_state s) t rest acc"
    using assms unfolding finding_def by blast
  have "yy_find_action (yy_current_state s) t rest acc = Some (a, x, r)" using f(7) match_rule [OF w] r by simp
  then obtain s' where "after s' r" "flex_find mem s = act_on a x s'"
    using find_token [OF f(1-5), of a x r mem] f(6) sql_rule_range [OF w r] by blast
  then show ?thesis using r w by (subst flex_run.simps) (auto simp: outcome_def)
qed

lemma match_outcome: "matching s w t rest \<Longrightarrow> outcome mem w (flex_run mem At_match s)"
proof (induction "length rest + length (input_rest s)" arbitrary: s t rest rule: less_induct)
  case less
  obtain s1 where s1: "flex_match s = Some s1" "input_rest s1 = input_rest s"
    "finding s1 w \<or> (\<exists>t' rest'. at_NUL s1 w t' rest' \<and> length rest' \<le> length rest)"
    using match_sim [OF less.prems] by blast
  have run: "flex_run mem At_match s = flex_run mem At_find s1" using s1(1) by (simp add: flex_run.simps [of mem At_match s])
  show ?case
  proof (cases "finding s1 w")
    case True
    then show ?thesis using find_outcome run by simp
  next
    case False
    then obtain t' rest' where N: "at_NUL s1 w t' rest'" "length rest' \<le> length rest" using s1(3) by blast
    obtain p s2 where p: "flex_find mem s1 = Some (p, s2, [])" "goes_on p s2 w (length rest' + length (input_rest s1))"
      using find_NUL_sim [OF N(1)] by blast
    have run: "flex_run mem At_match s = flex_run mem p s2"
      using run p(1) by (simp add: flex_run.simps [of mem At_find s1] case_prod_beta)
    from p(2) consider (m) t'' rest'' where "p = At_match" "matching s2 w t'' rest''" "length rest'' + length (input_rest s2) < length rest' + length (input_rest s1)"
      | (f) "p = At_find" "finding s2 w" | (e) "p = Returns 0 None" "w = []" "after s2 []" unfolding goes_on_def by blast
    then show ?thesis
    proof cases
      case m
      then show ?thesis using less.hyps [of rest'' s2 t''] run N(2) s1(2) by simp
    next
      case f
      then show ?thesis using find_outcome run by simp
    next
      case e
      then show ?thesis using run by (simp add: flex_run.simps outcome_def)
    qed
  qed
qed

lemma start_matching: "after s w \<Longrightarrow> \<exists>s'. flex_start s = Some s' \<and> matching s' w [] w"
proof -
  assume a: "after s w"
  let ?s = "s\<lparr>yy_cp := yy_c_buf_p s, yy_bp := yy_c_buf_p s, yy_current_state := 1, yy_ch_buf := (yy_ch_buf s)[yy_c_buf_p s := yy_hold_char s]\<rparr>"
  have "window (yy_c_buf_p s) ?s w" using a window_cong [of ?s "s\<lparr>yy_ch_buf := (yy_ch_buf s)[yy_c_buf_p s := yy_hold_char s]\<rparr>"] by (simp add: after_def)
  moreover from this have "yy_c_buf_p s \<le> yy_n_chars s" by (simp add: window_def)
  moreover have "yy_c_buf_p s < length (yy_ch_buf s)" using window_length [OF calculation(1)] calculation(2) by simp
  ultimately have "flex_start s = Some ?s" "matching ?s w [] w"
    using conf_start [of w] by (auto simp: flex_start_def store_def intro!: matchingI [where acc = None and l = "(yy_last_accepting_state s, yy_last_accepting_cpos s)"])
  then show ?thesis by blast
qed

lemma run_refines: "after s w \<Longrightarrow> \<exists>k v ls r s'. yylex w = Some (k, v, ls, r) \<and> flex_run mem At_start s = Some (k, v, ls, s') \<and> after s' r"
proof (induction "length w" arbitrary: s w rule: less_induct)
  case less
  obtain s1 where "flex_start s = Some s1" "matching s1 w [] w" using start_matching [OF less.prems] by blast
  then have run: "outcome mem w (flex_run mem At_start s)" using match_outcome by (subst flex_run.simps) simp
  show ?case
  proof (cases "w = []")
    case True
    then show ?thesis using run by (auto simp: outcome_def yylex.simps [of "[]"])
  next
    case False
    obtain a x r s' where o: "sql_rule w = (a, x, r)" "after s' r" and
      f: "flex_run mem At_start s = do { (p, s, ls) \<leftarrow> act_on a x s'; (k, v, ls', s) \<leftarrow> flex_run mem p s; Some (k, v, ls @ ls', s) }"
      using run False by (auto simp: outcome_def)
    have y: "yylex w = (if a = 14 then yylex r
        else if a = 15 then map_option (\<lambda>(k, v, ls, r). (k, v, Unknown_character (c_str x) # ls, r)) (yylex r)
        else map_option (\<lambda>(k, v). (k, v, [], r)) (lex_action a x))"
      using False o(1) match_rule [OF False, unfolded One_nat_def] sql_rule_range [OF False o(1)] by (subst yylex.simps) simp
    obtain res where res: "yylex w = Some res" using yylex_lexemes [of w] by blast
    obtain k v ls q s'' where IH: "yylex r = Some (k, v, ls, q)" "flex_run mem At_start s' = Some (k, v, ls, s'')" "after s'' q"
      using less.hyps [OF _ o(2)] sql_rule_range [OF False o(1)] by blast
    show ?thesis
    proof (cases "a = 14 \<or> a = 15")
      case True
      then show ?thesis using IH y f by (auto simp: act_on_def)
    next
      case False
      then obtain k v where "lex_action a x = Some (k, v)" using y res by (cases "lex_action a x") auto
      then show ?thesis using False y f o(2) by (simp add: act_on_def flex_run.simps [of mem "Returns k v"])
    qed
  qed
qed

text \<open>What is left of the input, and the states between two calls.\<close>

definition left_over :: "flex \<Rightarrow> string" where
  "left_over s =
     (if yy_init s then drop (yy_c_buf_p s) (take (yy_n_chars s) ((yy_ch_buf s)[yy_c_buf_p s := yy_hold_char s])) else []) @ input_rest s"

definition flex_ready :: "flex \<Rightarrow> bool" where
  "flex_ready s \<longleftrightarrow> (yy_init s \<longrightarrow> after s (left_over s))"

lemma after_ready: "after s r \<Longrightarrow> flex_ready s \<and> left_over s = r"
  by (auto simp: flex_ready_def after_def left_over_def window_def ended_def good_def)

lemma create_after:
  assumes "0 < n" "f \<noteq> None"
  shows "\<exists>s'. (yy_create_buffer mem n (s\<lparr>yy_init := True, yy_in := f\<rparr>) \<bind> yy_load_buffer_state) = Some s' \<and> after s' (input_rest s)"
proof -
  obtain buf where buf: "map mem [0..<n + 2] = buf" "length buf = n + 2" by (metis diff_zero length_map length_upt)
  obtain a b z where z: "buf = a # b # z" "length z = n" using buf(2) by (cases buf; cases "tl buf") auto
  define s1 where "s1 = s\<lparr>yy_init := True, yy_in := f, b_input_file := f, b_is_our_buffer := True, b_size := n, yy_ch_buf := NUL # NUL # z, b_n_chars := 0, b_pos := 0, b_status := YY_BUFFER_NEW,
    b_fill := True, b_interactive := (f \<noteq> None \<and> input_tty s), yy_n_chars := 0, yytext_ptr := 0, yy_c_buf_p := 0, yy_hold_char := NUL\<rparr>"
  have "(yy_create_buffer mem n (s\<lparr>yy_init := True, yy_in := f\<rparr>) \<bind> yy_load_buffer_state) = Some s1"
    unfolding yy_create_buffer_def buf(1) z(1)
    by (simp add: yy_init_buffer_def yy_flush_buffer_def yy_load_buffer_state_def store_def s1_def)
  moreover have "after s1 (input_rest s)" using assms z(2) by (simp add: after_def window_def ended_def good_def s1_def)
  ultimately show ?thesis by blast
qed

lemma flex_yylex_sim:
  assumes "flex_ready s"
  shows "\<exists>k v ls r s'. yylex (left_over s) = Some (k, v, ls, r) \<and> flex_yylex mem s = Some (k, v, ls, s') \<and> flex_ready s' \<and> left_over s' = r"
proof (cases "yy_init s")
  case True
  then obtain k v ls r s' where "yylex (left_over s) = Some (k, v, ls, r)" "flex_run mem At_start s = Some (k, v, ls, s')" "after s' r"
    using run_refines [of s "left_over s" mem] assms by (auto simp: flex_ready_def)
  then show ?thesis using True after_ready [of s' r] by (simp add: flex_yylex_def)
next
  case False
  let ?f = "if yy_in s = None then Some 0 else yy_in s"
  have "0 < YY_BUF_SIZE" "?f \<noteq> None" by (simp_all add: YY_BUF_SIZE_def)
  then obtain s1 where "(yy_create_buffer mem YY_BUF_SIZE (s\<lparr>yy_init := True, yy_in := ?f\<rparr>) \<bind> yy_load_buffer_state) = Some s1" "after s1 (input_rest s)"
    using create_after [of YY_BUF_SIZE ?f mem s] by blast
  moreover from this obtain k v ls r s' where "yylex (input_rest s) = Some (k, v, ls, r)" "flex_run mem At_start s1 = Some (k, v, ls, s')" "after s' r"
    using run_refines [of s1 "input_rest s" mem] by auto
  moreover have "left_over s = input_rest s" using False by (simp add: left_over_def)
  ultimately show ?thesis using False after_ready [of s' r] by (simp add: flex_yylex_def)
qed

text \<open>The scanner over the buffer keeps the contract of the parser, too.\<close>

interpretation flex: token_source "flex_yylex mem" "\<lambda>s. sql_tokens (left_over s)" flex_ready for mem
proof
  fix s t ts
  assume "flex_ready s" "sql_tokens (left_over s) = t # ts"
  then show "\<exists>ls l'. flex_yylex mem s = Some (fst t, snd t, ls, l') \<and> flex_ready l' \<and> sql_tokens (left_over l') = ts \<and> reported ls = []"
    using flex_yylex_sim [of s mem] sql.next_token [of "left_over s" t ts] by fastforce
next
  fix s
  assume "flex_ready s" "sql_tokens (left_over s) = []"
  then show "\<exists>v ls l'. flex_yylex mem s = Some (0, v, ls, l') \<and> reported ls = []"
    using flex_yylex_sim [of s mem] sql.end_token [of "left_over s"] by fastforce
next
  show "t \<in> set (sql_tokens (left_over s)) \<Longrightarrow> token_ok t" for t s by (rule sql.tokens_ok)
qed

end
