(* ===== verification/Sql_Program.thy ===== *)
theory Sql_Program
  imports Flex_Refine
begin

text \<open>
  The whole SQL program: the parser over the scanner with its buffer. As the parser looks at its scanner only through
  \<open>yylex\<close>, it does the same over the buffer as over the string of the input.
\<close>

definition flex_static :: "bool \<Rightarrow> string \<Rightarrow> flex" where
  "flex_static tty inp =
     \<lparr>b_input_file = None, yy_ch_buf = [], b_pos = 0, b_size = 0, b_n_chars = 0, b_is_our_buffer = False, b_interactive = False, b_fill = False, b_status = YY_BUFFER_NEW,
      yy_init = False, yy_hold_char = NUL, yy_n_chars = 0, yy_c_buf_p = 0, yytext_ptr = 0, yy_in = None,
      yy_last_accepting_state = 0,
      yy_last_accepting_cpos = 0, yy_cp = 0, yy_bp = 0, yy_current_state = 0, input_rest = inp, input_tty = tty\<rparr>"

definition sql_program :: "(nat \<Rightarrow> char) \<Rightarrow> bool \<Rightarrow> string \<Rightarrow> parse_end option" where
  "sql_program mem tty inp = yyparse (flex_yylex mem) (flex_static tty inp)"

section \<open>The parser over two scanners\<close>

definition over :: "'m \<Rightarrow> 'l yypar \<Rightarrow> 'm yypar" where
  "over l p = \<lparr>yyss = yyss p, yyvs = yyvs p, yychar = yychar p, yylval = yylval p, yyerrstatus = yyerrstatus p, yynerrs = yynerrs p,
     outs = outs p, yyin = l\<rparr>"

fun over_res :: "'m \<Rightarrow> 'l yyres \<Rightarrow> 'm yyres" where
  "over_res l (Next p) = Next (over l p)"
| "over_res l (Return r p) = Return r (over l p)"
| "over_res l Stack_limit = Stack_limit"
| "over_res l Bad_value = Bad_value"
| "over_res l Scanner_fails = Scanner_fails"

lemma over_fields [simp]:
  "yyss (over l p) = yyss p" "yyvs (over l p) = yyvs p" "yychar (over l p) = yychar p" "yylval (over l p) = yylval p"
  "yyerrstatus (over l p) = yyerrstatus p" "yynerrs (over l p) = yynerrs p" "outs (over l p) = outs p" "yyin (over l p) = l"
  by (simp_all add: over_def)

lemma over_updates [simp]:
  "(over l p)\<lparr>yyss := a\<rparr> = over l (p\<lparr>yyss := a\<rparr>)" "(over l p)\<lparr>yyvs := b\<rparr> = over l (p\<lparr>yyvs := b\<rparr>)"
  "(over l p)\<lparr>yychar := c\<rparr> = over l (p\<lparr>yychar := c\<rparr>)" "(over l p)\<lparr>yylval := d\<rparr> = over l (p\<lparr>yylval := d\<rparr>)"
  "(over l p)\<lparr>yyerrstatus := e\<rparr> = over l (p\<lparr>yyerrstatus := e\<rparr>)" "(over l p)\<lparr>yynerrs := f\<rparr> = over l (p\<lparr>yynerrs := f\<rparr>)"
  "(over l p)\<lparr>outs := g\<rparr> = over l (p\<lparr>outs := g\<rparr>)"
  by (simp_all add: over_def)

lemma over_yyin [simp]: "(over l p)\<lparr>yyin := l'\<rparr> = over l' p"
  by (simp add: over_def)

lemma over_yyin' [simp]: "over l (p\<lparr>yyin := l'\<rparr>) = over l p"
  by (simp add: over_def)

lemma yynewstate_over: "yynewstate n (over l p) = over_res l (yynewstate n p)"
  by (simp add: yynewstate_def Let_def)

lemma yyreduce_over: "yyreduce n (over l p) = over_res l (yyreduce n p)"
  by (simp add: yyreduce_def yynewstate_over Let_def split: option.split)

lemma yyerrlab1_over: "yyerrlab1 (over l p) = over_res l (yyerrlab1 p)"
  by (simp add: yyerrlab1_def yynewstate_over split: option.split)

lemma yyerrlab_over: "yyerrlab (over l p) = over_res l (yyerrlab p)"
  by (auto simp: yyerrlab_def yyerrlab1_over Let_def)

lemma yydefault_over: "yydefault (over l p) = over_res l (yydefault p)"
  by (simp add: yydefault_def yyerrlab_over yyreduce_over Let_def)

lemma yydecide_over: "yydecide (over l p) = over_res l (yydecide p)"
  by (simp add: yydecide_def yydefault_over yyreduce_over yyerrlab1_over yynewstate_over Let_def)

lemma over_self [simp]: "over (yyin p) p = p"
  by (simp add: over_def)

text \<open>No step but reading a token changes the state of the scanner.\<close>

lemma kept: "yydecide p = Next q \<Longrightarrow> yyin q = yyin p" "yydefault p = Next q \<Longrightarrow> yyin q = yyin p"
  using yydecide_over [of "yyin p" p] yydefault_over [of "yyin p" p] by (metis over_fields(8) over_res.simps(1) over_self yyres.inject(1))+

text \<open>
  \<open>f\<close> says what a state of the first scanner stands for. When the first scanner does what the second does on these states, the
  parser over the first has every result the parser over the second has.
\<close>

lemma yybackup_over:
  assumes "yylex1 (yyin p) = Some (k, v, ls, l')" "yylex2 (f (yyin p)) = Some (k, v, ls, f l')"
  shows "\<exists>l\<in>{yyin p, l'}. (\<forall>q. yybackup yylex1 p = Next q \<longrightarrow> yyin q = l) \<and>
    yybackup yylex2 (over (f (yyin p)) p) = over_res (f l) (yybackup yylex1 p)"
proof (cases "entry yypact (hd (yyss p)) \<noteq> YYPACT_NINF \<and> yychar p = YYEMPTY")
  case True
  define p1 where "p1 = p\<lparr>yychar := k, yylval := (case v of None \<Rightarrow> yylval p | Some x \<Rightarrow> x), outs := outs p @ ls, yyin := l'\<rparr>"
  have "yybackup yylex1 p = yydecide p1" using True assms by (simp add: yybackup_def p1_def)
  moreover have "yybackup yylex2 (over (f (yyin p)) p) = yydecide (over (f l') p1)"
    using True assms by (simp add: yybackup_def p1_def cong: option.case_cong)
  ultimately show ?thesis using kept(1) [of p1] yydecide_over [of "f l'" p1] by (intro bexI [of _ l']) (auto simp: p1_def)
next
  case False
  then show ?thesis by (intro bexI [of _ "yyin p"]) (auto simp: yybackup_def yydecide_over yydefault_over dest: kept)
qed

lemma yyrun_over:
  assumes "yyrun yylex2 q = Some r" "q = over (f (yyin p)) p" "ok (yyin p)"
    "\<And>l. ok l \<Longrightarrow> \<exists>k v ls l'. yylex1 l = Some (k, v, ls, l') \<and> yylex2 (f l) = Some (k, v, ls, f l') \<and> ok l'"
  shows "yyrun yylex1 p = Some r"
  using assms
proof (induction yylex2 q r arbitrary: p rule: yyrun.raw_induct [rotated, consumes 1])
  case (1 yyrun' yylex2 q r)
  obtain k v ls l' where y: "yylex1 (yyin p) = Some (k, v, ls, l')" "yylex2 (f (yyin p)) = Some (k, v, ls, f l')" "ok l'"
    using "1.prems"(3) [OF "1.prems"(2)] by blast
  obtain l where l: "l \<in> {yyin p, l'}" "\<And>q. yybackup yylex1 p = Next q \<Longrightarrow> yyin q = l"
    "yybackup yylex2 (over (f (yyin p)) p) = over_res (f l) (yybackup yylex1 p)"
    using yybackup_over [of yylex1 p k v ls l' yylex2 f] y(1,2) by blast
  have "ok l" using l(1) y(3) "1.prems"(2) by auto
  show ?case
  proof (cases "yybackup yylex1 p")
    case (Next p')
    have "yyin p' = l" using l(2) Next by simp
    moreover have "yyrun' yylex2 (over (f l) p') = Some r" using "1.hyps" "1.prems"(1) l(3) Next by simp
    ultimately have "yyrun yylex1 p' = Some r" using "1.IH" [OF _ _ _ "1.prems"(3)] \<open>ok l\<close> by blast
    then show ?thesis by (simp add: yyrun.simps [of yylex1 p] Next)
  qed (use "1.hyps" "1.prems"(1) l(3) in \<open>simp_all add: yyrun.simps [of yylex1 p]\<close>)
qed

section \<open>The program\<close>

lemma static_ready: "flex_ready (flex_static tty inp)" "left_over (flex_static tty inp) = inp"
  by (simp_all add: left_over_def flex_ready_def flex_static_def)

text \<open>C8: The program over the buffer prints, and returns, what it does over the string of its input; this does not depend on whether the
  input is a terminal, and so read line by line, nor on what the memory holds that the buffer is put in.\<close>

theorem sql_program_refines: "sql_program mem tty inp = sql_main inp"
proof -
  obtain res where res: "sql_main inp = Some res" using sql.yyparse_descends [of inp] by (auto simp: sql_main_def)
  note ready = static_ready [of tty inp]
  then have "yyparse (flex_yylex mem) (flex_static tty inp) = Some res"
    using res unfolding sql_main_def yyparse_def
  proof (intro yyrun_over [of yylex "yystart inp" res left_over _ flex_ready])
    show "\<exists>k v ls l'. flex_yylex mem l = Some (k, v, ls, l') \<and> yylex (left_over l) = Some (k, v, ls, left_over l') \<and> flex_ready l'"
      if "flex_ready l" for l using flex_yylex_sim [OF that, of mem] by metis
  qed (simp_all add: yystart_def over_def)
  then show ?thesis using res by (simp add: sql_program_def)
qed

lemma program_statement:
  assumes "sql_tokens inp = statement c cs tab x n @ rest"
  shows "\<exists>out. sql_program mem tty inp = Some (Parse_returns (if rest = [] then 0 else 1) out) \<and>
    reported out = parsed c cs tab x n # (if rest = [] then [] else [Error_line ''syntax error''])"
  unfolding sql_program_def by (rule flex.yyparse_statement [OF static_ready(1)]) (simp add: static_ready assms)

lemma program_no_statement:
  assumes "\<And>c cs tab x n rest. sql_tokens inp \<noteq> statement c cs tab x n @ rest"
  shows "\<exists>out. sql_program mem tty inp = Some (Parse_returns 1 out) \<and> reported out = [Error_line ''syntax error'']"
  unfolding sql_program_def by (rule flex.yyparse_no_statement [OF static_ready(1)]) (simp add: static_ready assms)

text \<open>C9: The program ends for every input. It accepts exactly the sequences of tokens of one statement of the grammar, and prints its
  columns, table and condition; a statement followed by further tokens is printed all the same before the error, and every other
  input gives the error only. Characters no rule takes are reported and skipped.\<close>

theorem sql_program_language:
  "\<exists>r out. sql_program mem tty inp = Some (Parse_returns r out) \<and>
     ((\<exists>c cs tab x n. sql_tokens inp = statement c cs tab x n \<and> r = 0 \<and> reported out = [parsed c cs tab x n]) \<or>
      (\<exists>c cs tab x n t ts. sql_tokens inp = statement c cs tab x n @ t # ts \<and> r = 1 \<and>
         reported out = [parsed c cs tab x n, Error_line ''syntax error'']) \<or>
      ((\<nexists>c cs tab x n rest. sql_tokens inp = statement c cs tab x n @ rest) \<and> r = 1 \<and>
         reported out = [Error_line ''syntax error'']))"
proof (cases "\<exists>c cs tab x n rest. sql_tokens inp = statement c cs tab x n @ rest")
  case True
  then obtain c cs tab x n rest where s: "sql_tokens inp = statement c cs tab x n @ rest" by blast
  obtain out where out: "sql_program mem tty inp = Some (Parse_returns (if rest = [] then 0 else 1) out)"
      "reported out = parsed c cs tab x n # (if rest = [] then [] else [Error_line ''syntax error''])"
    using program_statement [OF s] by blast
  show ?thesis
  proof (cases rest)
    case Nil
    then have "sql_tokens inp = statement c cs tab x n" "reported out = [parsed c cs tab x n]" "sql_program mem tty inp = Some (Parse_returns 0 out)"
      using s out by simp_all
    then show ?thesis by blast
  next
    case (Cons t ts)
    then have "sql_tokens inp = statement c cs tab x n @ t # ts" "sql_program mem tty inp = Some (Parse_returns 1 out)"
      "reported out = [parsed c cs tab x n, Error_line ''syntax error'']"
      using s out by simp_all
    then show ?thesis by blast
  qed
next
  case False
  then have "\<And>c cs tab x n rest. sql_tokens inp \<noteq> statement c cs tab x n @ rest" by blast
  from program_no_statement [OF this, of mem tty] False show ?thesis by auto
qed

theorem sql_program_language_witness:
  "\<exists>out. sql_program (\<lambda>_. NUL) False ''DROP'' = Some (Parse_returns 1 out) \<and> reported out = [Error_line ''syntax error'']"
proof -
  have "sql_tokens ''DROP'' = [(IDENTIFIER, Some (Str ''DROP''))]"
    using tokens_word [of "''DROP''" "[]"] by (simp add: tokens_Nil is_word_def is_letter_def word_token_def sql_keywords_def)
  then show ?thesis using sql_program_language [of "\<lambda>_. NUL" False "''DROP''"] by (simp add: statement_def token_kinds)
qed

text \<open>C40: The memory for the strings that the parser puts together is enough. Rule 4 joins the columns in a block of the lengths of
  both parts and 2 more bytes, rule 6 prints the condition in a block of the length of the name and 20 more bytes, whatever number
  the scanner delivers: both print their string, with its end, inside the block. So no action of any run of the program
  writes outside its block or reads a value of the wrong type, and the parser's stack is never full.\<close>

theorem sql_buffers_fit:
  "yyaction 4 (Str t # a # Str s # vs) = Some (Str (s @ '','' @ t), []) \<and>
   yyaction 6 (Num (to_int32 (digits_val ds)) # b # Str x # us) = Some (Str (x @ ''='' @ show_int (to_int32 (digits_val ds))), []) \<and>
   sql_program mem tty inp \<notin> {Some Parse_bad_value, Some Parse_stack_limit, Some Parse_scanner_fails}"
proof -
  have "sql_program mem tty inp \<notin> {Some Parse_bad_value, Some Parse_stack_limit, Some Parse_scanner_fails}"
    using flex.yyparse_descends [OF static_ready(1), of mem tty inp] by (auto simp: sql_program_def)
  then show ?thesis by (simp add: action_columns action_condition c_int_to_int32)
qed

text \<open>C39: A statement that is written out, with names that are no keywords and a number that fits an \<open>int\<close>, is read back: the program
  accepts it, and prints its columns, its table and its condition, and nothing else.\<close>

theorem sql_program_roundtrip:
  assumes "is_name c" "list_all is_name cs" "is_name tab" "is_name x" "0 \<le> n" "n < 2 ^ 31"
  shows "\<exists>out. sql_program mem tty (statement_text c cs tab x n) = Some (Parse_returns 0 out) \<and>
    reported out = [Parsed (joined c cs) tab (x @ ''='' @ show_int n)]"
  using program_statement [of "statement_text c cs tab x n" c cs tab x n "[]"] tokens_statement [OF assms]
  by (simp add: parsed_def)

lemma names_ok: "is_name ''id''" "is_name ''name''" "is_name ''users''" "is_name ''age''"
  by (simp_all add: is_name_def is_word_def is_letter_def sql_keywords_def)

theorem sql_program_roundtrip_witness:
  "\<exists>out. sql_program (\<lambda>_. NUL) True ''SELECT id,name FROM users WHERE age=30;'' = Some (Parse_returns 0 out) \<and>
     reported out = [Parsed ''id,name'' ''users'' ''age=30'']"
  using sql_program_roundtrip [of "''id''" "[''name'']" "''users''" "''age''" 30 "\<lambda>_. NUL" True] names_ok
  by (simp add: statement_text_def show_int_def dec_str.simps char_of_def bit_0)

end
