(* ===== verification/Flex_Stack.thy ===== *)
theory Flex_Stack
  imports Flex_Refine
begin

text \<open>
  The rest of the interface of \<^verbatim>\<open>src/sql-lexer-analysis/lex.yy.c\<close>: the stack of input buffers with its operations, scanning of strings,
  and the end of the scanner. The buffers are in a store, with their characters in blocks of their own, as the caller of
  \<open>yy_scan_buffer\<close> keeps the block it passes. A null pointer is \<open>None\<close>; a bad access, and \<open>yy_fatal_error\<close>, is the result \<open>None\<close>. The
  members \<open>yy_at_bol\<close>, \<open>yy_bs_lineno\<close> and \<open>yy_bs_column\<close>, which nothing reads, are left out, and so is
  \<open>yy_did_buffer_switch_on_eof\<close>, which is read only where \<open>yywrap\<close> answers 0.
\<close>

section \<open>State\<close>

record yy_buffer =
  yy_input_file :: "nat option"
  ch_buf :: nat
  yy_buf_pos :: nat
  yy_buf_size :: nat
  buf_n_chars :: nat
  yy_is_our_buffer :: bool
  yy_is_interactive :: bool
  yy_fill_buffer :: bool
  yy_buffer_status :: buffer_status

text \<open>
  Addresses from \<open>brk\<close> on are free. A file is its address, too; \<open>file_rest\<close> is what is still to be read from it. The capacity
  of the stack is the length of the list. The variables of the scanner have the prefix \<open>g_\<close> where \<^typ>\<open>flex\<close> has their name.
\<close>

record scanner =
  buffers :: "nat \<Rightarrow> yy_buffer option"
  blocks :: "nat \<Rightarrow> string option"
  brk :: nat
  file_rest :: "nat \<Rightarrow> string"
  file_tty :: "nat \<Rightarrow> bool"
  yy_buffer_stack :: "nat option list option"
  yy_buffer_stack_top :: nat
  g_init :: bool
  g_start :: nat
  g_in :: "nat option"
  g_out :: "nat option"
  g_hold_char :: char
  g_n_chars :: nat
  g_c_buf_p :: nat
  g_text_ptr :: nat
  g_last_state :: nat
  g_last_cpos :: nat
  yylineno :: int
  yy_flex_debug :: int

definition rest_of :: "scanner \<Rightarrow> nat option \<Rightarrow> string" where
  "rest_of st f = (case f of None \<Rightarrow> [] | Some f \<Rightarrow> file_rest st f)"

definition isatty :: "scanner \<Rightarrow> nat option \<Rightarrow> bool" where
  "isatty st f = (case f of None \<Rightarrow> False | Some f \<Rightarrow> file_tty st f)"

definition YY_CURRENT_BUFFER :: "scanner \<Rightarrow> nat option" where
  "YY_CURRENT_BUFFER st =
     (case yy_buffer_stack st of None \<Rightarrow> None
      | Some a \<Rightarrow> if yy_buffer_stack_top st < length a then a ! yy_buffer_stack_top st else None)"

definition set_current :: "nat option \<Rightarrow> scanner \<Rightarrow> scanner option" where
  "set_current b st =
     (case yy_buffer_stack st of None \<Rightarrow> None
      | Some a \<Rightarrow> if yy_buffer_stack_top st < length a
          then Some (st\<lparr>yy_buffer_stack := Some (a[yy_buffer_stack_top st := b])\<rparr>) else None)"

definition yyensure_buffer_stack :: "scanner \<Rightarrow> scanner" where
  "yyensure_buffer_stack st =
     (case yy_buffer_stack st of None \<Rightarrow> st\<lparr>yy_buffer_stack := Some [None], yy_buffer_stack_top := 0\<rparr>
      | Some a \<Rightarrow> if yy_buffer_stack_top st \<ge> length a - 1 then st\<lparr>yy_buffer_stack := Some (a @ replicate 8 None)\<rparr> else st)"

definition put_char :: "nat \<Rightarrow> nat \<Rightarrow> char \<Rightarrow> scanner \<Rightarrow> scanner option" where
  "put_char k i c st = do {
     t \<leftarrow> blocks st k;
     if i < length t then Some (st\<lparr>blocks := (blocks st)(k \<mapsto> t[i := c])\<rparr>) else None }"

section \<open>Buffers\<close>

definition load_buffer_state :: "scanner \<Rightarrow> scanner option" where
  "load_buffer_state st = do {
     a \<leftarrow> YY_CURRENT_BUFFER st;
     b \<leftarrow> buffers st a;
     t \<leftarrow> blocks st (ch_buf b);
     if yy_buf_pos b < length t
     then Some (st\<lparr>g_n_chars := buf_n_chars b, g_text_ptr := yy_buf_pos b, g_c_buf_p := yy_buf_pos b, g_in := yy_input_file b,
       g_hold_char := t ! yy_buf_pos b\<rparr>)
     else None }"

definition flush_buffer :: "nat option \<Rightarrow> scanner \<Rightarrow> scanner option" where
  "flush_buffer p st =
     (case p of None \<Rightarrow> Some st
      | Some a \<Rightarrow> do {
          b \<leftarrow> buffers st a;
          st \<leftarrow> put_char (ch_buf b) 0 NUL (st\<lparr>buffers := (buffers st)(a \<mapsto> b\<lparr>buf_n_chars := 0\<rparr>)\<rparr>);
          st \<leftarrow> put_char (ch_buf b) 1 NUL st;
          let st = st\<lparr>buffers := (buffers st)(a \<mapsto> b\<lparr>buf_n_chars := 0, yy_buf_pos := 0, yy_buffer_status := YY_BUFFER_NEW\<rparr>)\<rparr>;
          if YY_CURRENT_BUFFER st = Some a then load_buffer_state st else Some st })"

definition init_buffer :: "nat \<Rightarrow> nat option \<Rightarrow> scanner \<Rightarrow> scanner option" where
  "init_buffer a f st = do {
     st \<leftarrow> flush_buffer (Some a) st;
     b \<leftarrow> buffers st a;
     Some (st\<lparr>buffers := (buffers st)(a \<mapsto> b\<lparr>yy_input_file := f, yy_fill_buffer := True, yy_is_interactive := isatty st f\<rparr>)\<rparr>) }"

text \<open>A new buffer with its block; \<open>mem\<close> is what the block holds. Every member is set in \<open>init_buffer\<close> or here.\<close>

definition create_buffer :: "(nat \<Rightarrow> char) \<Rightarrow> nat option \<Rightarrow> nat \<Rightarrow> scanner \<Rightarrow> (nat \<times> scanner) option" where
  "create_buffer mem f n st = do {
     let a = brk st;
     let b = \<lparr>yy_input_file = f, ch_buf = a + 1, yy_buf_pos = 0, yy_buf_size = n, buf_n_chars = 0, yy_is_our_buffer = True,
       yy_is_interactive = False, yy_fill_buffer = True, yy_buffer_status = YY_BUFFER_NEW\<rparr>;
     st \<leftarrow> init_buffer a f (st\<lparr>brk := a + 2, buffers := (buffers st)(a \<mapsto> b), blocks := (blocks st)(a + 1 \<mapsto> map mem [0..<n + 2])\<rparr>);
     Some (a, st) }"

definition free_block :: "nat \<Rightarrow> scanner \<Rightarrow> scanner option" where
  "free_block k st = (if blocks st k = None then None else Some (st\<lparr>blocks := (blocks st)(k := None)\<rparr>))"

definition yy_delete_buffer :: "nat option \<Rightarrow> scanner \<Rightarrow> scanner option" where
  "yy_delete_buffer p st =
     (case p of None \<Rightarrow> Some st
      | Some a \<Rightarrow> do {
          st \<leftarrow> (if YY_CURRENT_BUFFER st = Some a then set_current None st else Some st);
          b \<leftarrow> buffers st a;
          st \<leftarrow> (if yy_is_our_buffer b then free_block (ch_buf b) st else Some st);
          Some (st\<lparr>buffers := (buffers st)(a := None)\<rparr>) })"

text \<open>The current buffer, created for \<open>yyin\<close> when there is none.\<close>

definition some_buffer :: "(nat \<Rightarrow> char) \<Rightarrow> scanner \<Rightarrow> scanner option" where
  "some_buffer mem st =
     (if YY_CURRENT_BUFFER st = None then do {
        let st = yyensure_buffer_stack st;
        (a, st) \<leftarrow> create_buffer mem (g_in st) YY_BUF_SIZE st;
        set_current (Some a) st }
      else Some st)"

definition restart :: "(nat \<Rightarrow> char) \<Rightarrow> nat option \<Rightarrow> scanner \<Rightarrow> scanner option" where
  "restart mem f st = do {
     st \<leftarrow> some_buffer mem st;
     a \<leftarrow> YY_CURRENT_BUFFER st;
     st \<leftarrow> init_buffer a f st;
     load_buffer_state st }"

section \<open>The stack of buffers\<close>

text \<open>``Flush out information for old buffer.''\<close>

definition save_current :: "scanner \<Rightarrow> scanner option" where
  "save_current st =
     (case YY_CURRENT_BUFFER st of None \<Rightarrow> Some st
      | Some a \<Rightarrow> do {
          b \<leftarrow> buffers st a;
          st \<leftarrow> put_char (ch_buf b) (g_c_buf_p st) (g_hold_char st) st;
          Some (st\<lparr>buffers := (buffers st)(a \<mapsto> b\<lparr>yy_buf_pos := g_c_buf_p st, buf_n_chars := g_n_chars st\<rparr>)\<rparr>) })"

definition yy_switch_to_buffer :: "nat option \<Rightarrow> scanner \<Rightarrow> scanner option" where
  "yy_switch_to_buffer new_buffer st =
     (let st = yyensure_buffer_stack st in
      if YY_CURRENT_BUFFER st = new_buffer then Some st
      else do {
        st \<leftarrow> save_current st;
        st \<leftarrow> set_current new_buffer st;
        load_buffer_state st })"

definition yypush_buffer_state :: "nat option \<Rightarrow> scanner \<Rightarrow> scanner option" where
  "yypush_buffer_state new_buffer st =
     (if new_buffer = None then Some st
      else do {
        st \<leftarrow> save_current (yyensure_buffer_stack st);
        let st = (if YY_CURRENT_BUFFER st \<noteq> None then st\<lparr>yy_buffer_stack_top := yy_buffer_stack_top st + 1\<rparr> else st);
        st \<leftarrow> set_current new_buffer st;
        load_buffer_state st })"

definition yypop_buffer_state :: "scanner \<Rightarrow> scanner option" where
  "yypop_buffer_state st =
     (if YY_CURRENT_BUFFER st = None then Some st
      else do {
        st \<leftarrow> yy_delete_buffer (YY_CURRENT_BUFFER st) st;
        st \<leftarrow> set_current None st;
        let st = (if yy_buffer_stack_top st > 0 then st\<lparr>yy_buffer_stack_top := yy_buffer_stack_top st - 1\<rparr> else st);
        if YY_CURRENT_BUFFER st \<noteq> None then load_buffer_state st else Some st })"

section \<open>Scanning strings\<close>

text \<open>\<open>k\<close> is the block of the caller; the result is the new buffer, if the block ends with two NULs.\<close>

definition yy_scan_buffer :: "nat \<Rightarrow> nat \<Rightarrow> scanner \<Rightarrow> (nat option \<times> scanner) option" where
  "yy_scan_buffer k n st = do {
     t \<leftarrow> blocks st k;
     if n < 2 then Some (None, st)
     else if length t < n then None
     else if t ! (n - 2) \<noteq> NUL \<or> t ! (n - 1) \<noteq> NUL then Some (None, st)
     else do {
       let a = brk st;
       let b = \<lparr>yy_input_file = None, ch_buf = k, yy_buf_pos = 0, yy_buf_size = n - 2, buf_n_chars = n - 2, yy_is_our_buffer = False,
         yy_is_interactive = False, yy_fill_buffer = False, yy_buffer_status = YY_BUFFER_NEW\<rparr>;
       st \<leftarrow> yy_switch_to_buffer (Some a) (st\<lparr>brk := a + 1, buffers := (buffers st)(a \<mapsto> b)\<rparr>);
       Some (Some a, st) } }"

definition yy_scan_bytes :: "string \<Rightarrow> scanner \<Rightarrow> (nat \<times> scanner) option" where
  "yy_scan_bytes yybytes st = do {
     let k = brk st;
     (p, st) \<leftarrow> yy_scan_buffer k (length yybytes + 2) (st\<lparr>brk := k + 1, blocks := (blocks st)(k \<mapsto> yybytes @ [NUL, NUL])\<rparr>);
     a \<leftarrow> p;
     b \<leftarrow> buffers st a;
     Some (a, st\<lparr>buffers := (buffers st)(a \<mapsto> b\<lparr>yy_is_our_buffer := True\<rparr>)\<rparr>) }"

definition yy_scan_string :: "string \<Rightarrow> scanner \<Rightarrow> (nat \<times> scanner) option" where
  "yy_scan_string yystr = yy_scan_bytes (c_str yystr)"

section \<open>The scanner and its end\<close>

text \<open>What \<open>yylex\<close> works on once it is initialised, and what it leaves.\<close>

definition flex_view :: "scanner \<Rightarrow> yy_buffer \<Rightarrow> string \<Rightarrow> flex" where
  "flex_view st b t =
     \<lparr>b_input_file = yy_input_file b, yy_ch_buf = t, b_pos = yy_buf_pos b, b_size = yy_buf_size b, b_n_chars = buf_n_chars b,
      b_is_our_buffer = yy_is_our_buffer b, b_interactive = yy_is_interactive b, b_fill = yy_fill_buffer b,
      b_status = yy_buffer_status b, yy_init = True, yy_hold_char = g_hold_char st, yy_n_chars = g_n_chars st,
      yy_c_buf_p = g_c_buf_p st, yytext_ptr = g_text_ptr st, yy_in = g_in st, yy_last_accepting_state = g_last_state st,
      yy_last_accepting_cpos = g_last_cpos st, yy_cp = 0, yy_bp = 0, yy_current_state = 0, input_rest = rest_of st (g_in st),
      input_tty = isatty st (g_in st)\<rparr>"

definition flex_put :: "nat \<Rightarrow> yy_buffer \<Rightarrow> flex \<Rightarrow> scanner \<Rightarrow> scanner" where
  "flex_put a b s st = st\<lparr>
     buffers := (buffers st)(a \<mapsto> b\<lparr>yy_input_file := b_input_file s, yy_buf_pos := b_pos s, yy_buf_size := b_size s,
       buf_n_chars := b_n_chars s, yy_is_interactive := b_interactive s, yy_fill_buffer := b_fill s, yy_buffer_status := b_status s\<rparr>),
     blocks := (blocks st)(ch_buf b \<mapsto> yy_ch_buf s),
     file_rest := (case yy_in s of None \<Rightarrow> file_rest st | Some f \<Rightarrow> (file_rest st)(f := input_rest s)),
     g_in := yy_in s, g_hold_char := yy_hold_char s, g_n_chars := yy_n_chars s, g_c_buf_p := yy_c_buf_p s,
     g_text_ptr := yytext_ptr s, g_last_state := yy_last_accepting_state s, g_last_cpos := yy_last_accepting_cpos s\<rparr>"

definition lex_init :: "(nat \<Rightarrow> char) \<Rightarrow> scanner \<Rightarrow> scanner option" where
  "lex_init mem st =
     (if g_init st then Some st
      else do {
        st \<leftarrow> some_buffer mem (st\<lparr>g_init := True, g_start := (if g_start st = 0 then 1 else g_start st),
          g_in := (if g_in st = None then Some 0 else g_in st), g_out := (if g_out st = None then Some 1 else g_out st)\<rparr>);
        load_buffer_state st })"

definition stack_yylex :: "(nat \<Rightarrow> char) \<Rightarrow> scanner \<Rightarrow> (int \<times> yystype option \<times> sql_out list \<times> scanner) option" where
  "stack_yylex mem st = do {
     st \<leftarrow> lex_init mem st;
     a \<leftarrow> YY_CURRENT_BUFFER st;
     b \<leftarrow> buffers st a;
     t \<leftarrow> blocks st (ch_buf b);
     (k, v, ls, s) \<leftarrow> flex_run mem At_start (flex_view st b t);
     Some (k, v, ls, flex_put a b s st) }"

definition yy_init_globals :: "scanner \<Rightarrow> scanner" where
  "yy_init_globals st = st\<lparr>yy_buffer_stack := None, yy_buffer_stack_top := 0, g_c_buf_p := 0, g_init := False, g_start := 0,
     g_in := None, g_out := None\<rparr>"

text \<open>The loop of \<open>yylex_destroy\<close>; every round deletes a buffer, so the capacity of the stack bounds the rounds.\<close>

fun destroy_loop :: "nat \<Rightarrow> scanner \<Rightarrow> scanner option" where
  "destroy_loop 0 st = None"
| "destroy_loop (Suc n) st =
     (if YY_CURRENT_BUFFER st = None then Some st
      else do {
        st \<leftarrow> yy_delete_buffer (YY_CURRENT_BUFFER st) st;
        st \<leftarrow> set_current None st;
        st \<leftarrow> yypop_buffer_state st;
        destroy_loop n st })"

definition yylex_destroy :: "scanner \<Rightarrow> scanner option" where
  "yylex_destroy st =
     map_option yy_init_globals (destroy_loop (case yy_buffer_stack st of None \<Rightarrow> 1 | Some a \<Rightarrow> length a + 1) st)"

text \<open>The functions that read and set a variable of the scanner.\<close>

definition yyget_lineno :: "scanner \<Rightarrow> int" where "yyget_lineno st = yylineno st"
definition yyget_in :: "scanner \<Rightarrow> nat option" where "yyget_in st = g_in st"
definition yyget_out :: "scanner \<Rightarrow> nat option" where "yyget_out st = g_out st"
definition yyget_debug :: "scanner \<Rightarrow> int" where "yyget_debug st = yy_flex_debug st"
definition yyset_lineno :: "int \<Rightarrow> scanner \<Rightarrow> scanner" where "yyset_lineno n st = st\<lparr>yylineno := n\<rparr>"
definition yyset_in :: "nat option \<Rightarrow> scanner \<Rightarrow> scanner" where "yyset_in f st = st\<lparr>g_in := f\<rparr>"
definition yyset_out :: "nat option \<Rightarrow> scanner \<Rightarrow> scanner" where "yyset_out f st = st\<lparr>g_out := f\<rparr>"
definition yyset_debug :: "int \<Rightarrow> scanner \<Rightarrow> scanner" where "yyset_debug n st = st\<lparr>yy_flex_debug := n\<rparr>"

definition yyget_text :: "scanner \<Rightarrow> string option" where
  "yyget_text st = do {
     a \<leftarrow> YY_CURRENT_BUFFER st;
     b \<leftarrow> buffers st a;
     t \<leftarrow> blocks st (ch_buf b);
     if g_text_ptr st < length t then Some (c_str (drop (g_text_ptr st) t)) else None }"

section \<open>Sessions\<close>

text \<open>
  The calls a client makes: a token is read; a file is opened and included, and later left; a string, bytes or a block of the client
  is scanned in place of the current buffer; the current buffer is deleted.
\<close>

datatype scan_cmd = Token | Include bool string | End_include | Scan_string string | Scan_bytes string | Scan_buffer string | Delete

type_synonym answer = "(int \<times> yystype option \<times> sql_out list) option"

definition open_file :: "bool \<Rightarrow> string \<Rightarrow> scanner \<Rightarrow> nat \<times> scanner" where
  "open_file tty inp st =
     (brk st, st\<lparr>brk := brk st + 1, file_rest := (file_rest st)(brk st := inp), file_tty := (file_tty st)(brk st := tty)\<rparr>)"

fun scan_exec :: "(nat \<Rightarrow> char) \<Rightarrow> scan_cmd \<Rightarrow> scanner \<Rightarrow> (answer \<times> scanner) option" where
  "scan_exec mem Token st = map_option (\<lambda>(k, v, ls, st). (Some (k, v, ls), st)) (stack_yylex mem st)"
| "scan_exec mem (Include tty inp) st = do {
     let (f, st) = open_file tty inp st;
     (a, st) \<leftarrow> create_buffer mem (Some f) YY_BUF_SIZE st;
     map_option (Pair None) (yypush_buffer_state (Some a) st) }"
| "scan_exec mem End_include st = map_option (Pair None) (yypop_buffer_state st)"
| "scan_exec mem (Scan_string s) st = map_option (\<lambda>(a, st). (None, st)) (yy_scan_string s st)"
| "scan_exec mem (Scan_bytes s) st = map_option (\<lambda>(a, st). (None, st)) (yy_scan_bytes s st)"
| "scan_exec mem (Scan_buffer s) st = map_option (\<lambda>(a, st). (None, st))
     (yy_scan_buffer (brk st) (length s) (st\<lparr>brk := brk st + 1, blocks := (blocks st)(brk st \<mapsto> s)\<rparr>))"
| "scan_exec mem Delete st = map_option (Pair None) (yy_delete_buffer (YY_CURRENT_BUFFER st) st)"

fun scan_session :: "(nat \<Rightarrow> char) \<Rightarrow> scan_cmd list \<Rightarrow> scanner \<Rightarrow> (answer list \<times> scanner) option" where
  "scan_session mem [] st = Some ([], st)"
| "scan_session mem (c # cs) st = do {
     (x, st) \<leftarrow> scan_exec mem c st;
     (xs, st) \<leftarrow> scan_session mem cs st;
     Some (x # xs, st) }"

definition scanner_static :: "bool \<Rightarrow> string \<Rightarrow> scanner" where
  "scanner_static tty inp =
     \<lparr>buffers = Map.empty, blocks = Map.empty, brk = 3, file_rest = (\<lambda>f. if f = 0 then inp else []), file_tty = (\<lambda>f. f = 0 \<and> tty),
      yy_buffer_stack = None, yy_buffer_stack_top = 0, g_init = False, g_start = 0, g_in = None, g_out = None, g_hold_char = NUL,
      g_n_chars = 0, g_c_buf_p = 0, g_text_ptr = 0, g_last_state = 0, g_last_cpos = 0,
      yylineno = 1, yy_flex_debug = 0\<rparr>"

text \<open>
  The same over a stack of strings: the string that is left of the current buffer, if there is one, and of the buffers below it.
\<close>

record scan_spec =
  started :: bool
  std_input :: string
  cur :: "string option"
  below :: "string list"

fun spec_exec :: "scan_cmd \<Rightarrow> scan_spec \<Rightarrow> (answer \<times> scan_spec) option" where
  "spec_exec Token x = do {
     w \<leftarrow> (if started x then cur x else case cur x of None \<Rightarrow> Some (std_input x) | Some w \<Rightarrow> Some w);
     (k, v, ls, r) \<leftarrow> yylex w;
     Some (Some (k, v, ls), x\<lparr>started := True, cur := Some r\<rparr>) }"
| "spec_exec (Include tty inp) x = Some (None, x\<lparr>cur := Some inp, below := (case cur x of None \<Rightarrow> below x | Some w \<Rightarrow> w # below x)\<rparr>)"
| "spec_exec End_include x =
     Some (None, if cur x = None then x else case below x of [] \<Rightarrow> x\<lparr>cur := None\<rparr> | w # ws \<Rightarrow> x\<lparr>cur := Some w, below := ws\<rparr>)"
| "spec_exec (Scan_string s) x = Some (None, x\<lparr>cur := Some (c_str s)\<rparr>)"
| "spec_exec (Scan_bytes s) x = Some (None, x\<lparr>cur := Some s\<rparr>)"
| "spec_exec (Scan_buffer s) x =
     Some (None, if drop (length s - 2) s = [NUL, NUL] then x\<lparr>cur := Some (take (length s - 2) s)\<rparr> else x)"
| "spec_exec Delete x = Some (None, x\<lparr>cur := None\<rparr>)"

fun spec_session :: "scan_cmd list \<Rightarrow> scan_spec \<Rightarrow> (answer list \<times> scan_spec) option" where
  "spec_session [] x = Some ([], x)"
| "spec_session (c # cs) x = do { (y, x) \<leftarrow> spec_exec c x; (ys, x) \<leftarrow> spec_session cs x; Some (y # ys, x) }"

end
