(* ===== verification/Flex_Stack_Props.thy ===== *)
theory Flex_Stack_Props
  imports Flex_Stack
begin

text \<open>
  The stack of buffers implements a stack of strings. A buffer that waits \<open>holds\<close> the string that is left of it, and the current
  one is \<open>running\<close> with it; the live buffers share no block and no file, so that work on one leaves the others alone.
\<close>

section \<open>What a call of the scanner keeps\<close>

definition kept :: "flex \<Rightarrow> flex \<Rightarrow> bool" where
  "kept s s' \<longleftrightarrow> yy_in s' = yy_in s \<and> b_is_our_buffer s' = b_is_our_buffer s \<and> b_input_file s' \<in> {b_input_file s, yy_in s} \<and>
     (b_fill s \<longrightarrow> b_fill s')"

lemma kept_trans: "kept s s' \<Longrightarrow> kept s' s'' \<Longrightarrow> kept s s''"
  by (auto simp: kept_def)

lemma store_kept: "store i c s = Some s' \<Longrightarrow> kept s s'"
  by (auto simp: store_def kept_def split: if_splits)

lemma refill_kept: "yy_refill mem m s = Some s' \<Longrightarrow> kept s s'"
  by (auto simp: yy_refill_def kept_def Let_def bind_eq_Some_conv split: if_splits prod.splits)

lemma restart_kept: "yyrestart s = Some s' \<Longrightarrow> kept s s'"
  by (auto simp: yyrestart_def yy_init_buffer_def yy_flush_buffer_def yy_load_buffer_state_def store_def kept_def Let_def
      bind_eq_Some_conv split: if_splits)

lemma end_buffer_kept: "yy_end_buffer mem m s = Some s' \<Longrightarrow> kept s s'"
  by (auto simp: yy_end_buffer_def store_def kept_def Let_def bind_eq_Some_conv split: if_splits)

lemma next_buffer_kept:
  assumes "yy_get_next_buffer mem s = Some (ret, s')"
  shows "kept s s'"
proof -
  let ?m = "yy_c_buf_p s - yytext_ptr s - 1"
  let ?s = "s\<lparr>yy_ch_buf := move_chars ?m 0 (yytext_ptr s) (yy_ch_buf s)\<rparr>"
  have "kept s s'" if s1: "yy_refill mem ?m ?s = Some s1" and e: "yy_end_buffer mem ?m s2 = Some s'"
    and s2: "s2 = s1 \<or> s2 = s1\<lparr>b_status := YY_BUFFER_EOF_PENDING\<rparr> \<or> yyrestart s1 = Some s2" for s1 s2
  proof -
    have "kept s s1" using refill_kept [OF s1] by (simp add: kept_def)
    moreover have "kept s1 s2" using s2 restart_kept [of s1 s2] by (auto simp: kept_def)
    ultimately show ?thesis using end_buffer_kept [OF e] kept_trans by blast
  qed
  then show ?thesis using assms
    by (auto simp: yy_get_next_buffer_def Let_def bind_eq_Some_conv kept_def split: if_splits)
qed

lemma prev_state_kept: "yy_get_previous_state s = Some s' \<Longrightarrow> kept s s'"
  by (auto simp: yy_get_previous_state_def kept_def split: prod.splits)

lemma NUL_trans_kept: "yy_try_NUL_trans s = Some (n, s') \<Longrightarrow> kept s s'"
  by (auto simp: yy_try_NUL_trans_def kept_def Let_def split: if_splits)

lemma really_NUL_kept:
  assumes "really_NUL n s = Some (p, s')"
  shows "kept s s'"
proof -
  obtain s1 s2 m where s: "yy_get_previous_state (s\<lparr>yy_c_buf_p := yytext_ptr s + n\<rparr>) = Some s1" "yy_try_NUL_trans s1 = Some (m, s2)"
    using assms by (auto simp: really_NUL_def bind_eq_Some_conv)
  have "kept s2 s'" using assms s by (auto simp: really_NUL_def kept_def Let_def split: if_splits)
  moreover have "kept s s1" using prev_state_kept [OF s(1)] by (simp add: kept_def)
  ultimately show ?thesis using NUL_trans_kept [OF s(2)] kept_trans by blast
qed

lemma more_input_kept:
  assumes "more_input mem n s = Some (p, s')"
  shows "kept s s'"
proof -
  obtain ret s1 where g: "yy_get_next_buffer mem s = Some (ret, s1)" using assms by (auto simp: more_input_def bind_eq_Some_conv)
  have "kept s1 s'"
  proof (cases ret)
    case EOB_ACT_CONTINUE_SCAN
    then obtain s2 where "yy_get_previous_state (s1\<lparr>yy_c_buf_p := yytext_ptr s1 + n\<rparr>) = Some s2" "s' = s2\<lparr>yy_cp := yy_c_buf_p s2, yy_bp := yytext_ptr s2\<rparr>"
      using assms g by (auto simp: more_input_def bind_eq_Some_conv)
    then show ?thesis using prev_state_kept [of _ s2] by (fastforce simp: kept_def)
  next
    case EOB_ACT_LAST_MATCH
    then obtain s2 where "yy_get_previous_state (s1\<lparr>yy_c_buf_p := yy_n_chars s1\<rparr>) = Some s2" "s' = s2\<lparr>yy_cp := yy_c_buf_p s2, yy_bp := yytext_ptr s2\<rparr>"
      using assms g by (auto simp: more_input_def bind_eq_Some_conv)
    then show ?thesis using prev_state_kept [of _ s2] by (fastforce simp: kept_def)
  qed (use assms g in \<open>auto simp: more_input_def kept_def\<close>)
  then show ?thesis using next_buffer_kept [OF g] kept_trans by blast
qed

lemma end_of_buffer_kept:
  assumes "end_of_buffer mem s = Some (p, s')"
  shows "kept s s'"
proof -
  obtain s1 where s1: "store (yy_cp s) (yy_hold_char s) s = Some s1" using assms by (auto simp: end_of_buffer_def Let_def bind_eq_Some_conv)
  define s2 where "s2 = (if b_status s1 = YY_BUFFER_NEW then s1\<lparr>yy_n_chars := b_n_chars s1, b_input_file := yy_in s1, b_status := YY_BUFFER_NORMAL\<rparr> else s1)"
  have "kept s s2" using store_kept [OF s1] by (simp add: kept_def s2_def)
  moreover have "kept s2 s'"
    using assms s1 really_NUL_kept [of _ s2 p s'] more_input_kept [of mem _ s2 p s']
    by (auto simp: end_of_buffer_def s2_def Let_def split: if_splits)
  ultimately show ?thesis using kept_trans by blast
qed

lemma find_kept:
  assumes "flex_find mem s = Some (p, s', ls)"
  shows "kept s s'"
proof -
  define s0 where "s0 = (if yy_accept ! yy_current_state s = 0
    then s\<lparr>yy_cp := yy_last_accepting_cpos s, yy_current_state := yy_last_accepting_state s\<rparr> else s)"
  obtain s1 where s1: "store (yy_cp s0) NUL (s0\<lparr>yytext_ptr := yy_bp s0, yy_hold_char := yy_ch_buf s0 ! yy_cp s0, yy_c_buf_p := yy_cp s0\<rparr>) = Some s1"
    and p: "s' = s1 \<or> end_of_buffer mem s1 = Some (p, s')"
    using assms unfolding flex_find_def s0_def [symmetric] Let_def by (auto simp: bind_eq_Some_conv split: if_splits)
  have "kept s s1" using store_kept [OF s1] by (auto simp: kept_def s0_def split: if_splits)
  moreover have "kept s1 s'" using p end_of_buffer_kept [of mem s1 p s'] by (auto simp: kept_def)
  ultimately show ?thesis using kept_trans by blast
qed

lemma start_kept: "flex_start s = Some s' \<Longrightarrow> kept s s'"
  unfolding flex_start_def using store_kept by (fastforce simp: kept_def)

lemma match_kept: "flex_match s = Some s' \<Longrightarrow> kept s s'"
  by (auto simp: flex_match_def kept_def split: prod.splits)

lemma run_kept: "flex_run mem p s = Some r \<Longrightarrow> r = (k, v, ls, s') \<Longrightarrow> kept s s'"
proof (induction mem p s r arbitrary: k v ls s' rule: flex_run.raw_induct [rotated, consumes 1])
  case (1 run mem p s r)
  show ?case
  proof (cases p)
    case At_start
    then show ?thesis using "1.hyps" "1.prems" "1.IH" start_kept kept_trans by (fastforce simp: bind_eq_Some_conv)
  next
    case At_match
    then show ?thesis using "1.hyps" "1.prems" "1.IH" match_kept kept_trans by (fastforce simp: bind_eq_Some_conv)
  next
    case At_find
    then show ?thesis using "1.hyps" "1.prems" "1.IH" find_kept kept_trans by (fastforce simp: bind_eq_Some_conv)
  next
    case (Returns k v)
    then show ?thesis using "1.hyps" "1.prems" by (simp add: kept_def)
  qed
qed

section \<open>The stack\<close>

text \<open>The current entry and the addresses below it, the nearest first.\<close>

definition stk :: "scanner \<Rightarrow> nat option \<Rightarrow> nat list \<Rightarrow> bool" where
  "stk st c as \<longleftrightarrow>
     (case yy_buffer_stack st of None \<Rightarrow> c = None \<and> as = []
      | Some s \<Rightarrow> yy_buffer_stack_top st < length s \<and> s ! yy_buffer_stack_top st = c \<and>
          take (yy_buffer_stack_top st) s = rev (map Some as))"

lemma stk_current: "stk st c as \<Longrightarrow> YY_CURRENT_BUFFER st = c"
  by (auto simp: stk_def YY_CURRENT_BUFFER_def split: option.splits)

lemma stk_cong: "yy_buffer_stack st' = yy_buffer_stack st \<Longrightarrow> yy_buffer_stack_top st' = yy_buffer_stack_top st \<Longrightarrow> stk st' c as = stk st c as"
  by (auto simp: stk_def split: option.split)

lemma current_updates [simp]:
  "YY_CURRENT_BUFFER (st\<lparr>buffers := x1\<rparr>) = YY_CURRENT_BUFFER st" "YY_CURRENT_BUFFER (st\<lparr>blocks := x2\<rparr>) = YY_CURRENT_BUFFER st"
  "YY_CURRENT_BUFFER (st\<lparr>brk := x3\<rparr>) = YY_CURRENT_BUFFER st" "YY_CURRENT_BUFFER (st\<lparr>g_init := x4\<rparr>) = YY_CURRENT_BUFFER st"
  "YY_CURRENT_BUFFER (st\<lparr>g_in := x5\<rparr>) = YY_CURRENT_BUFFER st" "YY_CURRENT_BUFFER (st\<lparr>g_out := x6\<rparr>) = YY_CURRENT_BUFFER st"
  "YY_CURRENT_BUFFER (st\<lparr>g_start := x7\<rparr>) = YY_CURRENT_BUFFER st"
  by (simp_all add: YY_CURRENT_BUFFER_def split: option.split)

text \<open>Room for a push, after which the entry above the current one can be set.\<close>

lemma stk_ensure:
  assumes "stk st c as"
  shows "\<exists>s n. yyensure_buffer_stack st = st\<lparr>yy_buffer_stack := Some s, yy_buffer_stack_top := n\<rparr> \<and>
    stk (yyensure_buffer_stack st) c as \<and> (c \<noteq> None \<longrightarrow> n + 1 < length s)"
proof (cases "yy_buffer_stack st")
  case None
  then show ?thesis using assms by (auto simp: yyensure_buffer_stack_def stk_def)
next
  case (Some s)
  let ?s = "if yy_buffer_stack_top st \<ge> length s - 1 then s @ replicate 8 None else s"
  have "yyensure_buffer_stack st = st\<lparr>yy_buffer_stack := Some ?s, yy_buffer_stack_top := yy_buffer_stack_top st\<rparr>"
    using Some by (simp add: yyensure_buffer_stack_def)
  moreover have "stk (st\<lparr>yy_buffer_stack := Some ?s, yy_buffer_stack_top := yy_buffer_stack_top st\<rparr>) c as"
    using assms Some by (auto simp: stk_def nth_append)
  moreover have "yy_buffer_stack_top st + 1 < length ?s" using assms Some by (auto simp: stk_def)
  ultimately show ?thesis by metis
qed

lemma stk_set:
  assumes "stk st c as" "yy_buffer_stack st = Some s"
  shows "\<exists>s'. set_current d st = Some (st\<lparr>yy_buffer_stack := Some s'\<rparr>) \<and> length s' = length s \<and> stk (st\<lparr>yy_buffer_stack := Some s'\<rparr>) d as"
  using assms by (auto simp: set_current_def stk_def)

lemma stk_up:
  assumes "stk st (Some a) as" "yy_buffer_stack st = Some s" "yy_buffer_stack_top st + 1 < length s"
  shows "\<exists>d. stk (st\<lparr>yy_buffer_stack_top := yy_buffer_stack_top st + 1\<rparr>) d (a # as)"
  using assms by (auto simp: stk_def take_Suc_conv_app_nth)

lemma stk_down:
  assumes "stk st None as" "yy_buffer_stack st = Some s"
  shows "case as of [] \<Rightarrow> yy_buffer_stack_top st = 0
    | a # as' \<Rightarrow> 0 < yy_buffer_stack_top st \<and> stk (st\<lparr>yy_buffer_stack_top := yy_buffer_stack_top st - 1\<rparr>) (Some a) as'"
proof (cases as)
  case Nil
  then show ?thesis using assms by (auto simp: stk_def)
next
  case (Cons a as')
  let ?n = "yy_buffer_stack_top st"
  have s: "?n < length s" "take ?n s = rev (map Some as') @ [Some a]" using assms Cons by (auto simp: stk_def)
  have n: "?n = Suc (length as')" using arg_cong [OF s(2), of length] s(1) by simp
  have "s ! length as' = Some a" "take (length as') s = rev (map Some as')"
    using arg_cong [OF s(2), of "\<lambda>x. x ! length as'"] arg_cong [OF s(2), of "take (length as')"] n by (simp_all add: nth_append)
  then show ?thesis using Cons n s(1) assms(2) by (simp add: stk_def)
qed

section \<open>Buffers that wait and the one that runs\<close>

lemma rest_of_updates [simp]:
  "rest_of (st\<lparr>buffers := x0\<rparr>) f = rest_of st f"
  "rest_of (st\<lparr>blocks := x1\<rparr>) f = rest_of st f"
  "rest_of (st\<lparr>brk := x2\<rparr>) f = rest_of st f"
  "rest_of (st\<lparr>file_tty := x3\<rparr>) f = rest_of st f"
  "rest_of (st\<lparr>yy_buffer_stack := x4\<rparr>) f = rest_of st f"
  "rest_of (st\<lparr>yy_buffer_stack_top := x5\<rparr>) f = rest_of st f"
  "rest_of (st\<lparr>g_init := x6\<rparr>) f = rest_of st f"
  "rest_of (st\<lparr>g_start := x7\<rparr>) f = rest_of st f"
  "rest_of (st\<lparr>g_in := x8\<rparr>) f = rest_of st f"
  "rest_of (st\<lparr>g_out := x9\<rparr>) f = rest_of st f"
  "rest_of (st\<lparr>g_hold_char := x10\<rparr>) f = rest_of st f"
  "rest_of (st\<lparr>g_n_chars := x11\<rparr>) f = rest_of st f"
  "rest_of (st\<lparr>g_c_buf_p := x12\<rparr>) f = rest_of st f"
  "rest_of (st\<lparr>g_text_ptr := x13\<rparr>) f = rest_of st f"
  "rest_of (st\<lparr>g_last_state := x14\<rparr>) f = rest_of st f"
  "rest_of (st\<lparr>g_last_cpos := x15\<rparr>) f = rest_of st f"
  by (simp_all add: rest_of_def split: option.split)

definition loaded :: "scanner \<Rightarrow> yy_buffer \<Rightarrow> string \<Rightarrow> flex" where
  "loaded st b t = (flex_view st b t)\<lparr>yy_n_chars := buf_n_chars b, yytext_ptr := yy_buf_pos b, yy_c_buf_p := yy_buf_pos b,
     yy_in := yy_input_file b, yy_hold_char := t ! yy_buf_pos b, input_rest := rest_of st (yy_input_file b), input_tty := isatty st (yy_input_file b)\<rparr>"

definition holds :: "scanner \<Rightarrow> nat \<Rightarrow> string \<Rightarrow> bool" where
  "holds st a w \<longleftrightarrow> (\<exists>b t. buffers st a = Some b \<and> blocks st (ch_buf b) = Some t \<and> window (yy_buf_pos b) (loaded st b t) w)"

definition running :: "scanner \<Rightarrow> nat \<Rightarrow> string \<Rightarrow> bool" where
  "running st a w \<longleftrightarrow> (\<exists>b t. buffers st a = Some b \<and> blocks st (ch_buf b) = Some t \<and> after (flex_view st b t) w \<and>
     yy_input_file b = g_in st) \<and> (\<not> g_init st \<longrightarrow> holds st a w)"

lemma window_iff:
  "window n s w \<longleftrightarrow> yy_n_chars s \<le> b_size s \<and> length (yy_ch_buf s) = b_size s + 2 \<and> yy_init s \<and>
     (b_fill s \<longrightarrow> 0 < b_size s \<and> b_is_our_buffer s \<and> yy_in s \<noteq> None) \<and> (\<not> b_fill s \<longrightarrow> input_rest s = []) \<and>
     (b_status s = YY_BUFFER_NEW \<longrightarrow> yy_n_chars s = b_n_chars s) \<and> (b_status s = YY_BUFFER_EOF_PENDING \<longrightarrow> input_rest s = []) \<and>
     yy_ch_buf s ! yy_n_chars s = NUL \<and> yy_ch_buf s ! (yy_n_chars s + 1) = NUL \<and>
     n \<le> yy_n_chars s \<and> w = drop n (take (yy_n_chars s) (yy_ch_buf s)) @ input_rest s"
  by (simp add: window_def ended_def good_def conj_assoc)

lemmas window_view = window_iff loaded_def flex_view_def

lemma loaded_cong:
  "rest_of st' (yy_input_file b) = rest_of st (yy_input_file b) \<Longrightarrow> window n (loaded st' b t) w = window n (loaded st b t) w"
  by (simp add: window_view)

text \<open>Live buffers have blocks and files of their own, all below \<open>brk\<close>.\<close>

definition differ :: "scanner \<Rightarrow> nat \<Rightarrow> nat \<Rightarrow> bool" where
  "differ st a a' \<longleftrightarrow> (\<forall>b b'. buffers st a = Some b \<longrightarrow> buffers st a' = Some b' \<longrightarrow>
     ch_buf b \<noteq> ch_buf b' \<and> (yy_input_file b = None \<or> yy_input_file b \<noteq> yy_input_file b'))"

definition apart :: "scanner \<Rightarrow> nat list \<Rightarrow> bool" where
  "apart st as \<longleftrightarrow> distinct as \<and> (\<forall>a\<in>set as. \<forall>a'\<in>set as. a \<noteq> a' \<longrightarrow> differ st a a')"

definition at_low :: "scanner \<Rightarrow> nat \<Rightarrow> bool" where
  "at_low st a \<longleftrightarrow> a < brk st \<and> (\<forall>b. buffers st a = Some b \<longrightarrow> ch_buf b < brk st \<and>
     (\<forall>f. yy_input_file b = Some f \<longrightarrow> f < brk st \<and> (f = 0 \<longrightarrow> g_init st)))"

definition low :: "scanner \<Rightarrow> nat list \<Rightarrow> bool" where
  "low st as \<longleftrightarrow> (\<forall>a\<in>set as. at_low st a)"

lemma differ_sym: "differ st a a' \<longleftrightarrow> differ st a' a"
  unfolding differ_def by metis

lemma apart_iff: "apart st (d # as) \<longleftrightarrow> d \<notin> set as \<and> apart st as \<and> (\<forall>a\<in>set as. differ st d a)"
  using differ_sym by (auto simp: apart_def)

lemma apart_distinct: "apart st as \<Longrightarrow> distinct as"
  by (simp add: apart_def)

lemma apart_swap: "apart st (a # b # as) \<Longrightarrow> apart st (b # a # as)"
  using differ_sym by (auto simp: apart_iff)

lemma apart_subset: "apart st as \<Longrightarrow> set bs \<subseteq> set as \<Longrightarrow> distinct bs \<Longrightarrow> apart st bs"
  by (auto simp: apart_def)

lemma low_Cons [simp]: "low st (a # as) \<longleftrightarrow> at_low st a \<and> low st as"
  by (simp add: low_def)

lemma low_swap: "low st (a # b # as) \<Longrightarrow> low st (b # a # as)"
  by simp

lemma low_subset: "low st as \<Longrightarrow> set bs \<subseteq> set as \<Longrightarrow> low st bs"
  by (auto simp: low_def)

text \<open>What leaves the buffers of \<open>as\<close> alone.\<close>

definition same_for :: "nat list \<Rightarrow> scanner \<Rightarrow> scanner \<Rightarrow> bool" where
  "same_for as st st' \<longleftrightarrow> brk st \<le> brk st' \<and> (g_init st \<longrightarrow> g_init st') \<and> (\<forall>a\<in>set as. buffers st' a = buffers st a \<and>
     (\<forall>b. buffers st a = Some b \<longrightarrow> blocks st' (ch_buf b) = blocks st (ch_buf b) \<and> rest_of st' (yy_input_file b) = rest_of st (yy_input_file b)))"

lemma same_for_holds: "same_for as st st' \<Longrightarrow> a \<in> set as \<Longrightarrow> holds st a w \<Longrightarrow> holds st' a w"
proof -
  assume s: "same_for as st st'" and a: "a \<in> set as" and h: "holds st a w"
  obtain b t where b: "buffers st a = Some b" "blocks st (ch_buf b) = Some t" "window (yy_buf_pos b) (loaded st b t) w"
    using h by (auto simp: holds_def)
  moreover have "buffers st' a = Some b" "blocks st' (ch_buf b) = Some t" "rest_of st' (yy_input_file b) = rest_of st (yy_input_file b)"
    using s a b by (simp_all add: same_for_def)
  ultimately show ?thesis using loaded_cong [of st' b st] by (auto simp: holds_def)
qed

lemma same_for_all: "same_for as st st' \<Longrightarrow> list_all2 (holds st) as ws \<Longrightarrow> list_all2 (holds st') as ws"
  by (erule list.rel_mono_strong) (rule same_for_holds)

lemma same_for_apart: "same_for as st st' \<Longrightarrow> apart st as \<Longrightarrow> apart st' as"
  unfolding same_for_def apart_def differ_def by simp

lemma same_for_low: "same_for as st st' \<Longrightarrow> low st as \<Longrightarrow> low st' as"
  unfolding same_for_def low_def at_low_def by fastforce

lemma same_for_trans: "same_for as st st' \<Longrightarrow> same_for as st' st'' \<Longrightarrow> same_for as st st''"
  unfolding same_for_def by simp

lemma same_for_subset: "same_for as st st' \<Longrightarrow> set bs \<subseteq> set as \<Longrightarrow> same_for bs st st'"
  unfolding same_for_def by blast

text \<open>A change to the store, the stack and the allocation leaves the variables of the scanner as they are.\<close>

definition same_vars :: "scanner \<Rightarrow> scanner \<Rightarrow> bool" where
  "same_vars st st' \<longleftrightarrow> g_init st' = g_init st \<and> g_in st' = g_in st \<and> g_hold_char st' = g_hold_char st \<and> g_n_chars st' = g_n_chars st \<and>
     g_c_buf_p st' = g_c_buf_p st \<and> g_text_ptr st' = g_text_ptr st \<and> g_last_state st' = g_last_state st \<and> g_last_cpos st' = g_last_cpos st"

lemma after_cong:
  "yy_c_buf_p s' = yy_c_buf_p s \<Longrightarrow> yy_hold_char s' = yy_hold_char s \<Longrightarrow> yy_ch_buf s' = yy_ch_buf s \<Longrightarrow> yy_n_chars s' = yy_n_chars s \<Longrightarrow>
   b_size s' = b_size s \<Longrightarrow> b_fill s' = b_fill s \<Longrightarrow> yy_init s' = yy_init s \<Longrightarrow> b_is_our_buffer s' = b_is_our_buffer s \<Longrightarrow>
   yy_in s' = yy_in s \<Longrightarrow> b_status s' = b_status s \<Longrightarrow> b_n_chars s' = b_n_chars s \<Longrightarrow> input_rest s' = input_rest s \<Longrightarrow> after s' r = after s r"
  unfolding after_def by (simp, rule window_cong) simp_all

lemma running_cong:
  assumes "same_for [a] st st'" "same_vars st st'" "running st a w"
  shows "running st' a w"
proof -
  obtain b t where b: "buffers st a = Some b" "blocks st (ch_buf b) = Some t" "after (flex_view st b t) w" "yy_input_file b = g_in st"
    and h: "\<not> g_init st \<longrightarrow> holds st a w" using assms(3) by (auto simp: running_def)
  have b': "buffers st' a = Some b" "blocks st' (ch_buf b) = Some t" "rest_of st' (yy_input_file b) = rest_of st (yy_input_file b)"
    using assms(1) b(1,2) by (simp_all add: same_for_def)
  have "after (flex_view st' b t) w = after (flex_view st b t) w"
    using assms(2) b(4) b'(3) by (intro after_cong) (simp_all add: flex_view_def same_vars_def)
  moreover have "holds st' a w" if "\<not> g_init st'"
    using that assms(2) h same_for_holds [OF assms(1), of a w] by (simp add: same_vars_def)
  ultimately show ?thesis using b b' assms(2) by (auto simp: running_def same_vars_def)
qed

definition lives :: "nat option \<Rightarrow> nat list \<Rightarrow> nat list" where
  "lives c as = (case c of None \<Rightarrow> as | Some a \<Rightarrow> a # as)"

definition strings :: "scan_spec \<Rightarrow> string list" where
  "strings x = (case cur x of None \<Rightarrow> below x | Some w \<Rightarrow> w # below x)"

definition sound :: "scanner \<Rightarrow> nat option \<Rightarrow> nat list \<Rightarrow> scan_spec \<Rightarrow> bool" where
  "sound st c as x \<longleftrightarrow> stk st c as \<and> g_init st = started x \<and> 3 \<le> brk st \<and> apart st (lives c as) \<and> low st (lives c as) \<and>
     list_all2 (holds st) as (below x) \<and>
     (\<not> started x \<longrightarrow> file_rest st 0 = std_input x \<and> (c = None \<longrightarrow> g_in st = None \<and> as = [])) \<and>
     (case c of None \<Rightarrow> cur x = None | Some a \<Rightarrow> \<exists>w. cur x = Some w \<and> running st a w)"

lemma sound_cong:
  assumes "sound st c as x" "same_for (lives c as) st st'" "same_vars st st'" "yy_buffer_stack st' = yy_buffer_stack st"
    "yy_buffer_stack_top st' = yy_buffer_stack_top st" "file_rest st' 0 = file_rest st 0"
  shows "sound st' c as x"
proof -
  have s: "same_for as st st'" using assms(2) same_for_subset by (fastforce simp: lives_def split: option.splits)
  have "stk st' c as" using assms(1) stk_cong [OF assms(4,5)] by (simp add: sound_def)
  moreover have "apart st' (lives c as)" "low st' (lives c as)" "list_all2 (holds st') as (below x)" "3 \<le> brk st'"
    using assms(1) same_for_apart [OF assms(2)] same_for_low [OF assms(2)] same_for_all [OF s] assms(2) by (auto simp: sound_def same_for_def)
  moreover have "running st' a w" if "c = Some a" "running st a w" for a w
    using running_cong [OF _ assms(3) that(2)] same_for_subset [OF assms(2), of "[a]"] that(1) by (simp add: lives_def)
  ultimately show ?thesis using assms by (auto simp: sound_def same_vars_def split: option.splits)
qed

section \<open>The operations\<close>

lemma put_char_in: "blocks st k = Some t \<Longrightarrow> i < length t \<Longrightarrow> put_char k i c st = Some (st\<lparr>blocks := (blocks st)(k \<mapsto> t[i := c])\<rparr>)"
  by (simp add: put_char_def)

text \<open>Saving the current buffer: it waits from then on.\<close>

lemma save_sim:
  assumes "running st a w" "YY_CURRENT_BUFFER st = Some a" "apart st (a # as)"
  shows "\<exists>B K. save_current st = Some (st\<lparr>blocks := K, buffers := B\<rparr>) \<and> holds (st\<lparr>blocks := K, buffers := B\<rparr>) a w \<and>
    same_for as st (st\<lparr>blocks := K, buffers := B\<rparr>) \<and> (\<exists>b b'. buffers st a = Some b \<and> B a = Some b' \<and> ch_buf b' = ch_buf b \<and> yy_input_file b' = yy_input_file b)"
proof -
  obtain b t where b: "buffers st a = Some b" "blocks st (ch_buf b) = Some t" "after (flex_view st b t) w" "yy_input_file b = g_in st"
    using assms(1) by (auto simp: running_def)
  let ?t = "t[g_c_buf_p st := g_hold_char st]" and ?b = "b\<lparr>yy_buf_pos := g_c_buf_p st, buf_n_chars := g_n_chars st\<rparr>"
  let ?st = "st\<lparr>blocks := (blocks st)(ch_buf b \<mapsto> ?t), buffers := (buffers st)(a \<mapsto> ?b)\<rparr>"
  have len: "g_c_buf_p st < length t" using b(3) by (auto simp: after_def window_view)
  then have "save_current st = Some ?st" using assms(2) b(1,2) by (simp add: save_current_def put_char_def)
  moreover have "window (g_c_buf_p st) (loaded ?st ?b ?t) w" using b(3,4) by (auto simp: after_def window_view)
  then have "holds ?st a w" by (simp add: holds_def)
  moreover have "same_for as st ?st"
  proof -
    have "a' \<noteq> a \<and> (\<forall>b'. buffers st a' = Some b' \<longrightarrow> ch_buf b' \<noteq> ch_buf b)" if "a' \<in> set as" for a'
      using assms(3) b(1) that by (auto simp: apart_iff differ_def)
    then show ?thesis by (auto simp: same_for_def)
  qed
  ultimately show ?thesis using b(1)
    by (intro exI [of _ "(buffers st)(a \<mapsto> ?b)"] exI [of _ "(blocks st)(ch_buf b \<mapsto> ?t)"]) simp
qed

text \<open>Loading a buffer that waits: it runs from then on.\<close>

lemma load_sim:
  assumes "YY_CURRENT_BUFFER st = Some a" "holds st a w"
  shows "\<exists>n p f h. load_buffer_state st = Some (st\<lparr>g_n_chars := n, g_text_ptr := p, g_c_buf_p := p, g_in := f, g_hold_char := h\<rparr>) \<and>
    running (st\<lparr>g_n_chars := n, g_text_ptr := p, g_c_buf_p := p, g_in := f, g_hold_char := h\<rparr>) a w"
proof -
  obtain b t where b: "buffers st a = Some b" "blocks st (ch_buf b) = Some t" "window (yy_buf_pos b) (loaded st b t) w"
    using assms(2) by (auto simp: holds_def)
  let ?st = "st\<lparr>g_n_chars := buf_n_chars b, g_text_ptr := yy_buf_pos b, g_c_buf_p := yy_buf_pos b, g_in := yy_input_file b, g_hold_char := t ! yy_buf_pos b\<rparr>"
  have "yy_buf_pos b < length t" using b(3) by (auto simp: window_view)
  then have "load_buffer_state st = Some ?st" using assms(1) b(1,2) by (simp add: load_buffer_state_def)
  moreover have "after (flex_view ?st b t) w" using b(3) by (simp add: after_def window_view)
  moreover have "holds ?st a w" using b loaded_cong [of ?st b st] by (auto simp: holds_def)
  ultimately show ?thesis using b by (auto simp: running_def)
qed

text \<open>A buffer that waits becomes the current one.\<close>

lemma enter_sim:
  assumes "stk st d bs" "yy_buffer_stack st = Some s" "holds st a w" "list_all2 (holds st) bs ws" "apart st (a # bs)" "low st (a # bs)" "3 \<le> brk st"
    "g_init st = started x" "\<not> started x \<Longrightarrow> file_rest st 0 = std_input x"
  shows "\<exists>st'. (set_current (Some a) st \<bind> load_buffer_state) = Some st' \<and> sound st' (Some a) bs (x\<lparr>cur := Some w, below := ws\<rparr>)"
proof -
  obtain s' where s': "set_current (Some a) st = Some (st\<lparr>yy_buffer_stack := Some s'\<rparr>)" "stk (st\<lparr>yy_buffer_stack := Some s'\<rparr>) (Some a) bs"
    using stk_set [OF assms(1,2)] by blast
  let ?st = "st\<lparr>yy_buffer_stack := Some s'\<rparr>"
  have same: "same_for (a # bs) st ?st" by (simp add: same_for_def)
  obtain n p f h where l: "load_buffer_state ?st = Some (?st\<lparr>g_n_chars := n, g_text_ptr := p, g_c_buf_p := p, g_in := f, g_hold_char := h\<rparr>)"
    "running (?st\<lparr>g_n_chars := n, g_text_ptr := p, g_c_buf_p := p, g_in := f, g_hold_char := h\<rparr>) a w"
    using load_sim [OF stk_current [OF s'(2)] same_for_holds [OF same _ assms(3)]] by auto
  let ?st' = "?st\<lparr>g_n_chars := n, g_text_ptr := p, g_c_buf_p := p, g_in := f, g_hold_char := h\<rparr>"
  have same: "same_for (a # bs) st ?st'" by (simp add: same_for_def)
  have "sound ?st' (Some a) bs (x\<lparr>cur := Some w, below := ws\<rparr>)"
    using l(2) assms s'(2) same_for_apart [OF same] same_for_low [OF same] same_for_all [OF same_for_subset [OF same]]
      stk_cong [of ?st' ?st] by (auto simp: sound_def lives_def)
  then show ?thesis using s'(1) l(1) by simp
qed

lemma lives_Some [simp]: "lives (Some a) as = a # as" and lives_None [simp]: "lives None as = as"
  by (simp_all add: lives_def)

text \<open>Room on the stack, and the current buffer saved: now every live buffer waits, the new one \<open>a\<close> among them.\<close>

definition all_wait :: "scanner \<Rightarrow> nat option \<Rightarrow> nat list \<Rightarrow> nat \<Rightarrow> string \<Rightarrow> scan_spec \<Rightarrow> bool" where
  "all_wait st c as a w x \<longleftrightarrow> stk st c as \<and>
     (\<exists>s. yy_buffer_stack st = Some s \<and> (c \<noteq> None \<longrightarrow> yy_buffer_stack_top st + 1 < length s)) \<and>
     holds st a w \<and> list_all2 (holds st) (lives c as) (strings x) \<and> apart st (a # lives c as) \<and> low st (a # lives c as) \<and> 3 \<le> brk st \<and>
     g_init st = started x \<and> (\<not> started x \<longrightarrow> file_rest st 0 = std_input x)"

lemma swap_same_parts:
  assumes "buffers st d = Some b" "buffers st' d = Some b'" "ch_buf b' = ch_buf b" "yy_input_file b' = yy_input_file b"
    "same_for as st st'" "brk st' = brk st" "g_init st' = g_init st" "apart st (d # as)" "low st (d # as)"
  shows "apart st' (d # as) \<and> low st' (d # as)"
proof -
  have same: "buffers st' a = buffers st a" if "a \<in> set as" for a using assms(5) that by (simp add: same_for_def)
  have "apart st' as" "low st' as" using same_for_apart [OF assms(5)] same_for_low [OF assms(5)] assms(8,9) by (simp_all add: apart_iff)
  moreover have "differ st' d a" if "a \<in> set as" for a using assms(1-4,8) same [OF that] that by (simp add: apart_iff differ_def)
  moreover have "at_low st' d" using assms(1-4,6,7,9) by (simp add: at_low_def)
  ultimately show ?thesis using assms(8) by (simp add: apart_iff)
qed

lemma save_ready:
  assumes "sound st c as x" "holds st a w" "apart st (a # lives c as)" "low st (a # lives c as)"
  shows "\<exists>st'. save_current (yyensure_buffer_stack st) = Some st' \<and> all_wait st' c as a w x"
proof -
  obtain s n where e: "yyensure_buffer_stack st = st\<lparr>yy_buffer_stack := Some s, yy_buffer_stack_top := n\<rparr>"
      "stk (yyensure_buffer_stack st) c as" "c \<noteq> None \<longrightarrow> n + 1 < length s"
    using stk_ensure assms(1) by (metis sound_def)
  define st1 where "st1 = yyensure_buffer_stack st"
  have same: "same_for (a # lives c as) st st1" by (simp add: e(1) same_for_def st1_def)
  have hold: "holds st1 a w" "list_all2 (holds st1) as (below x)"
    using assms same_for_holds [OF same, of a] same_for_all [OF same_for_subset [OF same], of as] by (auto simp: sound_def lives_def split: option.splits)
  have live: "apart st1 (a # lives c as)" "low st1 (a # lives c as)" using same_for_apart [OF same] same_for_low [OF same] assms(3,4) by simp_all
  have vars: "3 \<le> brk st1" "g_init st1 = started x" "\<not> started x \<longrightarrow> file_rest st1 0 = std_input x" using assms(1) by (auto simp: st1_def e(1) sound_def)
  have stack: "yy_buffer_stack st1 = Some s" "yy_buffer_stack_top st1 = n" "stk st1 c as" "YY_CURRENT_BUFFER st1 = c"
    using e(2) stk_current by (simp_all add: st1_def e(1))
  show ?thesis
  proof (cases c)
    case None
    then have "save_current st1 = Some st1" "cur x = None" using stack(4) assms(1) by (simp_all add: save_current_def sound_def)
    then show ?thesis using None hold live vars stack by (auto simp: st1_def [symmetric] strings_def all_wait_def)
  next
    case (Some d)
    obtain v where v: "cur x = Some v" "running st d v" using assms(1) Some by (auto simp: sound_def)
    have "running st1 d v" using running_cong [OF same_for_subset [OF same] _ v(2)] Some by (simp add: same_vars_def st1_def e(1))
    moreover have live': "apart st1 (d # a # as)" "low st1 (d # a # as)"
      using apart_swap low_swap Some live by simp_all
    ultimately obtain B K b b' where s: "save_current st1 = Some (st1\<lparr>blocks := K, buffers := B\<rparr>)" "holds (st1\<lparr>blocks := K, buffers := B\<rparr>) d v"
      "same_for (a # as) st1 (st1\<lparr>blocks := K, buffers := B\<rparr>)"
      and b: "buffers st1 d = Some b" "B d = Some b'" "ch_buf b' = ch_buf b" "yy_input_file b' = yy_input_file b"
      using save_sim [of st1 d v "a # as"] stack(4) Some by blast
    let ?st = "st1\<lparr>blocks := K, buffers := B\<rparr>"
    have l: "apart ?st (d # a # as)" "low ?st (d # a # as)" using swap_same_parts [of st1 d b ?st b' "a # as"] b s(3) live' by simp_all
    have "apart ?st (a # d # as)" "low ?st (a # d # as)" using apart_swap [OF l(1)] low_swap [OF l(2)] .
    moreover have "holds ?st a w" "list_all2 (holds ?st) as (below x)"
      using hold same_for_holds [OF s(3), of a w] same_for_all [OF same_for_subset [OF s(3)], of as] by auto
    moreover have "stk ?st c as" using stack(3) stk_cong [of ?st st1] by simp
    ultimately have "all_wait ?st c as a w x" using s(2) vars stack e(3) Some v(1) by (simp add: strings_def all_wait_def)
    then show ?thesis using s(1) by (simp add: st1_def)
  qed
qed

lemma push_sim:
  assumes "sound st c as x" "holds st a w" "apart st (a # lives c as)" "low st (a # lives c as)"
  shows "\<exists>st'. yypush_buffer_state (Some a) st = Some st' \<and> sound st' (Some a) (lives c as) (x\<lparr>cur := Some w, below := strings x\<rparr>)"
proof -
  obtain st1 where s: "save_current (yyensure_buffer_stack st) = Some st1" "all_wait st1 c as a w x"
    using save_ready [OF assms] by blast
  obtain s where stack: "yy_buffer_stack st1 = Some s" "c \<noteq> None \<longrightarrow> yy_buffer_stack_top st1 + 1 < length s" "stk st1 c as"
    using s(2) by (auto simp: all_wait_def)
  define st2 where "st2 = (if YY_CURRENT_BUFFER st1 \<noteq> None then st1\<lparr>yy_buffer_stack_top := yy_buffer_stack_top st1 + 1\<rparr> else st1)"
  have same: "same_for (a # lives c as) st1 st2" by (simp add: same_for_def st2_def)
  obtain d where d: "stk st2 d (lives c as)"
    using stack stk_current [OF stack(3)] stk_up [of st1 _ as s] by (cases c) (auto simp: st2_def)
  have "yypush_buffer_state (Some a) st = set_current (Some a) st2 \<bind> load_buffer_state"
    using s(1) by (simp add: yypush_buffer_state_def st2_def Let_def)
  moreover have "\<exists>st'. (set_current (Some a) st2 \<bind> load_buffer_state) = Some st' \<and> sound st' (Some a) (lives c as) (x\<lparr>cur := Some w, below := strings x\<rparr>)"
  proof (rule enter_sim [OF d])
    show "yy_buffer_stack st2 = Some s" "3 \<le> brk st2" "g_init st2 = started x" "\<not> started x \<Longrightarrow> file_rest st2 0 = std_input x"
      using s(2) stack(1) by (auto simp: st2_def all_wait_def)
    show "holds st2 a w" using same_for_holds [OF same, of a w] s(2) by (simp add: all_wait_def)
    show "list_all2 (holds st2) (lives c as) (strings x)" using same_for_all [OF same_for_subset [OF same], of "lives c as"] s(2) by (auto simp: all_wait_def)
    show "apart st2 (a # lives c as)" "low st2 (a # lives c as)" using same_for_apart [OF same] same_for_low [OF same] s(2) by (simp_all add: all_wait_def)
  qed
  ultimately show ?thesis by simp
qed

lemma switch_sim:
  assumes "sound st c as x" "holds st a w" "apart st (a # lives c as)" "low st (a # lives c as)"
  shows "\<exists>st'. yy_switch_to_buffer (Some a) st = Some st' \<and> sound st' (Some a) as (x\<lparr>cur := Some w\<rparr>)"
proof -
  obtain st1 where s: "save_current (yyensure_buffer_stack st) = Some st1" "all_wait st1 c as a w x"
    using save_ready [OF assms] by blast
  obtain s where stack: "yy_buffer_stack st1 = Some s" "stk st1 c as" using s(2) by (auto simp: all_wait_def)
  have "YY_CURRENT_BUFFER (yyensure_buffer_stack st) = c" using stk_ensure assms(1) stk_current by (metis sound_def)
  moreover have "c \<noteq> Some a" using assms(3) by (auto simp: apart_iff)
  ultimately have "yy_switch_to_buffer (Some a) st = set_current (Some a) st1 \<bind> load_buffer_state"
    using s(1) by (simp add: yy_switch_to_buffer_def)
  moreover have "\<exists>st'. (set_current (Some a) st1 \<bind> load_buffer_state) = Some st' \<and> sound st' (Some a) as (x\<lparr>cur := Some w, below := below x\<rparr>)"
  proof (rule enter_sim [OF stack(2,1)])
    have "set as \<subseteq> set (lives c as)" "distinct (a # as)" using apart_distinct [OF assms(3)] by (auto simp: lives_def split: option.splits)
    moreover have "apart st1 (a # lives c as)" "low st1 (a # lives c as)" using s(2) by (simp_all add: all_wait_def)
    ultimately show "apart st1 (a # as)" "low st1 (a # as)" using apart_subset [of st1 _ "a # as"] low_subset [of st1 _ "a # as"]
      by (metis insert_mono list.simps(15))+
    show "list_all2 (holds st1) as (below x)" using s(2) assms(1) by (auto simp: all_wait_def lives_def strings_def sound_def split: option.splits)
  qed (use s(2) in \<open>auto simp: all_wait_def\<close>)
  moreover have "x\<lparr>cur := Some w, below := below x\<rparr> = x\<lparr>cur := Some w\<rparr>" by (cases x) simp
  ultimately show ?thesis by simp
qed

text \<open>Deleting the current buffer: its slot, its entry in the store and, if it is ours, its block are gone.\<close>

lemma delete_current:
  assumes "stk st (Some a) as" "running st a w" "apart st (a # as)"
  shows "\<exists>K s. yy_delete_buffer (Some a) st = Some (st\<lparr>yy_buffer_stack := Some s, blocks := K, buffers := (buffers st)(a := None)\<rparr>) \<and>
    stk (st\<lparr>yy_buffer_stack := Some s, blocks := K, buffers := (buffers st)(a := None)\<rparr>) None as \<and>
    same_for as st (st\<lparr>yy_buffer_stack := Some s, blocks := K, buffers := (buffers st)(a := None)\<rparr>)"
proof -
  obtain b t where b: "buffers st a = Some b" "blocks st (ch_buf b) = Some t" using assms(2) by (auto simp: running_def)
  obtain s0 where "yy_buffer_stack st = Some s0" using assms(1) by (cases "yy_buffer_stack st") (auto simp: stk_def)
  then obtain s where s: "set_current None st = Some (st\<lparr>yy_buffer_stack := Some s\<rparr>)" "stk (st\<lparr>yy_buffer_stack := Some s\<rparr>) None as"
    using stk_set [OF assms(1)] by blast
  define K where "K = (if yy_is_our_buffer b then (blocks st)(ch_buf b := None) else blocks st)"
  let ?st = "st\<lparr>yy_buffer_stack := Some s, blocks := K, buffers := (buffers st)(a := None)\<rparr>"
  have "yy_delete_buffer (Some a) st = Some ?st"
    using b s(1) stk_current [OF assms(1)] by (simp add: yy_delete_buffer_def free_block_def K_def)
  moreover have "stk ?st None as" using s(2) stk_cong [of ?st "st\<lparr>yy_buffer_stack := Some s\<rparr>"] by simp
  moreover have "same_for as st ?st" using assms(3) b(1) by (auto simp: same_for_def apart_iff differ_def K_def)
  ultimately show ?thesis by (intro exI [of _ K] exI [of _ s]) simp
qed

lemma delete_sim:
  assumes "sound st c as x" "started x"
  shows "\<exists>st'. yy_delete_buffer (YY_CURRENT_BUFFER st) st = Some st' \<and> sound st' None as (x\<lparr>cur := None\<rparr>)"
proof (cases c)
  case None
  then have "YY_CURRENT_BUFFER st = None" "x\<lparr>cur := None\<rparr> = x" using assms(1) stk_current by (fastforce simp: sound_def)+
  then show ?thesis using None assms(1) by (simp add: yy_delete_buffer_def)
next
  case (Some a)
  obtain w where w: "stk st (Some a) as" "running st a w" "apart st (a # as)" "low st (a # as)" "list_all2 (holds st) as (below x)" "g_init st = started x" "3 \<le> brk st"
    using assms(1) Some by (auto simp: sound_def)
  obtain K s where d: "yy_delete_buffer (Some a) st = Some (st\<lparr>yy_buffer_stack := Some s, blocks := K, buffers := (buffers st)(a := None)\<rparr>)"
    "stk (st\<lparr>yy_buffer_stack := Some s, blocks := K, buffers := (buffers st)(a := None)\<rparr>) None as" "same_for as st (st\<lparr>yy_buffer_stack := Some s, blocks := K, buffers := (buffers st)(a := None)\<rparr>)"
    using delete_current [OF w(1-3)] by blast
  then have "sound (st\<lparr>yy_buffer_stack := Some s, blocks := K, buffers := (buffers st)(a := None)\<rparr>) None as (x\<lparr>cur := None\<rparr>)"
    using w assms(2) same_for_apart [OF d(3)] same_for_low [OF d(3)] same_for_all [OF d(3)] by (simp add: sound_def apart_iff)
  then show ?thesis using d(1) stk_current [OF w(1)] by simp
qed

lemma pop_sim:
  assumes "sound st c as x" "started x"
  shows "\<exists>st' c' as' x'. yypop_buffer_state st = Some st' \<and> spec_exec End_include x = Some (None, x') \<and> sound st' c' as' x'"
proof (cases c)
  case None
  then have "YY_CURRENT_BUFFER st = None" "cur x = None" using assms(1) stk_current by (fastforce simp: sound_def)+
  then show ?thesis using None assms(1) by (auto simp: yypop_buffer_state_def)
next
  case (Some a)
  obtain w where w: "stk st (Some a) as" "running st a w" "apart st (a # as)" "low st (a # as)" "list_all2 (holds st) as (below x)" "g_init st = started x"
      "3 \<le> brk st" and x: "cur x = Some w" using assms(1) Some by (auto simp: sound_def)
  obtain K s where d: "yy_delete_buffer (Some a) st = Some (st\<lparr>yy_buffer_stack := Some s, blocks := K, buffers := (buffers st)(a := None)\<rparr>)"
    "stk (st\<lparr>yy_buffer_stack := Some s, blocks := K, buffers := (buffers st)(a := None)\<rparr>) None as" "same_for as st (st\<lparr>yy_buffer_stack := Some s, blocks := K, buffers := (buffers st)(a := None)\<rparr>)"
    using delete_current [OF w(1-3)] by blast
  define st1 where "st1 = st\<lparr>yy_buffer_stack := Some s, blocks := K, buffers := (buffers st)(a := None)\<rparr>"
  have live: "apart st1 as" "low st1 as" "list_all2 (holds st1) as (below x)"
    using w same_for_apart [OF d(3)] same_for_low [OF d(3)] same_for_all [OF d(3)] by (simp_all add: apart_iff st1_def)
  obtain s' where s': "set_current None st1 = Some (st1\<lparr>yy_buffer_stack := Some s'\<rparr>)" "stk (st1\<lparr>yy_buffer_stack := Some s'\<rparr>) None as"
    using stk_set [OF d(2), of s None] by (auto simp: st1_def)
  define st2 where "st2 = st1\<lparr>yy_buffer_stack := Some s'\<rparr>"
  have pop: "yypop_buffer_state st = (let st = (if yy_buffer_stack_top st2 > 0 then st2\<lparr>yy_buffer_stack_top := yy_buffer_stack_top st2 - 1\<rparr> else st2)
      in if YY_CURRENT_BUFFER st \<noteq> None then load_buffer_state st else Some st)"
    using d(1) s'(1) stk_current [OF w(1)] by (simp add: yypop_buffer_state_def st1_def [symmetric] st2_def [symmetric])
  have down: "case as of [] \<Rightarrow> yy_buffer_stack_top st2 = 0
    | a # as' \<Rightarrow> 0 < yy_buffer_stack_top st2 \<and> stk (st2\<lparr>yy_buffer_stack_top := yy_buffer_stack_top st2 - 1\<rparr>) (Some a) as'"
    by (rule stk_down [OF s'(2) [folded st2_def]]) (simp add: st2_def)
  show ?thesis
  proof (cases as)
    case Nil
    then have "yypop_buffer_state st = Some st2" using down pop stk_current [OF s'(2)] by (simp add: st2_def)
    moreover have "sound st2 None [] (x\<lparr>cur := None\<rparr>)"
      using s'(2) Nil w(5-7) assms(2) by (simp add: sound_def st2_def st1_def apart_def low_def)
    moreover have "below x = []" using w(5) Nil by simp
    ultimately show ?thesis using x by auto
  next
    case (Cons a' as')
    define st3 where "st3 = st2\<lparr>yy_buffer_stack_top := yy_buffer_stack_top st2 - 1\<rparr>"
    obtain v vs where v: "below x = v # vs" using w(5) Cons by (cases "below x") auto
    have same: "same_for as st1 st3" by (simp add: same_for_def st2_def st3_def)
    have stk: "stk st3 (Some a') as'" and p: "yypop_buffer_state st = load_buffer_state st3"
      using down pop Cons stk_current [of st3 "Some a'" as'] by (auto simp: st3_def)
    have h: "list_all2 (holds st3) as (below x)" using same_for_all [OF same live(3)] .
    obtain n p f h where l: "load_buffer_state st3 = Some (st3\<lparr>g_n_chars := n, g_text_ptr := p, g_c_buf_p := p, g_in := f, g_hold_char := h\<rparr>)"
      "running (st3\<lparr>g_n_chars := n, g_text_ptr := p, g_c_buf_p := p, g_in := f, g_hold_char := h\<rparr>) a' v"
      using load_sim [OF stk_current [OF stk], of v] h Cons v by auto
    define st4 where "st4 = st3\<lparr>g_n_chars := n, g_text_ptr := p, g_c_buf_p := p, g_in := f, g_hold_char := h\<rparr>"
    have same': "same_for as st1 st4" using same by (simp add: same_for_def st4_def)
    have "stk st4 (Some a') as'" using stk stk_cong [of st4 st3] by (simp add: st4_def)
    moreover have "g_init st4 = started x" "3 \<le> brk st4" using w(6,7) by (simp_all add: st4_def st3_def st2_def st1_def)
    moreover have "apart st4 as" "low st4 as" "list_all2 (holds st4) as (below x)"
      using same_for_apart [OF same' live(1)] same_for_low [OF same' live(2)] same_for_all [OF same' live(3)] .
    ultimately have "sound st4 (Some a') as' (x\<lparr>cur := Some v, below := vs\<rparr>)"
      using l(2) [folded st4_def] assms(2) Cons v by (simp add: sound_def)
    then show ?thesis using l(1) [folded st4_def] p x v by auto
  qed
qed

lemma init_fresh:
  assumes "buffers st a = Some b" "blocks st (ch_buf b) = Some t" "2 \<le> length t" "YY_CURRENT_BUFFER st \<noteq> Some a"
  shows "init_buffer a f st = Some (st\<lparr>blocks := (blocks st)(ch_buf b \<mapsto> t[0 := NUL, 1 := NUL]),
    buffers := (buffers st)(a \<mapsto> b\<lparr>buf_n_chars := 0, yy_buf_pos := 0, yy_buffer_status := YY_BUFFER_NEW,
      yy_input_file := f, yy_fill_buffer := True, yy_is_interactive := isatty st f\<rparr>)\<rparr>)"
proof -
  let ?st1 = "st\<lparr>buffers := (buffers st)(a \<mapsto> b\<lparr>buf_n_chars := 0\<rparr>), blocks := (blocks st)(ch_buf b \<mapsto> t[0 := NUL, 1 := NUL])\<rparr>"
  have "put_char (ch_buf b) 0 NUL (st\<lparr>buffers := (buffers st)(a \<mapsto> b\<lparr>buf_n_chars := 0\<rparr>)\<rparr>) \<bind> put_char (ch_buf b) 1 NUL = Some ?st1"
    using assms(2,3) by (cases t; cases "tl t") (auto simp: put_char_def)
  then have "flush_buffer (Some a) st = Some (?st1\<lparr>buffers := (buffers st)(a \<mapsto> b\<lparr>buf_n_chars := 0, yy_buf_pos := 0, yy_buffer_status := YY_BUFFER_NEW\<rparr>)\<rparr>)"
    using assms(1,4) by (auto simp: flush_buffer_def bind_eq_Some_conv)
  then show ?thesis by (simp add: init_buffer_def isatty_def cong: option.case_cong)
qed

text \<open>A new buffer for a file that no live buffer has waits with all of the file.\<close>

lemma create_sim:
  assumes "YY_CURRENT_BUFFER st \<noteq> Some (brk st)" "0 < n" "f < brk st" "f = 0 \<longrightarrow> g_init st" "apart st as" "low st as"
    "\<forall>a\<in>set as. \<forall>b. buffers st a = Some b \<longrightarrow> yy_input_file b \<noteq> Some f"
  shows "\<exists>B K. create_buffer mem (Some f) n st = Some (brk st, st\<lparr>brk := brk st + 2, blocks := K, buffers := B\<rparr>) \<and>
    holds (st\<lparr>brk := brk st + 2, blocks := K, buffers := B\<rparr>) (brk st) (file_rest st f) \<and>
    same_for as st (st\<lparr>brk := brk st + 2, blocks := K, buffers := B\<rparr>) \<and>
    apart (st\<lparr>brk := brk st + 2, blocks := K, buffers := B\<rparr>) (brk st # as) \<and> low (st\<lparr>brk := brk st + 2, blocks := K, buffers := B\<rparr>) (brk st # as)"
proof -
  let ?a = "brk st"
  define t where "t = (map mem [0..<n + 2])[0 := NUL, 1 := NUL]"
  define b where "b = \<lparr>yy_input_file = Some f, ch_buf = ?a + 1, yy_buf_pos = 0, yy_buf_size = n, buf_n_chars = 0, yy_is_our_buffer = True,
       yy_is_interactive = isatty st (Some f), yy_fill_buffer = True, yy_buffer_status = YY_BUFFER_NEW\<rparr>"
  let ?st = "st\<lparr>brk := ?a + 2, blocks := (blocks st)(?a + 1 \<mapsto> t), buffers := (buffers st)(?a \<mapsto> b)\<rparr>"
  have "create_buffer mem (Some f) n st = Some (?a, ?st)"
    using assms(1) by (simp add: create_buffer_def init_fresh t_def b_def isatty_def Let_def del: upt_Suc)
  moreover have "t ! 0 = NUL" "t ! 1 = NUL" "length t = n + 2" by (simp_all add: t_def)
  then have "holds ?st ?a (file_rest st f)"
    using assms(2) by (simp add: holds_def window_view b_def rest_of_def)
  moreover have low: "a < ?a" "\<And>c. buffers st a = Some c \<Longrightarrow> ch_buf c < ?a" if "a \<in> set as" for a
    using assms(6) that by (auto simp: low_def at_low_def)
  then have same: "same_for as st ?st" by (fastforce simp: same_for_def)
  moreover have "apart ?st (?a # as)"
  proof -
    have "differ ?st ?a a" if "a \<in> set as" for a using low [OF that] assms(7) that by (fastforce simp: differ_def b_def)
    then show ?thesis using same_for_apart [OF same assms(5)] low(1) by (auto simp: apart_iff)
  qed
  moreover have "low ?st (?a # as)" using same_for_low [OF same assms(6)] assms(3,4) by (simp add: at_low_def b_def)
  ultimately show ?thesis by (intro exI [of _ "(buffers st)(?a \<mapsto> b)"] exI [of _ "(blocks st)(?a + 1 \<mapsto> t)"]) simp
qed

text \<open>A buffer over characters of the caller waits with them.\<close>

lemma string_waits:
  assumes "blocks st k = Some (s @ [NUL, NUL])" "k < brk st" "apart st as" "low st as"
    "\<And>a b. a \<in> set as \<Longrightarrow> buffers st a = Some b \<Longrightarrow> ch_buf b \<noteq> k"
  shows "\<exists>st1. yy_scan_buffer k (length s + 2) st = map_option (Pair (Some (brk st))) (yy_switch_to_buffer (Some (brk st)) st1) \<and>
    holds st1 (brk st) s \<and> same_for as st st1 \<and> same_vars st st1 \<and> yy_buffer_stack st1 = yy_buffer_stack st \<and>
    yy_buffer_stack_top st1 = yy_buffer_stack_top st \<and> file_rest st1 = file_rest st \<and> apart st1 (brk st # as) \<and> low st1 (brk st # as)"
proof -
  let ?a = "brk st"
  define b where "b = \<lparr>yy_input_file = None, ch_buf = k, yy_buf_pos = 0, yy_buf_size = length s, buf_n_chars = length s, yy_is_our_buffer = False,
    yy_is_interactive = False, yy_fill_buffer = False, yy_buffer_status = YY_BUFFER_NEW\<rparr>"
  let ?st = "st\<lparr>brk := ?a + 1, buffers := (buffers st)(?a \<mapsto> b)\<rparr>"
  have "yy_scan_buffer k (length s + 2) st = map_option (Pair (Some ?a)) (yy_switch_to_buffer (Some ?a) ?st)"
    using assms(1) by (simp add: yy_scan_buffer_def b_def nth_append Let_def map_conv_bind_option comp_def)
  moreover have "holds ?st ?a s" using assms(1) by (simp add: holds_def window_view b_def rest_of_def nth_append)
  moreover have low: "a < ?a" if "a \<in> set as" for a using assms(4) that by (auto simp: low_def at_low_def)
  then have same: "same_for as st ?st" by (fastforce simp: same_for_def)
  moreover have "apart ?st (?a # as)"
  proof -
    have "differ ?st ?a a" if "a \<in> set as" for a using low [OF that] assms(5) [OF that] by (auto simp: differ_def b_def)
    then show ?thesis using same_for_apart [OF same assms(3)] low by (auto simp: apart_iff)
  qed
  moreover have "low ?st (?a # as)" using same_for_low [OF same assms(4)] assms(2) by (simp add: at_low_def b_def)
  ultimately show ?thesis by (intro exI [of _ ?st]) (simp add: same_vars_def)
qed

lemma alloc_same: "low st as \<Longrightarrow> brk st < n \<Longrightarrow> same_for as st (st\<lparr>brk := n, blocks := (blocks st)(brk st \<mapsto> t)\<rparr>)"
  by (fastforce simp: same_for_def low_def at_low_def)

lemma own_sim:
  assumes "sound st (Some a) as x" "buffers st a = Some b"
  shows "sound (st\<lparr>buffers := (buffers st)(a \<mapsto> b\<lparr>yy_is_our_buffer := True\<rparr>)\<rparr>) (Some a) as x"
proof -
  let ?b = "b\<lparr>yy_is_our_buffer := True\<rparr>"
  let ?st = "st\<lparr>buffers := (buffers st)(a \<mapsto> ?b)\<rparr>"
  have l: "apart st (a # as)" "low st (a # as)" "a \<notin> set as" using assms(1) by (simp_all add: sound_def apart_iff)
  then have same: "same_for as st ?st" by (auto simp: same_for_def)
  have "apart ?st (a # as) \<and> low ?st (a # as)" using swap_same_parts [OF assms(2) _ _ _ same] l by simp
  moreover have "running ?st a w" if "running st a w" for w
  proof -
    obtain t where t: "blocks st (ch_buf b) = Some t" "after (flex_view st b t) w" "yy_input_file b = g_in st" "\<not> g_init st \<longrightarrow> holds st a w"
      using \<open>running st a w\<close> assms(2) by (auto simp: running_def)
    then have "after (flex_view ?st ?b t) w" by (simp add: after_def window_iff flex_view_def)
    moreover have "holds ?st a w" if "holds st a w" using that assms(2) by (auto simp: holds_def window_iff loaded_def flex_view_def)
    ultimately show ?thesis using t by (auto simp: running_def)
  qed
  moreover have "stk ?st (Some a) as" using assms(1) stk_cong [of ?st st] by (simp add: sound_def)
  ultimately show ?thesis using assms(1) same_for_all [OF same] by (auto simp: sound_def)
qed

text \<open>Scanning characters in a block that the client, or \<open>yy_scan_bytes\<close>, has just allocated.\<close>

lemma scan_block_sim:
  assumes "sound st c as x"
  shows "\<exists>st' a. yy_scan_buffer (brk st) (length s + 2) (st\<lparr>brk := brk st + 1, blocks := (blocks st)(brk st \<mapsto> s @ [NUL, NUL])\<rparr>) = Some (Some a, st') \<and>
    sound st' (Some a) as (x\<lparr>cur := Some s\<rparr>)"
proof -
  let ?k = "brk st" and ?st = "st\<lparr>brk := brk st + 1, blocks := (blocks st)(brk st \<mapsto> s @ [NUL, NUL])\<rparr>"
  have l: "low st (lives c as)" "apart st (lives c as)" using assms by (simp_all add: sound_def)
  have same: "same_for (lives c as) st ?st" using alloc_same [OF l(1)] by simp
  have s: "sound ?st c as x" using sound_cong [OF assms same] by (simp add: same_vars_def)
  have k: "ch_buf b \<noteq> ?k" if "a \<in> set (lives c as)" "buffers ?st a = Some b" for a b
    using l(1) that by (auto simp: low_def at_low_def)
  obtain st1 where st1: "yy_scan_buffer ?k (length s + 2) ?st = map_option (Pair (Some (brk ?st))) (yy_switch_to_buffer (Some (brk ?st)) st1)"
    "holds st1 (brk ?st) s" "same_for (lives c as) ?st st1" "same_vars ?st st1" "yy_buffer_stack st1 = yy_buffer_stack ?st"
    "yy_buffer_stack_top st1 = yy_buffer_stack_top ?st" "file_rest st1 = file_rest ?st"
    "apart st1 (brk ?st # lives c as)" "low st1 (brk ?st # lives c as)"
    using string_waits [of ?st ?k s "lives c as"] same_for_apart [OF same l(2)] same_for_low [OF same l(1)] k by auto
  obtain st2 where "yy_switch_to_buffer (Some (brk ?st)) st1 = Some st2" "sound st2 (Some (brk ?st)) as (x\<lparr>cur := Some s\<rparr>)"
    using switch_sim [OF sound_cong [OF s st1(3-6)] st1(2,8,9)] st1(7) by auto
  then show ?thesis using st1(1) by auto
qed

lemma scan_bytes_sim:
  assumes "sound st c as x"
  shows "\<exists>st' a. yy_scan_bytes s st = Some (a, st') \<and> sound st' (Some a) as (x\<lparr>cur := Some s\<rparr>)"
proof -
  obtain st1 a where s: "yy_scan_buffer (brk st) (length s + 2) (st\<lparr>brk := brk st + 1, blocks := (blocks st)(brk st \<mapsto> s @ [NUL, NUL])\<rparr>) = Some (Some a, st1)"
    "sound st1 (Some a) as (x\<lparr>cur := Some s\<rparr>)" using scan_block_sim [OF assms] by blast
  obtain b where "buffers st1 a = Some b" using s(2) by (auto simp: sound_def running_def)
  then show ?thesis using s(1) own_sim [OF s(2)] by (simp add: yy_scan_bytes_def Let_def)
qed

lemma include_sim:
  assumes "sound st c as x"
  shows "\<exists>st' c' as' x'. scan_exec mem (Include tty inp) st = Some (None, st') \<and> spec_exec (Include tty inp) x = Some (None, x') \<and> sound st' c' as' x'"
proof -
  define st0 where "st0 = snd (open_file tty inp st)"
  have st0: "st0 = st\<lparr>brk := brk st + 1, file_rest := (file_rest st)(brk st := inp), file_tty := (file_tty st)(brk st := tty)\<rparr>"
    by (simp add: st0_def open_file_def)
  have l: "low st (lives c as)" "apart st (lives c as)" "3 \<le> brk st" "YY_CURRENT_BUFFER st = c" using assms stk_current by (auto simp: sound_def)
  have f: "yy_input_file b \<noteq> Some (brk st)" if "a \<in> set (lives c as)" "buffers st a = Some b" for a b
    using l(1) that by (auto simp: low_def at_low_def)
  have same: "same_for (lives c as) st st0" using f by (fastforce simp: same_for_def st0 rest_of_def split: option.split)
  have s0: "sound st0 c as x" by (rule sound_cong [OF assms same]) (use l(3) in \<open>auto simp: same_vars_def st0\<close>)
  have "c \<noteq> Some (brk st0)" using l(1) by (auto simp: st0 at_low_def)
  then have cur: "YY_CURRENT_BUFFER st0 \<noteq> Some (brk st0)" using s0 stk_current by (auto simp: sound_def)
  have fresh: "brk st < brk st0" "brk st = 0 \<longrightarrow> g_init st0" "0 < YY_BUF_SIZE" using l(3) by (simp_all add: st0 YY_BUF_SIZE_def)
  have f0: "\<forall>a\<in>set (lives c as). \<forall>b. buffers st0 a = Some b \<longrightarrow> yy_input_file b \<noteq> Some (brk st)" using f by (simp add: st0)
  obtain B K where c: "create_buffer mem (Some (brk st)) YY_BUF_SIZE st0 = Some (brk st0, st0\<lparr>brk := brk st0 + 2, blocks := K, buffers := B\<rparr>)"
    "holds (st0\<lparr>brk := brk st0 + 2, blocks := K, buffers := B\<rparr>) (brk st0) (file_rest st0 (brk st))"
    "same_for (lives c as) st0 (st0\<lparr>brk := brk st0 + 2, blocks := K, buffers := B\<rparr>)"
    "apart (st0\<lparr>brk := brk st0 + 2, blocks := K, buffers := B\<rparr>) (brk st0 # lives c as)" "low (st0\<lparr>brk := brk st0 + 2, blocks := K, buffers := B\<rparr>) (brk st0 # lives c as)"
    using create_sim [OF cur fresh(3,1,2) same_for_apart [OF same l(2)] same_for_low [OF same l(1)] f0] by blast
  have "sound (st0\<lparr>brk := brk st0 + 2, blocks := K, buffers := B\<rparr>) c as x"
    by (rule sound_cong [OF s0 c(3)]) (simp_all add: same_vars_def)
  from push_sim [OF this c(2,4,5)] c(1) show ?thesis
    by (auto simp: open_file_def st0 strings_def split: option.splits)
qed

lemma scan_buffer_sim:
  assumes "sound st c as x"
  shows "\<exists>st' c' x'. scan_exec mem (Scan_buffer s) st = Some (None, st') \<and> spec_exec (Scan_buffer s) x = Some (None, x') \<and> sound st' c' as x'"
proof (cases "drop (length s - 2) s = [NUL, NUL]")
  case True
  define w where "w = take (length s - 2) s"
  have s: "s = w @ [NUL, NUL]" using True append_take_drop_id [of "length s - 2" s] by (simp add: w_def)
  then have "length s = length w + 2" by simp
  then show ?thesis using scan_block_sim [OF assms, of w] s by (auto simp: w_def [symmetric])
next
  case False
  let ?st = "st\<lparr>brk := brk st + 1, blocks := (blocks st)(brk st \<mapsto> s)\<rparr>"
  have "s ! (length s - 2) \<noteq> NUL \<or> s ! (length s - 1) \<noteq> NUL" if n: "2 \<le> length s"
  proof (rule ccontr)
    assume "\<not> ?thesis"
    moreover have e: "Suc (length s - 2) = length s - 1" "Suc (length s - 1) = length s" using n by simp_all
    have "drop (length s - 2) s = [s ! (length s - 2), s ! (length s - 1)]"
      using n Cons_nth_drop_Suc [of "length s - 2" s] Cons_nth_drop_Suc [of "length s - 1" s] unfolding e by simp
    ultimately show False using False by simp
  qed
  then have "yy_scan_buffer (brk st) (length s) ?st = Some (None, ?st)" by (auto simp: yy_scan_buffer_def)
  moreover have "sound ?st c as x"
    by (rule sound_cong [OF assms]) (use assms alloc_same [of st "lives c as"] in \<open>simp_all add: same_vars_def sound_def\<close>)
  ultimately show ?thesis using False by auto
qed

text \<open>The first call creates a buffer for \<open>stdin\<close> when there is none, and loads the current one.\<close>

lemma init_sim:
  assumes "sound st c as x" "(if started x then cur x else case cur x of None \<Rightarrow> Some (std_input x) | Some w \<Rightarrow> Some w) = Some w"
  shows "\<exists>st' a. lex_init mem st = Some st' \<and> sound st' (Some a) as (x\<lparr>started := True, cur := Some w\<rparr>)"
proof (cases "started x")
  case True
  then have "x\<lparr>started := True, cur := Some w\<rparr> = x" using assms(2) by (cases x) simp
  then show ?thesis using True assms by (auto simp: lex_init_def sound_def split: option.splits)
next
  case new: False
  define st0 where "st0 = st\<lparr>g_init := True, g_start := (if g_start st = 0 then 1 else g_start st),
    g_in := (if g_in st = None then Some 0 else g_in st), g_out := (if g_out st = None then Some 1 else g_out st)\<rparr>"
  have init: "lex_init mem st = some_buffer mem st0 \<bind> load_buffer_state" using new assms(1) by (simp add: lex_init_def sound_def st0_def)
  have same: "same_for (lives c as) st st0" by (simp add: same_for_def st0_def)
  have stk: "stk st0 c as" using assms(1) stk_cong [of st0 st] by (simp add: sound_def st0_def)
  show ?thesis
  proof (cases c)
    case None
    have e: "g_in st0 = Some 0" "as = []" "below x = []" "w = file_rest st0 0" "3 \<le> brk st0" "g_init st0"
      using new None assms by (auto simp: sound_def st0_def)
    obtain s n where s: "yyensure_buffer_stack st0 = st0\<lparr>yy_buffer_stack := Some s, yy_buffer_stack_top := n\<rparr>" "stk (yyensure_buffer_stack st0) None []"
      using stk_ensure [OF stk] None e(2) by auto
    define st1 where "st1 = yyensure_buffer_stack st0"
    have st1: "g_in st1 = Some 0" "3 \<le> brk st1" "g_init st1" "file_rest st1 = file_rest st0" "YY_CURRENT_BUFFER st1 \<noteq> Some (brk st1)"
      using e(1,5,6) stk_current [OF s(2)] by (simp_all add: st1_def s(1))
    have "0 < YY_BUF_SIZE" "0 < brk st1" "0 = (0::nat) \<longrightarrow> g_init st1" using st1 by (simp_all add: YY_BUF_SIZE_def)
    then obtain B K where c: "create_buffer mem (Some 0) YY_BUF_SIZE st1 = Some (brk st1, st1\<lparr>brk := brk st1 + 2, blocks := K, buffers := B\<rparr>)"
      "holds (st1\<lparr>brk := brk st1 + 2, blocks := K, buffers := B\<rparr>) (brk st1) (file_rest st1 0)"
      "apart (st1\<lparr>brk := brk st1 + 2, blocks := K, buffers := B\<rparr>) [brk st1]" "low (st1\<lparr>brk := brk st1 + 2, blocks := K, buffers := B\<rparr>) [brk st1]"
      using create_sim [OF st1(5), of YY_BUF_SIZE 0 "[]" mem] by (auto simp: apart_def low_def)
    define st2 where "st2 = st1\<lparr>brk := brk st1 + 2, blocks := K, buffers := B\<rparr>"
    have "stk st2 None []" "yy_buffer_stack st2 = Some s" using s stk_cong [of st2 st1] by (simp_all add: st1_def st2_def)
    then obtain st' where "(set_current (Some (brk st1)) st2 \<bind> load_buffer_state) = Some st'"
      "sound st' (Some (brk st1)) [] (x\<lparr>started := True\<rparr>\<lparr>cur := Some (file_rest st1 0), below := []\<rparr>)"
      using enter_sim [of st2 None "[]" s "brk st1" "file_rest st1 0" "[]" "x\<lparr>started := True\<rparr>"] c(2-4) [folded st2_def] st1(2,3) by (auto simp: st2_def)
    moreover have "some_buffer mem st0 = set_current (Some (brk st1)) st2"
      using stk_current [OF stk] None c(1) st1(1) by (simp add: some_buffer_def st1_def [symmetric] st2_def Let_def)
    moreover have "x\<lparr>started := True\<rparr>\<lparr>cur := Some (file_rest st1 0), below := []\<rparr> = x\<lparr>started := True, cur := Some w\<rparr>"
      using e(3,4) st1(4) by (cases x) simp
    ultimately show ?thesis using init e(2) by auto
  next
    case (Some a)
    then have "holds st a w" using new assms by (auto simp: sound_def running_def)
    then have h: "holds st0 a w" using same_for_holds [OF same] Some by simp
    have cur: "YY_CURRENT_BUFFER st0 = Some a" using stk_current [OF stk] Some by simp
    obtain n p f h where l: "load_buffer_state st0 = Some (st0\<lparr>g_n_chars := n, g_text_ptr := p, g_c_buf_p := p, g_in := f, g_hold_char := h\<rparr>)"
      "running (st0\<lparr>g_n_chars := n, g_text_ptr := p, g_c_buf_p := p, g_in := f, g_hold_char := h\<rparr>) a w"
      using load_sim [OF cur h] by blast
    define st1 where "st1 = st0\<lparr>g_n_chars := n, g_text_ptr := p, g_c_buf_p := p, g_in := f, g_hold_char := h\<rparr>"
    have same': "same_for (lives c as) st st1" using same by (simp add: same_for_def st1_def)
    have "stk st1 (Some a) as" using stk stk_cong [of st1 st0] Some by (simp add: st1_def)
    moreover have "apart st1 (lives c as)" "low st1 (lives c as)" using assms(1) same_for_apart [OF same'] same_for_low [OF same'] by (simp_all add: sound_def)
    moreover have "list_all2 (holds st1) as (below x)" using same_for_all [OF same_for_subset [OF same'], of as] assms(1) Some by (auto simp: sound_def)
    moreover have "g_init st1" "3 \<le> brk st1" using assms(1) by (simp_all add: st1_def st0_def sound_def)
    ultimately have "sound st1 (Some a) as (x\<lparr>started := True, cur := Some w\<rparr>)" using l(2) [folded st1_def] Some by (simp add: sound_def)
    then show ?thesis using init l(1) [folded st1_def] cur by (auto simp: some_buffer_def)
  qed
qed

lemma run_sim:
  assumes "sound st (Some a) as x" "started x" "cur x = Some w" "yylex w = Some (k, v, ls, r)"
  shows "\<exists>b t s. buffers st a = Some b \<and> blocks st (ch_buf b) = Some t \<and> flex_run mem At_start (flex_view st b t) = Some (k, v, ls, s) \<and>
    sound (flex_put a b s st) (Some a) as (x\<lparr>cur := Some r\<rparr>)"
proof -
  have sd: "stk st (Some a) as" "apart st (a # as)" "low st (a # as)" "a \<notin> set as" "running st a w" "g_init st" "3 \<le> brk st" "list_all2 (holds st) as (below x)"
    using assms(1-3) by (auto simp: sound_def apart_iff)
  obtain b t where b: "buffers st a = Some b" "blocks st (ch_buf b) = Some t" "after (flex_view st b t) w" "yy_input_file b = g_in st"
    using sd(5) by (auto simp: running_def)
  obtain s where s: "flex_run mem At_start (flex_view st b t) = Some (k, v, ls, s)" "after s r"
    using run_refines [OF b(3), of mem] assms(4) by auto
  have kept: "yy_in s = g_in st" "b_is_our_buffer s = yy_is_our_buffer b" "b_input_file s = g_in st"
    using run_kept [OF s(1) refl] b(4) by (auto simp: kept_def flex_view_def)
  let ?b = "b\<lparr>yy_input_file := b_input_file s, yy_buf_pos := b_pos s, yy_buf_size := b_size s, buf_n_chars := b_n_chars s,
    yy_is_interactive := b_interactive s, yy_fill_buffer := b_fill s, yy_buffer_status := b_status s\<rparr>"
  define st' where "st' = flex_put a b s st"
  have p: "buffers st' a = Some ?b" "blocks st' (ch_buf b) = Some (yy_ch_buf s)" "g_in st' = g_in st" "g_init st'" "brk st' = brk st"
    using kept sd(6) by (simp_all add: st'_def flex_put_def)
  have same: "same_for as st st'"
  proof -
    have "a' \<noteq> a \<and> (\<forall>b'. buffers st a' = Some b' \<longrightarrow> ch_buf b' \<noteq> ch_buf b \<and> (yy_input_file b = None \<or> yy_input_file b \<noteq> yy_input_file b'))"
      if "a' \<in> set as" for a' using sd(2,4) b(1) that by (fastforce simp: apart_iff differ_def)
    then show ?thesis using b(4) kept(1) by (fastforce simp: same_for_def st'_def flex_put_def rest_of_def split: option.splits)
  qed
  have "rest_of st' (g_in st') = input_rest s"
    using s(2) kept(1) p(3) by (cases "g_in st") (auto simp: rest_of_def st'_def flex_put_def after_def window_iff)
  then have "after (flex_view st' ?b (yy_ch_buf s)) r = after s r"
    by (intro after_cong) (use s(2) kept p(3) in \<open>auto simp: flex_view_def st'_def flex_put_def after_def window_iff\<close>)
  then have "running st' a r" using s(2) p kept(3) by (simp add: running_def)
  moreover have "apart st' (a # as) \<and> low st' (a # as)"
    using swap_same_parts [OF b(1) p(1) _ _ same p(5) _ sd(2,3)] kept(3) b(4) p(4) sd(6) by simp
  moreover have "stk st' (Some a) as" using sd(1) stk_cong [of st' st] by (simp add: st'_def flex_put_def)
  ultimately have "sound st' (Some a) as (x\<lparr>cur := Some r\<rparr>)" using assms(2) p sd(7) same_for_all [OF same sd(8)] by (simp add: sound_def)
  then show ?thesis using b s(1) by (auto simp: st'_def)
qed

lemma token_sim:
  assumes "sound st c as x"
  shows "case spec_exec Token x of None \<Rightarrow> scan_exec mem Token st = None
    | Some (y, x') \<Rightarrow> \<exists>st' a. scan_exec mem Token st = Some (y, st') \<and> sound st' (Some a) as x'"
proof (cases "if started x then cur x else case cur x of None \<Rightarrow> Some (std_input x) | Some w \<Rightarrow> Some w")
  case None
  then have "started x" "cur x = None" by (auto split: if_splits option.splits)
  then have "c = None" "g_init st" "YY_CURRENT_BUFFER st = c" using assms stk_current by (auto simp: sound_def split: option.splits)
  then show ?thesis using \<open>started x\<close> \<open>cur x = None\<close> by (simp add: stack_yylex_def lex_init_def)
next
  case (Some w)
  obtain st1 a where i: "lex_init mem st = Some st1" "sound st1 (Some a) as (x\<lparr>started := True, cur := Some w\<rparr>)"
    using init_sim [OF assms Some] by blast
  obtain k v ls r where y: "yylex w = Some (k, v, ls, r)" using yylex_lexemes [of w] by (metis prod_cases4)
  obtain b t s where r: "buffers st1 a = Some b" "blocks st1 (ch_buf b) = Some t" "flex_run mem At_start (flex_view st1 b t) = Some (k, v, ls, s)"
    "sound (flex_put a b s st1) (Some a) as (x\<lparr>started := True, cur := Some w\<rparr>\<lparr>cur := Some r\<rparr>)"
    using run_sim [OF i(2) _ _ y, of mem] by auto
  have "YY_CURRENT_BUFFER st1 = Some a" using i(2) stk_current by (auto simp: sound_def)
  then have "scan_exec mem Token st = Some (Some (k, v, ls), flex_put a b s st1)" using i(1) r(1-3) by (simp add: stack_yylex_def)
  moreover have "spec_exec Token x = Some (Some (k, v, ls), x\<lparr>started := True, cur := Some r\<rparr>)" using Some y by simp
  ultimately show ?thesis using r(4) by auto
qed

section \<open>Sessions\<close>

text \<open>Before the first token only the current buffer can be known, so nothing is to be removed from the stack until then.\<close>

fun removes :: "scan_cmd \<Rightarrow> bool" where
  "removes End_include = True"
| "removes Delete = True"
| "removes _ = False"

lemma exec_sim:
  assumes "sound st c as x" "started x \<or> \<not> removes cmd"
  shows "case spec_exec cmd x of None \<Rightarrow> scan_exec mem cmd st = None
    | Some (y, x') \<Rightarrow> \<exists>st' c' as'. scan_exec mem cmd st = Some (y, st') \<and> sound st' c' as' x' \<and> (started x \<or> cmd = Token \<longrightarrow> started x')"
proof (cases cmd)
  case Token
  note t = token_sim [OF assms(1), of mem]
  show ?thesis
  proof (cases "spec_exec Token x")
    case None
    then show ?thesis using t Token by (simp del: spec_exec.simps scan_exec.simps)
  next
    case (Some r)
    moreover from this have "started (snd r)" by (cases "yylex (the (if started x then cur x else case cur x of None \<Rightarrow> Some (std_input x) | Some w \<Rightarrow> Some w))")
        (auto simp: bind_eq_Some_conv)
    moreover obtain y x' where "r = (y, x')" by fastforce
    ultimately show ?thesis using t Token by (auto simp del: spec_exec.simps scan_exec.simps)
  qed
next
  case (Include tty inp)
  then show ?thesis using include_sim [OF assms(1), of mem tty inp] by auto
next
  case End_include
  then show ?thesis using pop_sim [OF assms(1)] assms(2) by (auto split: list.splits) blast+
next
  case (Scan_string s)
  then show ?thesis using scan_bytes_sim [OF assms(1), of "c_str s"] by (auto simp: yy_scan_string_def)
next
  case (Scan_bytes s)
  then show ?thesis using scan_bytes_sim [OF assms(1), of s] by auto
next
  case (Scan_buffer s)
  then show ?thesis using scan_buffer_sim [OF assms(1), of mem s] by (auto split: if_splits)
next
  case Delete
  then show ?thesis using delete_sim [OF assms(1)] assms(2) by auto
qed

lemma session_sim:
  assumes "sound st c as x" "started x \<or> \<not> list_ex removes (takeWhile ((\<noteq>) Token) cmds)"
  shows "case spec_session cmds x of None \<Rightarrow> scan_session mem cmds st = None
    | Some (ys, x') \<Rightarrow> \<exists>st' c' as'. scan_session mem cmds st = Some (ys, st') \<and> sound st' c' as' x'"
  using assms
proof (induction cmds arbitrary: st c as x)
  case (Cons cmd cmds)
  have "started x \<or> \<not> removes cmd" using Cons.prems(2) by (cases cmd) auto
  note e = exec_sim [OF Cons.prems(1) this, of mem]
  show ?case
  proof (cases "spec_exec cmd x")
    case None
    then show ?thesis using e by simp
  next
    case (Some r)
    obtain y x1 where r: "r = (y, x1)" by fastforce
    obtain st1 c1 as1 where s: "scan_exec mem cmd st = Some (y, st1)" "sound st1 c1 as1 x1" "started x \<or> cmd = Token \<longrightarrow> started x1"
      using e Some r by auto
    then have "started x1 \<or> \<not> list_ex removes (takeWhile ((\<noteq>) Token) cmds)" using Cons.prems(2) by (auto split: if_splits)
    note ih = Cons.IH [OF s(2) this]
    show ?thesis
    proof (cases "spec_session cmds x1")
      case None
      then show ?thesis using ih Some r s(1) by simp
    next
      case (Some q)
      moreover obtain ys x' where "q = (ys, x')" by fastforce
      ultimately show ?thesis using ih \<open>spec_exec cmd x = Some r\<close> r s(1) by auto blast
    qed
  qed
qed auto

definition spec_start :: "string \<Rightarrow> scan_spec" where
  "spec_start inp = \<lparr>started = False, std_input = inp, cur = None, below = []\<rparr>"

lemma static_sound: "sound (scanner_static tty inp) None [] (spec_start inp)"
  by (simp add: sound_def scanner_static_def spec_start_def stk_def apart_def low_def)

text \<open>C11: Provided a client removes nothing from the stack before it takes the first token (no end of an included file, no
  deletion), whatever calls it makes, the tokens it gets are those of a stack of strings: an included file is read to where it is
  left, then the file below it goes on where it was; a string is read like a file; and the scanner gets no token exactly when
  it has no current buffer. Buffers are refilled, grown and shared with nothing meanwhile. The condition is needed: after a
  file was included and left again before the first token, \<open>yyin\<close> still is that file, and the first token comes
  from what is left of it.\<close>

theorem scanner_sessions_refine:
  assumes "\<not> list_ex removes (takeWhile ((\<noteq>) Token) cmds)"
  shows "map_option fst (scan_session mem cmds (scanner_static tty inp)) = map_option fst (spec_session cmds (spec_start inp))"
  using session_sim [OF static_sound, of inp cmds mem tty] assms by (auto split: option.splits prod.splits)

theorem scanner_sessions_refine_witness:
  "map_option fst (scan_session (\<lambda>_. NUL) [Token, Include True ''7'', Token, End_include, Token] (scanner_static False ''1=2'')) =
     Some [Some (NUMBER, Some (Num 1), []), None, Some (NUMBER, Some (Num 7), []), None, Some (EQ, None, [])]"
  by (subst scanner_sessions_refine, simp, code_simp)

text \<open>
  The comment of \<open>yylex_destroy\<close> says that it pops the stack and destroys each element. It destroys the current buffer only: with
  its slot cleared, \<open>yypop_buffer_state\<close> finds no current buffer and does not move the top of the stack.
\<close>

text \<open>The end of the scanner deletes exactly the current buffer: for every string below it on the stack a buffer is still allocated
  afterwards, and no longer reachable, as the stack is gone.\<close>

theorem yylex_destroy_frees_top:
  assumes "\<not> list_ex removes (takeWhile ((\<noteq>) Token) cmds)" "spec_session cmds (spec_start inp) = Some (ys, x)" "cur x \<noteq> None"
  shows "\<exists>st a st' as. scan_session mem cmds (scanner_static tty inp) = Some (ys, st) \<and> YY_CURRENT_BUFFER st = Some a \<and>
    yylex_destroy st = Some st' \<and> buffers st' = (buffers st)(a := None) \<and> yy_buffer_stack st' = None \<and>
    distinct as \<and> length as = length (below x) \<and> (\<forall>d\<in>set as. buffers st' d \<noteq> None)"
proof -
  obtain st c as where s: "scan_session mem cmds (scanner_static tty inp) = Some (ys, st)" "sound st c as x"
    using session_sim [OF static_sound, of inp cmds mem tty] assms(1,2) by auto
  then obtain a w where c: "c = Some a" and w: "stk st (Some a) as" "running st a w" "apart st (a # as)" "list_all2 (holds st) as (below x)"
    using assms(3) by (auto simp: sound_def split: option.splits)
  have cur: "YY_CURRENT_BUFFER st = Some a" and live: "buffers st a \<noteq> None" using stk_current [OF w(1)] w(2) by (auto simp: running_def)
  obtain s0 where s0: "yy_buffer_stack st = Some s0" using w(1) by (cases "yy_buffer_stack st") (auto simp: stk_def)
  obtain K s1 where d: "yy_delete_buffer (Some a) st = Some (st\<lparr>yy_buffer_stack := Some s1, blocks := K, buffers := (buffers st)(a := None)\<rparr>)"
    "stk (st\<lparr>yy_buffer_stack := Some s1, blocks := K, buffers := (buffers st)(a := None)\<rparr>) None as"
    using delete_current [OF w(1-3)] by blast
  define st1 where "st1 = st\<lparr>yy_buffer_stack := Some s1, blocks := K, buffers := (buffers st)(a := None)\<rparr>"
  obtain s2 where s2: "set_current None st1 = Some (st1\<lparr>yy_buffer_stack := Some s2\<rparr>)" "stk (st1\<lparr>yy_buffer_stack := Some s2\<rparr>) None as"
    using stk_set [OF d(2) [folded st1_def], of s1 None] by (auto simp: st1_def)
  have none: "YY_CURRENT_BUFFER (st1\<lparr>yy_buffer_stack := Some s2\<rparr>) = None" using stk_current [OF s2(2)] .
  obtain n where n: "length s0 = Suc n" using w(1) s0 by (cases s0) (auto simp: stk_def)
  have "destroy_loop (Suc (Suc n)) st = Some (st1\<lparr>yy_buffer_stack := Some s2\<rparr>)"
    using cur d(1) [folded st1_def] s2(1) none by (simp add: yypop_buffer_state_def)
  then have "yylex_destroy st = Some (yy_init_globals (st1\<lparr>yy_buffer_stack := Some s2\<rparr>))" using s0 n by (simp add: yylex_destroy_def)
  moreover have "buffers st e \<noteq> None \<and> e \<noteq> a" if "e \<in> set as" for e
    using w(3,4) that by (auto simp: apart_iff holds_def list_all2_conv_all_nth in_set_conv_nth)
  ultimately show ?thesis using s(1) cur w(3) list_all2_lengthD [OF w(4)]
    by (intro exI [of _ st] exI [of _ a] exI [of _ "yy_init_globals (st1\<lparr>yy_buffer_stack := Some s2\<rparr>)"] exI [of _ as])
      (auto simp: yy_init_globals_def st1_def apart_iff dest: apart_distinct)
qed

theorem yylex_destroy_frees_top_witness:
  "\<exists>st a st' d. scan_session (\<lambda>_. NUL) [Include False ''1'', Include False ''2''] (scanner_static False []) = Some ([None, None], st) \<and>
     yylex_destroy st = Some st' \<and> buffers st' = (buffers st)(a := None) \<and> buffers st' d \<noteq> None"
proof -
  have "spec_session [Include False ''1'', Include False ''2''] (spec_start []) =
      Some ([None, None], (spec_start [])\<lparr>cur := Some ''2'', below := [''1'']\<rparr>)" by (simp add: spec_start_def)
  from yylex_destroy_frees_top [OF _ this, of "\<lambda>_. NUL" False] obtain st a st' as where
    s: "scan_session (\<lambda>_. NUL) [Include False ''1'', Include False ''2''] (scanner_static False []) = Some ([None, None], st)"
      "yylex_destroy st = Some st'" "buffers st' = (buffers st)(a := None)" "length as = 1" "\<forall>d\<in>set as. buffers st' d \<noteq> None"
    by auto
  then obtain d where "buffers st' d \<noteq> None" by (cases as) auto
  then show ?thesis using s(1-3) by (intro exI conjI)
qed

end
