(* ===== verification/Flex_Input.thy ===== *)
theory Flex_Input
  imports Flex_Stack_Props
begin

text \<open>
  Reading and putting back single characters, \<open>input\<close> and \<open>yyunput\<close> of \<^verbatim>\<open>src/sql-lexer-analysis/lex.yy.c\<close>, over the buffer of
  \<^verbatim>\<open>Flex_Buffer\<close>. \<open>after s r\<close> says that \<open>r\<close> is left of the input.
\<close>

section \<open>Putting a character back\<close>

text \<open>The loop that moves the characters of the buffer to its end.\<close>

fun move_up :: "nat \<Rightarrow> nat \<Rightarrow> char list \<Rightarrow> char list" where
  "move_up 0 dest buf = buf"
| "move_up (Suc source) dest buf = move_up source (dest - 1) (buf[dest - 1 := buf ! source])"

definition make_room :: "flex \<Rightarrow> flex option" where
  "make_room s =
     (if yy_c_buf_p s < 2 then
        (let number_to_move = yy_n_chars s + 2;
             shift = b_size s + 2 - number_to_move;
             s = s\<lparr>yy_ch_buf := move_up number_to_move (b_size s + 2) (yy_ch_buf s), yy_c_buf_p := yy_c_buf_p s + shift,
               yytext_ptr := yytext_ptr s + shift, b_n_chars := b_size s, yy_n_chars := b_size s\<rparr> in
         if yy_c_buf_p s < 2 then None else Some s)
      else Some s)"

definition yyunput :: "char \<Rightarrow> flex \<Rightarrow> flex option" where
  "yyunput c s = do {
     s \<leftarrow> store (yy_c_buf_p s) (yy_hold_char s) s;
     s \<leftarrow> make_room s;
     let cp = yy_c_buf_p s - 1;
     s \<leftarrow> store cp c s;
     Some (s\<lparr>yy_hold_char := c, yy_c_buf_p := cp\<rparr>) }"

lemma move_up_length [simp]: "length (move_up n d buf) = length buf"
  by (induction n d buf rule: move_up.induct) simp_all

lemma move_up_nth:
  assumes "n \<le> d" "d \<le> length buf" "i < length buf"
  shows "move_up n d buf ! i = (if d - n \<le> i \<and> i < d then buf ! (i - (d - n)) else buf ! i)"
  using assms
proof (induction n d buf arbitrary: i rule: move_up.induct)
  case (2 source dest buf)
  then have "move_up (Suc source) dest buf ! i =
      (if dest - 1 - source \<le> i \<and> i < dest - 1 then (buf[dest - 1 := buf ! source]) ! (i - (dest - 1 - source)) else (buf[dest - 1 := buf ! source]) ! i)"
    by auto
  then show ?case using "2.prems" by (auto simp: nth_list_update)
qed auto

lemma make_room_window:
  assumes "window p s r" "p = yy_c_buf_p s"
  shows "case make_room s of None \<Rightarrow> p + (b_size s - yy_n_chars s) < 2
    | Some s' \<Rightarrow> 2 \<le> yy_c_buf_p s' \<and> window (yy_c_buf_p s') s' r \<and> yy_c_buf_p s' \<le> yy_n_chars s'"
proof (cases "p < 2")
  case False
  then show ?thesis using assms by (simp add: make_room_def window_def)
next
  case True
  let ?d = "b_size s - yy_n_chars s" and ?n = "yy_n_chars s"
  let ?buf = "move_up (?n + 2) (b_size s + 2) (yy_ch_buf s)"
  have g: "?n \<le> b_size s" "length (yy_ch_buf s) = b_size s + 2" "p \<le> ?n" using assms(1) by (auto simp: window_def ended_def good_def)
  have nth: "?buf ! (i + ?d) = yy_ch_buf s ! i" if "i < ?n + 2" for i
    using move_up_nth [of "?n + 2" "b_size s + 2" "yy_ch_buf s" "i + ?d"] g that by simp
  have "drop (p + ?d) (take (b_size s) ?buf) = drop p (take ?n (yy_ch_buf s))"
  proof (rule nth_equalityI)
    fix i assume "i < length (drop (p + ?d) (take (b_size s) ?buf))"
    then show "drop (p + ?d) (take (b_size s) ?buf) ! i = drop p (take ?n (yy_ch_buf s)) ! i"
      using g nth [of "p + i"] by (simp add: ac_simps)
  qed (use g in auto)
  moreover have "?buf ! b_size s = NUL" "?buf ! (b_size s + 1) = NUL"
    using nth [of ?n] nth [of "?n + 1"] g assms(1) by (auto simp: window_def ended_def)
  ultimately have "window (p + ?d) (s\<lparr>yy_ch_buf := ?buf, yy_c_buf_p := p + ?d, yytext_ptr := yytext_ptr s + ?d, b_n_chars := b_size s,
      yy_n_chars := b_size s\<rparr>) r"
    using assms(1) g by (auto simp: window_def ended_def good_def split: if_splits)
  then show ?thesis using True assms(2) g(1,3) by (auto simp: make_room_def Let_def simp del: move_up.simps)
qed

text \<open>A character can be put back unless nothing has been read before it and the buffer is full; then it is the next one.\<close>

lemma unput_after:
  assumes "after s r"
  shows "case yyunput c s of None \<Rightarrow> yy_c_buf_p s + (b_size s - yy_n_chars s) < 2
    | Some s' \<Rightarrow> after s' (c # r) \<and> yy_c_buf_p s' < yy_n_chars s'"
proof -
  define s1 where "s1 = s\<lparr>yy_ch_buf := (yy_ch_buf s)[yy_c_buf_p s := yy_hold_char s]\<rparr>"
  have w: "window (yy_c_buf_p s) s1 r" using assms by (simp add: after_def s1_def)
  then have "yy_c_buf_p s < length (yy_ch_buf s)" by (auto simp: s1_def window_def ended_def good_def)
  then have s1: "store (yy_c_buf_p s) (yy_hold_char s) s = Some s1" by (simp add: store_def s1_def)
  have "yy_c_buf_p s = yy_c_buf_p s1" "b_size s1 = b_size s" "yy_n_chars s1 = yy_n_chars s" by (simp_all add: s1_def)
  note room = make_room_window [OF w this(1)] this(2,3)
  show ?thesis
  proof (cases "make_room s1")
    case None
    then show ?thesis using room s1 by (simp add: yyunput_def)
  next
    case (Some s2)
    let ?cp = "yy_c_buf_p s2 - 1"
    have s2: "2 \<le> yy_c_buf_p s2" "window (yy_c_buf_p s2) s2 r" "yy_c_buf_p s2 \<le> yy_n_chars s2" using room Some by simp_all
    let ?s = "s2\<lparr>yy_ch_buf := (yy_ch_buf s2)[?cp := c], yy_hold_char := c, yy_c_buf_p := ?cp\<rparr>"
    have g: "length (yy_ch_buf s2) = b_size s2 + 2" "yy_n_chars s2 \<le> b_size s2" using s2(2) by (auto simp: window_def ended_def good_def)
    have "yyunput c s = Some ?s" using s1 Some g s2(1,3) by (simp add: yyunput_def store_def Let_def)
    moreover have "drop ?cp (take (yy_n_chars s2) ((yy_ch_buf s2)[?cp := c])) = c # drop (yy_c_buf_p s2) (take (yy_n_chars s2) (yy_ch_buf s2))"
      using s2(1,3) g Cons_nth_drop_Suc [of ?cp "take (yy_n_chars s2) ((yy_ch_buf s2)[?cp := c])"]
      by (simp add: take_update_swap drop_update_cancel)
    then have "after ?s (c # r)" using s2 g by (auto simp: after_def window_def ended_def good_def)
    ultimately show ?thesis using s2(1,3) by simp
  qed
qed

lemma unput_room: "yyunput c s = Some s' \<Longrightarrow> \<not> (yy_c_buf_p s + (b_size s - yy_n_chars s) < 2 \<and> yy_c_buf_p s < 2)"
  by (auto simp: yyunput_def make_room_def store_def Let_def bind_eq_Some_conv split: if_splits)

section \<open>Reading a character\<close>

definition take_char :: "flex \<Rightarrow> (char option \<times> flex) option" where
  "take_char s = do {
     let c = yy_ch_buf s ! yy_c_buf_p s;
     s \<leftarrow> store (yy_c_buf_p s) NUL s;
     if yy_c_buf_p s + 1 < length (yy_ch_buf s)
     then Some (Some c, s\<lparr>yy_c_buf_p := yy_c_buf_p s + 1, yy_hold_char := yy_ch_buf s ! (yy_c_buf_p s + 1)\<rparr>) else None }"

text \<open>\<open>None\<close> stands for \<open>EOF\<close>; \<open>yywrap\<close> answers 1.\<close>

definition input :: "(nat \<Rightarrow> char) \<Rightarrow> flex \<Rightarrow> (char option \<times> flex) option" where
  "input mem s = do {
     s \<leftarrow> store (yy_c_buf_p s) (yy_hold_char s) s;
     if yy_ch_buf s ! yy_c_buf_p s \<noteq> NUL \<or> yy_c_buf_p s < yy_n_chars s then take_char s
     else do {
       let offset = yy_c_buf_p s - yytext_ptr s;
       (ret, s) \<leftarrow> yy_get_next_buffer mem (s\<lparr>yy_c_buf_p := yy_c_buf_p s + 1\<rparr>);
       (case ret of
          EOB_ACT_LAST_MATCH \<Rightarrow> map_option (Pair None) (yyrestart s)
        | EOB_ACT_END_OF_FILE \<Rightarrow> Some (None, s)
        | EOB_ACT_CONTINUE_SCAN \<Rightarrow> take_char (s\<lparr>yy_c_buf_p := yytext_ptr s + offset\<rparr>)) } }"

lemma take_char_after:
  assumes "window (yy_c_buf_p s) s (c # r)" "yy_c_buf_p s < yy_n_chars s"
  shows "\<exists>s'. take_char s = Some (Some c, s') \<and> after s' r"
proof -
  let ?p = "yy_c_buf_p s"
  let ?s = "s\<lparr>yy_ch_buf := (yy_ch_buf s)[?p := NUL], yy_c_buf_p := ?p + 1, yy_hold_char := yy_ch_buf s ! (?p + 1)\<rparr>"
  have g: "length (yy_ch_buf s) = b_size s + 2" "yy_n_chars s \<le> b_size s" using assms(1) by (auto simp: window_def ended_def good_def)
  have "drop ?p (take (yy_n_chars s) (yy_ch_buf s)) = yy_ch_buf s ! ?p # drop (?p + 1) (take (yy_n_chars s) (yy_ch_buf s))"
    using assms(2) g Cons_nth_drop_Suc [of ?p "take (yy_n_chars s) (yy_ch_buf s)"] by simp
  then have c: "yy_ch_buf s ! ?p = c" "r = drop (?p + 1) (take (yy_n_chars s) (yy_ch_buf s)) @ input_rest s"
    using assms(1) by (auto simp: window_def)
  have "take_char s = Some (Some c, ?s)" using assms(2) g c(1) by (simp add: take_char_def store_def Let_def)
  moreover have "(yy_ch_buf s)[?p := NUL, ?p + 1 := yy_ch_buf s ! (?p + 1)] = (yy_ch_buf s)[?p := NUL]"
    using list_update_swap [of ?p "?p + 1" "yy_ch_buf s" NUL] by simp
  then have "after ?s r" using assms c(2) g
    by (auto simp: after_def window_def ended_def good_def nth_list_update take_update_swap drop_update_cancel)
  ultimately show ?thesis by blast
qed

lemma input_here:
  assumes "after s r" "yy_c_buf_p s < yy_n_chars s"
  shows "\<exists>c r' s'. r = c # r' \<and> input mem s = Some (Some c, s') \<and> after s' r'"
proof -
  define s1 where "s1 = s\<lparr>yy_ch_buf := (yy_ch_buf s)[yy_c_buf_p s := yy_hold_char s]\<rparr>"
  have w: "window (yy_c_buf_p s1) s1 r" "yy_c_buf_p s1 < yy_n_chars s1" using assms by (simp_all add: after_def s1_def)
  then have "r \<noteq> []" by (auto simp: window_def ended_def good_def)
  then obtain c r' where c: "r = c # r'" by (cases r) auto
  have "store (yy_c_buf_p s) (yy_hold_char s) s = Some s1" using w by (auto simp: store_def s1_def window_def ended_def good_def)
  then have "input mem s = take_char s1" using w(2) by (simp add: input_def)
  then show ?thesis using take_char_after [of s1 c r'] w c by auto
qed

lemma next_buffer_eof:
  assumes "yy_get_next_buffer mem s = Some (EOB_ACT_END_OF_FILE, s')" "b_fill s"
  shows "yy_c_buf_p s' = 0 \<and> yytext_ptr s' = 0"
proof -
  obtain s1 s2 m where r: "yyrestart s1 = Some s2" and e: "yy_end_buffer mem m s2 = Some s'"
    using assms by (auto simp: yy_get_next_buffer_def Let_def bind_eq_Some_conv split: if_split_asm)
  from r have "yy_c_buf_p s2 = 0"
    by (auto simp: yyrestart_def yy_init_buffer_def yy_flush_buffer_def yy_load_buffer_state_def store_def Let_def bind_eq_Some_conv split: if_splits)
  then show ?thesis using e by (auto simp: yy_end_buffer_def store_def Let_def bind_eq_Some_conv split: if_splits)
qed

text \<open>At the end of the buffer, inside an action: the next character of the file, or the end of the file.\<close>

lemma input_at_end:
  assumes "after s r" "yy_c_buf_p s = yy_n_chars s" "b_fill s" "b_status s \<noteq> YY_BUFFER_NEW" "yytext_ptr s \<le> yy_c_buf_p s"
  shows "case r of [] \<Rightarrow> \<exists>s'. input mem s = Some (None, s') \<and> after s' [] | c # r' \<Rightarrow> \<exists>s'. input mem s = Some (Some c, s') \<and> after s' r'"
proof -
  define s1 where "s1 = s\<lparr>yy_ch_buf := (yy_ch_buf s)[yy_c_buf_p s := yy_hold_char s]\<rparr>"
  define s2 where "s2 = s1\<lparr>yy_c_buf_p := yy_c_buf_p s + 1\<rparr>"
  have w: "window (yy_n_chars s1) s1 r" using assms(1,2) by (simp add: after_def s1_def)
  have n: "yy_n_chars s1 = yy_n_chars s" "yy_n_chars s < length (yy_ch_buf s)" "yy_ch_buf s1 ! yy_n_chars s = NUL" "r = input_rest s1"
    using w by (auto simp: s1_def window_def ended_def good_def)
  then have hold: "yy_hold_char s = NUL" using assms(2) by (simp add: s1_def)
  define v where "v = drop (yytext_ptr s) (take (yy_n_chars s) (yy_ch_buf s1))"
  have v: "length v = yy_c_buf_p s - yytext_ptr s" using n(2) assms(2) by (simp add: v_def s1_def)
  have w2: "window (yytext_ptr s2) s2 (v @ r)" using w n assms(2,5) by (auto simp: window_def ended_def good_def s2_def s1_def v_def)
  have p: "yy_c_buf_p s2 = yy_n_chars s2 + 1" "b_status s2 \<noteq> YY_BUFFER_NEW" "yy_hold_char s2 = NUL"
    using assms(2,4) hold by (simp_all add: s2_def s1_def)
  obtain ret s3 where g: "yy_get_next_buffer mem s2 = Some (ret, s3)" and ret:
    "if input_rest s2 \<noteq> [] then ret = EOB_ACT_CONTINUE_SCAN \<and> window (yytext_ptr s3) s3 (v @ r) \<and> length (input_rest s3) < length (input_rest s2)
     else if v @ r \<noteq> [] then ret = EOB_ACT_LAST_MATCH \<and> window (yytext_ptr s3) s3 (v @ r) \<and> yy_n_chars s3 = yytext_ptr s3 + length (v @ r)
     else ret = EOB_ACT_END_OF_FILE \<and> window (yytext_ptr s3) s3 [] \<and> yy_hold_char s3 = NUL"
    using next_buffer [OF w2 p, of mem] by blast
  have i: "input mem s = (case ret of EOB_ACT_LAST_MATCH \<Rightarrow> map_option (Pair None) (yyrestart s3) | EOB_ACT_END_OF_FILE \<Rightarrow> Some (None, s3)
      | EOB_ACT_CONTINUE_SCAN \<Rightarrow> take_char (s3\<lparr>yy_c_buf_p := yytext_ptr s3 + length v\<rparr>))"
  proof -
    have "store (yy_c_buf_p s) (yy_hold_char s) s = Some s1" using n(2) assms(2) by (simp add: store_def s1_def)
    moreover have "yy_c_buf_p s1 = yy_n_chars s1" "yytext_ptr s1 = yytext_ptr s" "s1\<lparr>yy_c_buf_p := yy_c_buf_p s1 + 1\<rparr> = s2"
      using assms(2) by (simp_all add: s1_def s2_def)
    ultimately show ?thesis using n(1,3) g v assms(2) by (simp add: input_def split: eob_act.split)
  qed
  have rest: "input_rest s2 = r" using n(4) by (simp add: s2_def)
  consider (more) c r' where "r = c # r'" | (last) "r = []" "v \<noteq> []" | (eof) "r = []" "v = []" by (cases r) auto
  then show ?thesis
  proof cases
    case more
    let ?s = "s3\<lparr>yy_c_buf_p := yytext_ptr s3 + length v\<rparr>"
    have m: "ret = EOB_ACT_CONTINUE_SCAN" "window (yytext_ptr s3) s3 (v @ r)" "length (input_rest s3) < length r" using ret more rest by auto
    have "length (v @ r) = yy_n_chars s3 - yytext_ptr s3 + length (input_rest s3)" "yytext_ptr s3 \<le> yy_n_chars s3"
      using m(2) by (auto simp: window_def ended_def good_def)
    then have k: "yytext_ptr s3 + length v < yy_n_chars s3" using m(3) by simp
    then have "window (yy_c_buf_p ?s) ?s r" using window_split(2) [OF m(2)] window_cong [of ?s s3] by simp
    then show ?thesis using take_char_after [of ?s c r'] more k i m(1) by simp
  next
    case last
    then have m: "ret = EOB_ACT_LAST_MATCH" "window (yytext_ptr s3) s3 v" and "yy_n_chars s3 = yytext_ptr s3 + length v" using ret rest by simp_all
    moreover have "length v = yy_n_chars s3 - yytext_ptr s3 + length (input_rest s3)" using m(2) by (simp add: window_iff)
    ultimately have "length (input_rest s3) = 0" by linarith
    then have m: "ret = EOB_ACT_LAST_MATCH" "window (yytext_ptr s3) s3 v" "input_rest s3 = []" using m by simp_all
    have "b_fill s3" using next_buffer_kept [OF g] assms(3) by (simp add: kept_def s2_def s1_def)
    moreover obtain s4 where s4: "yyrestart s3 = Some s4" "yy_ch_buf s4 = (yy_ch_buf s3)[0 := NUL, 1 := NUL]" "b_size s4 = b_size s3" "b_n_chars s4 = 0"
      "yy_n_chars s4 = 0" "b_fill s4" "b_is_our_buffer s4 = b_is_our_buffer s3" "yy_in s4 = yy_in s3" "yy_init s4 = yy_init s3" "b_status s4 = YY_BUFFER_NEW"
      "input_rest s4 = input_rest s3" "yy_c_buf_p s4 = 0" "yy_hold_char s4 = NUL"
      using yyrestart_start [of s3] m(2) by (auto simp: window_iff)
    ultimately have "after s4 []" using m(2,3) by (auto simp: after_def window_iff)
    then show ?thesis using last(1) m(1) i s4(1) by simp
  next
    case eof
    then have m: "ret = EOB_ACT_END_OF_FILE" "window (yytext_ptr s3) s3 []" "yy_hold_char s3 = NUL" using ret rest by auto
    then have "yy_c_buf_p s3 = 0 \<and> yytext_ptr s3 = 0" using next_buffer_eof [of mem s2 s3] g assms(3) by (simp add: s2_def s1_def)
    then have "after s3 []" using m(2,3) by (auto simp: after_def window_def ended_def good_def)
    then show ?thesis using eof m(1) i by simp
  qed
qed

text \<open>C38: In an action over a file, \<open>input\<close> gives the next character of what is left, refilling the buffer when it must, and \<open>EOF\<close> at the
  end of the file; the text of the token may stand before it.\<close>

theorem input_next:
  assumes "after s r" "b_fill s" "b_status s \<noteq> YY_BUFFER_NEW" "yytext_ptr s \<le> yy_c_buf_p s"
  shows "\<exists>s'. input mem s = Some (case r of [] \<Rightarrow> None | c # _ \<Rightarrow> Some c, s') \<and> after s' (tl r)"
proof (cases "yy_c_buf_p s < yy_n_chars s")
  case True
  then show ?thesis using input_here [OF assms(1) True, of mem] by auto
next
  case False
  then have "yy_c_buf_p s = yy_n_chars s" using assms(1) by (auto simp: after_def window_def)
  then show ?thesis using input_at_end [OF assms(1) _ assms(2-4), of mem] by (auto split: list.splits)
qed

text \<open>A character that is put back is the next one \<open>input\<close> gives, with the same rest after it; it can be put back whenever the buffer
  has room before the position or after its end, and otherwise the scanner stops with the error of an overflow.\<close>

theorem unput_input:
  assumes "after s r"
  shows "if yy_c_buf_p s + (b_size s - yy_n_chars s) < 2 \<and> yy_c_buf_p s < 2 then yyunput c s = None
    else \<exists>s' s''. yyunput c s = Some s' \<and> input mem s' = Some (Some c, s'') \<and> after s'' r"
proof -
  note u = unput_after [OF assms, of c]
  show ?thesis
  proof (cases "yyunput c s")
    case None
    then show ?thesis using u by simp
  next
    case (Some s')
    then have "after s' (c # r)" "yy_c_buf_p s' < yy_n_chars s'" using u by simp_all
    then show ?thesis using input_here [of s' "c # r" mem] unput_room [OF Some] Some by auto
  qed
qed

text \<open>
  Over a string there is nothing to refill, and the position stays behind the first NUL: a second \<open>input\<close> at the end stops the
  program with ``end of buffer missed''.
\<close>

theorem input_string_end_twice:
  assumes "after s []" "\<not> b_fill s" "yytext_ptr s = yy_c_buf_p s"
  shows "\<exists>s'. input mem s = Some (None, s') \<and> input mem s' = None"
proof -
  define s1 where "s1 = s\<lparr>yy_ch_buf := (yy_ch_buf s)[yy_c_buf_p s := yy_hold_char s]\<rparr>"
  define s2 where "s2 = s1\<lparr>yy_c_buf_p := yy_c_buf_p s + 1\<rparr>"
  have w: "yy_c_buf_p s = yy_n_chars s" "yy_ch_buf s1 ! yy_n_chars s = NUL" "yy_ch_buf s1 ! (yy_n_chars s + 1) = NUL"
    "yy_n_chars s + 1 < length (yy_ch_buf s)" "yy_hold_char s = NUL"
    using assms(1) by (auto simp: after_def window_iff s1_def)
  have "store (yy_c_buf_p s) (yy_hold_char s) s = Some s1" using w(1,4) by (simp add: store_def s1_def)
  moreover have "yy_get_next_buffer mem s2 = Some (EOB_ACT_END_OF_FILE, s2)"
    using assms(2,3) w(1) by (simp add: yy_get_next_buffer_def s2_def s1_def)
  ultimately have 1: "input mem s = Some (None, s2)" using w(1,2) assms(3) by (simp add: input_def s2_def) (simp add: s1_def)
  have "yy_c_buf_p s2 = yy_n_chars s + 1" "yy_hold_char s2 = NUL" "yy_ch_buf s2 ! (yy_n_chars s + 1) = NUL" "yy_n_chars s + 1 < length (yy_ch_buf s2)"
    using w by (simp_all add: s2_def s1_def)
  then have "store (yy_c_buf_p s2) (yy_hold_char s2) s2 = Some s2"
    using list_update_id [of "yy_ch_buf s2" "yy_n_chars s + 1"] by (simp add: store_def)
  moreover have "yy_get_next_buffer mem (s2\<lparr>yy_c_buf_p := yy_c_buf_p s2 + 1\<rparr>) = None"
    using w(1) by (simp add: yy_get_next_buffer_def s2_def s1_def)
  ultimately have "input mem s2 = None" using w(1,3) by (simp add: input_def s2_def) (simp add: s1_def)
  then show ?thesis using 1 by blast
qed

text \<open>A buffer over an empty string that is given a file by \<open>yyrestart\<close> cannot be read into: the loop that makes room doubles 0 for ever.\<close>

lemma yy_grow_zero: "yy_grow True m 0 = None"
proof -
  have "yy_grow ours m n = Some y \<Longrightarrow> n \<noteq> 0" for ours n y
  proof (induction ours m n y rule: yy_grow.raw_induct [rotated, consumes 1])
    case (1 grow ours m n y)
    show ?case
    proof (cases "m + 1 < n")
      case False
      then have "(if signed_take_bit 31 (int (n * 2)) \<le> 0 then n + n div 8 else n * 2) \<noteq> 0"
        using "1.hyps" by (intro "1.IH" [of ours m _ y]) (auto split: if_split_asm)
      then show ?thesis by (auto split: if_splits)
    qed simp
  qed
  then show ?thesis by (metis not_None_eq)
qed

theorem restart_empty_string_hangs:
  "b_size s = 0 \<Longrightarrow> b_is_our_buffer s \<Longrightarrow> b_status s \<noteq> YY_BUFFER_EOF_PENDING \<Longrightarrow> yy_refill mem m s = None"
  by (simp add: yy_refill_def yy_grow_zero)

text \<open>A scanner in a file: the buffer holds \<open>t\<close>, read up to \<open>p\<close>, and \<open>rest\<close> is still in the file.\<close>

definition mid_file :: "string \<Rightarrow> nat \<Rightarrow> string \<Rightarrow> flex" where
  "mid_file t p rest =
     \<lparr>b_input_file = Some 0, yy_ch_buf = (t @ [NUL, NUL])[p := NUL], b_pos = 0, b_size = length t, b_n_chars = length t, b_is_our_buffer = True,
      b_interactive = False, b_fill = True, b_status = YY_BUFFER_NORMAL, yy_init = True, yy_hold_char = (t @ [NUL]) ! p, yy_n_chars = length t,
      yy_c_buf_p = p, yytext_ptr = 0, yy_in = Some 0, yy_last_accepting_state = 0, yy_last_accepting_cpos = 0, yy_cp = 0, yy_bp = 0,
      yy_current_state = 0, input_rest = rest, input_tty = False\<rparr>"

lemma mid_file_after: "p \<le> length t \<Longrightarrow> t \<noteq> [] \<Longrightarrow> after (mid_file t p rest) (drop p t @ rest)"
  by (auto simp: after_def window_iff mid_file_def nth_append nth_list_update list_update_append split: if_splits)

theorem input_next_witness: "\<exists>s'. input (\<lambda>_. NUL) (mid_file ''ab'' 2 ''cd'') = Some (Some CHR ''c'', s') \<and> after s' ''d''"
  using input_next [OF mid_file_after [of 2 "''ab''" "''cd''"], of "\<lambda>_. NUL"] by (simp add: mid_file_def)

theorem unput_input_witness:
  "\<exists>s' s''. yyunput CHR ''x'' (mid_file ''abc'' 2 []) = Some s' \<and> input (\<lambda>_. NUL) s' = Some (Some CHR ''x'', s'') \<and> after s'' ''c''"
  using unput_input [OF mid_file_after [of 2 "''abc''" "[]"], of "CHR ''x''" "\<lambda>_. NUL"] by (simp add: mid_file_def)

end
