(* ===== verification/Small_Programs.thy ===== *)
theory Small_Programs
  imports Thread_Runs Complex_Main
begin

text \<open>
  Three short programs: \<^verbatim>\<open>src/threads-id.c\<close>, whose threads print the number that \<open>main\<close> hands them through an array,
  \<^verbatim>\<open>src/scheduler.c\<close>, which prints a line at every signal of a timer, and \<^verbatim>\<open>src/ebpf/ebpf11.c\<close>, which opens and closes a file.
\<close>

section \<open>Threads with a number\<close>

definition numberofthreads :: nat where "numberofthreads = 3"

datatype tid_line = Iteration int nat | Thread_finished int | All_completed

text \<open>A thread that has not been created, has not read its number yet, is before iteration \<open>i\<close>, or has ended.\<close>

datatype tid_pc = Not_created | Created | Looping int nat | Exited

text \<open>\<open>main\<close> creates, joins, has ended, or has left after a failed \<open>pthread_create\<close>, which ends the threads, too.\<close>

datatype tid_main = Creating nat | Joining nat | Completed | Create_failed

record tid =
  thread_id :: "int list"
  tid_pcs :: "tid_pc list"
  tid_main :: tid_main
  tid_lines :: "tid_line list"

text \<open>One step of thread \<open>k\<close>, \<open>function\<close>; the array is read once, at its start.\<close>

definition tid_function :: "nat \<Rightarrow> tid \<Rightarrow> tid option" where
  "tid_function k s =
     (case tid_pcs s ! k of
        Created \<Rightarrow> Some (s\<lparr>tid_pcs := (tid_pcs s)[k := Looping (thread_id s ! k) 1]\<rparr>)
      | Looping d i \<Rightarrow>
          Some (if i \<le> 5 then s\<lparr>tid_pcs := (tid_pcs s)[k := Looping d (i + 1)], tid_lines := tid_lines s @ [Iteration d i]\<rparr>
            else s\<lparr>tid_pcs := (tid_pcs s)[k := Exited], tid_lines := tid_lines s @ [Thread_finished d]\<rparr>)
      | _ \<Rightarrow> None)"

text \<open>A step of \<open>main\<close>; \<open>ok\<close> says which calls of \<open>pthread_create\<close> succeed.\<close>

definition tid_main_step :: "(nat \<Rightarrow> bool) \<Rightarrow> tid \<Rightarrow> tid option" where
  "tid_main_step ok s =
     (case tid_main s of
        Creating i \<Rightarrow>
          Some (if numberofthreads \<le> i then s\<lparr>tid_main := Joining 0\<rparr>
            else
              let s = s\<lparr>thread_id := (thread_id s)[i := int i + 1]\<rparr> in
              if ok i then s\<lparr>tid_pcs := (tid_pcs s)[i := Created], tid_main := Creating (i + 1)\<rparr>
              else s\<lparr>tid_main := Create_failed\<rparr>)
      | Joining i \<Rightarrow>
          if numberofthreads \<le> i then Some (s\<lparr>tid_main := Completed, tid_lines := tid_lines s @ [All_completed]\<rparr>)
          else if tid_pcs s ! i = Exited then Some (s\<lparr>tid_main := Joining (i + 1)\<rparr>) else None
      | _ \<Rightarrow> None)"

definition tid_ended :: "tid \<Rightarrow> bool" where
  "tid_ended s \<longleftrightarrow> tid_main s = Completed \<or> tid_main s = Create_failed"

definition tid_step :: "(nat \<Rightarrow> bool) \<Rightarrow> tid \<Rightarrow> tid \<Rightarrow> bool" where
  "tid_step ok s s' \<longleftrightarrow> \<not> tid_ended s \<and> (tid_main_step ok s = Some s' \<or> (\<exists>k<numberofthreads. tid_function k s = Some s'))"

text \<open>The numbers are set by \<open>main\<close>: what the array holds at first is \<open>junk\<close>.\<close>

definition tid_start :: "int list \<Rightarrow> tid" where
  "tid_start junk = \<lparr>thread_id = junk, tid_pcs = replicate numberofthreads Not_created, tid_main = Creating 0, tid_lines = []\<rparr>"

section \<open>The periodic timer\<close>

text \<open>Seconds and nanoseconds; the difference is exact here, where the program rounds it to a double.\<close>

record timespec =
  tv_sec :: int
  tv_nsec :: int

definition elapsed :: "timespec \<Rightarrow> timespec \<Rightarrow> real" where
  "elapsed start now = real_of_int (tv_sec now - tv_sec start) + real_of_int (tv_nsec now - tv_nsec start) / 10 ^ 9"

datatype sched_line = Scheduler_started | Every_2_seconds | Timer_fired int real | Performing_task | Setitimer_failed

definition timer_handler :: "timespec \<Rightarrow> int \<Rightarrow> timespec \<Rightarrow> int \<times> sched_line list" where
  "timer_handler start_time cnt now = (cnt + 1, [Timer_fired (cnt + 1) (elapsed start_time now), Performing_task])"

fun sched_loop :: "timespec \<Rightarrow> int \<Rightarrow> timespec list \<Rightarrow> sched_line list" where
  "sched_loop start_time cnt [] = []"
| "sched_loop start_time cnt (now # alarms) =
     (let (cnt, ls) = timer_handler start_time cnt now in ls @ sched_loop start_time cnt alarms)"

text \<open>\<open>alarms\<close> are the times at which the handler has run so far.\<close>

definition sched_main :: "bool \<Rightarrow> timespec \<Rightarrow> timespec list \<Rightarrow> sched_line list" where
  "sched_main setitimer_ok start_time alarms =
     (if \<not> setitimer_ok then [Setitimer_failed]
      else [Scheduler_started, Every_2_seconds] @ sched_loop start_time 0 alarms)"

section \<open>Opening a file\<close>

text \<open>\<open>demo.txt\<close> as its contents, and the number of open descriptors; the status is 1 when \<open>open\<close> fails.\<close>

definition demo_open :: "bool \<Rightarrow> string option \<times> nat \<Rightarrow> (string option \<times> nat) option" where
  "demo_open ok s = (if ok then Some (Some (case fst s of None \<Rightarrow> [] | Some c \<Rightarrow> c), snd s + 1) else None)"

fun ebpf_loop :: "bool list \<Rightarrow> string option \<times> nat \<Rightarrow> int \<times> string option \<times> nat" where
  "ebpf_loop [] s = (0, s)"
| "ebpf_loop (ok # oks) s =
     (case demo_open ok s of None \<Rightarrow> (1, s) | Some (f, n) \<Rightarrow> ebpf_loop oks (f, n - 1))"

definition ebpf_main :: "(nat \<Rightarrow> bool) \<Rightarrow> string option \<Rightarrow> int \<times> string option \<times> nat" where
  "ebpf_main ok f = ebpf_loop (map ok [0..<5]) (f, 0)"

section \<open>What the threads print\<close>

primrec printed_by :: "int \<Rightarrow> tid_line \<Rightarrow> bool" where
  "printed_by d (Iteration e i) = (d = e)"
| "printed_by d (Thread_finished e) = (d = e)"
| "printed_by d All_completed = False"

definition thread_lines :: "int \<Rightarrow> tid_line list" where
  "thread_lines d = map (Iteration d) [1..<6] @ [Thread_finished d]"

definition pc_lines :: "int \<Rightarrow> tid_pc \<Rightarrow> tid_line list" where
  "pc_lines d p = (case p of Looping e i \<Rightarrow> map (Iteration d) [1..<i] | Exited \<Rightarrow> thread_lines d | _ \<Rightarrow> [])"

definition created :: "tid \<Rightarrow> nat" where
  "created s = (case tid_main s of Creating i \<Rightarrow> i | _ \<Rightarrow> numberofthreads)"

definition main_ok :: "tid \<Rightarrow> bool" where
  "main_ok s \<longleftrightarrow>
     (case tid_main s of
        Creating i \<Rightarrow> i \<le> numberofthreads \<and> All_completed \<notin> set (tid_lines s)
      | Joining i \<Rightarrow> i \<le> numberofthreads \<and> (\<forall>k<i. tid_pcs s ! k = Exited) \<and> All_completed \<notin> set (tid_lines s)
      | Completed \<Rightarrow> (\<forall>k<numberofthreads. tid_pcs s ! k = Exited) \<and> (\<exists>ls. tid_lines s = ls @ [All_completed] \<and> All_completed \<notin> set ls)
      | Create_failed \<Rightarrow> All_completed \<notin> set (tid_lines s))"

definition pc_ok :: "int \<Rightarrow> tid_pc \<Rightarrow> bool" where
  "pc_ok d p = (case p of Looping e i \<Rightarrow> e = d \<and> 1 \<le> i \<and> i \<le> 6 | _ \<Rightarrow> True)"

definition tid_inv :: "tid \<Rightarrow> bool" where
  "tid_inv s \<longleftrightarrow> length (tid_pcs s) = numberofthreads \<and> length (thread_id s) = numberofthreads \<and> main_ok s \<and>
     (tid_main s \<noteq> Create_failed \<longrightarrow> (\<forall>k<numberofthreads. tid_pcs s ! k = Not_created \<longleftrightarrow> created s \<le> k)) \<and>
     (\<forall>k<numberofthreads. (tid_pcs s ! k \<noteq> Not_created \<longrightarrow> thread_id s ! k = int k + 1) \<and> pc_ok (int k + 1) (tid_pcs s ! k) \<and>
        filter (printed_by (int k + 1)) (tid_lines s) = pc_lines (int k + 1) (tid_pcs s ! k))"

definition pc_work :: "tid_pc \<Rightarrow> nat" where
  "pc_work p = (case p of Not_created \<Rightarrow> 9 | Created \<Rightarrow> 8 | Looping d i \<Rightarrow> 7 - i | Exited \<Rightarrow> 0)"

definition tid_work :: "tid \<Rightarrow> nat" where
  "tid_work s = sum_list (map pc_work (tid_pcs s)) +
     (case tid_main s of Creating i \<Rightarrow> 10 - i | Joining i \<Rightarrow> 5 - i | _ \<Rightarrow> 0)"

lemma tid_function_cases:
  assumes "tid_function k s = Some s'"
  obtains (enter) "tid_pcs s ! k = Created" "s' = s\<lparr>tid_pcs := (tid_pcs s)[k := Looping (thread_id s ! k) 1]\<rparr>"
  | (iteration) d i where "tid_pcs s ! k = Looping d i" "i \<le> 5"
      "s' = s\<lparr>tid_pcs := (tid_pcs s)[k := Looping d (i + 1)], tid_lines := tid_lines s @ [Iteration d i]\<rparr>"
  | (leave) d i where "tid_pcs s ! k = Looping d i" "5 < i" "s' = s\<lparr>tid_pcs := (tid_pcs s)[k := Exited], tid_lines := tid_lines s @ [Thread_finished d]\<rparr>"
  using assms by (auto simp: tid_function_def split: tid_pc.splits if_splits)

text \<open>A thread changes its own place only, and prints lines with its own number only.\<close>

lemma tid_thread_inv:
  assumes inv: "tid_inv s" and live: "\<not> tid_ended s" and k: "k < numberofthreads" and p: "tid_pcs s ! k \<notin> {Not_created, Exited}"
    and s': "s' = s\<lparr>tid_pcs := (tid_pcs s)[k := p'], tid_lines := tid_lines s @ ls\<rparr>" and p': "p' \<noteq> Not_created" "pc_ok (int k + 1) p'"
    and ls: "pc_lines (int k + 1) p' = pc_lines (int k + 1) (tid_pcs s ! k) @ ls" "\<forall>l\<in>set ls. printed_by (int k + 1) l"
  shows "tid_inv s'"
proof -
  have own: "filter (printed_by (int k + 1)) ls = ls" using ls(2) by (simp add: filter_id_conv)
  have other: "filter (printed_by (int j + 1)) ls = []" if "j \<noteq> k" for j
  proof -
    have "\<not> printed_by (int j + 1) l" if "printed_by (int k + 1) l" for l using that \<open>j \<noteq> k\<close> by (cases l) auto
    then show ?thesis using ls(2) by (auto simp: filter_empty_conv)
  qed
  have nth: "tid_pcs s' ! j = (if j = k then p' else tid_pcs s ! j)" if "j < numberofthreads" for j
    using that inv k by (simp add: s' tid_inv_def nth_list_update)
  have c: "All_completed \<notin> set ls" using ls(2) by auto
  have m: "tid_main s' = tid_main s" "created s' = created s" "thread_id s' = thread_id s" "tid_lines s' = tid_lines s @ ls" by (simp_all add: s' created_def)
  have "main_ok s'"
  proof (cases "tid_main s")
    case (Joining i)
    then have "tid_pcs s' ! j = Exited" if "j < i" for j using that inv p nth [of j] by (auto simp: tid_inv_def main_ok_def)
    then show ?thesis using Joining inv c m by (auto simp: tid_inv_def main_ok_def)
  qed (use inv live c m in \<open>auto simp: tid_inv_def main_ok_def tid_ended_def\<close>)
  moreover have "filter (printed_by (int j + 1)) (tid_lines s') = pc_lines (int j + 1) (tid_pcs s' ! j)" if "j < numberofthreads" for j
    using that inv own other [of j] ls(1) nth [OF that] m(4) by (cases "j = k") (auto simp: tid_inv_def)
  ultimately show ?thesis using inv p p' nth k m unfolding tid_inv_def by (auto simp: s')
qed

lemma tid_function_inv:
  assumes inv: "tid_inv s" and live: "\<not> tid_ended s" and k: "k < numberofthreads" and st: "tid_function k s = Some s'"
  shows "tid_inv s'"
proof -
  have p: "pc_ok (int k + 1) (tid_pcs s ! k)" "tid_pcs s ! k \<noteq> Not_created \<Longrightarrow> thread_id s ! k = int k + 1" using inv k by (auto simp: tid_inv_def)
  note T = tid_thread_inv [OF inv live k]
  from st show ?thesis
  proof (cases rule: tid_function_cases)
    case enter
    then show ?thesis using T [where s' = s' and p' = "Looping (thread_id s ! k) 1" and ls = "[]"] p by (simp add: pc_ok_def pc_lines_def)
  next
    case (iteration d i)
    then show ?thesis using T [where s' = s' and p' = "Looping d (i + 1)" and ls = "[Iteration d i]"] p by (auto simp: pc_ok_def pc_lines_def)
  next
    case (leave d i)
    then have "i = 6" using p by (simp add: pc_ok_def)
    then show ?thesis using T [where s' = s' and p' = Exited and ls = "[Thread_finished d]"] p leave by (auto simp: pc_ok_def pc_lines_def thread_lines_def)
  qed
qed

lemma tid_main_inv:
  assumes inv: "tid_inv s" and st: "tid_main_step ok s = Some s'"
  shows "tid_inv s'"
proof (cases "tid_main s")
  case (Creating i)
  consider "numberofthreads \<le> i" "s' = s\<lparr>tid_main := Joining 0\<rparr>"
    | "i < numberofthreads" "s' = s\<lparr>thread_id := (thread_id s)[i := int i + 1], tid_pcs := (tid_pcs s)[i := Created], tid_main := Creating (i + 1)\<rparr>"
    | "i < numberofthreads" "s' = s\<lparr>thread_id := (thread_id s)[i := int i + 1], tid_main := Create_failed\<rparr>"
    using st Creating by (auto simp: tid_main_step_def Let_def split: if_splits)
  then show ?thesis
  proof cases
    case 1
    then show ?thesis using inv Creating by (auto simp: tid_inv_def main_ok_def created_def)
  next
    case 2
    have "tid_pcs s ! i = Not_created" using inv Creating 2(1) by (auto simp: tid_inv_def created_def)
    then show ?thesis using inv Creating 2 by (auto simp: tid_inv_def main_ok_def created_def nth_list_update pc_ok_def pc_lines_def)
  next
    case 3
    then show ?thesis using inv Creating by (auto simp: tid_inv_def main_ok_def created_def nth_list_update)
  qed
next
  case (Joining i)
  then show ?thesis using assms
    by (auto simp: tid_main_step_def tid_inv_def main_ok_def created_def less_Suc_eq split: if_splits)
qed (use st in \<open>simp_all add: tid_main_step_def\<close>)

lemma tid_function_work:
  assumes inv: "tid_inv s" and k: "k < numberofthreads" and st: "tid_function k s = Some s'"
  shows "tid_work s' < tid_work s"
proof -
  have k': "k < length (tid_pcs s)" and p: "pc_ok (int k + 1) (tid_pcs s ! k)" using inv k by (auto simp: tid_inv_def)
  note less = sum_list_update_less [OF k', where f = pc_work]
  from st show ?thesis
    by (cases rule: tid_function_cases) (use p less in \<open>auto simp: tid_work_def pc_work_def pc_ok_def\<close>)
qed

lemma tid_main_work:
  assumes inv: "tid_inv s" and st: "tid_main_step ok s = Some s'"
  shows "tid_work s' < tid_work s"
proof (cases "tid_main s")
  case (Creating i)
  have "i < numberofthreads \<Longrightarrow> tid_pcs s ! i = Not_created \<and> i < length (tid_pcs s)" "i \<le> numberofthreads"
    using inv Creating by (auto simp: tid_inv_def created_def main_ok_def)
  then show ?thesis using st Creating sum_list_update_less [of i "tid_pcs s" pc_work Created]
    by (auto simp: tid_main_step_def tid_work_def pc_work_def numberofthreads_def Let_def split: if_splits)
next
  case (Joining i)
  then show ?thesis using assms
    by (auto simp: tid_main_step_def tid_work_def tid_inv_def main_ok_def numberofthreads_def split: if_splits)
qed (use st in \<open>simp_all add: tid_main_step_def\<close>)

lemma tid_progress: "tid_inv s \<Longrightarrow> \<not> tid_ended s \<Longrightarrow> \<exists>s'. tid_step ok s s'"
proof -
  assume inv: "tid_inv s" and live: "\<not> tid_ended s"
  show ?thesis
  proof (cases "tid_main_step ok s")
    case None
    then obtain i where i: "i < numberofthreads" "tid_main s = Joining i" "tid_pcs s ! i \<noteq> Exited"
      using live by (auto simp: tid_main_step_def tid_ended_def not_le split: tid_main.splits if_splits)
    have "tid_pcs s ! i \<noteq> Not_created" using inv i by (auto simp: tid_inv_def created_def)
    then obtain s' where "tid_function i s = Some s'" using i(3) by (cases "tid_pcs s ! i") (auto simp: tid_function_def)
    then show ?thesis using i(1) live by (auto simp: tid_step_def)
  next
    case (Some s')
    then show ?thesis using live by (auto simp: tid_step_def)
  qed
qed

interpretation tid: thread_runs "tid_step ok" tid_inv tid_ended tid_work for ok
proof
  show "tid_inv s \<Longrightarrow> tid_step ok s s' \<Longrightarrow> tid_inv s'" for s s'
    unfolding tid_step_def using tid_main_inv tid_function_inv by blast
  show "tid_inv s \<Longrightarrow> \<not> tid_ended s \<Longrightarrow> \<exists>s'. tid_step ok s s'" for s by (rule tid_progress)
  show "tid_inv s \<Longrightarrow> tid_step ok s s' \<Longrightarrow> tid_work s' < tid_work s" for s s'
    unfolding tid_step_def using tid_main_work tid_function_work by blast
qed

lemma tid_start_inv: "length junk = numberofthreads \<Longrightarrow> tid_inv (tid_start junk)"
  by (simp add: tid_inv_def tid_start_def main_ok_def created_def pc_ok_def pc_lines_def)

text \<open>Every run of the program that prints thread numbers is finite, and one that has ended with all calls of \<open>pthread_create\<close>
  successful has printed the lines of each thread in their order, with the number of the thread, and then a last line: each thread reads the
  number from its own place of the array, so that the numbers cannot be confused however the threads are scheduled.\<close>

theorem tid_run_prints:
  assumes "length junk = numberofthreads" and "(tid_step ok ^^ n) (tid_start junk) s"
  shows "n \<le> tid_work (tid_start junk) \<and> (tid_main s = Completed \<longrightarrow>
    (\<exists>ls. tid_lines s = ls @ [All_completed] \<and> All_completed \<notin> set ls \<and>
      (\<forall>k<numberofthreads. filter (printed_by (int k + 1)) ls = thread_lines (int k + 1))))"
proof -
  have inv: "tid_inv s" using tid.run_inv [OF assms(2)] tid_start_inv assms(1) by simp
  moreover have "n \<le> tid_work (tid_start junk)" using tid.run_length [OF assms(2)] tid_start_inv assms(1) by simp
  moreover have "\<exists>ls. tid_lines s = ls @ [All_completed] \<and> All_completed \<notin> set ls \<and>
      (\<forall>k<numberofthreads. filter (printed_by (int k + 1)) ls = thread_lines (int k + 1))" if "tid_main s = Completed"
    using inv that unfolding tid_inv_def main_ok_def by (fastforce simp: pc_lines_def)
  ultimately show ?thesis by blast
qed

section \<open>The timer and the file\<close>

lemma sched_loop_numbers: "sched_loop st c alarms = concat (map (\<lambda>(i, now). [Timer_fired (c + 1 + int i) (elapsed st now), Performing_task])
   (zip [0..<length alarms] alarms))"
proof (induction alarms arbitrary: c)
  case (Cons now alarms)
  have "zip [0..<length (now # alarms)] (now # alarms) = (0, now) # map (apfst Suc) (zip [0..<length alarms] alarms)"
    by (simp add: upt_conv_Cons map_Suc_upt [symmetric] zip_map1 apfst_def map_prod_def del: upt_Suc)
  then show ?case by (simp add: timer_handler_def Cons.IH comp_def case_prod_beta algebra_simps del: upt_Suc)
qed simp

text \<open>The scheduler numbers the signals from 1 on and shows the time since its start.\<close>

lemma sched_main_numbers:
  "sched_main True st alarms = [Scheduler_started, Every_2_seconds] @
     concat (map (\<lambda>(i, now). [Timer_fired (int i + 1) (elapsed st now), Performing_task]) (zip [0..<length alarms] alarms))"
  by (simp add: sched_main_def sched_loop_numbers add.commute)

text \<open>The file is created when it was not there, its contents are kept and every descriptor is closed.\<close>

lemma ebpf_loop_keeps: "ebpf_loop oks (Some c, n) = (if list_all id oks then 0 else 1, Some c, n)"
  by (induction oks) (simp_all add: demo_open_def)

lemma ebpf_main_creates:
  "ebpf_main ok f = (if \<forall>i<5. ok i then 0 else 1, if ok 0 then Some (case f of None \<Rightarrow> [] | Some c \<Rightarrow> c) else f, 0)"
proof -
  have "list_all id (map ok [1..<5]) \<longleftrightarrow> (\<forall>i\<in>{1..<5}. ok i)" by (simp add: list_all_iff)
  moreover have "(\<forall>i<5. ok i) \<longleftrightarrow> ok 0 \<and> (\<forall>i\<in>{1..<5}. ok i)" by (auto simp: Suc_le_eq)
  moreover have "[0..<5] = 0 # [1..<5]" by (simp add: upt_conv_Cons)
  ultimately show ?thesis unfolding ebpf_main_def by (simp add: demo_open_def ebpf_loop_keeps del: upt.simps)
qed

end
