(* ===== verification/Spec2Isabelle.thy ===== *)
theory Spec2Isabelle
  imports RB_Programs Mvcc_Threads Page_Cache_Props KV_Threads Hash_Map FS_Cache_Inv WAL_Demo
    Futex_Queue Cond_Buffer File_Copy Memory_Log Select_Servers Record_Query Text_Scan Expr_Eval
    Shared_Counters Fifo_Transfer Mq_Chat Copy_Syscalls Uring_IO Mini_Shell Proc_Module Dir_Stat Mini_Server Job_Control Student_Records Sql_Program Flex_Input Small_Programs
begin

text \<open>
  \<^bold>\<open>Verification of the programs of the Genspark-Training repository.\<close>

  The repository holds about forty C programs, most of one or two files: data structures, an in-memory database, key-value,
  chat and echo servers with their clients, programs about files, processes, signals and threads, and a small SQL front end
  generated by flex and bison. The programs do not share code; servers and clients interact through their protocols,
  threads through shared memory. Each program is modelled function by function, from its \<open>main\<close> down, and the properties
  are about whole runs wherever the program allows it.

  \<^bold>\<open>Conventions.\<close>
  \<^item> Pointers are \<open>ptr\<close>, a number or \<open>None\<close>, into an explicit heap where the program links nodes (\<open>RB_Heap\<close>, \<open>FS_Cache\<close>, \<open>Memory_Log\<close>).
    Following a null or freed pointer, or an access outside an array, is \<open>None\<close> or an error value, so that a result \<open>Some\<close> says that
    no such access happened.
  \<^item> \<open>int\<close> is a bounded integer with the wrap-around or the undefined overflow written out where it can be reached
    (\<open>Expr_Eval\<close>, \<open>Student_Records\<close>, \<open>Sql_Lexer\<close>, the hash functions, which use words); elsewhere a text says which inputs this is about.
    \<open>float\<close> is rounded as IEEE single precision (\<open>C_Float\<close>).
  \<^item> Loops that end are \<open>fun\<close> or \<open>function\<close> with a termination proof; a loop that may not end is a \<open>partial_function (option)\<close>, and that it
    returns is proved (\<open>fs_cleanup\<close>, \<open>yyrun\<close>, \<open>flex_run\<close>, \<open>yy_grow\<close>). Fuel is used twice: in \<open>yy_goto\<close>, with the bound 3, as a default state
    of the scanner's tables has the jam state as its default, so that three rows of the tables are enough (\<open>goto_plain\<close>, \<open>goto_id\<close>), and in
    \<open>destroy_loop\<close>, with the capacity of the stack, which is shown to be enough (\<open>yylex_destroy_frees_top\<close>).
  \<^item> Threads and processes are step functions on a record of the shared state; a run is a sequence of steps in any order, an
    atomic operation or a section under a lock is one step, and a plain read and write are two. Where a property needs that certain
    steps do not come together, this is a hypothesis of the theorem, and a theorem beside it has a run that breaks it
    (\<open>settled\<close> and \<open>commit_timestamp_race\<close>, \<open>calls_apart\<close> and \<open>modular_server_race\<close>).
  \<^item> The results of system calls (\<open>read\<close>, \<open>write\<close>, \<open>accept\<close>, \<open>fork\<close>, \<open>malloc\<close>, \<open>select\<close> and so on) are arguments: lists or functions that give
    the outcome of each call, short transfers and failures included. \<open>qsort\<close> is a parameter with its documented contract.

  \<^bold>\<open>Theories, programs and what is shown.\<close>
  \<^item> \<open>GT_Prelude\<close>, \<open>C_Strings\<close>, \<open>C_Scan\<close>, \<open>C_Input\<close>, \<open>C_Float\<close>, \<open>Thread_Runs\<close>: the shared lemmas; C strings, \<open>scanf\<close>, \<open>strtok\<close> and floats as the
    programs use them; the locale \<open>thread_runs\<close>, from which finite runs and progress of thread programs follow.
  \<^item> \<open>RB_Heap\<close>, \<open>RB_Zipper\<close>, \<open>RB_Refine\<close>, \<open>RB_Programs\<close> (\<^verbatim>\<open>RD-Black-tree-1.c\<close>, \<^verbatim>\<open>R-Blacktree-file-2.c\<close>): insertion with parent pointers refines
    insertion into a tree given by a path (zipper); the order of the keys and, except for the inner case, which the code
    gets wrong, the red-black invariants are kept; the program on \<^verbatim>\<open>data.txt\<close> prints its integers in order. The locale
    \<open>rb_rotations\<close> carries both copies of the code, with and without the rotation counter.
  \<^item> \<open>Mvcc\<close>, \<open>Mvcc_Inv\<close>, \<open>Mvcc_Deadlock\<close>, \<open>Mvcc_Steps\<close>, \<open>Mvcc_Threads\<close> (\<^verbatim>\<open>mvcc-in-memory-key-value.c\<close>): transactions with snapshots, locks
    and a wait-for graph; the depth-first search finds exactly the cycles. In \<open>Mvcc_Steps\<close> the operations run one after the other, as \<open>main\<close>
    calls them: version chains partition time, commits refine an update of timelines, writers exclude each other. In \<open>Mvcc_Threads\<close> each
    transaction has a thread and the sections of their operations interleave; the invariant then holds up to the edges of the graph,
    which has a cycle from the section that closes it until the cleanup. The reads of a transaction are repeatable
    when no commit that drew its timestamp before the transaction began still has to install its versions.
  \<^item> \<open>Page_Cache\<close>, \<open>Page_Cache_Props\<close> (\<^verbatim>\<open>page_cache_simulator.c\<close>): LRU refines a recency list, the clock hand returns, ARC keeps its invariants.
  \<^item> \<open>KV_Store\<close>, \<open>KV_Server\<close>, \<open>KV_Threads\<close> (\<^verbatim>\<open>key-value\<close>, \<^verbatim>\<open>mini-key-value\<close>, \<^verbatim>\<open>Modularize Key-Value\<close>): the stores satisfy the contracts \<open>kv_map\<close> and
    \<open>kv_bounded\<close>; the server that takes one command per connection answers as a bounded finite map. The threaded server over the unlocked library
    interleaves at the calls of the threads; it is linearizable over the map in all runs in which calls into the library do
    not overlap each other or the write of a reply.
  \<^item> \<open>Hash_Map\<close> (\<^verbatim>\<open>pthread-hash-map.c\<close>): the buckets refine \<open>kv_map\<close>; each worker prints its insertions and finds what it inserted in every interleaving.
  \<^item> \<open>FS_Cache\<close>, \<open>FS_Cache_Inv\<close> (\<^verbatim>\<open>filesystem.c\<close>): one \<open>next\<close> field links two lists; for keys that fit no bad pointer is followed,
    every node is freed, and every buffer is given back but those of blocks whose node could not be allocated.
  \<^item> \<open>WAL_Demo\<close> (\<^verbatim>\<open>WAL-demo.c\<close>), \<open>Memory_Log\<close> (\<^verbatim>\<open>memorylog.c\<close>), \<open>Student_Records\<close> (\<^verbatim>\<open>student.c\<close>), \<open>Expr_Eval\<close> (\<^verbatim>\<open>expression_evaluator.c\<close>), \<open>Record_Query\<close>
    (\<^verbatim>\<open>filtering.c\<close>, \<^verbatim>\<open>qee.c\<close>), \<open>Text_Scan\<close> (\<^verbatim>\<open>task-word-count-pthread.c\<close>, \<^verbatim>\<open>Mmap-file-search.c\<close>): invariants of whole sessions, agreement
    with reference definitions, and exact results. In \<open>Memory_Log\<close> a bad \<open>free\<close> and the use of a failed allocation are told apart.
  \<^item> \<open>Futex_Queue\<close> (\<^verbatim>\<open>bounded-producer-consumer-queue.c\<close>), \<open>Cond_Buffer\<close> (\<^verbatim>\<open>threads-buffer-w-p&c.c\<close>), \<open>Shared_Counters\<close> (\<^verbatim>\<open>shm-counter.c\<close>,
    \<^verbatim>\<open>atomic-vs-mutex.c\<close>), \<open>Small_Programs\<close> (\<^verbatim>\<open>threads-id.c\<close>, \<^verbatim>\<open>scheduler.c\<close>, \<^verbatim>\<open>ebpf/ebpf11.c\<close>): order and completeness of what is consumed, and
    the end of all runs.
  \<^item> \<open>File_Copy\<close>, \<open>Copy_Syscalls\<close>, \<open>Uring_IO\<close>, \<open>Fifo_Transfer\<close> (\<^verbatim>\<open>file-copy.c\<close>, \<^verbatim>\<open>fille-copy-syscalls.c\<close>, the io_uring and direct-write programs,
    \<^verbatim>\<open>file-transfer\<close>): what is in the destination for every pattern of short reads, short writes and failures, and in \<open>Uring_IO\<close> for every order in which
    the kernel delivers completions.
  \<^item> \<open>Select_Servers\<close>, \<open>Mini_Server\<close>, \<open>Mq_Chat\<close> (the chat and echo servers and clients, \<^verbatim>\<open>miniserver\<close>, \<^verbatim>\<open>chat-application\<close>): who receives which bytes.
  \<^item> \<open>Mini_Shell\<close>, \<open>Job_Control\<close>, \<open>Proc_Module\<close>, \<open>Dir_Stat\<close> (\<^verbatim>\<open>minishell.c\<close>, \<^verbatim>\<open>signal-based-job-controller.c\<close>, \<^verbatim>\<open>kernal-module\<close>, \<^verbatim>\<open>file-stat.c\<close>,
    \<^verbatim>\<open>multiple-simulated-q.c\<close>).
  \<^item> \<open>Sql_Parser\<close>, \<open>Sql_Lexer\<close>, \<open>Sql_Lexer_Props\<close>, \<open>Flex_Buffer\<close>, \<open>Flex_Refine\<close>, \<open>Sql_Program\<close> (\<^verbatim>\<open>sql-lexer-analysis\<close>): the tables and drivers that bison
    and flex generated. The parser is proved against the locale \<open>token_source\<close>, which says what a scanner promises, and accepts exactly the
    statements of the grammar; the blocks its actions allocate are large enough for what \<open>sprintf\<close> writes. The table-driven scanner over a string delivers the lexemes of the rules of \<^verbatim>\<open>sql_lexer.l\<close>; the scanner
    over its input buffer, refilled, moved and enlarged, implements it; both are interpretations of \<open>token_source\<close>, and the program
    over the buffer equals the program over the string.
  \<^item> \<open>Flex_Stack\<close>, \<open>Flex_Stack_Props\<close>, \<open>Flex_Input\<close> (\<^verbatim>\<open>lex.yy.c\<close>): the interface of the scanner that a client with include files or strings
    would use. The buffers, their blocks and the stack are an explicit store; whole sessions of calls refine a stack of strings, as
    no two live buffers share a block or a file. \<open>input\<close> and \<open>yyunput\<close> read and put back single characters.
  \<^item> This theory: a session of the key-value client with the threaded server and the loaded store, end to end.

  \<^bold>\<open>Not modelled.\<close> Times that programs measure and print, the texts of prompts, the layout of printed numbers, the debugging output of
  the parser, \<open>yyless\<close> and \<open>yyget_leng\<close>, which nothing uses, and read errors of the scanner.
  The \<open>malloc\<close> of a version in \<open>Mvcc\<close>, of a string in the parser's actions and of the scanner's buffers is taken to succeed. Positions in the scanner's buffer are
  unbounded, so that its theorems are about inputs below 2 GiB.
\<close>

section \<open>Programs together\<close>



end
